(* ===== verification/Prelude.thy ===== *)
theory Prelude
  imports Main "HOL-Library.Word" "HOL-Library.Monad_Syntax"
begin

text \<open>
  Shared ground of the mexOS development: the machine types of \<^verbatim>\<open>kernel/include/types.h\<close>, the
  byte-addressed memory with 32-bit little-endian accesses that the heap, the stacks and the page
  tables live in, loops over NULL-terminated linked lists, the contents of a circular buffer, and
  the bit-set arithmetic behind the allocation bitmaps.

  Conventions. A \<^verbatim>\<open>uint32_t\<close>, \<^verbatim>\<open>int\<close> or pointer of the 32-bit target is a \<^typ>\<open>32 word\<close>;
  signedness is explicit at the operation (\<open>sint\<close>). An operation that can follow a bad pointer or
  loop for ever has an \<open>option\<close> result, and \<^term>\<open>None\<close> stands for exactly these two outcomes.
\<close>

unbundle bit_operations_syntax

type_synonym u8 = "8 word"
type_synonym u16 = "16 word"
type_synonym u32 = "32 word"
type_synonym mem = "u32 \<Rightarrow> u8"

named_theorems mem_simps \<open>reads over writes of the byte-addressed memory\<close>
named_theorems chain_simps \<open>loops over linked lists in terms of the list of their nodes\<close>

declare upt_rec_numeral [simp del]

section \<open>Words\<close>

lemma unat_add_no_overflow:
  fixes a b :: "'a::len word"
  assumes "unat a + unat b < 2 ^ LENGTH('a)"
  shows "unat (a + b) = unat a + unat b"
  using assms by (simp add: unat_word_ariths)

lemma unat_sub_le:
  fixes a b :: "'a::len word"
  assumes "b \<le> a"
  shows "unat (a - b) = unat a - unat b"
  using assms by (simp add: unat_sub)

lemma unat_word_inj: "unat a = unat b \<Longrightarrow> a = b"
  by (rule unsigned_word_eqI)

lemma unat_of_nat_small: "n < 2 ^ LENGTH('a) \<Longrightarrow> unat (of_nat n :: 'a::len word) = n"
  by (simp add: unat_of_nat)

lemma sint_small:
  fixes w :: u32
  assumes "unat w < 2 ^ 31"
  shows "sint w = int (unat w)"
proof -
  have "int (unat w) < 2 ^ 31" using assms by (metis of_nat_less_iff of_nat_numeral of_nat_power)
  then have "uint w < 2 ^ 31" by (simp only: uint_nat)
  then have "signed_take_bit 31 (uint w) = uint w"
    by (intro signed_take_bit_int_eq_self) (simp_all add: order_trans [OF _ uint_ge_0])
  then show ?thesis by (simp add: sint_uint)
qed

lemma unat_of_nat_plus:
  fixes w :: "'a::len word"
  assumes "a + unat w < 2 ^ LENGTH('a)"
  shows "unat (of_nat a + w) = a + unat w"
proof -
  have "unat (of_nat a :: 'a word) = a" using assms by (intro unat_of_nat_small) simp
  then show ?thesis using assms unat_add_no_overflow [of "of_nat a" w] by simp
qed

lemma of_nat_word_inj:
  assumes "m < 2 ^ LENGTH('a)" and "n < 2 ^ LENGTH('a)"
  shows "(of_nat m = (of_nat n :: 'a::len word)) \<longleftrightarrow> m = n"
  using assms by (simp add: word_of_nat_eq_iff take_bit_nat_eq_self)

lemma of_nat_eq_0_small: "n < 2 ^ LENGTH('a) \<Longrightarrow> (of_nat n = (0 :: 'a::len word)) \<longleftrightarrow> n = 0"
  using of_nat_word_inj [of n 0, where 'a = 'a] by simp

text \<open>Clearing the low bits rounds down; \<open>n & (n - 1)\<close> is zero only for powers of two.\<close>

lemma unat_and_not_mask: "unat (w AND NOT (mask n)) = unat w - unat w mod 2 ^ n" for w :: "'a::len word"
proof -
  have p: "w AND NOT (mask n) = push_bit n (drop_bit n w)"
    by (rule bit_word_eqI) (auto simp: bit_simps)
  have "(w AND NOT (mask n)) + take_bit n w = w" unfolding p by (rule bits_ident)
  then have eq: "w AND NOT (mask n) = w - take_bit n w" by (metis add_diff_cancel_right')
  have t: "unat (take_bit n w) = unat w mod 2 ^ n"
    by (simp only: unsigned_take_bit_eq) (simp add: take_bit_eq_mod)
  then have "take_bit n w \<le> w" by (simp add: word_le_nat_alt)
  then show ?thesis unfolding eq by (simp add: unat_sub_le t)
qed

lemma nat_and_pred_zero:
  fixes n :: nat
  assumes "n AND (n - 1) = 0" and "0 < n"
  shows "\<exists>k. n = 2 ^ k"
  using assms
proof (induction n rule: less_induct)
  case (less n)
  show ?case
  proof (cases "even n")
    case True
    then obtain m where m: "n = 2 * m" by blast
    then have "0 < m" using less.prems by simp
    then have p: "n - 1 = 2 * (m - 1) + 1" using m by simp
    have "n AND (n - 1) = 2 * (m AND (m - 1))"
      unfolding p by (subst and_rec) (use m in simp)
    then have "m AND (m - 1) = 0" using less.prems(1) by simp
    then obtain k where "m = 2 ^ k" using less.IH [of m] m \<open>0 < m\<close> by auto
    then show ?thesis using m by (intro exI [of _ "Suc k"]) simp
  next
    case False
    then obtain m where m: "n = 2 * m + 1" by (metis oddE)
    have "n AND (n - 1) = 2 * m" using m by (subst and_rec) simp
    then show ?thesis using less.prems m by (intro exI [of _ 0]) simp
  qed
qed

lemma word_and_pred_zero:
  fixes w :: "'a::len word"
  assumes "w AND (w - 1) = 0" and "w \<noteq> 0"
  shows "\<exists>k. unat w = 2 ^ k \<and> w - 1 = mask k"
proof -
  have u: "unat (w - 1) = unat w - 1" using assms(2) by (simp add: unat_minus_one)
  have "unat w AND (unat w - 1) = 0"
    using arg_cong [OF assms(1), of unat] by (simp add: unsigned_and_eq u)
  moreover have "0 < unat w" using assms(2) by (simp add: unat_gt_0)
  ultimately obtain k where k: "unat w = 2 ^ k" using nat_and_pred_zero by blast
  have "(2 :: 'a word) ^ k = of_nat (unat w)" unfolding k by simp
  then have "w = 2 ^ k" by simp
  then show ?thesis using k by (simp add: mask_eq_exp_minus_1)
qed

section \<open>Byte-addressed memory\<close>

definition load32 :: "mem \<Rightarrow> u32 \<Rightarrow> u32" where
  "load32 m a = ucast (m a) OR push_bit 8 (ucast (m (a + 1)))
     OR push_bit 16 (ucast (m (a + 2))) OR push_bit 24 (ucast (m (a + 3)))"

definition store32 :: "u32 \<Rightarrow> u32 \<Rightarrow> mem \<Rightarrow> mem" where
  "store32 a v m = m(a := ucast v, a + 1 := ucast (drop_bit 8 v),
     a + 2 := ucast (drop_bit 16 v), a + 3 := ucast (drop_bit 24 v))"

text \<open>The bytes of a 32-bit access at \<open>a\<close>, and the alignment of an address.\<close>

definition span32 :: "u32 \<Rightarrow> u32 set" where
  "span32 a = {a, a + 1, a + 2, a + 3}"

definition aligned4 :: "u32 \<Rightarrow> bool" where
  "aligned4 a \<longleftrightarrow> a AND 3 = 0"

lemma load32_store32_same [simp, mem_simps]: "load32 (store32 a v m) a = v"
proof (rule bit_word_eqI)
  fix n assume "n < LENGTH(32)"
  then consider "n < 8" | "8 \<le> n \<and> n < 16" | "16 \<le> n \<and> n < 24" | "24 \<le> n \<and> n < 32"
    by fastforce
  then show "bit (load32 (store32 a v m) a) n = bit v n"
    by cases (auto simp: load32_def store32_def bit_simps)
qed

lemma load32_store32_other [mem_simps]:
  "span32 a \<inter> span32 b = {} \<Longrightarrow> load32 (store32 b v m) a = load32 m a"
  by (auto simp: load32_def store32_def span32_def)

lemma store32_byte_other [mem_simps]: "x \<notin> span32 a \<Longrightarrow> store32 a v m x = m x"
  by (auto simp: store32_def span32_def)

lemma load32_cong: "(\<And>x. x \<in> span32 a \<Longrightarrow> m x = m' x) \<Longrightarrow> load32 m a = load32 m' a"
  by (simp add: load32_def span32_def)

lemma word_quad_inj:
  fixes k l c d :: u32
  assumes "4 * k + c = 4 * l + d" and "unat k < 2 ^ 29" and "unat l < 2 ^ 29"
    and "unat c < 4" and "unat d < 4"
  shows "k = l"
proof -
  have q: "unat (4 * x + y) = 4 * unat x + unat y" if "unat x < 2 ^ 29" and "unat y < 4" for x y :: u32
    using that by (simp add: unat_word_ariths)
  have "4 * unat k + unat c = 4 * unat l + unat d"
    using assms q [of k c] q [of l d] by simp
  then have "unat k = unat l" using assms(4,5) by arith
  then show ?thesis by (rule unat_word_inj)
qed

text \<open>Distinct elements of a \<^verbatim>\<open>uint32_t\<close> array do not overlap.\<close>

lemma span32_array:
  fixes b k l :: u32
  assumes "k \<noteq> l" and "unat k < 2 ^ 29" and "unat l < 2 ^ 29"
  shows "span32 (b + 4 * k) \<inter> span32 (b + 4 * l) = {}"
proof (rule ccontr)
  assume "\<not> ?thesis"
  then obtain x where x: "x \<in> span32 (b + 4 * k)" "x \<in> span32 (b + 4 * l)" by blast
  have ex: "\<exists>c \<in> {0, 1, 2, 3}. x = a + c" if "x \<in> span32 a" for a
    using that by (auto simp: span32_def)
  from ex [OF x(1)] ex [OF x(2)] obtain c d :: u32
    where cd: "c \<in> {0, 1, 2, 3}" "d \<in> {0, 1, 2, 3}" and "b + 4 * k + c = b + 4 * l + d" by metis
  then have "4 * k + c = 4 * l + d" by (simp add: add.assoc)
  moreover have "unat c < 4" "unat d < 4" using cd by auto
  ultimately show False using word_quad_inj assms by blast
qed

section \<open>Loops with an early return\<close>

text \<open>The value of the first iteration that returns one: \<^verbatim>\<open>for (...) { if (...) return v; }\<close>.\<close>

primrec first_some :: "('a \<Rightarrow> 'b option) \<Rightarrow> 'a list \<Rightarrow> 'b option" where
  "first_some f [] = None"
| "first_some f (x # xs) = (case f x of None \<Rightarrow> first_some f xs | Some y \<Rightarrow> Some y)"

lemma first_some_None_iff: "first_some f xs = None \<longleftrightarrow> (\<forall>x\<in>set xs. f x = None)"
  by (induction xs) (auto split: option.splits)

lemma first_some_cong:
  "xs = ys \<Longrightarrow> (\<And>x. x \<in> set ys \<Longrightarrow> f x = g x) \<Longrightarrow> first_some f xs = first_some g ys"
proof (induction ys arbitrary: xs)
  case (Cons y ys)
  then show ?case by (auto split: option.splits)
qed simp

lemma first_some_upt_Some:
  assumes "first_some f [k..<n] = Some y"
  shows "\<exists>i. k \<le> i \<and> i < n \<and> f i = Some y \<and> (\<forall>j. k \<le> j \<and> j < i \<longrightarrow> f j = None)"
  using assms
proof (induction "n - k" arbitrary: k)
  case (Suc d)
  then have "k < n" by simp
  show ?case
  proof (cases "f k")
    case None
    then have "first_some f [Suc k..<n] = Some y"
      using Suc.prems \<open>k < n\<close> by (simp add: upt_conv_Cons)
    then obtain i where i: "Suc k \<le> i" "i < n" "f i = Some y" "\<forall>j. Suc k \<le> j \<and> j < i \<longrightarrow> f j = None"
      using Suc.hyps(1) [of "Suc k"] Suc.hyps(2) by (metis Suc_diff_Suc \<open>k < n\<close> diff_Suc_1)
    then have "\<forall>j. k \<le> j \<and> j < i \<longrightarrow> f j = None" using None by (metis Suc_leI le_neq_implies_less)
    then show ?thesis using i by (intro exI [of _ i]) auto
  next
    case (Some z)
    then show ?thesis using Suc.prems \<open>k < n\<close> by (auto simp: upt_conv_Cons)
  qed
qed simp

section \<open>Loops over linked lists\<close>

text \<open>
  \<open>chain nx p xs\<close>: the list that starts at pointer \<open>p\<close> and follows \<open>nx\<close> has exactly the nodes
  \<open>xs\<close> and ends in NULL. \<open>nx\<close> is \<^term>\<open>None\<close> at an address that holds no node, so a walk that
  dereferences a dangling pointer does not return a value. The loops of the kernel,
  \<^verbatim>\<open>while (p) { ...; p = p->next; }\<close>, are the functions \<open>chain_find\<close> (return at the first hit),
  \<open>chain_find_prev\<close> (the same with a trailing pointer) and \<open>chain_fold\<close> (visit every node).
\<close>

primrec chain :: "('a::zero \<Rightarrow> 'a option) \<Rightarrow> 'a \<Rightarrow> 'a list \<Rightarrow> bool" where
  "chain nx p [] \<longleftrightarrow> p = 0"
| "chain nx p (x # xs) \<longleftrightarrow> p = x \<and> x \<noteq> 0 \<and> (\<exists>q. nx x = Some q \<and> chain nx q xs)"

partial_function (option) chain_find ::
    "('a::zero \<Rightarrow> 'a option) \<Rightarrow> ('a \<Rightarrow> bool) \<Rightarrow> 'a \<Rightarrow> 'a option" where
  "chain_find nx P p =
     (if p = 0 then Some 0
      else case nx p of None \<Rightarrow> None
           | Some q \<Rightarrow> if P p then Some p else chain_find nx P q)"

partial_function (option) chain_find_prev ::
    "('a::zero \<Rightarrow> 'a option) \<Rightarrow> ('a \<Rightarrow> bool) \<Rightarrow> 'a \<Rightarrow> 'a \<Rightarrow> ('a \<times> 'a) option" where
  "chain_find_prev nx P prev p =
     (if p = 0 then Some (prev, 0)
      else case nx p of None \<Rightarrow> None
           | Some q \<Rightarrow> if P p then Some (prev, p) else chain_find_prev nx P p q)"

partial_function (option) chain_fold ::
    "('a::zero \<Rightarrow> 'a option) \<Rightarrow> ('a \<Rightarrow> 's \<Rightarrow> 's) \<Rightarrow> 'a \<Rightarrow> 's \<Rightarrow> 's option" where
  "chain_fold nx f p acc =
     (if p = 0 then Some acc
      else case nx p of None \<Rightarrow> None | Some q \<Rightarrow> chain_fold nx f q (f p acc))"

lemma chain_0 [simp]: "chain nx 0 xs \<longleftrightarrow> xs = []"
  by (cases xs) auto

lemma chain_nonzero: "chain nx p xs \<Longrightarrow> 0 \<notin> set xs"
  by (induction xs arbitrary: p) auto

lemma chain_unique: "chain nx p xs \<Longrightarrow> chain nx p ys \<Longrightarrow> xs = ys"
proof (induction xs arbitrary: p ys)
  case (Cons x xs)
  then show ?case by (cases ys) auto
qed simp

lemma chain_append:
  "chain nx p (xs @ ys) \<Longrightarrow> \<exists>q. chain nx q ys"
  by (induction xs arbitrary: p) auto

lemma chain_suffix:
  "chain nx p (xs @ x # ys) \<Longrightarrow> chain nx x (x # ys)"
  by (induction xs arbitrary: p) auto

lemma chain_distinct: "chain nx p xs \<Longrightarrow> distinct xs"
proof (induction xs arbitrary: p)
  case (Cons x xs)
  then obtain q where q: "nx x = Some q" "chain nx q xs" by auto
  have "x \<notin> set xs"
  proof
    assume "x \<in> set xs"
    then obtain as bs where "xs = as @ x # bs" by (meson split_list)
    then have "chain nx x (x # bs)" using q chain_suffix by metis
    moreover have "chain nx x (x # xs)" using Cons.prems by auto
    ultimately have "bs = xs" using chain_unique by blast
    then show False using \<open>xs = as @ x # bs\<close> by (metis append_eq_Cons_conv length_append
      length_Cons not_add_less2 lessI less_irrefl linorder_neqE_nat add_Suc_right le_add2 not_less_eq_eq)
  qed
  then show ?case using Cons q by auto
qed simp

lemma chain_cong:
  "chain nx p xs \<Longrightarrow> (\<And>x. x \<in> set xs \<Longrightarrow> nx' x = nx x) \<Longrightarrow> chain nx' p xs"
  by (induction xs arbitrary: p) auto

lemma chain_find_chain [chain_simps]:
  "chain nx p xs \<Longrightarrow>
   chain_find nx P p = Some (case List.find P xs of None \<Rightarrow> 0 | Some x \<Rightarrow> x)"
  by (induction xs arbitrary: p) (auto simp: chain_find.simps)

lemma chain_fold_chain [chain_simps]:
  "chain nx p xs \<Longrightarrow> chain_fold nx f p acc = Some (fold f xs acc)"
  by (induction xs arbitrary: p acc) (auto simp: chain_fold.simps)

lemma chain_find_prev_none:
  "chain nx p xs \<Longrightarrow> \<forall>x\<in>set xs. \<not> P x \<Longrightarrow>
   chain_find_prev nx P prev p = Some (last (prev # xs), 0)"
  by (induction xs arbitrary: p prev) (auto simp: chain_find_prev.simps)

lemma chain_find_prev_hit:
  "chain nx p (xs @ x # ys) \<Longrightarrow> \<forall>y\<in>set xs. \<not> P y \<Longrightarrow> P x \<Longrightarrow>
   chain_find_prev nx P prev p = Some (last (prev # xs), x)"
  by (induction xs arbitrary: p prev) (auto simp: chain_find_prev.simps)

lemma chain_unlink:
  assumes "chain nx p (xs @ x # ys)" and "xs \<noteq> []" and "nx x = Some q"
    and "\<And>y. y \<in> set (xs @ ys) \<Longrightarrow> y \<noteq> last xs \<Longrightarrow> nx' y = nx y" and "nx' (last xs) = Some q"
  shows "chain nx' p (xs @ ys)"
  using assms
proof (induction xs arbitrary: p)
  case (Cons y zs)
  have d: "distinct (y # zs @ x # ys)" using chain_distinct [OF Cons.prems(1)] by simp
  have tail: "chain nx q ys" if "chain nx x (x # ys)"
    using that Cons.prems(3) by auto
  show ?case
  proof (cases "zs = []")
    case True
    then have "chain nx q ys" using Cons.prems(1,3) by auto
    then have "chain nx' q ys"
      by (rule chain_cong) (use Cons.prems(4) d True in auto)
    then show ?thesis using Cons.prems True by auto
  next
    case False
    then obtain r where r: "nx y = Some r" "chain nx r (zs @ x # ys)" using Cons.prems(1) by auto
    have "chain nx' r (zs @ ys)"
      by (rule Cons.IH) (use r False Cons.prems in auto)
    moreover have "y \<noteq> last zs" using d False by auto
    ultimately show ?thesis using Cons.prems r False by auto
  qed
qed simp

section \<open>Circular buffers\<close>

text \<open>
  The elements of a circular buffer between \<open>head\<close> (next to read) and \<open>tail\<close> (next to write),
  oldest first. One slot stays empty: \<open>head = tail\<close> is the empty buffer.
\<close>

definition ring_contents :: "'a list \<Rightarrow> nat \<Rightarrow> nat \<Rightarrow> 'a list" where
  "ring_contents buf head tail =
     map (\<lambda>i. buf ! ((head + i) mod length buf)) [0..<(tail + length buf - head) mod length buf]"

lemma ring_distance:
  "head < n \<Longrightarrow> tail < n \<Longrightarrow>
   (tail + n - head) mod n = (if head \<le> tail then tail - head else tail + n - head)" for n :: nat
  by (simp add: le_mod_geq)

lemma mod_wrap:
  "i < n \<Longrightarrow> j \<le> n \<Longrightarrow> (i + j) mod n = (if i + j < n then i + j else i + j - n)" for n :: nat
  by (simp add: le_mod_geq)

lemma Suc_mod_wrap: "i < n \<Longrightarrow> Suc i mod n = (if Suc i = n then 0 else Suc i)"
  by auto

lemmas ring_arith = ring_distance mod_wrap Suc_mod_wrap

lemma ring_length:
  "length (ring_contents buf head tail) = (tail + length buf - head) mod length buf"
  by (simp add: ring_contents_def)

lemma ring_empty_iff:
  assumes "head < length buf" and "tail < length buf"
  shows "ring_contents buf head tail = [] \<longleftrightarrow> head = tail"
  using assms by (auto simp: ring_contents_def ring_distance)

lemma ring_full_iff:
  assumes "head < length buf" and "tail < length buf"
  shows "Suc tail mod length buf = head \<longleftrightarrow>
    length (ring_contents buf head tail) = length buf - 1"
  using assms by (auto simp: ring_length ring_distance Suc_mod_wrap)

lemma ring_enqueue:
  assumes "head < length buf" and "tail < length buf" and "Suc tail mod length buf \<noteq> head"
  shows "ring_contents (buf[tail := x]) head (Suc tail mod length buf)
    = ring_contents buf head tail @ [x]"
proof -
  define n where "n = length buf"
  define k where "k = (if head \<le> tail then tail - head else tail + n - head)"
  have b: "head < n" "tail < n" "Suc tail mod n \<noteq> head" using assms by (auto simp: n_def)
  have k: "(tail + n - head) mod n = k" using b by (simp add: k_def ring_distance)
  have k_lt: "k < n" using b by (auto simp: k_def)
  have len: "(Suc tail mod n + n - head) mod n = Suc k"
    using b by (auto simp: k_def ring_distance Suc_mod_wrap)
  have last: "(head + k) mod n = tail"
    using b by (auto simp: k_def mod_wrap)
  have other: "tail \<noteq> (head + i) mod n" if "i < k" for i
    using b k_lt that by (auto simp: mod_wrap k_def split: if_splits)
  show ?thesis
    using b other by (auto simp: ring_contents_def len last k n_def [symmetric])
qed

lemma ring_dequeue:
  assumes "head < length buf" and "tail < length buf" and "head \<noteq> tail"
  shows "ring_contents buf head tail = buf ! head # ring_contents buf (Suc head mod length buf) tail"
proof -
  define n where "n = length buf"
  define k where "k = (tail + n - Suc head mod n) mod n"
  have b: "head < n" "tail < n" "head \<noteq> tail" using assms by (auto simp: n_def)
  have len: "(tail + n - head) mod n = Suc k"
    using b by (auto simp: k_def ring_distance Suc_mod_wrap)
  have shift: "(Suc head mod n + i) mod n = (head + Suc i) mod n" for i
    by (simp add: mod_add_left_eq)
  have "map f [0..<Suc k] = f 0 # map (\<lambda>i. f (Suc i)) [0..<k]" for f :: "nat \<Rightarrow> 'a"
    by (simp add: upt_conv_Cons map_Suc_upt [symmetric] del: upt_Suc)
  then show ?thesis
    unfolding ring_contents_def n_def [symmetric] len k_def [symmetric] shift
    using b by (simp del: upt_Suc)
qed

section \<open>Counting the used entries of a table\<close>

text \<open>How many of the indices below \<open>n\<close> satisfy \<open>f\<close>: the quantity the used-block counters track.\<close>

definition count_below :: "nat \<Rightarrow> (nat \<Rightarrow> bool) \<Rightarrow> nat" where
  "count_below n f = card {i. i < n \<and> f i}"

lemma count_below_le: "count_below n f \<le> n"
proof -
  have "card {i. i < n \<and> f i} \<le> card {..<n}" by (intro card_mono) auto
  then show ?thesis by (simp add: count_below_def)
qed

lemma count_below_set:
  assumes "i < n" and "\<not> f i"
  shows "count_below n (f(i := True)) = Suc (count_below n f)"
proof -
  have "{j. j < n \<and> (f(i := True)) j} = insert i {j. j < n \<and> f j}" using assms by auto
  then show ?thesis using assms by (simp add: count_below_def)
qed

lemma count_below_clear:
  assumes "i < n" and "f i"
  shows "Suc (count_below n (f(i := False))) = count_below n f"
proof -
  have "count_below n ((f(i := False))(i := True)) = Suc (count_below n (f(i := False)))"
    using assms by (intro count_below_set) auto
  moreover have "(f(i := False))(i := True) = f" using assms by (simp add: fun_eq_iff)
  ultimately show ?thesis by simp
qed

lemma count_below_full: "count_below n f = n \<longleftrightarrow> (\<forall>i<n. f i)"
proof
  assume "count_below n f = n"
  then have "card {i. i < n \<and> f i} = card {..<n}" by (simp add: count_below_def)
  then have "{i. i < n \<and> f i} = {..<n}"
    by (intro card_subset_eq) auto
  then show "\<forall>i<n. f i" by auto
next
  assume "\<forall>i<n. f i"
  then have "{i. i < n \<and> f i} = {..<n}" by auto
  then show "count_below n f = n" by (simp add: count_below_def)
qed

lemma count_below_cong: "(\<And>i. i < n \<Longrightarrow> f i = g i) \<Longrightarrow> count_below n f = count_below n g"
  unfolding count_below_def by (rule arg_cong [where f = card]) auto

end
