(* ===== verification/Kstring.thy ===== *)
theory Kstring
  imports Prelude "HOL-Library.Signed_Division" "HOL-Library.Char_ord"
begin

text \<open>
  \<^verbatim>\<open>kernel/lib/string.c\<close>. The memory routines and the C string routines work on the byte-addressed
  memory and on pointers, loop by loop as in the source; the routines that return their first
  argument return here the memory they leave. The number formatters fill a character array, which
  is modelled by the string it holds. The lemmas relate every routine to its meaning on abstract
  strings (\<open>cstr m p s\<close>: the NUL-terminated array at \<open>p\<close> holds \<open>s\<close>).
\<close>

section \<open>Memory routines\<close>

text \<open>\<^verbatim>\<open>while (len--) *d++ = v\<close>\<close>

primrec mem_fill :: "nat \<Rightarrow> u32 \<Rightarrow> u8 \<Rightarrow> mem \<Rightarrow> mem" where
  "mem_fill 0 d v m = m"
| "mem_fill (Suc n) d v m = mem_fill n (d + 1) v (m(d := v))"

definition memset :: "u32 \<Rightarrow> u32 \<Rightarrow> u32 \<Rightarrow> mem \<Rightarrow> mem" where
  "memset dest val len m = mem_fill (unat len) dest (ucast val) m"

primrec mem_copy :: "nat \<Rightarrow> u32 \<Rightarrow> u32 \<Rightarrow> mem \<Rightarrow> mem" where
  "mem_copy 0 d s m = m"
| "mem_copy (Suc n) d s m = mem_copy n (d + 1) (s + 1) (m(d := m s))"

definition memcpy :: "u32 \<Rightarrow> u32 \<Rightarrow> u32 \<Rightarrow> mem \<Rightarrow> mem" where
  "memcpy dest src len m = mem_copy (unat len) dest src m"

primrec mem_compare :: "nat \<Rightarrow> u32 \<Rightarrow> u32 \<Rightarrow> mem \<Rightarrow> int" where
  "mem_compare 0 p1 p2 m = 0"
| "mem_compare (Suc n) p1 p2 m =
     (if m p1 \<noteq> m p2 then uint (m p1) - uint (m p2) else mem_compare n (p1 + 1) (p2 + 1) m)"

definition memcmp :: "u32 \<Rightarrow> u32 \<Rightarrow> u32 \<Rightarrow> mem \<Rightarrow> int" where
  "memcmp s1 s2 len m = mem_compare (unat len) s1 s2 m"

section \<open>C strings\<close>

partial_function (option) strlen_from :: "mem \<Rightarrow> u32 \<Rightarrow> u32 \<Rightarrow> u32 option" where
  "strlen_from m str len = (if m (str + len) \<noteq> 0 then strlen_from m str (len + 1) else Some len)"

definition strlen :: "mem \<Rightarrow> u32 \<Rightarrow> u32 option" where
  "strlen m str = strlen_from m str 0"

partial_function (option) strcmp :: "mem \<Rightarrow> u32 \<Rightarrow> u32 \<Rightarrow> int option" where
  "strcmp m s1 s2 =
     (if m s1 \<noteq> 0 \<and> m s1 = m s2 then strcmp m (s1 + 1) (s2 + 1)
      else Some (uint (m s1) - uint (m s2)))"

primrec strncmp_loop :: "nat \<Rightarrow> mem \<Rightarrow> u32 \<Rightarrow> u32 \<Rightarrow> int" where
  "strncmp_loop 0 m s1 s2 = 0"
| "strncmp_loop (Suc n) m s1 s2 =
     (if m s1 \<noteq> 0 \<and> m s1 = m s2 then strncmp_loop n m (s1 + 1) (s2 + 1)
      else uint (m s1) - uint (m s2))"

definition strncmp :: "mem \<Rightarrow> u32 \<Rightarrow> u32 \<Rightarrow> u32 \<Rightarrow> int" where
  "strncmp m s1 s2 n = strncmp_loop (unat n) m s1 s2"

text \<open>\<^verbatim>\<open>while ((*d++ = *src++)) {}\<close>\<close>

partial_function (option) strcpy :: "u32 \<Rightarrow> u32 \<Rightarrow> mem \<Rightarrow> mem option" where
  "strcpy d s m =
     (let m' = m(d := m s) in if m s \<noteq> 0 then strcpy (d + 1) (s + 1) m' else Some m')"

text \<open>
  \<^verbatim>\<open>while (n && (*d++ = *src++)) n--;\<close> yields the remaining count, the advanced \<open>d\<close> and the memory.
  The iteration that copies the NUL advances \<open>d\<close> and leaves \<open>n\<close> as it is.
\<close>

primrec strn_copy :: "nat \<Rightarrow> u32 \<Rightarrow> u32 \<Rightarrow> mem \<Rightarrow> nat \<times> u32 \<times> mem" where
  "strn_copy 0 d s m = (0, d, m)"
| "strn_copy (Suc n) d s m =
     (let m' = m(d := m s) in
      if m s \<noteq> 0 then strn_copy n (d + 1) (s + 1) m' else (Suc n, d + 1, m'))"

definition strncpy :: "u32 \<Rightarrow> u32 \<Rightarrow> u32 \<Rightarrow> mem \<Rightarrow> mem" where
  "strncpy dest src n m = (let (k, d, m') = strn_copy (unat n) dest src m in mem_fill k d 0 m')"

definition strcat :: "u32 \<Rightarrow> u32 \<Rightarrow> mem \<Rightarrow> mem option" where
  "strcat dest src m = do { len \<leftarrow> strlen m dest; strcpy (dest + len) src m }"

definition strncat :: "u32 \<Rightarrow> u32 \<Rightarrow> u32 \<Rightarrow> mem \<Rightarrow> mem option" where
  "strncat dest src n m = do {
     len \<leftarrow> strlen m dest;
     let (k, d, m') = strn_copy (unat n) (dest + len) src m;
     Some (if k = 0 then m'(d := 0) else m') }"

section \<open>Number formatting\<close>

lemma abs_sdiv_less:
  fixes x b :: int
  assumes "\<not> b < 2" and "x sdiv b \<noteq> 0"
  shows "nat \<bar>x sdiv b\<bar> < nat \<bar>x\<bar>"
proof -
  have "x \<noteq> 0" using assms(2) by auto
  then have "\<bar>x\<bar> div b < \<bar>x\<bar>" using assms(1) by (intro int_div_less_self) auto
  moreover have "\<bar>x sdiv b\<bar> = \<bar>x\<bar> div b"
    using assms(1)
    by (auto simp: signed_divide_int_def abs_mult abs_sgn_eq pos_imp_zdiv_nonneg_iff)
  ultimately show ?thesis by simp
qed

definition digit_char :: "nat \<Rightarrow> char" where
  "digit_char k = ''0123456789ABCDEFGHIJKLMNOPQRSTUVWXYZ'' ! k"

text \<open>
  \<^verbatim>\<open>temp\<close> is filled low digit first: \<open>count\<close> is \<open>i\<close>, at most 11 characters are stored.
\<close>

fun pad_digits :: "int \<Rightarrow> nat \<Rightarrow> string" where
  "pad_digits value count =
     (if 0 < value \<and> count < 11
      then digit_char (nat (value mod 10)) # pad_digits (value div 10) (Suc count) else [])"

definition int_to_str_pad :: "int \<Rightarrow> int \<Rightarrow> string" where
  "int_to_str_pad value width =
     (let temp = (if value = 0 then ''0'' else pad_digits value 0);
          temp = temp @ replicate (nat (min width 11) - length temp) (CHR ''0'')
      in rev temp)"

primrec hex_fill :: "nat \<Rightarrow> u32 \<Rightarrow> string" where
  "hex_fill 0 value = []"
| "hex_fill (Suc w) value = hex_fill w (drop_bit 4 value) @ [digit_char (unat (value AND 15))]"

definition int_to_hex_pad :: "u32 \<Rightarrow> nat \<Rightarrow> string" where
  "int_to_hex_pad value width = hex_fill width value"

text \<open>
  The \<^verbatim>\<open>do ... while (value)\<close> loop of \<^verbatim>\<open>itoa\<close>: the digits low first. An index outside the table
  \<^verbatim>\<open>digits\<close> (a negative remainder) is \<^term>\<open>None\<close>.
\<close>

function itoa_digits :: "int \<Rightarrow> int \<Rightarrow> string option" where
  "itoa_digits base value =
     (let q = value sdiv base; r = value - q * base in
      if base < 2 \<or> r < 0 \<or> 36 \<le> r then None
      else if q = 0 then Some [digit_char (nat r)]
      else map_option ((#) (digit_char (nat r))) (itoa_digits base q))"
  by pat_completeness auto
termination
  by (relation "measure (\<lambda>(base, value). nat \<bar>value\<bar>)") (use abs_sdiv_less in auto)

text \<open>The in-place reversal \<^verbatim>\<open>while (ptr1 < ptr)\<close> on the characters stored so far.\<close>

function swap_ends :: "nat \<Rightarrow> nat \<Rightarrow> 'a list \<Rightarrow> 'a list" where
  "swap_ends i j xs =
     (if i < j then swap_ends (Suc i) (j - 1) (xs[j := xs ! i, i := xs ! j]) else xs)"
  by pat_completeness auto
termination
  by (relation "measure (\<lambda>(i, j, xs). j - i)") auto

text \<open>\<open>value = -value\<close> is the 32-bit negation, so \<open>INT_MIN\<close> stays negative.\<close>

definition itoa :: "u32 \<Rightarrow> int \<Rightarrow> string option" where
  "itoa value base =
     (if base < 2 \<or> 36 < base then Some []
      else do {
        let neg = (sint value < 0 \<and> base = 10);
        let v = (if neg then sint (- value) else sint value);
        ds \<leftarrow> itoa_digits base v;
        let buf = (if neg then ds @ ''-'' else ds);
        Some (swap_ends 0 (length buf - 1) buf) })"

section \<open>What the routines do\<close>

declare pad_digits.simps [simp del] itoa_digits.simps [simp del] swap_ends.simps [simp del]

lemma unat_minus_Suc: "x \<noteq> d \<Longrightarrow> unat (x - d) = Suc (unat (x - (d + 1)))" for x d :: u32
proof -
  assume "x \<noteq> d"
  then have "unat (x - d - 1) = unat (x - d) - 1" and "0 < unat (x - d)"
    by (auto simp: unat_minus_one unat_gt_0)
  then show ?thesis by (simp add: diff_diff_eq)
qed

lemma mem_fill_apply:
  "n \<le> 2 ^ 32 \<Longrightarrow> mem_fill n d v m x = (if unat (x - d) < n then v else m x)"
proof (induction n arbitrary: d m)
  case (Suc n)
  show ?case
  proof (cases "x = d")
    case True
    then show ?thesis using Suc by simp
  next
    case False
    then show ?thesis using Suc by (simp add: unat_minus_Suc)
  qed
qed simp

lemma memset_apply: "memset dest val len m x = (if x - dest < len then ucast val else m x)"
  using unsigned_less [of len, where 'a = nat] by (simp add: memset_def mem_fill_apply word_less_nat_alt)

text \<open>Two regions of memory without a common address.\<close>

definition apart :: "nat \<Rightarrow> u32 \<Rightarrow> nat \<Rightarrow> u32 \<Rightarrow> bool" where
  "apart n a k b \<longleftrightarrow> (\<forall>i<n. \<forall>j<k. a + of_nat i \<noteq> b + of_nat j)"

lemma apart_mono: "apart n a k b \<Longrightarrow> n' \<le> n \<Longrightarrow> k' \<le> k \<Longrightarrow> apart n' a k' b"
  by (auto simp: apart_def)

lemma apart_step: "apart (Suc n) a (Suc k) b \<Longrightarrow> apart n (a + 1) k (b + 1)"
  unfolding apart_def
proof (intro allI impI)
  fix i j
  assume *: "\<forall>i<Suc n. \<forall>j<Suc k. a + of_nat i \<noteq> b + of_nat j" and "i < n" and "j < k"
  then have "a + of_nat (Suc i) \<noteq> b + of_nat (Suc j)" by (metis Suc_mono)
  then show "a + 1 + of_nat i \<noteq> b + 1 + of_nat j" by (simp add: algebra_simps)
qed

lemma apart_heads: "apart (Suc n) a (Suc k) b \<Longrightarrow> i \<le> n \<Longrightarrow> a + of_nat i \<noteq> b"
proof -
  assume "apart (Suc n) a (Suc k) b" and "i \<le> n"
  then have "a + of_nat i \<noteq> b + of_nat 0" unfolding apart_def by (metis le_imp_less_Suc zero_less_Suc)
  then show ?thesis by simp
qed

lemma mem_copy_apply:
  "apart n s n d \<Longrightarrow> n \<le> 2 ^ 32 \<Longrightarrow>
   mem_copy n d s m x = (if unat (x - d) < n then m (s + (x - d)) else m x)"
proof (induction n arbitrary: d s m)
  case (Suc n)
  have IH: "mem_copy n (d + 1) (s + 1) (m(d := m s)) x =
     (if unat (x - (d + 1)) < n then (m(d := m s)) (s + 1 + (x - (d + 1))) else (m(d := m s)) x)"
    by (rule Suc.IH) (use Suc.prems apart_step in auto)
  show ?case
  proof (cases "x = d")
    case True
    then show ?thesis using IH Suc.prems by simp
  next
    case False
    have "s + 1 + (x - (d + 1)) \<noteq> d" if "unat (x - (d + 1)) < n"
      using apart_heads [OF Suc.prems(1), of "Suc (unat (x - (d + 1)))"] that
      by (simp add: algebra_simps)
    then show ?thesis using IH False by (simp add: unat_minus_Suc)
  qed
qed simp

lemma mem_compare_zero:
  "mem_compare n p q m = 0 \<longleftrightarrow> (\<forall>i<n. m (p + of_nat i) = m (q + of_nat i))"
proof (induction n arbitrary: p q)
  case (Suc n)
  have "uint (m p) - uint (m q) = 0 \<longleftrightarrow> m p = m q" by (simp add: word_uint_eq_iff)
  moreover have "(\<forall>i<Suc n. P i) \<longleftrightarrow> P 0 \<and> (\<forall>i<n. P (Suc i))" for P
    by (metis less_Suc_eq_0_disj)
  ultimately show ?case using Suc by (simp add: add.assoc)
qed simp

text \<open>The NUL-terminated array at \<open>p\<close> holds \<open>s\<close>.\<close>

primrec cstr :: "mem \<Rightarrow> u32 \<Rightarrow> u8 list \<Rightarrow> bool" where
  "cstr m p [] \<longleftrightarrow> m p = 0"
| "cstr m p (c # s) \<longleftrightarrow> c \<noteq> 0 \<and> m p = c \<and> cstr m (p + 1) s"

lemma cstr_nth:
  "cstr m p s \<Longrightarrow> i \<le> length s \<Longrightarrow> m (p + of_nat i) = (s @ [0]) ! i"
proof (induction s arbitrary: p i)
  case (Cons c s)
  then show ?case by (cases i) (auto simp: add.assoc [symmetric])
qed simp

lemma strlen_from_cstr:
  "cstr m (p + len) s \<Longrightarrow> strlen_from m p len = Some (len + of_nat (length s))"
proof (induction s arbitrary: len)
  case Nil
  then show ?case by (simp add: strlen_from.simps)
next
  case (Cons c s)
  then have "strlen_from m p (len + 1) = Some (len + 1 + of_nat (length s))"
    by (simp add: add.assoc)
  with Cons.prems show ?case by (simp add: strlen_from.simps [of m p len])
qed

lemma strlen_cstr: "cstr m p s \<Longrightarrow> strlen m p = Some (of_nat (length s))"
  by (simp add: strlen_def strlen_from_cstr)

lemma strcmp_cstr:
  assumes "cstr m p s" and "cstr m q t"
  shows "\<exists>r. strcmp m p q = Some r \<and> (r = 0 \<longleftrightarrow> s = t) \<and> (r < 0 \<longleftrightarrow> ord_class.lexordp s t)"
  using assms
proof (induction s arbitrary: p q t)
  case Nil
  then show ?case by (cases t) (auto simp: strcmp.simps [of m p q] word_less_def word_neq_0_conv)
next
  case (Cons c s)
  show ?case
  proof (cases t)
    case Nil
    with Cons.prems show ?thesis
      by (auto simp: strcmp.simps [of m p q] uint_0_iff)
  next
    case (Cons d t')
    show ?thesis
    proof (cases "c = d")
      case True
      with Cons.IH [of "p + 1" "q + 1" t'] Cons.prems \<open>t = d # t'\<close> show ?thesis
        by (simp add: strcmp.simps [of m p q])
    next
      case False
      with Cons.prems \<open>t = d # t'\<close> show ?thesis
        by (auto simp: strcmp.simps [of m p q] word_less_def word_uint_eq_iff)
    qed
  qed
qed

lemma strncmp_loop_cstr:
  "cstr m p s \<Longrightarrow> cstr m q t \<Longrightarrow> strncmp_loop n m p q = 0 \<longleftrightarrow> take n s = take n t"
proof (induction n arbitrary: p q s t)
  case (Suc n)
  then show ?case by (cases s; cases t) (auto simp: uint_0_iff word_uint_eq_iff [symmetric])
qed simp

lemma strncmp_cstr:
  "cstr m p s \<Longrightarrow> cstr m q t \<Longrightarrow>
   strncmp m p q n = 0 \<longleftrightarrow> take (unat n) s = take (unat n) t"
  by (simp add: strncmp_def strncmp_loop_cstr)

lemma cstr_upd:
  "(\<And>i. i \<le> length s \<Longrightarrow> p + of_nat i \<noteq> a) \<Longrightarrow> cstr (m(a := v)) p s \<longleftrightarrow> cstr m p s"
proof (induction s arbitrary: p)
  case Nil
  from Nil [of 0] show ?case by simp
next
  case (Cons c s)
  have "p \<noteq> a" using Cons.prems [of 0] by simp
  moreover have "p + 1 + of_nat i \<noteq> a" if "i \<le> length s" for i
    using Cons.prems [of "Suc i"] that by (simp add: add.assoc)
  ultimately show ?case using Cons.IH [of "p + 1"] by simp
qed

lemma strn_copy_cstr:
  assumes "cstr m s xs" and "apart (Suc (length xs)) s n d"
  shows "strn_copy n d s m =
    (if length xs < n
     then (n - length xs, d + of_nat (Suc (length xs)), mem_copy (Suc (length xs)) d s m)
     else (0, d + of_nat n, mem_copy n d s m))"
  using assms
proof (induction n arbitrary: d s m xs)
  case (Suc n)
  show ?case
  proof (cases xs)
    case Nil
    then show ?thesis using Suc.prems by simp
  next
    case (Cons c ys)
    have "s + 1 + of_nat i \<noteq> d" if "i \<le> length ys" for i
      using apart_heads [OF Suc.prems(2), of "Suc i"] that Cons by (simp add: add.assoc)
    then have "cstr (m(d := m s)) (s + 1) ys"
      using Suc.prems Cons by (subst cstr_upd) auto
    moreover have "apart (Suc (length ys)) (s + 1) n (d + 1)"
      using Suc.prems Cons apart_step by fastforce
    ultimately show ?thesis
      using Suc.prems Cons Suc.IH [of "m(d := m s)" "s + 1" ys "d + 1"]
      by (simp add: Let_def add.assoc flip: fun_upd_def)
  qed
qed simp

lemma unat_minus_of_nat:
  fixes y :: u32
  assumes "k < 2 ^ 32"
  shows "unat (y - of_nat k) = (if k \<le> unat y then unat y - k else 2 ^ 32 + unat y - k)"
  using assms by (auto simp: unat_sub_if' unat_of_nat)

lemma unat_shift_less:
  fixes x d :: u32
  assumes "k \<le> Suc n" and "n < 2 ^ 32"
  shows "unat (x - (d + of_nat k)) < Suc n - k \<longleftrightarrow> k \<le> unat (x - d) \<and> unat (x - d) \<le> n"
proof (cases "k < 2 ^ 32")
  case True
  then have "unat (x - d - of_nat k) =
    (if k \<le> unat (x - d) then unat (x - d) - k else 2 ^ 32 + unat (x - d) - k)"
    by (rule unat_minus_of_nat)
  then show ?thesis using assms by (auto simp: diff_diff_eq)
next
  case False
  then show ?thesis using assms by auto
qed

text \<open>
  The bytes \<^verbatim>\<open>strncpy\<close> leaves behind: a source shorter than \<open>n\<close> is padded with NULs up to and
  including index \<open>n\<close>, so \<open>n + 1\<close> bytes are written.
\<close>

lemma strncpy_apply:
  assumes "cstr m src s" and "apart (Suc (length s)) src (Suc (unat n)) dest"
  shows "strncpy dest src n m x =
    (let i = unat (x - dest) in
     if i < min (length s) (unat n) then s ! i
     else if length s < unat n \<and> i \<le> unat n then 0 else m x)"
proof -
  let ?N = "unat n" and ?L = "length s" and ?i = "unat (x - dest)"
  have bound: "?N < 2 ^ 32" using unsigned_less [of n, where 'a = nat] by simp
  have copy: "strn_copy ?N dest src m =
    (if ?L < ?N then (?N - ?L, dest + of_nat (Suc ?L), mem_copy (Suc ?L) dest src m)
     else (0, dest + of_nat ?N, mem_copy ?N dest src m))"
    using assms by (intro strn_copy_cstr) (auto intro: apart_mono)
  have src: "m (src + (x - dest)) = (s @ [0]) ! ?i" if "?i \<le> ?L"
    using cstr_nth [OF assms(1) that] by simp
  show ?thesis
  proof (cases "?L < ?N")
    case True
    have shift: "unat (x - (dest + of_nat (Suc ?L))) < ?N - ?L \<longleftrightarrow> Suc ?L \<le> ?i \<and> ?i \<le> ?N"
      using unat_shift_less [of "Suc ?L" ?N x dest] True bound by (simp del: of_nat_Suc)
    have "mem_copy (Suc ?L) dest src m x = (if ?i < Suc ?L then m (src + (x - dest)) else m x)"
      using assms(2) True bound by (intro mem_copy_apply) (auto intro: apart_mono)
    then show ?thesis
      using True bound copy src shift
      by (auto simp: strncpy_def mem_fill_apply nth_append Let_def less_Suc_eq_le not_less)
  next
    case False
    have "mem_copy ?N dest src m x = (if ?i < ?N then m (src + (x - dest)) else m x)"
      using assms(2) False bound by (intro mem_copy_apply) (auto intro: apart_mono)
    then show ?thesis
      using False copy src by (auto simp: strncpy_def nth_append Let_def)
  qed
qed

lemma strcpy_cstr:
  assumes "cstr m src s" and "apart (Suc (length s)) src (Suc (length s)) d"
  shows "strcpy d src m = Some (mem_copy (Suc (length s)) d src m)"
  using assms
proof (induction s arbitrary: d src m)
  case Nil
  then show ?case by (simp add: strcpy.simps flip: fun_upd_def)
next
  case (Cons c s)
  have "src + 1 + of_nat i \<noteq> d" if "i \<le> length s" for i
    using apart_heads [OF Cons.prems(2), of "Suc i"] that by (simp add: add.assoc)
  then have "cstr (m(d := m src)) (src + 1) s"
    using Cons.prems by (subst cstr_upd) auto
  moreover have "apart (Suc (length s)) (src + 1) (Suc (length s)) (d + 1)"
    using Cons.prems apart_step by fastforce
  ultimately show ?case
    using Cons.prems Cons.IH [of "m(d := m src)" "src + 1" "d + 1"]
    by (simp add: strcpy.simps [of d src m] Let_def flip: fun_upd_def)
qed

lemma cstrI:
  assumes "0 \<notin> set s" and "\<And>i. i \<le> length s \<Longrightarrow> m (p + of_nat i) = (s @ [0]) ! i"
  shows "cstr m p s"
  using assms
proof (induction s arbitrary: p)
  case Nil
  from Nil.prems(2) [of 0] show ?case by simp
next
  case (Cons c s)
  have "m (p + 1 + of_nat i) = (s @ [0]) ! i" if "i \<le> length s" for i
    using Cons.prems(2) [of "Suc i"] that by (simp add: add.assoc)
  then have "cstr m (p + 1) s" using Cons by auto
  then show ?case using Cons.prems(1) Cons.prems(2) [of 0] by auto
qed

lemma cstr_nonzero: "cstr m p s \<Longrightarrow> 0 \<notin> set s"
  by (induction s arbitrary: p) auto

text \<open>Appending: the array at \<open>dest\<close> holds the concatenation afterwards.\<close>

lemma strcat_cstr:
  assumes s: "cstr m dest s" and t: "cstr m src t"
    and sep: "apart (Suc (length t)) src (Suc (length s + length t)) dest"
    and fits: "length s + length t < 2 ^ 32 - 1"
  shows "\<exists>m'. strcat dest src m = Some m' \<and> cstr m' dest (s @ t)"
proof -
  let ?d = "dest + of_nat (length s)" and ?k = "Suc (length t)"
  have ap: "apart ?k src ?k ?d"
    unfolding apart_def
  proof (intro allI impI)
    fix i j assume ij: "i < ?k" "j < ?k"
    then have "length s + j < Suc (length s + length t)" by simp
    then have "src + of_nat i \<noteq> dest + of_nat (length s + j)"
      using sep ij unfolding apart_def by blast
    then show "src + of_nat i \<noteq> ?d + of_nat j" by (simp add: add.assoc)
  qed
  let ?m = "mem_copy ?k ?d src m"
  have app: "?m x = (if unat (x - ?d) < ?k then m (src + (x - ?d)) else m x)" for x
    using ap fits by (intro mem_copy_apply) auto
  have "cstr ?m dest (s @ t)"
  proof (rule cstrI)
    show "0 \<notin> set (s @ t)" using cstr_nonzero s t by auto
    fix i assume i: "i \<le> length (s @ t)"
    show "?m (dest + of_nat i) = ((s @ t) @ [0]) ! i"
    proof (cases "i < length s")
      case True
      have "unat (of_nat i - of_nat (length s) :: u32) = 2 ^ 32 + i - length s"
        using True fits by (subst unat_minus_of_nat) (auto simp: unat_of_nat)
      moreover have "dest + of_nat i - ?d = of_nat i - of_nat (length s)" by simp
      ultimately have "\<not> unat (dest + of_nat i - ?d) < ?k" using fits True by simp
      then have "?m (dest + of_nat i) = m (dest + of_nat i)"
        by (simp only: app if_False)
      then show ?thesis using cstr_nth [OF s, of i] True by (simp add: nth_append)
    next
      case False
      then have eq: "dest + of_nat i - ?d = of_nat (i - length s)" by (simp add: of_nat_diff)
      have "unat (of_nat (i - length s) :: u32) = i - length s"
        using i fits by (simp add: unat_of_nat)
      then show ?thesis
        using app [of "dest + of_nat i"] i False cstr_nth [OF t, of "i - length s"]
        unfolding eq by (auto simp: nth_append)
    qed
  qed
  then show ?thesis
    using strcpy_cstr [OF t ap] strlen_cstr [OF s] by (simp add: strcat_def)
qed

section \<open>Correctness of the number formatters\<close>

lemma length_swap_ends [simp]: "length (swap_ends i j xs) = length xs"
  by (induction i j xs rule: swap_ends.induct) (subst swap_ends.simps, simp)

lemma swap_ends_nth:
  "j < length xs \<Longrightarrow> k < length xs \<Longrightarrow>
   swap_ends i j xs ! k = (if i \<le> k \<and> k \<le> j then xs ! (i + j - k) else xs ! k)"
proof (induction i j xs rule: swap_ends.induct)
  case (1 i j xs)
  show ?case
  proof (cases "i < j")
    case True
    with 1 show ?thesis
      by (subst swap_ends.simps) (auto simp: nth_list_update)
  next
    case False
    then have "i + j - k = k" if "i \<le> k \<and> k \<le> j" using that by auto
    then show ?thesis using False by (subst swap_ends.simps) simp
  qed
qed

lemma swap_ends_rev: "swap_ends 0 (length xs - 1) xs = rev xs"
proof (rule nth_equalityI)
  fix k assume "k < length (swap_ends 0 (length xs - 1) xs)"
  then show "swap_ends 0 (length xs - 1) xs ! k = rev xs ! k"
    using swap_ends_nth [of "length xs - 1" xs k 0] rev_nth [of k xs] by fastforce
qed simp

lemma swap_ends_rev' [simp]: "swap_ends 0 (length xs - Suc 0) xs = rev xs"
  using swap_ends_rev [of xs] by simp

text \<open>The value of a decimal digit string, most significant digit first.\<close>

definition dec_value :: "string \<Rightarrow> int" where
  "dec_value ds = foldl (\<lambda>acc c. acc * 10 + (of_char c - 48)) 0 ds"

lemma dec_value_snoc [simp]: "dec_value (ds @ [c]) = dec_value ds * 10 + (of_char c - 48)"
  by (simp add: dec_value_def)

lemma dec_value_Nil [simp]: "dec_value [] = 0"
  by (simp add: dec_value_def)

lemma of_char_digit: "k < 10 \<Longrightarrow> (of_char (digit_char k) :: int) = 48 + int k"
  by (auto simp: digit_char_def numeral_eq_Suc less_Suc_eq)

lemma digit_char_range: "k < 10 \<Longrightarrow> CHR ''0'' \<le> digit_char k \<and> digit_char k \<le> CHR ''9''"
  by (auto simp: digit_char_def numeral_eq_Suc less_Suc_eq less_eq_char_def)

lemma dec_value_zeros: "dec_value (replicate n (CHR ''0'') @ ds) = dec_value ds"
  by (induction n) (auto simp: dec_value_def)

lemma itoa_digits_dec:
  assumes "0 \<le> v"
  shows "\<exists>ds. itoa_digits 10 v = Some ds \<and> dec_value (rev ds) = v \<and>
    (\<forall>c\<in>set ds. CHR ''0'' \<le> c \<and> c \<le> CHR ''9'') \<and> ds \<noteq> []"
  using assms
proof (induction "nat v" arbitrary: v rule: less_induct)
  case less
  have q: "v sdiv 10 = v div 10" using less.prems
    by (cases "v = 0") (auto simp: signed_divide_int_def sgn_1_pos)
  have r: "v - v div 10 * 10 = v mod 10" by (simp add: minus_div_mult_eq_mod)
  have digit: "CHR ''0'' \<le> digit_char (nat (v mod 10)) \<and> digit_char (nat (v mod 10)) \<le> CHR ''9''"
    by (rule digit_char_range) simp
  show ?case
  proof (cases "v div 10 = 0")
    case True
    then have "itoa_digits 10 v = Some [digit_char (nat v)]" "nat v < 10"
      using less.prems q r by (auto simp: itoa_digits.simps [of 10 v])
    then show ?thesis using digit less.prems True of_char_digit [of "nat v"]
      by (simp add: dec_value_def)
  next
    case False
    then have "nat (v div 10) < nat v" using less.prems by auto
    then obtain ds where ds: "itoa_digits 10 (v div 10) = Some ds" "dec_value (rev ds) = v div 10"
      "\<forall>c\<in>set ds. CHR ''0'' \<le> c \<and> c \<le> CHR ''9''"
      using less.hyps [of "v div 10"] less.prems pos_imp_zdiv_nonneg_iff [of 10 v] by auto
    have "\<not> v < v div 10 * 10" and "\<not> 36 \<le> v mod 10" by presburger+
    then have "itoa_digits 10 v = Some (digit_char (nat (v mod 10)) # ds)"
      using False q r ds
      by (simp add: itoa_digits.simps [of 10 v] Let_def)
    then show ?thesis using ds digit of_char_digit [of "nat (v mod 10)"] by simp
  qed
qed

lemma itoa_nonneg:
  assumes "0 \<le> sint v"
  shows "\<exists>ds. itoa v 10 = Some ds \<and> dec_value ds = sint v \<and> ds \<noteq> [] \<and>
    (\<forall>c\<in>set ds. CHR ''0'' \<le> c \<and> c \<le> CHR ''9'')"
  using itoa_digits_dec [OF assms] assms by (auto simp: itoa_def)

lemma itoa_neg:
  assumes "sint v < 0" and "sint v \<noteq> - (2 ^ 31)"
  shows "\<exists>ds. itoa v 10 = Some (CHR ''-'' # ds) \<and> dec_value ds = - sint v \<and> ds \<noteq> [] \<and>
    (\<forall>c\<in>set ds. CHR ''0'' \<le> c \<and> c \<le> CHR ''9'')"
proof -
  have "- (2 ^ 31) \<le> sint v" using sint_ge [of v] by simp
  then have neg: "sint (- v) = - sint v"
    using assms by (simp add: sint_word_ariths signed_take_bit_int_eq_self)
  then have "0 \<le> sint (- v)" using assms by simp
  from itoa_digits_dec [OF this] obtain ds where ds: "itoa_digits 10 (sint (- v)) = Some ds"
    "dec_value (rev ds) = sint (- v)" "\<forall>c\<in>set ds. CHR ''0'' \<le> c \<and> c \<le> CHR ''9''" "ds \<noteq> []"
    by auto
  have "swap_ends 0 (length ds) (ds @ ''-'') = CHR ''-'' # rev ds"
    using swap_ends_rev [of "ds @ ''-''"] by simp
  then show ?thesis using ds assms neg by (intro exI [of _ "rev ds"]) (simp add: itoa_def)
qed

lemma pad_digits_value:
  assumes "0 \<le> v" and "v < 10 ^ (11 - count)"
  shows "dec_value (rev (pad_digits v count)) = v"
  using assms
proof (induction v count rule: pad_digits.induct)
  case (1 v count)
  show ?case
  proof (cases "0 < v \<and> count < 11")
    case True
    then obtain k where k: "11 - count = Suc k" "11 - Suc count = k"
      by (metis Suc_diff_Suc)
    then have "v div 10 < 10 ^ k" using 1 by (simp add: div_less_iff_less_mult)
    then have "dec_value (rev (pad_digits (v div 10) (Suc count))) = v div 10"
      using True 1 k by auto
    then show ?thesis using True of_char_digit [of "nat (v mod 10)"]
      by (subst pad_digits.simps) simp
  next
    case False
    then show ?thesis using 1 by (subst pad_digits.simps) (auto simp: not_less)
  qed
qed

text \<open>Every non-negative \<^verbatim>\<open>int\<close> is printed as a numeral with its value, whatever the padding.\<close>

lemma int_to_str_pad_value:
  assumes "0 \<le> v" and "v < 2 ^ 31"
  shows "dec_value (int_to_str_pad v w) = v"
proof -
  have "dec_value (rev (pad_digits v 0)) = v" using assms by (intro pad_digits_value) auto
  then show ?thesis
    by (auto simp: int_to_str_pad_def Let_def dec_value_zeros) (simp add: dec_value_def)
qed

lemma hex_fill_length [simp]: "length (hex_fill w v) = w"
  by (induction w arbitrary: v) auto

end
