(* ===== verification/Interfaces.thy ===== *)
theory Interfaces
  imports Prelude
begin

text \<open>
  The contracts between components, as locales: a bitmap (\<^verbatim>\<open>pmm.c\<close>, \<^verbatim>\<open>diskfs.c\<close>), a bounded FIFO
  (\<^verbatim>\<open>ipc.c\<close>, \<^verbatim>\<open>keyboard.c\<close>) and a dynamic allocator (\<^verbatim>\<open>heap.c\<close>, used by \<^verbatim>\<open>sched.c\<close> and \<^verbatim>\<open>ipc.c\<close>). Each
  locale lists the laws its clients rely on and proves the clients' lemmas once; the theories of the
  providers interpret it on their own definitions.
\<close>

section \<open>Bitmaps\<close>

text \<open>
  \<open>valid b i\<close>: bit \<open>i\<close> lies inside the array \<open>b\<close>. The index type is the \<^verbatim>\<open>uint32_t\<close> of the code.
\<close>

locale bitset =
  fixes bset :: "u32 \<Rightarrow> 'b \<Rightarrow> 'b"
    and bclear :: "u32 \<Rightarrow> 'b \<Rightarrow> 'b"
    and btest :: "'b \<Rightarrow> u32 \<Rightarrow> bool"
    and valid :: "'b \<Rightarrow> u32 \<Rightarrow> bool"
  assumes valid_set: "valid (bset i b) j = valid b j"
    and valid_clear: "valid (bclear i b) j = valid b j"
    and test_set: "valid b i \<Longrightarrow> valid b j \<Longrightarrow> btest (bset i b) j \<longleftrightarrow> j = i \<or> btest b j"
    and test_clear: "valid b i \<Longrightarrow> valid b j \<Longrightarrow> btest (bclear i b) j \<longleftrightarrow> j \<noteq> i \<and> btest b j"
begin

text \<open>Setting or clearing a run of bits, the loops of the block allocators.\<close>

lemma valid_fold_set: "valid (fold bset is b) j = valid b j"
  by (induction "is" arbitrary: b) (auto simp: valid_set)

lemma valid_fold_clear: "valid (fold bclear is b) j = valid b j"
  by (induction "is" arbitrary: b) (auto simp: valid_clear)

lemma test_fold_set:
  "\<forall>i\<in>set is. valid b i \<Longrightarrow> valid b j \<Longrightarrow> btest (fold bset is b) j \<longleftrightarrow> j \<in> set is \<or> btest b j"
  by (induction "is" arbitrary: b) (auto simp: test_set valid_set)

lemma test_fold_clear:
  "\<forall>i\<in>set is. valid b i \<Longrightarrow> valid b j \<Longrightarrow>
   btest (fold bclear is b) j \<longleftrightarrow> j \<notin> set is \<and> btest b j"
  by (induction "is" arbitrary: b) (auto simp: test_clear valid_clear)

text \<open>The number of set bits moves by one when a clear bit is set or a set bit is cleared.\<close>

lemma count_set:
  assumes "\<forall>k<n. valid b (of_nat k)" and "i < n" and "n \<le> 2 ^ 32" and "\<not> btest b (of_nat i)"
  shows "count_below n (\<lambda>k. btest (bset (of_nat i) b) (of_nat k))
    = Suc (count_below n (\<lambda>k. btest b (of_nat k)))"
proof -
  have "count_below n (\<lambda>k. btest (bset (of_nat i) b) (of_nat k))
      = count_below n ((\<lambda>k. btest b (of_nat k))(i := True))"
    using assms by (intro count_below_cong) (auto simp: test_set valid_set of_nat_word_inj)
  then show ?thesis using assms by (simp add: count_below_set)
qed

lemma count_clear:
  assumes "\<forall>k<n. valid b (of_nat k)" and "i < n" and "n \<le> 2 ^ 32" and "btest b (of_nat i)"
  shows "Suc (count_below n (\<lambda>k. btest (bclear (of_nat i) b) (of_nat k)))
    = count_below n (\<lambda>k. btest b (of_nat k))"
proof -
  have "count_below n (\<lambda>k. btest (bclear (of_nat i) b) (of_nat k))
      = count_below n ((\<lambda>k. btest b (of_nat k))(i := False))"
    using assms by (intro count_below_cong) (auto simp: test_clear valid_clear of_nat_word_inj)
  then show ?thesis using assms by (simp add: count_below_clear)
qed

lemma count_fold_set:
  assumes "\<forall>k<n. valid b (of_nat k)" and "n \<le> 2 ^ 32" and "distinct is"
    and "\<forall>i\<in>set is. i < n \<and> \<not> btest b (of_nat i)"
  shows "count_below n (\<lambda>k. btest (fold bset (map of_nat is) b) (of_nat k))
    = length is + count_below n (\<lambda>k. btest b (of_nat k))"
  using assms
proof (induction "is" arbitrary: b)
  case (Cons i "is")
  have "count_below n (\<lambda>k. btest (fold bset (map of_nat is) (bset (of_nat i) b)) (of_nat k))
      = length is + count_below n (\<lambda>k. btest (bset (of_nat i) b) (of_nat k))"
    using Cons.prems by (intro Cons.IH) (auto simp: test_set valid_set of_nat_word_inj)
  then show ?case using Cons.prems by (simp add: count_set)
qed simp

end

section \<open>Bounded FIFO queues\<close>

datatype 'a fifo_op = Enq 'a | Deq

text \<open>
  A run of operations: what was accepted, what was delivered, and the queue at the end. An enqueue
  on a full queue and a dequeue on an empty one leave the queue as it is.
\<close>

fun fifo_run :: "('a \<Rightarrow> 'q \<Rightarrow> 'q option) \<Rightarrow> ('q \<Rightarrow> ('a \<times> 'q) option) \<Rightarrow> 'q \<Rightarrow> 'a fifo_op list
    \<Rightarrow> 'a list \<times> 'a list \<times> 'q" where
  "fifo_run enq deq q [] = ([], [], q)"
| "fifo_run enq deq q (Enq x # ops) =
     (case enq x q of None \<Rightarrow> fifo_run enq deq q ops
      | Some q' \<Rightarrow> let (ins, outs, q'') = fifo_run enq deq q' ops in (x # ins, outs, q''))"
| "fifo_run enq deq q (Deq # ops) =
     (case deq q of None \<Rightarrow> fifo_run enq deq q ops
      | Some (x, q') \<Rightarrow> let (ins, outs, q'') = fifo_run enq deq q' ops in (ins, x # outs, q''))"

locale bounded_fifo =
  fixes enq :: "'a \<Rightarrow> 'q \<Rightarrow> 'q option"
    and deq :: "'q \<Rightarrow> ('a \<times> 'q) option"
    and contents :: "'q \<Rightarrow> 'a list"
    and inv :: "'q \<Rightarrow> bool"
    and cap :: nat
  assumes enq_full: "inv q \<Longrightarrow> enq x q = None \<longleftrightarrow> length (contents q) = cap"
    and enq_ok: "inv q \<Longrightarrow> enq x q = Some q' \<Longrightarrow> inv q' \<and> contents q' = contents q @ [x]"
    and deq_empty: "inv q \<Longrightarrow> deq q = None \<longleftrightarrow> contents q = []"
    and deq_ok: "inv q \<Longrightarrow> deq q = Some (x, q') \<Longrightarrow> inv q' \<and> contents q = x # contents q'"
    and within_cap: "inv q \<Longrightarrow> length (contents q) \<le> cap"
begin

text \<open>Nothing is lost, duplicated or reordered, in any interleaving of the two operations.\<close>

lemma fifo_order:
  assumes "inv q" and "fifo_run enq deq q ops = (ins, outs, q')"
  shows "inv q' \<and> contents q @ ins = outs @ contents q'"
  using assms
proof (induction ops arbitrary: q ins outs)
  case (Cons op ops)
  show ?case
  proof (cases op)
    case (Enq x)
    then show ?thesis
      using Cons enq_ok [OF Cons.prems(1)]
      by (fastforce split: option.splits prod.splits)
  next
    case Deq
    then show ?thesis
      using Cons deq_ok [OF Cons.prems(1)]
      by (fastforce split: option.splits prod.splits)
  qed
qed simp

lemma enq_deq_empty:
  assumes "inv q" and "contents q = []" and "0 < cap"
  shows "\<exists>q' q''. enq x q = Some q' \<and> deq q' = Some (x, q'') \<and> contents q'' = []"
proof -
  obtain q' where q': "enq x q = Some q'" using enq_full [OF assms(1), of x] assms by auto
  then have c: "inv q'" "contents q' = [x]" using enq_ok assms by auto
  then obtain y q'' where "deq q' = Some (y, q'')" using deq_empty [of q'] by fastforce
  then show ?thesis using q' c deq_ok by fastforce
qed

end

section \<open>Dynamic allocation\<close>

text \<open>
  \<open>alloc\<close> and \<open>free\<close> are partial because they walk linked structures; under the invariant they
  return. \<open>live\<close> is the set of pointers handed out and not yet freed.
\<close>

locale allocator =
  fixes alloc :: "u32 \<Rightarrow> 'h \<Rightarrow> (u32 \<times> 'h) option"
    and free :: "u32 \<Rightarrow> 'h \<Rightarrow> 'h option"
    and live :: "'h \<Rightarrow> u32 set"
    and inv :: "'h \<Rightarrow> bool"
    and fits :: "u32 \<Rightarrow> bool"
  assumes alloc_returns: "inv h \<Longrightarrow> fits n \<Longrightarrow> \<exists>p h'. alloc n h = Some (p, h') \<and> inv h'"
    and alloc_fail: "inv h \<Longrightarrow> fits n \<Longrightarrow> alloc n h = Some (0, h') \<Longrightarrow> live h' = live h"
    and alloc_ok: "inv h \<Longrightarrow> fits n \<Longrightarrow> alloc n h = Some (p, h') \<Longrightarrow> p \<noteq> 0 \<Longrightarrow>
      p \<notin> live h \<and> live h' = insert p (live h)"
    and live_nonzero: "inv h \<Longrightarrow> 0 \<notin> live h"
    and free_returns: "inv h \<Longrightarrow> p \<in> live h \<Longrightarrow> \<exists>h'. free p h = Some h' \<and> inv h'"
    and free_ok: "inv h \<Longrightarrow> p \<in> live h \<Longrightarrow> free p h = Some h' \<Longrightarrow> live h' = live h - {p}"
begin

lemma alloc_inv: "inv h \<Longrightarrow> fits n \<Longrightarrow> alloc n h = Some (p, h') \<Longrightarrow> inv h'"
  using alloc_returns by fastforce

lemma free_inv: "inv h \<Longrightarrow> p \<in> live h \<Longrightarrow> free p h = Some h' \<Longrightarrow> inv h'"
  using free_returns by fastforce

text \<open>Undoing an allocation gives the live set back: the error paths of the kernel's constructors.\<close>

lemma alloc_free:
  assumes "inv h" and "fits n" and "alloc n h = Some (p, h1)" and "p \<noteq> 0"
  shows "\<exists>h2. free p h1 = Some h2 \<and> inv h2 \<and> live h2 = live h"
proof -
  have l: "p \<notin> live h" "live h1 = insert p (live h)" "inv h1"
    using assms alloc_ok alloc_inv by auto
  then obtain h2 where "free p h1 = Some h2" "inv h2" using free_returns by blast
  moreover from this have "live h2 = live h" using l free_ok [of h1 p h2] by auto
  ultimately show ?thesis by blast
qed

end

text \<open>
  An allocator that also promises the size of what it hands out: \<open>room h p n\<close> when \<open>n\<close> bytes at the live
  pointer \<open>p\<close> belong to its owner. Other allocations and frees do not take the room away.
\<close>

locale sized_allocator = allocator +
  fixes room :: "'h \<Rightarrow> u32 \<Rightarrow> nat \<Rightarrow> bool"
  assumes room_live: "room h p k \<Longrightarrow> p \<in> live h"
    and alloc_room: "inv h \<Longrightarrow> fits n \<Longrightarrow> alloc n h = Some (p, h') \<Longrightarrow> p \<noteq> 0 \<Longrightarrow> room h' p (unat n)"
    and alloc_keeps: "inv h \<Longrightarrow> fits n \<Longrightarrow> alloc n h = Some (p, h') \<Longrightarrow> room h q k \<Longrightarrow> room h' q k"
    and free_keeps: "inv h \<Longrightarrow> p \<in> live h \<Longrightarrow> free p h = Some h' \<Longrightarrow> q \<noteq> p \<Longrightarrow> room h q k \<Longrightarrow> room h' q k"
begin

text \<open>The two outcomes of an allocation, for clients that branch on NULL.\<close>

lemma alloc_cases:
  assumes "inv h" and "fits n"
  obtains (null) h' where "alloc n h = Some (0, h')" and "inv h'" and "live h' = live h"
      and "\<And>q k. room h q k \<Longrightarrow> room h' q k"
  | (pointer) p h' where "alloc n h = Some (p, h')" and "p \<noteq> 0" and "inv h'" and "p \<notin> live h"
      and "live h' = insert p (live h)" and "room h' p (unat n)" and "\<And>q k. room h q k \<Longrightarrow> room h' q k"
proof -
  obtain p h' where a: "alloc n h = Some (p, h')" "inv h'" using alloc_returns [OF assms] by blast
  show thesis
  proof (cases "p = 0")
    case True
    then have "alloc n h = Some (0, h')" using a(1) by simp
    then show thesis using a(2) alloc_fail alloc_keeps assms by (intro null [of h']) blast+
  next
    case False
    then show thesis using a alloc_ok alloc_room alloc_keeps assms by (intro pointer [of p h']) blast+
  qed
qed

lemma free_cases:
  assumes "inv h" and "p \<in> live h"
  obtains h' where "free p h = Some h'" and "inv h'" and "live h' = live h - {p}"
    and "\<And>q k. q \<noteq> p \<Longrightarrow> room h q k \<Longrightarrow> room h' q k"
  using free_returns [OF assms] free_ok [OF assms] free_keeps [OF assms] by metis

end

end
