(* ===== verification/Pmm.thy ===== *)
theory Pmm
  imports Kstring Interfaces
begin

text \<open>
  \<^verbatim>\<open>kernel/mm/pmm.c\<close>: the physical memory manager, a bitmap of 4 KiB frames. The bitmap lives in the
  byte-addressed kernel memory at \<^verbatim>\<open>pmm_bitmap\<close>, as the code places it, so that a write to that
  memory through another pointer is visible here. The state record is the first layer of the kernel
  state; the later components extend it.
\<close>

record machine =
  kmem :: mem

record pmm_state = machine +
  pmm_bitmap :: u32
  pmm_bitmap_size :: u32
  pmm_memory_size :: u32
  pmm_used_blocks :: u32
  pmm_max_blocks :: u32

section \<open>The bitmap\<close>

text \<open>\<^verbatim>\<open>pmm_bitmap[i]\<close> and \<^verbatim>\<open>1 << (bit % 32)\<close>\<close>

definition bitmap_word :: "'a pmm_state_scheme \<Rightarrow> u32 \<Rightarrow> u32" where
  "bitmap_word s i = load32 (kmem s) (pmm_bitmap s + 4 * i)"

definition bit_mask :: "u32 \<Rightarrow> u32" where
  "bit_mask b = push_bit (unat (b mod 32)) 1"

definition bitmap_set :: "u32 \<Rightarrow> 'a pmm_state_scheme \<Rightarrow> 'a pmm_state_scheme" where
  "bitmap_set b s = s\<lparr>kmem := store32 (pmm_bitmap s + 4 * (b div 32))
     (bitmap_word s (b div 32) OR bit_mask b) (kmem s)\<rparr>"

definition bitmap_unset :: "u32 \<Rightarrow> 'a pmm_state_scheme \<Rightarrow> 'a pmm_state_scheme" where
  "bitmap_unset b s = s\<lparr>kmem := store32 (pmm_bitmap s + 4 * (b div 32))
     (bitmap_word s (b div 32) AND NOT (bit_mask b)) (kmem s)\<rparr>"

definition bitmap_test :: "'a pmm_state_scheme \<Rightarrow> u32 \<Rightarrow> bool" where
  "bitmap_test s b \<longleftrightarrow> bitmap_word s (b div 32) AND bit_mask b \<noteq> 0"

text \<open>The scans return \<^verbatim>\<open>-1\<close> when nothing is free.\<close>

definition bitmap_first_free :: "'a pmm_state_scheme \<Rightarrow> int" where
  "bitmap_first_free s =
     (case first_some (\<lambda>i. let w = bitmap_word s (of_nat i) in
             if w \<noteq> 0xFFFFFFFF
             then first_some (\<lambda>j. if w AND push_bit j 1 = 0 then Some (i * 32 + j) else None) [0..<32]
             else None)
           [0..<unat (pmm_max_blocks s div 32)] of
        None \<Rightarrow> -1
      | Some f \<Rightarrow> int f)"

text \<open>
  The innermost loop of \<^verbatim>\<open>bitmap_first_free_s\<close>: \<open>n\<close> iterations are left, \<open>k\<close> and \<open>fr\<close> are the loop
  index and the count \<^verbatim>\<open>free\<close>; true when it returns \<open>start\<close>.
\<close>

primrec free_run :: "'a pmm_state_scheme \<Rightarrow> u32 \<Rightarrow> u32 \<Rightarrow> nat \<Rightarrow> u32 \<Rightarrow> u32 \<Rightarrow> bool" where
  "free_run s start sz 0 k fr = False"
| "free_run s start sz (Suc n) k fr =
     (let fr' = (if \<not> bitmap_test s (start + k) then fr + 1 else fr) in
      if fr' = sz then True else free_run s start sz n (k + 1) fr')"

definition bitmap_first_free_s :: "'a pmm_state_scheme \<Rightarrow> u32 \<Rightarrow> int" where
  "bitmap_first_free_s s sz =
     (if sz = 0 then -1
      else if sz = 1 then bitmap_first_free s
      else case first_some (\<lambda>i. let w = bitmap_word s (of_nat i) in
             if w \<noteq> 0xFFFFFFFF
             then first_some (\<lambda>j.
                    if w AND push_bit j 1 = 0
                    then let start = of_nat i * 32 + of_nat j in
                         if free_run s start sz (unat sz) 0 0 then Some (i * 32 + j) else None
                    else None) [0..<32]
             else None)
           [0..<unat (pmm_max_blocks s div 32)] of
        None \<Rightarrow> -1
      | Some f \<Rightarrow> int f)"

section \<open>Operations\<close>

definition pmm_init :: "u32 \<Rightarrow> u32 \<Rightarrow> 'a pmm_state_scheme \<Rightarrow> 'a pmm_state_scheme" where
  "pmm_init mem_size bitmap_addr s =
     (let max_blocks = mem_size div 4096; bitmap_size = max_blocks div 8 in
      s\<lparr>pmm_memory_size := mem_size, pmm_bitmap := bitmap_addr, pmm_max_blocks := max_blocks,
        pmm_bitmap_size := bitmap_size, pmm_used_blocks := max_blocks,
        kmem := memset bitmap_addr 0xFF bitmap_size (kmem s)\<rparr>)"

text \<open>\<^verbatim>\<open>for (; blocks > 0; blocks--)\<close>, with \<open>align\<close> the signed block number that is counted up.\<close>

primrec unset_blocks :: "nat \<Rightarrow> int \<Rightarrow> 'a pmm_state_scheme \<Rightarrow> 'a pmm_state_scheme" where
  "unset_blocks 0 align s = s"
| "unset_blocks (Suc n) align s =
     unset_blocks n (align + 1)
       ((bitmap_unset (word_of_int align) s)\<lparr>pmm_used_blocks := pmm_used_blocks s - 1\<rparr>)"

primrec set_blocks :: "nat \<Rightarrow> int \<Rightarrow> 'a pmm_state_scheme \<Rightarrow> 'a pmm_state_scheme" where
  "set_blocks 0 align s = s"
| "set_blocks (Suc n) align s =
     set_blocks n (align + 1)
       ((bitmap_set (word_of_int align) s)\<lparr>pmm_used_blocks := pmm_used_blocks s + 1\<rparr>)"

definition pmm_init_region :: "u32 \<Rightarrow> u32 \<Rightarrow> 'a pmm_state_scheme \<Rightarrow> 'a pmm_state_scheme" where
  "pmm_init_region base sz s =
     bitmap_set 0 (unset_blocks (nat (sint sz sdiv 4096)) (sint base sdiv 4096) s)"

definition pmm_deinit_region :: "u32 \<Rightarrow> u32 \<Rightarrow> 'a pmm_state_scheme \<Rightarrow> 'a pmm_state_scheme" where
  "pmm_deinit_region base sz s =
     set_blocks (nat (sint sz sdiv 4096)) (sint base sdiv 4096) s"

definition pmm_get_memory_size :: "'a pmm_state_scheme \<Rightarrow> u32" where
  "pmm_get_memory_size s = pmm_memory_size s"

definition pmm_get_block_count :: "'a pmm_state_scheme \<Rightarrow> u32" where
  "pmm_get_block_count s = pmm_max_blocks s"

definition pmm_get_used_block_count :: "'a pmm_state_scheme \<Rightarrow> u32" where
  "pmm_get_used_block_count s = pmm_used_blocks s"

definition pmm_get_free_block_count :: "'a pmm_state_scheme \<Rightarrow> u32" where
  "pmm_get_free_block_count s = pmm_max_blocks s - pmm_used_blocks s"

definition pmm_alloc_block :: "'a pmm_state_scheme \<Rightarrow> u32 \<times> 'a pmm_state_scheme" where
  "pmm_alloc_block s =
     (if pmm_get_free_block_count s = 0 then (0, s)
      else let frame = bitmap_first_free s in
        if frame = -1 then (0, s)
        else (word_of_int (frame * 4096),
              (bitmap_set (word_of_int frame) s)\<lparr>pmm_used_blocks := pmm_used_blocks s + 1\<rparr>))"

definition pmm_free_block :: "u32 \<Rightarrow> 'a pmm_state_scheme \<Rightarrow> 'a pmm_state_scheme" where
  "pmm_free_block p s = (bitmap_unset (p div 4096) s)\<lparr>pmm_used_blocks := pmm_used_blocks s - 1\<rparr>"

definition pmm_alloc_blocks :: "u32 \<Rightarrow> 'a pmm_state_scheme \<Rightarrow> u32 \<times> 'a pmm_state_scheme" where
  "pmm_alloc_blocks count s =
     (if pmm_get_free_block_count s < count then (0, s)
      else let frame = bitmap_first_free_s s count in
        if frame = -1 then (0, s)
        else (word_of_int (frame * 4096),
              (fold (\<lambda>i. bitmap_set (word_of_int frame + of_nat i)) [0..<unat count] s)
                \<lparr>pmm_used_blocks := pmm_used_blocks s + count\<rparr>))"

definition pmm_free_blocks :: "u32 \<Rightarrow> u32 \<Rightarrow> 'a pmm_state_scheme \<Rightarrow> 'a pmm_state_scheme" where
  "pmm_free_blocks p count s =
     (fold (\<lambda>i. bitmap_unset (p div 4096 + of_nat i)) [0..<unat count] s)
       \<lparr>pmm_used_blocks := pmm_used_blocks s - count\<rparr>"

section \<open>The bitmap is a set of frame numbers\<close>

lemma bitmap_frame [simp]:
  "pmm_bitmap (bitmap_set b s) = pmm_bitmap s" "pmm_bitmap (bitmap_unset b s) = pmm_bitmap s"
  "pmm_max_blocks (bitmap_set b s) = pmm_max_blocks s"
  "pmm_max_blocks (bitmap_unset b s) = pmm_max_blocks s"
  "pmm_used_blocks (bitmap_set b s) = pmm_used_blocks s"
  "pmm_used_blocks (bitmap_unset b s) = pmm_used_blocks s"
  by (simp_all add: bitmap_set_def bitmap_unset_def)

lemma bitmap_test_used [simp]: "bitmap_test (s\<lparr>pmm_used_blocks := u\<rparr>) = bitmap_test s"
  by (simp add: bitmap_test_def bitmap_word_def fun_eq_iff)

lemma unat_div32: "unat (b div 32) < 2 ^ 29" for b :: u32
  using unsigned_less [of b, where 'a = nat] by (simp add: unat_div)

lemma unat_mod32: "unat (b mod 32) < 32" for b :: u32
  by (simp add: unat_mod)

lemma bit_bit_mask: "bit (bit_mask b) k \<longleftrightarrow> k = unat (b mod 32)"
  using unat_mod32 [of b] by (auto simp: bit_mask_def bit_simps)

lemma bitmap_test_bit: "bitmap_test s b \<longleftrightarrow> bit (bitmap_word s (b div 32)) (unat (b mod 32))"
proof -
  have "bitmap_word s (b div 32) AND bit_mask b = 0 \<longleftrightarrow>
      \<not> bit (bitmap_word s (b div 32)) (unat (b mod 32))"
    by (metis (mono_tags, lifting) bit_0_eq bit_and_iff bit_bit_mask bit_word_eqI bot_apply bot_bool_def)
  then show ?thesis by (simp add: bitmap_test_def)
qed

lemma bitmap_word_set:
  "bitmap_word (bitmap_set b s) (c div 32) =
     (if c div 32 = b div 32 then bitmap_word s (b div 32) OR bit_mask b else bitmap_word s (c div 32))"
  using load32_store32_other [OF span32_array [OF _ unat_div32 unat_div32]]
  by (simp add: bitmap_word_def bitmap_set_def)

lemma bitmap_word_unset:
  "bitmap_word (bitmap_unset b s) (c div 32) =
     (if c div 32 = b div 32 then bitmap_word s (b div 32) AND NOT (bit_mask b)
      else bitmap_word s (c div 32))"
  using load32_store32_other [OF span32_array [OF _ unat_div32 unat_div32]]
  by (simp add: bitmap_word_def bitmap_unset_def)

lemma same_bit_iff: "c div 32 = b div 32 \<and> unat (c mod 32) = unat (b mod 32) \<longleftrightarrow> c = b" for b c :: u32
  by (metis div_mult_mod_eq unat_word_inj)

interpretation pmm_bits: bitset bitmap_set bitmap_unset bitmap_test "\<lambda>_ _. True"
proof unfold_locales
  fix s :: "'a pmm_state_scheme" and b c :: u32
  show "bitmap_test (bitmap_set b s) c \<longleftrightarrow> c = b \<or> bitmap_test s c"
    using same_bit_iff [of c b]
    by (auto simp: bitmap_test_bit bitmap_word_set bit_or_iff bit_bit_mask)
  show "bitmap_test (bitmap_unset b s) c \<longleftrightarrow> c \<noteq> b \<and> bitmap_test s c"
    using same_bit_iff [of c b] unat_mod32 [of c]
    by (auto simp: bitmap_test_bit bitmap_word_unset bit_and_iff bit_not_iff bit_bit_mask)
qed auto

section \<open>The scans find the lowest free frame and the lowest free run\<close>

lemma of_nat_div32: "i < 2 ^ 32 \<Longrightarrow> (of_nat i :: u32) div 32 = of_nat (i div 32)"
  by (rule unat_word_inj) (simp add: unat_div unat_of_nat_small)

lemma of_nat_mod32: "i < 2 ^ 32 \<Longrightarrow> unat ((of_nat i :: u32) mod 32) = i mod 32"
  by (simp add: unat_mod unat_of_nat_small)

lemma bitmap_test_of_nat:
  "i < 2 ^ 32 \<Longrightarrow> bitmap_test s (of_nat i) \<longleftrightarrow> bit (bitmap_word s (of_nat (i div 32))) (i mod 32)"
  by (simp add: bitmap_test_bit of_nat_div32 of_nat_mod32)

lemma and_push_bit_zero: "w AND push_bit j 1 = 0 \<longleftrightarrow> \<not> bit w j" if "j < 32" for w :: u32
proof -
  have "bit (w AND push_bit j 1) k \<longleftrightarrow> k = j \<and> bit w j" for k
    using that by (auto simp: bit_simps)
  then show ?thesis by (metis bit_0_eq bit_word_eqI bot_apply bot_bool_def)
qed

lemma not_all_ones: "\<not> bit w j \<Longrightarrow> j < 32 \<Longrightarrow> w \<noteq> 0xFFFFFFFF" for w :: u32
proof
  assume "\<not> bit w j" and "j < 32" and "w = 0xFFFFFFFF"
  moreover have "(0xFFFFFFFF :: u32) = mask 32" by (simp add: mask_eq_exp_minus_1)
  ultimately show False by (simp add: bit_mask_iff)
qed

text \<open>Two nested loops over the bits of the words: the first position with \<open>P\<close>, in increasing order.\<close>

lemma nested_scan_None:
  assumes "first_some (\<lambda>i. if G i then first_some (\<lambda>j. if P i j then Some (i * 32 + j) else None) [0..<32]
      else None) [0..<n] = None"
    and "\<And>i j. j < 32 \<Longrightarrow> P i j \<Longrightarrow> G i" and "f < 32 * n"
  shows "\<not> P (f div 32) (f mod 32)"
proof
  assume P: "P (f div 32) (f mod 32)"
  have "f div 32 < n" using assms(3) by (simp add: less_mult_imp_div_less mult.commute)
  then have "first_some (\<lambda>j. if P (f div 32) j then Some (f div 32 * 32 + j) else None) [0..<32] = None"
    using assms(1) assms(2) [OF _ P] by (auto simp: first_some_None_iff split: if_splits)
  then have "(if P (f div 32) (f mod 32) then Some (f div 32 * 32 + f mod 32) else None) = None"
    unfolding first_some_None_iff by (rule bspec) simp
  then show False using P by simp
qed

lemma nested_scan_Some:
  assumes "first_some (\<lambda>i. if G i then first_some (\<lambda>j. if P i j then Some (i * 32 + j) else None) [0..<32]
      else None) [0..<n] = Some f"
    and "\<And>i j. j < 32 \<Longrightarrow> P i j \<Longrightarrow> G i"
  shows "f < 32 * n \<and> P (f div 32) (f mod 32) \<and> (\<forall>g<f. \<not> P (g div 32) (g mod 32))"
proof -
  let ?in = "\<lambda>i. first_some (\<lambda>j. if P i j then Some (i * 32 + j) else None) [0..<32]"
  from first_some_upt_Some [OF assms(1)] obtain i
    where i: "i < n" "G i" "?in i = Some f" "\<forall>i'<i. G i' \<longrightarrow> ?in i' = None"
    by (fastforce split: if_splits)
  from first_some_upt_Some [OF i(3)] obtain j
    where j: "j < 32" "P i j" "f = i * 32 + j" "\<forall>j'<j. \<not> P i j'"
    by (auto split: if_splits)
  then have f: "f div 32 = i" "f mod 32 = j" by auto
  have "\<not> P (g div 32) (g mod 32)" if "g < f" for g
  proof (cases "g div 32 = i")
    case True
    have "g div 32 * 32 + g mod 32 = g" by (rule div_mult_mod_eq)
    then have "g mod 32 < j" using that j(3) True by linarith
    then show ?thesis using j(4) True by simp
  next
    case False
    moreover have "g div 32 \<le> f div 32" using that by (intro div_le_mono) simp
    ultimately have lt: "g div 32 < i" using f by simp
    show ?thesis
    proof
      assume P: "P (g div 32) (g mod 32)"
      then have "?in (g div 32) = None" using i(4) lt assms(2) [OF _ P] by simp
      then have "(if P (g div 32) (g mod 32) then Some (g div 32 * 32 + g mod 32) else None) = None"
        unfolding first_some_None_iff by (rule bspec) simp
      then show False using P by simp
    qed
  qed
  moreover have "f < 32 * n" using i(1) j(1,3) by linarith
  moreover have "P (f div 32) (f mod 32)" using j(2) f by simp
  ultimately show ?thesis by simp
qed

definition scan_limit :: "'a pmm_state_scheme \<Rightarrow> nat" where
  "scan_limit s = 32 * unat (pmm_max_blocks s div 32)"

lemma scan_limit_le: "scan_limit s \<le> unat (pmm_max_blocks s)" "scan_limit s < 2 ^ 32"
proof -
  show le: "scan_limit s \<le> unat (pmm_max_blocks s)" by (simp add: scan_limit_def unat_div)
  show "scan_limit s < 2 ^ 32"
    using le unsigned_less [of "pmm_max_blocks s", where 'a = nat] by simp
qed

lemma bitmap_first_free_alt:
  "bitmap_first_free s =
     (case first_some (\<lambda>i. if bitmap_word s (of_nat i) \<noteq> 0xFFFFFFFF
             then first_some (\<lambda>j. if \<not> bit (bitmap_word s (of_nat i)) j then Some (i * 32 + j) else None)
               [0..<32] else None)
           [0..<unat (pmm_max_blocks s div 32)] of None \<Rightarrow> -1 | Some f \<Rightarrow> int f)"
  unfolding bitmap_first_free_def Let_def
  by (intro arg_cong [where f = "case_option (-1) int"] first_some_cong if_cong)
    (auto simp: and_push_bit_zero simp del: push_bit_of_1)

lemma bitmap_first_free_none:
  assumes "bitmap_first_free s = -1" and "f < scan_limit s"
  shows "bitmap_test s (of_nat f)"
proof -
  have "first_some (\<lambda>i. if bitmap_word s (of_nat i) \<noteq> 0xFFFFFFFF
      then first_some (\<lambda>j. if \<not> bit (bitmap_word s (of_nat i)) j then Some (i * 32 + j) else None) [0..<32]
      else None) [0..<unat (pmm_max_blocks s div 32)] = None"
    using assms(1) by (simp add: bitmap_first_free_alt split: option.splits)
  then have "\<not> \<not> bit (bitmap_word s (of_nat (f div 32))) (f mod 32)"
    by (rule nested_scan_None) (use assms not_all_ones in \<open>auto simp: scan_limit_def\<close>)
  then show ?thesis using assms(2) scan_limit_le(2) [of s] by (simp add: bitmap_test_of_nat)
qed

lemma bitmap_first_free_some:
  assumes "bitmap_first_free s \<noteq> -1"
  shows "\<exists>f. bitmap_first_free s = int f \<and> f < scan_limit s \<and> \<not> bitmap_test s (of_nat f) \<and>
    (\<forall>g<f. bitmap_test s (of_nat g))"
proof -
  from assms obtain f where f: "bitmap_first_free s = int f"
    and some: "first_some (\<lambda>i. if bitmap_word s (of_nat i) \<noteq> 0xFFFFFFFF
      then first_some (\<lambda>j. if \<not> bit (bitmap_word s (of_nat i)) j then Some (i * 32 + j) else None) [0..<32]
      else None) [0..<unat (pmm_max_blocks s div 32)] = Some f"
    by (auto simp: bitmap_first_free_alt split: option.splits)
  have "f < 32 * unat (pmm_max_blocks s div 32) \<and> \<not> bit (bitmap_word s (of_nat (f div 32))) (f mod 32) \<and>
    (\<forall>g<f. \<not> \<not> bit (bitmap_word s (of_nat (g div 32))) (g mod 32))"
    using some by (rule nested_scan_Some) (use not_all_ones in auto)
  then show ?thesis
    using f scan_limit_le(2) [of s]
    by (intro exI [of _ f]) (simp add: scan_limit_def bitmap_test_of_nat)
qed

lemma free_run_iff:
  assumes "unat sz = k + n" and "unat fr \<le> k"
  shows "free_run s start sz n (of_nat k) fr \<longleftrightarrow>
    0 < n \<and> unat fr = k \<and> (\<forall>i. k \<le> i \<and> i < unat sz \<longrightarrow> \<not> bitmap_test s (start + of_nat i))"
  using assms
proof (induction n arbitrary: k fr)
  case (Suc n)
  let ?free = "\<not> bitmap_test s (start + of_nat k)"
  define fr' where "fr' = (if ?free then fr + 1 else fr)"
  have b: "unat sz < 2 ^ 32" using unsigned_less [of sz, where 'a = nat] by simp
  have u: "unat fr' = (if ?free then Suc (unat fr) else unat fr)"
    using Suc.prems b by (auto simp: fr'_def unat_word_ariths)
  have eq: "fr' = sz \<longleftrightarrow> unat fr' = k + Suc n"
    using Suc.prems by (auto intro: unat_word_inj)
  have split: "(\<forall>i. k \<le> i \<and> i < unat sz \<longrightarrow> P i) \<longleftrightarrow> P k \<and> (\<forall>i. Suc k \<le> i \<and> i < unat sz \<longrightarrow> P i)" for P
    using Suc.prems by (auto simp: Suc_le_eq) (metis le_neq_implies_less)
  have IH: "free_run s start sz n (of_nat k + 1) fr' \<longleftrightarrow>
    0 < n \<and> unat fr' = Suc k \<and> (\<forall>i. Suc k \<le> i \<and> i < unat sz \<longrightarrow> \<not> bitmap_test s (start + of_nat i))"
    using Suc.IH [of "Suc k" fr'] Suc.prems u by (simp add: add.commute split: if_splits)
  have step: "free_run s start sz (Suc n) (of_nat k) fr \<longleftrightarrow>
    fr' = sz \<or> free_run s start sz n (of_nat k + 1) fr'"
    by (simp add: Let_def fr'_def)
  show ?case
  proof (cases "n = 0")
    case True
    then have "(\<forall>i. k \<le> i \<and> i < unat sz \<longrightarrow> P i) \<longleftrightarrow> P k" for P
      using Suc.prems by (metis add_Suc_right le_less_Suc_eq add_0_right order_refl lessI)
    then show ?thesis unfolding step IH eq using True Suc.prems u by (simp split: if_splits)
  next
    case False
    then show ?thesis unfolding step IH eq using u Suc.prems split [of "\<lambda>i. \<not> bitmap_test s (start + of_nat i)"]
      by (simp split: if_splits)
  qed
qed simp

lemma free_run_all:
  assumes "sz \<noteq> 0"
  shows "free_run s start sz (unat sz) 0 0 \<longleftrightarrow>
    (\<forall>i<unat sz. \<not> bitmap_test s (start + of_nat i))"
  using free_run_iff [of sz 0 "unat sz" 0 s start] assms by (simp add: unat_gt_0)

lemma bitmap_first_free_s_alt:
  assumes "sz \<noteq> 0" and "sz \<noteq> 1"
  shows "bitmap_first_free_s s sz =
     (case first_some (\<lambda>i. if bitmap_word s (of_nat i) \<noteq> 0xFFFFFFFF
             then first_some (\<lambda>j. if \<not> bit (bitmap_word s (of_nat i)) j \<and>
                 (\<forall>k<unat sz. \<not> bitmap_test s (of_nat (i * 32 + j) + of_nat k))
               then Some (i * 32 + j) else None)
               [0..<32] else None)
           [0..<unat (pmm_max_blocks s div 32)] of None \<Rightarrow> -1 | Some f \<Rightarrow> int f)"
proof -
  have inner: "(if bitmap_word s (of_nat i) AND push_bit j 1 = 0
      then if free_run s (of_nat i * 32 + of_nat j) sz (unat sz) 0 0 then Some (i * 32 + j) else None
      else None) =
    (if \<not> bit (bitmap_word s (of_nat i)) j \<and>
        (\<forall>k<unat sz. \<not> bitmap_test s (of_nat (i * 32 + j) + of_nat k))
     then Some (i * 32 + j) else None)" if "j \<in> set [0..<32]" for i j :: nat
    using that assms(1) by (simp add: and_push_bit_zero free_run_all del: push_bit_of_1)
  have scan: "first_some (\<lambda>j. if bitmap_word s (of_nat i) AND push_bit j 1 = 0
      then if free_run s (of_nat i * 32 + of_nat j) sz (unat sz) 0 0 then Some (i * 32 + j) else None
      else None) [0..<32] =
    first_some (\<lambda>j. if \<not> bit (bitmap_word s (of_nat i)) j \<and>
        (\<forall>k<unat sz. \<not> bitmap_test s (of_nat (i * 32 + j) + of_nat k))
     then Some (i * 32 + j) else None) [0..<32]" for i :: nat
    by (rule first_some_cong [OF refl inner])
  show ?thesis
    unfolding bitmap_first_free_s_def Let_def scan using assms by simp
qed

text \<open>All \<open>sz\<close> frames from \<open>f\<close> on are free.\<close>

definition run_free :: "'a pmm_state_scheme \<Rightarrow> nat \<Rightarrow> nat \<Rightarrow> bool" where
  "run_free s f sz \<longleftrightarrow> (\<forall>k < sz. \<not> bitmap_test s (of_nat (f + k)))"

lemma bitmap_first_free_s_none:
  assumes "bitmap_first_free_s s sz = -1" and "sz \<noteq> 0" and "f < scan_limit s"
  shows "\<not> run_free s f (unat sz)"
proof (cases "sz = 1")
  case True
  then show ?thesis
    using assms bitmap_first_free_none [of s f] by (simp add: bitmap_first_free_s_def run_free_def)
next
  case False
  have "first_some (\<lambda>i. if bitmap_word s (of_nat i) \<noteq> 0xFFFFFFFF
      then first_some (\<lambda>j. if \<not> bit (bitmap_word s (of_nat i)) j \<and>
          (\<forall>k<unat sz. \<not> bitmap_test s (of_nat (i * 32 + j) + of_nat k))
        then Some (i * 32 + j) else None) [0..<32] else None)
    [0..<unat (pmm_max_blocks s div 32)] = None"
    using assms(1) bitmap_first_free_s_alt [OF assms(2) False, of s] by (simp split: option.splits)
  then have n: "\<not> (\<not> bit (bitmap_word s (of_nat (f div 32))) (f mod 32) \<and>
      (\<forall>k<unat sz. \<not> bitmap_test s (of_nat (f div 32 * 32 + f mod 32) + of_nat k)))"
    by (rule nested_scan_None) (use assms not_all_ones in \<open>auto simp: scan_limit_def\<close>)
  have "\<not> bit (bitmap_word s (of_nat (f div 32))) (f mod 32) \<longleftrightarrow> \<not> bitmap_test s (of_nat f)"
    using assms(3) scan_limit_le(2) [of s] by (simp add: bitmap_test_of_nat)
  moreover have "run_free s f (unat sz) \<Longrightarrow> \<not> bitmap_test s (of_nat f)"
    using assms(2) unfolding run_free_def by (metis add_0_right unat_gt_0)
  ultimately show ?thesis using n by (auto simp: run_free_def)
qed

lemma bitmap_first_free_s_some:
  assumes "bitmap_first_free_s s sz \<noteq> -1"
  shows "\<exists>f. bitmap_first_free_s s sz = int f \<and> f < scan_limit s \<and> run_free s f (unat sz) \<and>
    (\<forall>g<f. \<not> run_free s g (unat sz))"
proof -
  have nz: "sz \<noteq> 0" using assms by (auto simp: bitmap_first_free_s_def)
  show ?thesis
  proof (cases "sz = 1")
    case True
    then show ?thesis
      using assms bitmap_first_free_some [of s] by (auto simp: bitmap_first_free_s_def run_free_def)
  next
    case False
    let ?P = "\<lambda>i j. \<not> bit (bitmap_word s (of_nat i)) j \<and>
      (\<forall>k<unat sz. \<not> bitmap_test s (of_nat (i * 32 + j) + of_nat k))"
    from assms obtain f where f: "bitmap_first_free_s s sz = int f"
      and some: "first_some (\<lambda>i. if bitmap_word s (of_nat i) \<noteq> 0xFFFFFFFF
        then first_some (\<lambda>j. if ?P i j then Some (i * 32 + j) else None) [0..<32] else None)
        [0..<unat (pmm_max_blocks s div 32)] = Some f"
      unfolding bitmap_first_free_s_alt [OF nz False] by (auto split: option.splits)
    have sc: "f < 32 * unat (pmm_max_blocks s div 32) \<and> ?P (f div 32) (f mod 32) \<and>
      (\<forall>g<f. \<not> ?P (g div 32) (g mod 32))"
      using some by (rule nested_scan_Some) (use not_all_ones in auto)
    have P: "?P (g div 32) (g mod 32) \<longleftrightarrow> run_free s g (unat sz)" if "g < scan_limit s" for g
    proof -
      have "\<not> bit (bitmap_word s (of_nat (g div 32))) (g mod 32) \<longleftrightarrow> \<not> bitmap_test s (of_nat g)"
        using that scan_limit_le(2) [of s] by (simp add: bitmap_test_of_nat)
      moreover have "run_free s g (unat sz) \<Longrightarrow> \<not> bitmap_test s (of_nat g)"
        using nz unfolding run_free_def by (metis add_0_right unat_gt_0)
      ultimately show ?thesis by (auto simp: run_free_def)
    qed
    have "f < scan_limit s" using sc by (simp add: scan_limit_def)
    moreover from this have "run_free s f (unat sz)" using sc P by blast
    moreover have "\<not> run_free s g (unat sz)" if "g < f" for g
      using sc P [of g] that \<open>f < scan_limit s\<close> by auto
    ultimately show ?thesis using f by blast
  qed
qed

section \<open>The invariant\<close>

text \<open>
  At most \<open>2\<^sup>2\<^sup>0\<close> frames (4 GiB), a whole number of bitmap words, the counter equal to the number of
  frames marked used, and frame 0 used, so that NULL is never handed out.
\<close>

definition pmm_count :: "'a pmm_state_scheme \<Rightarrow> nat" where
  "pmm_count s = count_below (unat (pmm_max_blocks s)) (\<lambda>f. bitmap_test s (of_nat f))"

definition pmm_wf :: "'a pmm_state_scheme \<Rightarrow> bool" where
  "pmm_wf s \<longleftrightarrow> unat (pmm_max_blocks s) \<le> 2 ^ 20 \<and> unat (pmm_max_blocks s) mod 32 = 0 \<and>
     unat (pmm_used_blocks s) = pmm_count s \<and> bitmap_test s 0"

lemmas bitmap_test_set = pmm_bits.test_set [OF TrueI TrueI]
  and bitmap_test_unset = pmm_bits.test_clear [OF TrueI TrueI]

lemma pmm_count_upd [simp]:
  "pmm_count (s\<lparr>pmm_used_blocks := u\<rparr>) = pmm_count s"
  by (simp add: pmm_count_def)

lemma pmm_count_set:
  assumes "f < unat (pmm_max_blocks s)" and "\<not> bitmap_test s (of_nat f)"
  shows "pmm_count (bitmap_set (of_nat f) s) = Suc (pmm_count s)"
proof -
  have "unat (pmm_max_blocks s) \<le> 2 ^ 32"
    using unsigned_less [of "pmm_max_blocks s", where 'a = nat] by simp
  then show ?thesis using assms pmm_bits.count_set by (simp add: pmm_count_def)
qed

lemma pmm_count_unset:
  assumes "f < unat (pmm_max_blocks s)" and "bitmap_test s (of_nat f)"
  shows "Suc (pmm_count (bitmap_unset (of_nat f) s)) = pmm_count s"
proof -
  have "unat (pmm_max_blocks s) \<le> 2 ^ 32"
    using unsigned_less [of "pmm_max_blocks s", where 'a = nat] by simp
  then show ?thesis using assms pmm_bits.count_clear by (simp add: pmm_count_def)
qed

lemma pmm_wf_scan_limit: "pmm_wf s \<Longrightarrow> scan_limit s = unat (pmm_max_blocks s)"
proof -
  assume "pmm_wf s"
  then have "unat (pmm_max_blocks s) mod 32 = 0" by (simp add: pmm_wf_def)
  then show ?thesis using div_mult_mod_eq [of "unat (pmm_max_blocks s)" 32]
    by (simp add: scan_limit_def unat_div)
qed

section \<open>Allocation and release of one frame\<close>

lemma pmm_wf_used_le: "pmm_wf s \<Longrightarrow> pmm_used_blocks s \<le> pmm_max_blocks s"
  by (simp add: pmm_wf_def pmm_count_def word_le_nat_alt count_below_le)

lemma pmm_free_count_zero:
  assumes "pmm_wf s"
  shows "pmm_get_free_block_count s = 0 \<longleftrightarrow> (\<forall>f < unat (pmm_max_blocks s). bitmap_test s (of_nat f))"
proof -
  have "pmm_get_free_block_count s = 0 \<longleftrightarrow> unat (pmm_used_blocks s) = unat (pmm_max_blocks s)"
    by (auto simp: pmm_get_free_block_count_def intro: unat_word_inj)
  then show ?thesis using assms by (simp add: pmm_wf_def pmm_count_def count_below_full)
qed

lemma pmm_wf_set:
  assumes "pmm_wf s" and "f < unat (pmm_max_blocks s)" and "\<not> bitmap_test s (of_nat f)"
  shows "pmm_wf ((bitmap_set (of_nat f) s)\<lparr>pmm_used_blocks := pmm_used_blocks s + 1\<rparr>)"
proof -
  have "pmm_count (bitmap_set (of_nat f) s) \<le> 2 ^ 20"
    using assms(1) count_below_le [of "unat (pmm_max_blocks s)"
        "\<lambda>g. bitmap_test (bitmap_set (of_nat f) s) (of_nat g)"]
    by (simp add: pmm_wf_def pmm_count_def)
  then have "unat (pmm_used_blocks s + 1) = Suc (unat (pmm_used_blocks s))"
    using assms by (simp add: pmm_wf_def pmm_count_set unat_word_ariths)
  then show ?thesis using assms by (simp add: pmm_wf_def pmm_count_set bitmap_test_set)
qed

lemma pmm_wf_unset:
  assumes "pmm_wf s" and "f < unat (pmm_max_blocks s)" and "f \<noteq> 0" and "bitmap_test s (of_nat f)"
  shows "pmm_wf ((bitmap_unset (of_nat f) s)\<lparr>pmm_used_blocks := pmm_used_blocks s - 1\<rparr>)"
proof -
  have c: "Suc (pmm_count (bitmap_unset (of_nat f) s)) = unat (pmm_used_blocks s)"
    using assms by (simp add: pmm_wf_def pmm_count_unset)
  then have "unat (pmm_used_blocks s - 1) = pmm_count (bitmap_unset (of_nat f) s)"
    by (simp add: unat_sub_if' word_le_nat_alt)
  moreover have "(of_nat f :: u32) \<noteq> 0"
    using assms(2,3) unsigned_less [of "pmm_max_blocks s", where 'a = nat]
      of_nat_word_inj [of f 0, where 'a = 32] by simp
  ultimately show ?thesis using assms by (simp add: pmm_wf_def bitmap_test_unset)
qed

lemma pmm_alloc_block_cases:
  assumes "pmm_wf s"
  obtains (full) "\<forall>f < unat (pmm_max_blocks s). bitmap_test s (of_nat f)" and "pmm_alloc_block s = (0, s)"
  | (frame) f where "0 < f" and "f < unat (pmm_max_blocks s)" and "\<not> bitmap_test s (of_nat f)"
      and "\<forall>g<f. bitmap_test s (of_nat g)"
      and "pmm_alloc_block s =
        (of_nat (4096 * f), (bitmap_set (of_nat f) s)\<lparr>pmm_used_blocks := pmm_used_blocks s + 1\<rparr>)"
proof (cases "pmm_get_free_block_count s = 0")
  case True
  then show thesis using pmm_free_count_zero [OF assms] by (intro full) (auto simp: pmm_alloc_block_def)
next
  case False
  then have "bitmap_first_free s \<noteq> -1"
    using pmm_free_count_zero [OF assms] bitmap_first_free_none pmm_wf_scan_limit [OF assms] by metis
  from bitmap_first_free_some [OF this] obtain f where f: "bitmap_first_free s = int f" "f < scan_limit s"
    "\<not> bitmap_test s (of_nat f)" "\<forall>g<f. bitmap_test s (of_nat g)" by blast
  moreover have "0 < f" using f(3) assms by (auto simp: pmm_wf_def intro: gr0I)
  ultimately show thesis
    using False pmm_wf_scan_limit [OF assms] by (intro frame) (auto simp: pmm_alloc_block_def mult.commute)
qed

lemma frame_address:
  "f < 2 ^ 20 \<Longrightarrow> (of_nat (4096 * f) :: u32) div 4096 = of_nat f"
  "0 < f \<Longrightarrow> f < 2 ^ 20 \<Longrightarrow> (of_nat (4096 * f) :: u32) \<noteq> 0"
proof -
  assume f: "f < 2 ^ 20"
  have u: "unat (of_nat (4096 * f) :: u32) = 4096 * f" using f by (intro unat_of_nat_small) simp
  show "(of_nat (4096 * f) :: u32) div 4096 = of_nat f"
    by (rule unat_word_inj) (use f u in \<open>simp add: unat_div unat_of_nat_small\<close>)
  assume "0 < f"
  then show "(of_nat (4096 * f) :: u32) \<noteq> 0" using u by (metis mult_eq_0_iff not_gr_zero unat_0 zero_neq_numeral)
qed

text \<open>Clearing a bit that was just set gives the memory back, byte for byte.\<close>

lemma store32_store32 [mem_simps]: "store32 a v (store32 a w m) = store32 a v m"
  by (auto simp: store32_def fun_eq_iff)

lemma byte_bit_high: "8 \<le> n \<Longrightarrow> \<not> bit w n" for w :: u8
  using bit_imp_le_length [of w n] by auto

lemma store32_load32 [mem_simps]: "store32 a (load32 m a) m = m"
proof -
  have b: "(ucast (drop_bit (8 * k) (load32 m a)) :: u8) = m (a + of_nat k)" if k4: "k < 4" for k
  proof (rule bit_word_eqI)
    fix n assume "n < LENGTH(8)"
    then have n: "n < 8" by simp
    consider "k = 0" | "k = 1" | "k = 2" | "k = 3" using k4 by linarith
    then show "bit (ucast (drop_bit (8 * k) (load32 m a)) :: u8) n = bit (m (a + of_nat k)) n"
      by cases (use n in \<open>simp_all add: load32_def bit_simps byte_bit_high\<close>)
  qed
  show ?thesis
    using b [of 0] b [of 1] b [of 2] b [of 3] by (auto simp: store32_def fun_eq_iff)
qed

lemma bitmap_unset_set:
  assumes "\<not> bitmap_test s b"
  shows "bitmap_unset b (bitmap_set b s) = s"
proof -
  let ?a = "pmm_bitmap s + 4 * (b div 32)"
  have "(bitmap_word s (b div 32) OR bit_mask b) AND NOT (bit_mask b) = bitmap_word s (b div 32)"
    using assms by (intro bit_word_eqI) (auto simp: bitmap_test_bit bit_simps bit_bit_mask)
  then show ?thesis
    by (simp add: bitmap_set_def bitmap_unset_def bitmap_word_def mem_simps)
qed

section \<open>Runs of frames\<close>

lemma fold_bitmap_set_frame [simp]:
  "pmm_max_blocks (fold bitmap_set xs s) = pmm_max_blocks s"
  "pmm_used_blocks (fold bitmap_set xs s) = pmm_used_blocks s"
  by (induction xs arbitrary: s) auto

lemma fold_set_run:
  "fold (\<lambda>i. bitmap_set (of_nat f + of_nat i)) [0..<n] s = fold bitmap_set (map of_nat [f..<f + n]) s"
proof -
  have "map of_nat [f..<f + n] = map (\<lambda>i. of_nat f + (of_nat i :: u32)) [0..<n]"
    by (rule nth_equalityI) auto
  then show ?thesis by (simp add: fold_map comp_def)
qed

lemma pmm_wf_set_run:
  assumes "pmm_wf s" and "f + n \<le> unat (pmm_max_blocks s)" and "run_free s f n"
  shows "pmm_wf ((fold bitmap_set (map of_nat [f..<f + n]) s)
    \<lparr>pmm_used_blocks := pmm_used_blocks s + of_nat n\<rparr>)"
proof -
  let ?m = "unat (pmm_max_blocks s)" and ?t = "fold bitmap_set (map of_nat [f..<f + n]) s"
  have m: "?m \<le> 2 ^ 20" using assms(1) by (simp add: pmm_wf_def)
  have free: "\<not> bitmap_test s (of_nat i)" if "i \<in> set [f..<f + n]" for i
    using that assms(3) unfolding run_free_def
    by (metis add_diff_inverse_nat atLeastLessThan_iff set_upt not_le nat_add_left_cancel_less)
  have c: "pmm_count ?t = n + pmm_count s"
    using pmm_bits.count_fold_set [where n = ?m and b = s, OF _ _ distinct_upt [of f "f + n"]] free m assms(2)
    by (simp add: pmm_count_def)
  have "pmm_count ?t \<le> ?m" unfolding pmm_count_def using count_below_le by simp
  then have "unat (pmm_used_blocks s) + n < 2 ^ 32" using c m assms(1) by (simp add: pmm_wf_def)
  then have "unat (pmm_used_blocks s + of_nat n) = unat (pmm_used_blocks s) + n"
    by (simp add: unat_word_ariths unat_of_nat)
  then show ?thesis
    using assms(1) c pmm_bits.test_fold_set [of "map of_nat [f..<f + n]" s 0] by (simp add: pmm_wf_def)
qed

lemma pmm_alloc_blocks_cases:
  assumes "pmm_wf s" and "count \<noteq> 0"
  obtains (short) "pmm_get_free_block_count s < count" and "pmm_alloc_blocks count s = (0, s)"
  | (none) "\<forall>f < unat (pmm_max_blocks s). \<not> run_free s f (unat count)" and "pmm_alloc_blocks count s = (0, s)"
  | (run) f where "count \<le> pmm_get_free_block_count s" and "0 < f" and "f < unat (pmm_max_blocks s)"
      and "run_free s f (unat count)" and "\<forall>g<f. \<not> run_free s g (unat count)"
      and "pmm_alloc_blocks count s =
        (of_nat (4096 * f), (fold bitmap_set (map of_nat [f..<f + unat count]) s)
          \<lparr>pmm_used_blocks := pmm_used_blocks s + of_nat (unat count)\<rparr>)"
proof (cases "pmm_get_free_block_count s < count")
  case True
  then show thesis by (intro short) (auto simp: pmm_alloc_blocks_def)
next
  case enough: False
  show thesis
  proof (cases "bitmap_first_free_s s count = -1")
    case True
    then show thesis
      using bitmap_first_free_s_none [OF True assms(2)] pmm_wf_scan_limit [OF assms(1)] enough
      by (intro none) (auto simp: pmm_alloc_blocks_def)
  next
    case False
    from bitmap_first_free_s_some [OF False] obtain f where f: "bitmap_first_free_s s count = int f"
      "f < scan_limit s" "run_free s f (unat count)" "\<forall>g<f. \<not> run_free s g (unat count)" by blast
    moreover have "0 < f"
    proof (rule gr0I)
      assume "f = 0"
      then have "\<not> bitmap_test s (of_nat (0 + 0))"
        using f(3) assms(2) unfolding run_free_def by (metis unat_gt_0)
      then show False using assms(1) by (simp add: pmm_wf_def)
    qed
    ultimately show thesis
      using enough pmm_wf_scan_limit [OF assms(1)]
      by (intro run) (auto simp: pmm_alloc_blocks_def mult.commute fold_set_run)
  qed
qed

section \<open>Initialisation\<close>

lemma unset_blocks_test:
  "bitmap_test (unset_blocks n (int a) s) j \<longleftrightarrow> bitmap_test s j \<and> j \<notin> of_nat ` {a..<a + n}"
proof (induction n arbitrary: a s)
  case (Suc n)
  have "{a..<a + Suc n} = insert a {Suc a..<Suc a + n}" by auto
  then show ?case
    using Suc.IH [of "Suc a" "(bitmap_unset (of_nat a) s)\<lparr>pmm_used_blocks := pmm_used_blocks s - 1\<rparr>"]
    by (auto simp: add.commute bitmap_test_unset)
qed simp

lemma set_blocks_test:
  "bitmap_test (set_blocks n (int a) s) j \<longleftrightarrow> bitmap_test s j \<or> j \<in> of_nat ` {a..<a + n}"
proof (induction n arbitrary: a s)
  case (Suc n)
  have "{a..<a + Suc n} = insert a {Suc a..<Suc a + n}" by auto
  then show ?case
    using Suc.IH [of "Suc a" "(bitmap_set (of_nat a) s)\<lparr>pmm_used_blocks := pmm_used_blocks s + 1\<rparr>"]
    by (auto simp: add.commute bitmap_test_set)
qed simp

lemma blocks_frame [simp]:
  "pmm_max_blocks (unset_blocks n a s) = pmm_max_blocks s"
  "pmm_max_blocks (set_blocks n a s) = pmm_max_blocks s"
  "pmm_bitmap (unset_blocks n a s) = pmm_bitmap s"
  "pmm_bitmap (set_blocks n a s) = pmm_bitmap s"
  by (induction n arbitrary: a s) auto

lemma of_nat_image_iff:
  "k < 2 ^ 32 \<Longrightarrow> b \<le> 2 ^ 32 \<Longrightarrow> (of_nat k :: u32) \<in> of_nat ` {a..<b} \<longleftrightarrow> a \<le> k \<and> k < b"
  by (auto simp: of_nat_word_inj)

text \<open>Releasing and reserving a region keeps the counter exact as long as every frame changes state.\<close>

lemma pmm_wf_unset_blocks:
  assumes "pmm_wf s" and "0 < a" and "a + n \<le> unat (pmm_max_blocks s)"
    and "\<forall>g. a \<le> g \<and> g < a + n \<longrightarrow> bitmap_test s (of_nat g)"
  shows "pmm_wf (unset_blocks n (int a) s)"
  using assms
proof (induction n arbitrary: a s)
  case (Suc n)
  let ?t = "(bitmap_unset (of_nat a) s)\<lparr>pmm_used_blocks := pmm_used_blocks s - 1\<rparr>"
  have m: "unat (pmm_max_blocks s) \<le> 2 ^ 20" using Suc.prems(1) by (simp add: pmm_wf_def)
  have "pmm_wf ?t" using Suc.prems by (intro pmm_wf_unset) auto
  moreover have "\<forall>g. Suc a \<le> g \<and> g < Suc a + n \<longrightarrow> bitmap_test ?t (of_nat g)"
    using Suc.prems m by (auto simp: bitmap_test_unset of_nat_word_inj)
  ultimately have "pmm_wf (unset_blocks n (int (Suc a)) ?t)"
    using Suc.prems by (intro Suc.IH) auto
  then show ?case by (simp add: add.commute)
qed simp

lemma pmm_wf_set_blocks:
  assumes "pmm_wf s" and "a + n \<le> unat (pmm_max_blocks s)"
    and "\<forall>g. a \<le> g \<and> g < a + n \<longrightarrow> \<not> bitmap_test s (of_nat g)"
  shows "pmm_wf (set_blocks n (int a) s)"
  using assms
proof (induction n arbitrary: a s)
  case (Suc n)
  let ?t = "(bitmap_set (of_nat a) s)\<lparr>pmm_used_blocks := pmm_used_blocks s + 1\<rparr>"
  have m: "unat (pmm_max_blocks s) \<le> 2 ^ 20" using Suc.prems(1) by (simp add: pmm_wf_def)
  have "pmm_wf ?t" using Suc.prems by (intro pmm_wf_set) auto
  moreover have "\<forall>g. Suc a \<le> g \<and> g < Suc a + n \<longrightarrow> \<not> bitmap_test ?t (of_nat g)"
    using Suc.prems m by (auto simp: bitmap_test_set of_nat_word_inj)
  ultimately have "pmm_wf (set_blocks n (int (Suc a)) ?t)"
    using Suc.prems by (intro Suc.IH) auto
  then show ?case by (simp add: add.commute)
qed simp

lemma load32_ones:
  assumes "\<forall>k<4. m (a + of_nat k) = 0xFF"
  shows "load32 m a = 0xFFFFFFFF"
proof -
  have "m a = 0xFF" "m (a + 1) = 0xFF" "m (a + 2) = 0xFF" "m (a + 3) = 0xFF"
    using assms [rule_format, of 0] assms [rule_format, of 1] assms [rule_format, of 2]
      assms [rule_format, of 3] by auto
  then show ?thesis by (simp add: load32_def)
qed

lemma pmm_init_test:
  assumes q: "unat mem_size = 131072 * q" and f: "f < 32 * q"
  shows "bitmap_test (pmm_init mem_size ba s) (of_nat f)"
proof -
  let ?t = "pmm_init mem_size ba s"
  have ql: "q < 2 ^ 15" using unsigned_less [of mem_size, where 'a = nat] q by simp
  have sz: "unat (mem_size div 4096 div 8) = 4 * q" using q by (simp add: unat_div)
  have g: "f div 32 < q" using f by (simp add: less_mult_imp_div_less mult.commute)
  have "kmem ?t (ba + 4 * of_nat (f div 32) + of_nat k) = 0xFF" if "k < 4" for k
  proof -
    have "4 * of_nat (f div 32) + of_nat k = (of_nat (4 * (f div 32) + k) :: u32)" by simp
    moreover have "4 * (f div 32) + k < 4 * q" using g that by linarith
    moreover have "unat (of_nat (4 * (f div 32) + k) :: u32) = 4 * (f div 32) + k"
      using calculation(2) ql by (intro unat_of_nat_small) simp
    ultimately have "4 * of_nat (f div 32) + of_nat k < mem_size div 4096 div (8 :: u32)"
      unfolding word_less_nat_alt sz by (metis (no_types))
    then show ?thesis by (simp add: pmm_init_def Let_def memset_apply add.assoc)
  qed
  then have "bitmap_word ?t (of_nat (f div 32)) = 0xFFFFFFFF"
    unfolding bitmap_word_def by (intro load32_ones) (simp add: pmm_init_def Let_def)
  moreover have "bit (0xFFFFFFFF :: u32) (f mod 32)"
    using not_all_ones [of "0xFFFFFFFF" "f mod 32"] by auto
  ultimately show ?thesis using f ql by (simp add: bitmap_test_of_nat)
qed

lemma pmm_init_wf:
  assumes q: "unat mem_size = 131072 * q" and "0 < q"
  shows "pmm_wf (pmm_init mem_size ba s)"
proof -
  let ?t = "pmm_init mem_size ba s"
  have m: "unat (pmm_max_blocks ?t) = 32 * q" using q by (simp add: pmm_init_def Let_def unat_div)
  have ql: "q < 2 ^ 15" using unsigned_less [of mem_size, where 'a = nat] q by simp
  have "pmm_count ?t = 32 * q"
    unfolding pmm_count_def m count_below_full using pmm_init_test [OF q] by blast
  moreover have "unat (pmm_used_blocks ?t) = 32 * q" using q by (simp add: pmm_init_def Let_def unat_div)
  moreover have "bitmap_test ?t (of_nat 0)" using pmm_init_test [OF q, of 0] assms(2) by simp
  ultimately show ?thesis using m ql by (simp add: pmm_wf_def)
qed

lemma sint_div: "unat w < 2 ^ 31 \<Longrightarrow> sint w sdiv 4096 = int (unat w div 4096)" for w :: u32
  by (cases "w = 0") (simp_all add: sint_small signed_divide_int_def zdiv_int)

lemma region_not_zero:
  assumes "0 < a" and "a + n \<le> 2 ^ 32"
  shows "(0 :: u32) \<notin> of_nat ` {a..<a + n}"
  using of_nat_image_iff [of 0 "a + n" a] assms by simp

lemma bitmap_set_already:
  assumes "bitmap_test s b"
  shows "bitmap_set b s = s"
proof -
  have "bitmap_word s (b div 32) OR bit_mask b = bitmap_word s (b div 32)"
    using assms by (intro bit_word_eqI) (auto simp: bitmap_test_bit bit_simps bit_bit_mask)
  then show ?thesis by (simp add: bitmap_set_def bitmap_word_def mem_simps)
qed

lemma pmm_init_region_ok:
  assumes "pmm_wf s" and "unat base < 2 ^ 31" and "unat sz < 2 ^ 31" and "4096 \<le> unat base"
    and "unat base div 4096 + unat sz div 4096 \<le> unat (pmm_max_blocks s)"
    and "\<forall>g. unat base div 4096 \<le> g \<and> g < unat base div 4096 + unat sz div 4096 \<longrightarrow>
      bitmap_test s (of_nat g)"
  shows "pmm_wf (pmm_init_region base sz s)"
    and "g < 2 ^ 32 \<Longrightarrow> bitmap_test (pmm_init_region base sz s) (of_nat g) \<longleftrightarrow> bitmap_test s (of_nat g) \<and>
      \<not> (unat base div 4096 \<le> g \<and> g < unat base div 4096 + unat sz div 4096)"
proof -
  define a n where "a = unat base div 4096" and "n = unat sz div 4096"
  have a: "0 < a" using assms(4) by (simp add: a_def div_greater_zero_iff)
  have m: "a + n \<le> 2 ^ 20" using assms(1,5) by (simp add: pmm_wf_def a_def n_def)
  have t0: "bitmap_test (unset_blocks n (int a) s) 0"
    unfolding unset_blocks_test using assms(1) region_not_zero [OF a] m by (simp add: pmm_wf_def)
  have eq: "pmm_init_region base sz s = unset_blocks n (int a) s"
    using bitmap_set_already [OF t0] assms(2,3)
    by (simp add: pmm_init_region_def sint_div a_def n_def flip: zdiv_int)
  show "pmm_wf (pmm_init_region base sz s)"
    unfolding eq by (rule pmm_wf_unset_blocks) (use assms a in \<open>auto simp: a_def n_def\<close>)
  assume "g < 2 ^ 32"
  then show "bitmap_test (pmm_init_region base sz s) (of_nat g) \<longleftrightarrow> bitmap_test s (of_nat g) \<and>
      \<not> (unat base div 4096 \<le> g \<and> g < unat base div 4096 + unat sz div 4096)"
    unfolding eq unset_blocks_test using m by (subst of_nat_image_iff) (auto simp: a_def n_def)
qed

lemma pmm_deinit_region_ok:
  assumes "pmm_wf s" and "unat base < 2 ^ 31" and "unat sz < 2 ^ 31"
    and "unat base div 4096 + unat sz div 4096 \<le> unat (pmm_max_blocks s)"
    and "\<forall>g. unat base div 4096 \<le> g \<and> g < unat base div 4096 + unat sz div 4096 \<longrightarrow>
      \<not> bitmap_test s (of_nat g)"
  shows "pmm_wf (pmm_deinit_region base sz s)"
    and "g < 2 ^ 32 \<Longrightarrow> bitmap_test (pmm_deinit_region base sz s) (of_nat g) \<longleftrightarrow> bitmap_test s (of_nat g) \<or>
      (unat base div 4096 \<le> g \<and> g < unat base div 4096 + unat sz div 4096)"
proof -
  define a n where "a = unat base div 4096" and "n = unat sz div 4096"
  have m: "a + n \<le> 2 ^ 20" using assms(1,4) by (simp add: pmm_wf_def a_def n_def)
  have eq: "pmm_deinit_region base sz s = set_blocks n (int a) s"
    using assms(2,3) by (simp add: pmm_deinit_region_def sint_div a_def n_def flip: zdiv_int)
  show "pmm_wf (pmm_deinit_region base sz s)"
    unfolding eq by (rule pmm_wf_set_blocks) (use assms in \<open>auto simp: a_def n_def\<close>)
  assume "g < 2 ^ 32"
  then show "bitmap_test (pmm_deinit_region base sz s) (of_nat g) \<longleftrightarrow> bitmap_test s (of_nat g) \<or>
      (unat base div 4096 \<le> g \<and> g < unat base div 4096 + unat sz div 4096)"
    unfolding eq set_blocks_test using m by (subst of_nat_image_iff) (auto simp: a_def n_def)
qed

section \<open>Properties\<close>

text \<open>
  A small concrete machine: 32 frames, the bitmap at \<open>0x1000\<close>, all frames used but 5 and 31, and
  the word after the bitmap zero.
\<close>

definition pmm_demo :: pmm_state where
  "pmm_demo = \<lparr>kmem = store32 0x1000 0x7FFFFFDF (\<lambda>_. 0), pmm_bitmap = 0x1000, pmm_bitmap_size = 4,
     pmm_memory_size = 131072, pmm_used_blocks = 30, pmm_max_blocks = 32\<rparr>"

lemma count_below_code [code]: "count_below n f = length (filter f [0..<n])"
  by (simp add: count_below_def length_filter_conv_card cong: conj_cong)

lemma pmm_demo_max [simp]: "pmm_max_blocks pmm_demo = 32"
  by (simp add: pmm_demo_def)

lemma pmm_demo_word:
  "bitmap_word pmm_demo 0 = 0x7FFFFFDF" "bitmap_word pmm_demo 1 = 0"
  by (simp_all add: bitmap_word_def pmm_demo_def load32_store32_other span32_def)
    (simp add: load32_def)

lemma pmm_demo_test:
  assumes "f < 64"
  shows "bitmap_test pmm_demo (of_nat f) \<longleftrightarrow> f < 32 \<and> f \<noteq> 5 \<and> f \<noteq> 31"
proof (cases "f < 32")
  case True
  have "(0x7FFFFFDF :: u32) = NOT (push_bit 5 1 OR push_bit 31 1)" by simp
  then have "bit (0x7FFFFFDF :: u32) f \<longleftrightarrow> f \<noteq> 5 \<and> f \<noteq> 31"
    using True by (auto simp only: bit_simps) auto
  then show ?thesis using True by (simp add: bitmap_test_of_nat pmm_demo_word)
next
  case False
  then have "f div 32 = 1" using assms by simp
  then show ?thesis using False assms by (simp add: bitmap_test_of_nat pmm_demo_word)
qed

lemma pmm_demo_wf: "pmm_wf pmm_demo"
proof -
  have "count_below 32 (\<lambda>f. bitmap_test pmm_demo (of_nat f)) = count_below 32 (\<lambda>f. f \<noteq> 5 \<and> f \<noteq> 31)"
    by (rule count_below_cong) (simp add: pmm_demo_test)
  also have "\<dots> = 30" by code_simp
  finally show ?thesis
    using pmm_demo_test [of 0] by (simp add: pmm_wf_def pmm_count_def) (simp add: pmm_demo_def)
qed



text \<open>
  freeing the frame that \<open>pmm_alloc_block\<close> just returned restores the allocator state and the
  memory, byte for byte.
\<close>

theorem pmm_alloc_free_block:
  assumes "pmm_wf s" and "pmm_alloc_block s = (p, s')" and "p \<noteq> 0"
  shows "pmm_free_block p s' = s"
  using assms(1)
proof (cases rule: pmm_alloc_block_cases)
  case full
  then show ?thesis using assms by simp
next
  case (frame f)
  have f: "f < 2 ^ 20" using frame(2) assms(1) by (simp add: pmm_wf_def)
  have s': "s' = (bitmap_set (of_nat f) s)\<lparr>pmm_used_blocks := pmm_used_blocks s + 1\<rparr>" and "p = of_nat (4096 * f)"
    using frame(5) assms(2) by auto
  then have "p div 4096 = of_nat f" using frame_address(1) [OF f] by simp
  moreover have "bitmap_unset b (t\<lparr>pmm_used_blocks := u\<rparr>) = (bitmap_unset b t)\<lparr>pmm_used_blocks := u\<rparr>"
    for b u and t :: "'a pmm_state_scheme"
    by (simp add: bitmap_unset_def bitmap_word_def)
  ultimately show ?thesis
    using bitmap_unset_set [OF frame(3)] by (simp add: pmm_free_block_def s')
qed

theorem pmm_alloc_free_block_witness:
  "pmm_wf pmm_demo \<and> fst (pmm_alloc_block pmm_demo) \<noteq> 0 \<and>
   pmm_free_block (fst (pmm_alloc_block pmm_demo)) (snd (pmm_alloc_block pmm_demo)) = pmm_demo"
proof -
  have "fst (pmm_alloc_block pmm_demo) \<noteq> 0"
    using pmm_demo_wf
  proof (cases rule: pmm_alloc_block_cases)
    case full
    then show ?thesis using pmm_demo_test [of 5] by (auto dest!: spec [of _ 5])
  next
    case (frame f)
    then show ?thesis using frame_address(2) [of f] by simp
  qed
  then show ?thesis using pmm_alloc_free_block [OF pmm_demo_wf prod.collapse [symmetric]] pmm_demo_wf by blast
qed

text \<open>
  under the invariant, a request for \<open>count > 0\<close> contiguous frames is refused without any change
  when fewer frames are free or no run of that length starts below the limit; otherwise the lowest
  such run is returned, exactly its frames become used, and the invariant is kept if the run ends
  below the limit.
\<close>

theorem pmm_alloc_blocks_correct:
  assumes "pmm_wf s" and "count \<noteq> 0" and "pmm_alloc_blocks count s = (p, s')"
  shows "if pmm_get_free_block_count s < count \<or>
        (\<forall>f < unat (pmm_max_blocks s). \<not> run_free s f (unat count))
    then p = 0 \<and> s' = s
    else \<exists>f < unat (pmm_max_blocks s). p = of_nat (4096 * f) \<and> p \<noteq> 0 \<and> run_free s f (unat count) \<and>
      (\<forall>g<f. \<not> run_free s g (unat count)) \<and>
      (\<forall>g < 2 ^ 32. bitmap_test s' (of_nat g) \<longleftrightarrow>
         f \<le> g \<and> g < f + unat count \<or> bitmap_test s (of_nat g)) \<and>
      (f + unat count \<le> unat (pmm_max_blocks s) \<longrightarrow> pmm_wf s')"
  using assms(1,2)
proof (cases rule: pmm_alloc_blocks_cases)
  case short
  then show ?thesis using assms by simp
next
  case none
  then show ?thesis using assms by simp
next
  case (run f)
  have m: "unat (pmm_max_blocks s) \<le> 2 ^ 20" using assms(1) by (simp add: pmm_wf_def)
  have "unat (pmm_get_free_block_count s) \<le> unat (pmm_max_blocks s)"
    using pmm_wf_used_le [OF assms(1)] by (simp add: pmm_get_free_block_count_def unat_sub_le)
  then have c: "f + unat count \<le> 2 ^ 32" using run(1,3) m by (simp add: word_le_nat_alt)
  have s': "p = of_nat (4096 * f)" "s' = (fold bitmap_set (map of_nat [f..<f + unat count]) s)
      \<lparr>pmm_used_blocks := pmm_used_blocks s + of_nat (unat count)\<rparr>"
    using run(6) assms(3) by auto
  have "bitmap_test s' (of_nat g) \<longleftrightarrow> f \<le> g \<and> g < f + unat count \<or> bitmap_test s (of_nat g)"
    if "g < 2 ^ 32" for g
    unfolding s' bitmap_test_used using that c of_nat_image_iff [of g "f + unat count" f]
    by (subst pmm_bits.test_fold_set) auto
  moreover have "pmm_wf s'" if "f + unat count \<le> unat (pmm_max_blocks s)"
    unfolding s' by (rule pmm_wf_set_run [OF assms(1) that run(4)])
  moreover have "p \<noteq> 0" using s' frame_address(2) [of f] run(2,3) m by simp
  ultimately show ?thesis using run s' by (auto simp: word_less_nat_alt word_le_nat_alt)
qed

lemma pmm_demo_run: "f < 31 \<Longrightarrow> \<not> run_free pmm_demo f 2" "run_free pmm_demo 31 2"
proof -
  show "\<not> run_free pmm_demo f 2" if "f < 31"
  proof
    assume "run_free pmm_demo f 2"
    then have "\<not> bitmap_test pmm_demo (of_nat (f + 0))" "\<not> bitmap_test pmm_demo (of_nat (f + 1))"
      unfolding run_free_def by (metis zero_less_numeral, metis one_less_numeral_iff semiring_norm(76))
    then show False using that pmm_demo_test [of f] pmm_demo_test [of "f + 1"] by auto
  qed
  have "\<not> bitmap_test pmm_demo (of_nat (31 + k))" if "k < 2" for k
    using that pmm_demo_test [of "31 + k"] by auto
  then show "run_free pmm_demo 31 2" by (simp add: run_free_def)
qed

theorem pmm_alloc_blocks_correct_witness:
  "\<exists>s'. pmm_alloc_blocks 2 pmm_demo = (0x1F000, s') \<and> bitmap_test s' (of_nat 31)"
proof -
  obtain p s' where a: "pmm_alloc_blocks 2 pmm_demo = (p, s')" by fastforce
  have "\<not> (pmm_get_free_block_count pmm_demo < 2 \<or>
      (\<forall>f < unat (pmm_max_blocks pmm_demo). \<not> run_free pmm_demo f (unat (2 :: u32))))"
    using pmm_demo_run(2) by (auto simp: pmm_get_free_block_count_def pmm_demo_def [THEN arg_cong, of pmm_used_blocks]
      intro!: exI [of _ 31])
  with pmm_alloc_blocks_correct [OF pmm_demo_wf _ a] obtain f where f: "f < 32" "p = of_nat (4096 * f)"
    "run_free pmm_demo f 2" "bitmap_test s' (of_nat f)" by (auto split: if_splits)
  then have "f = 31" using pmm_demo_run(1) [of f] by linarith
  then show ?thesis using a f by auto
qed

text \<open>
  the search for a run of frames tests bits past \<^verbatim>\<open>pmm_max_blocks\<close>: with 32 frames of which only
  5 and 31 are free, a request for two contiguous frames succeeds and hands out the frames 31 and 32,
  the second of which does not exist.
\<close>

theorem pmm_alloc_blocks_overrun:
  "\<exists>(s :: pmm_state) p s'. pmm_wf s \<and> pmm_alloc_blocks 2 s = (p, s') \<and> p \<noteq> 0 \<and>
     unat p div 4096 + 2 > unat (pmm_max_blocks s)"
proof -
  have c: "\<not> pmm_get_free_block_count pmm_demo < 2"
    by (simp add: pmm_get_free_block_count_def) (simp add: pmm_demo_def)
  have "(2 :: u32) \<noteq> 0" by simp
  with pmm_demo_wf show ?thesis
  proof (cases rule: pmm_alloc_blocks_cases)
    case short
    then show ?thesis using c by simp
  next
    case none
    then show ?thesis using pmm_demo_run(2) by (auto dest!: spec [of _ 31])
  next
    case (run f)
    then have "\<not> f < 31" "f < 32" using pmm_demo_run(1) [of f] by auto
    then have "f = 31" by linarith
    then show ?thesis using run(6) pmm_demo_wf
      by (intro exI [of _ pmm_demo] exI [of _ "0x1F000"] exI [of _ "snd (pmm_alloc_blocks 2 pmm_demo)"]) auto
  qed
qed

end
