(* ===== verification/Vmm.thy ===== *)
theory Vmm
  imports Pmm Kstring
begin

text \<open>
  \<^verbatim>\<open>kernel/mm/vmm.c\<close>: page directories and page tables. They live in the byte memory, as arrays of 1024
  words each in a frame of the physical memory manager; all reads and writes go through \<open>load32\<close> and
  \<open>store32\<close> at the addresses the C code computes. The control registers and the \<^verbatim>\<open>invlpg\<close> instruction
  are recorded effects; calls to the log are left out, they do not touch this state.
\<close>

record vmm_state = pmm_state +
  kernel_directory :: u32
  current_directory :: u32
  kernel_directory_phys :: u32
  cr0 :: u32
  cr3 :: u32
  invlpgs :: "u32 list"

definition PAGE_SIZE :: u32 where "PAGE_SIZE = 0x1000"
definition KERNEL_VIRTUAL_BASE :: u32 where "KERNEL_VIRTUAL_BASE = 0xC0000000"
definition USER_SPACE_END :: u32 where "USER_SPACE_END = 0xBFFFFFFF"
definition PAGE_PRESENT :: u32 where "PAGE_PRESENT = 1"
definition PAGE_WRITE :: u32 where "PAGE_WRITE = 2"
definition PAGE_USER :: u32 where "PAGE_USER = 4"

definition page_directory_index :: "u32 \<Rightarrow> u32" where "page_directory_index x = drop_bit 22 x AND 0x3FF"
definition page_table_index :: "u32 \<Rightarrow> u32" where "page_table_index x = drop_bit 12 x AND 0x3FF"

text \<open>\<^verbatim>\<open>x & ~0xFFF\<close>\<close>

definition page_of :: "u32 \<Rightarrow> u32" where "page_of x = x AND NOT 0xFFF"

text \<open>\<^verbatim>\<open>((uint32_t*)p)[i]\<close>, read and written.\<close>

definition entry :: "'a vmm_state_scheme \<Rightarrow> u32 \<Rightarrow> u32 \<Rightarrow> u32" where
  "entry s p i = load32 (kmem s) (p + 4 * i)"

definition set_entry :: "u32 \<Rightarrow> u32 \<Rightarrow> u32 \<Rightarrow> 'a vmm_state_scheme \<Rightarrow> 'a vmm_state_scheme" where
  "set_entry p i v s = s\<lparr>kmem := store32 (p + 4 * i) v (kmem s)\<rparr>"

definition present :: "u32 \<Rightarrow> bool" where "present e \<longleftrightarrow> e AND PAGE_PRESENT \<noteq> 0"

definition invlpg :: "u32 \<Rightarrow> 'a vmm_state_scheme \<Rightarrow> 'a vmm_state_scheme" where
  "invlpg va s = s\<lparr>invlpgs := invlpgs s @ [va]\<rparr>"

definition write_cr3 :: "u32 \<Rightarrow> 'a vmm_state_scheme \<Rightarrow> 'a vmm_state_scheme" where
  "write_cr3 v s = s\<lparr>cr3 := v\<rparr>"

section \<open>The page table walk\<close>

definition phys_to_virt :: "'a vmm_state_scheme \<Rightarrow> u32 \<Rightarrow> u32" where
  "phys_to_virt s phys =
     (if kernel_directory_phys s = 0 then phys
      else if kernel_directory s < KERNEL_VIRTUAL_BASE then phys
      else phys + (kernel_directory s - kernel_directory_phys s))"

definition get_page_table :: "u32 \<Rightarrow> u32 \<Rightarrow> bool \<Rightarrow> 'a vmm_state_scheme \<Rightarrow> u32 \<times> 'a vmm_state_scheme" where
  "get_page_table page_dir virt_addr create s =
     (let dir_index = page_directory_index virt_addr; dir = phys_to_virt s page_dir in
      if present (entry s dir dir_index) then (phys_to_virt s (page_of (entry s dir dir_index)), s)
      else if create
      then let (table_phys, s) = pmm_alloc_block s in
           if table_phys = 0 then (0, s)
           else let table_virt = phys_to_virt s table_phys;
                    s = s\<lparr>kmem := memset table_virt 0 4096 (kmem s)\<rparr>;
                    flags = (PAGE_PRESENT OR PAGE_WRITE) OR (if virt_addr < KERNEL_VIRTUAL_BASE then PAGE_USER else 0)
                in (table_virt, set_entry dir dir_index (table_phys OR flags) s)
      else (0, s))"

definition vmm_map_page :: "u32 \<Rightarrow> u32 \<Rightarrow> u32 \<Rightarrow> u32 \<Rightarrow> 'a vmm_state_scheme \<Rightarrow> int \<times> 'a vmm_state_scheme" where
  "vmm_map_page page_dir virt_addr phys_addr flags s =
     (let virt_addr = page_of virt_addr; phys_addr = page_of phys_addr;
          (table, s) = get_page_table page_dir virt_addr True s in
      if table = 0 then (-1, s)
      else let s = set_entry table (page_table_index virt_addr) (phys_addr OR flags) s in
           (0, if page_dir = current_directory s then invlpg virt_addr s else s))"

definition vmm_unmap_page :: "u32 \<Rightarrow> u32 \<Rightarrow> 'a vmm_state_scheme \<Rightarrow> 'a vmm_state_scheme" where
  "vmm_unmap_page page_dir virt_addr s =
     (let virt_addr = page_of virt_addr; (table, s) = get_page_table page_dir virt_addr False s in
      if table = 0 then s
      else let s = set_entry table (page_table_index virt_addr) 0 s in
           if page_dir = current_directory s then invlpg virt_addr s else s)"

definition vmm_get_physical_address :: "u32 \<Rightarrow> u32 \<Rightarrow> 'a vmm_state_scheme \<Rightarrow> u32" where
  "vmm_get_physical_address page_dir virt_addr s =
     (let (table, s) = get_page_table page_dir virt_addr False s in
      if table = 0 then 0
      else let e = entry s table (page_table_index virt_addr) in
           if \<not> present e then 0 else page_of e OR (virt_addr AND 0xFFF))"

definition vmm_is_mapped :: "u32 \<Rightarrow> u32 \<Rightarrow> 'a vmm_state_scheme \<Rightarrow> bool" where
  "vmm_is_mapped page_dir virt_addr s =
     (let (table, s) = get_page_table page_dir virt_addr False s in
      if table = 0 then False else present (entry s table (page_table_index virt_addr)))"

definition vmm_alloc_page :: "u32 \<Rightarrow> u32 \<Rightarrow> u32 \<Rightarrow> 'a vmm_state_scheme \<Rightarrow> int \<times> 'a vmm_state_scheme" where
  "vmm_alloc_page page_dir virt_addr flags s =
     (let (phys, s) = pmm_alloc_block s in
      if phys = 0 then (-1, s)
      else let (r, s) = vmm_map_page page_dir virt_addr phys (flags OR PAGE_PRESENT) s in
           if r \<noteq> 0 then (-1, pmm_free_block phys s) else (0, s))"

definition vmm_free_page :: "u32 \<Rightarrow> u32 \<Rightarrow> 'a vmm_state_scheme \<Rightarrow> 'a vmm_state_scheme" where
  "vmm_free_page page_dir virt_addr s =
     (let phys = vmm_get_physical_address page_dir virt_addr s;
          s = (if phys \<noteq> 0 then pmm_free_block (page_of phys) s else s)
      in vmm_unmap_page page_dir virt_addr s)"

section \<open>Address spaces\<close>

definition vmm_create_address_space :: "'a vmm_state_scheme \<Rightarrow> u32 \<times> 'a vmm_state_scheme" where
  "vmm_create_address_space s =
     (let (page_dir, s) = pmm_alloc_block s in
      if page_dir = 0 then (0, s)
      else let s = s\<lparr>kmem := memset (phys_to_virt s page_dir) 0 4096 (kmem s)\<rparr> in
           if kernel_directory s = 0 then (page_dir, s)
           else (page_dir, fold (\<lambda>i s. set_entry (phys_to_virt s page_dir) (of_nat i)
                   (entry s (phys_to_virt s (kernel_directory s)) (of_nat i)) s) [768..<1024] s))"

text \<open>The body of the outer loop of \<^verbatim>\<open>vmm_destroy_address_space\<close>: the pages of one table, then the table.\<close>

definition free_table :: "u32 \<Rightarrow> 'a vmm_state_scheme \<Rightarrow> 'a vmm_state_scheme" where
  "free_table table_phys s =
     pmm_free_block table_phys
       (fold (\<lambda>j s. let e = entry s (phys_to_virt s table_phys) (of_nat j) in
          if present e then pmm_free_block (page_of e) s else s) [0..<1024] s)"

definition vmm_destroy_address_space :: "u32 \<Rightarrow> 'a vmm_state_scheme \<Rightarrow> 'a vmm_state_scheme" where
  "vmm_destroy_address_space page_dir s =
     (if page_dir = 0 \<or> page_dir = kernel_directory s then s
      else pmm_free_block page_dir
        (fold (\<lambda>i s. let e = entry s (phys_to_virt s page_dir) (of_nat i) in
           if present e then free_table (page_of e) s else s) [0..<768] s))"

definition vmm_switch_address_space :: "u32 \<Rightarrow> 'a vmm_state_scheme \<Rightarrow> 'a vmm_state_scheme" where
  "vmm_switch_address_space page_dir s =
     (if page_dir = 0 then s else write_cr3 page_dir (s\<lparr>current_directory := page_dir\<rparr>))"

definition vmm_get_current_directory :: "'a vmm_state_scheme \<Rightarrow> u32" where
  "vmm_get_current_directory s = current_directory s"

text \<open>The inner loop of \<^verbatim>\<open>vmm_clone_address_space\<close>; \<open>False\<close> when a frame could not be had.\<close>

primrec clone_pages :: "u32 \<Rightarrow> u32 \<Rightarrow> nat list \<Rightarrow> 'a vmm_state_scheme \<Rightarrow> bool \<times> 'a vmm_state_scheme" where
  "clone_pages src_table dst_table [] s = (True, s)"
| "clone_pages src_table dst_table (j # js) s =
     (let e = entry s src_table (of_nat j) in
      if present e
      then let (new_phys, s) = pmm_alloc_block s in
           if new_phys = 0 then (False, s)
           else let s = s\<lparr>kmem := memcpy (phys_to_virt s new_phys) (phys_to_virt s (page_of e)) PAGE_SIZE (kmem s)\<rparr>;
                    s = set_entry dst_table (of_nat j) (new_phys OR (e AND 0xFFF)) s
                in clone_pages src_table dst_table js s
      else clone_pages src_table dst_table js (set_entry dst_table (of_nat j) 0 s))"

primrec clone_tables :: "u32 \<Rightarrow> u32 \<Rightarrow> nat list \<Rightarrow> 'a vmm_state_scheme \<Rightarrow> u32 \<times> 'a vmm_state_scheme" where
  "clone_tables src dst [] s = (dst, s)"
| "clone_tables src dst (i # is) s =
     (let e = entry s (phys_to_virt s src) (of_nat i) in
      if \<not> present e then clone_tables src dst is s
      else let (dst_table, s) = pmm_alloc_block s in
           if dst_table = 0 then (0, vmm_destroy_address_space dst s)
           else let (ok, s) = clone_pages (phys_to_virt s (page_of e)) (phys_to_virt s dst_table) [0..<1024] s in
                if \<not> ok then (0, vmm_destroy_address_space dst (pmm_free_block dst_table s))
                else clone_tables src dst is (set_entry (phys_to_virt s dst) (of_nat i) (dst_table OR (e AND 0xFFF)) s))"

definition vmm_clone_address_space :: "u32 \<Rightarrow> 'a vmm_state_scheme \<Rightarrow> u32 \<times> 'a vmm_state_scheme" where
  "vmm_clone_address_space src s =
     (let (dst, s) = vmm_create_address_space s in
      if dst = 0 then (0, s) else clone_tables src dst [0..<768] s)"

section \<open>User pointers\<close>

text \<open>The loop over the pages of the range; \<^term>\<open>None\<close> if it did not end.\<close>

partial_function (option) check_pages :: "'a vmm_state_scheme \<Rightarrow> u32 \<Rightarrow> bool \<Rightarrow> u32 \<Rightarrow> u32 \<Rightarrow> bool option" where
  "check_pages s pd wr end_addr page =
     (if page > end_addr then Some True
      else let e = entry s (phys_to_virt s pd) (page_directory_index page) in
        if \<not> present e then Some False
        else let t = entry s (phys_to_virt s (page_of e)) (page_table_index page) in
          if \<not> present t then Some False
          else if t AND PAGE_USER = 0 then Some False
          else if wr \<and> t AND PAGE_WRITE = 0 then Some False
          else check_pages s pd wr end_addr (page + PAGE_SIZE))"

definition vmm_check_user_ptr :: "u32 \<Rightarrow> u32 \<Rightarrow> bool \<Rightarrow> 'a vmm_state_scheme \<Rightarrow> bool option" where
  "vmm_check_user_ptr ptr len wr s =
     (if ptr = 0 then Some False
      else if len = 0 then Some True
      else let start = ptr; end_addr = start + len - 1 in
        if start > USER_SPACE_END \<or> end_addr > USER_SPACE_END then Some False
        else if vmm_get_current_directory s = 0 then Some False
        else check_pages s (vmm_get_current_directory s) wr end_addr (page_of start))"

section \<open>Initialisation\<close>

text \<open>One identity-mapped table; \<open>False\<close> when there is no frame for it.\<close>

definition identity_table :: "u32 \<Rightarrow> nat \<Rightarrow> 'a vmm_state_scheme \<Rightarrow> bool \<times> 'a vmm_state_scheme" where
  "identity_table dir table_idx s =
     (let (table_phys, s) = pmm_alloc_block s in
      if table_phys = 0 then (False, s)
      else let table_ptr = phys_to_virt s table_phys;
               s = fold (\<lambda>i. set_entry table_ptr (of_nat i) 0) [0..<1024] s;
               s = fold (\<lambda>i. set_entry table_ptr (of_nat i)
                     (((of_nat table_idx * 0x400000 + of_nat i * PAGE_SIZE) OR PAGE_PRESENT) OR PAGE_WRITE)) [0..<1024] s
           in (True, set_entry dir (of_nat table_idx) ((table_phys OR PAGE_PRESENT) OR PAGE_WRITE) s))"

definition vmm_init :: "'a vmm_state_scheme \<Rightarrow> 'a vmm_state_scheme" where
  "vmm_init s =
     (let (kd, s) = pmm_alloc_block s; s = s\<lparr>kernel_directory := kd\<rparr> in
      if kd = 0 then s
      else let s = s\<lparr>kernel_directory_phys := kd, current_directory := kd\<rparr>;
               dir = phys_to_virt s kd;
               s = fold (\<lambda>i. set_entry dir (of_nat i) 0) [0..<1024] s;
               (ok, s) = identity_table dir 0 s
           in if \<not> ok then s
              else let (ok, s) = identity_table dir 1 s in
                if \<not> ok then s
                else let s = write_cr3 (kernel_directory_phys s) s
                     in s\<lparr>cr0 := cr0 s OR 0x80000000\<rparr>)"

section \<open>Pages of the memory\<close>

definition page_no :: "u32 \<Rightarrow> nat" where "page_no x = unat x div 4096"

definition paged :: "u32 \<Rightarrow> bool" where "paged p \<longleftrightarrow> page_of p = p"

text \<open>The two memories agree on page \<open>n\<close>.\<close>

definition same_page :: "nat \<Rightarrow> mem \<Rightarrow> mem \<Rightarrow> bool" where
  "same_page n m m' \<longleftrightarrow> (\<forall>x. page_no x = n \<longrightarrow> m' x = m x)"

lemma same_page_refl [simp]: "same_page n m m"
  by (simp add: same_page_def)

lemma same_page_trans: "same_page n m m' \<Longrightarrow> same_page n m' m'' \<Longrightarrow> same_page n m m''"
  by (simp add: same_page_def)

lemma unat_page_of: "unat (page_of x) = unat x - unat x mod 4096"
  using unat_and_not_mask [of x 12] by (simp add: page_of_def mask_eq_exp_minus_1)

lemma page_no_page_of [simp]: "page_no (page_of x) = page_no x"
  by (simp add: page_no_def unat_page_of minus_mod_eq_mult_div)

lemma paged_page_of [simp]: "paged (page_of x)"
  by (simp add: paged_def page_of_def and.assoc)

lemma paged_unat: "paged p \<Longrightarrow> unat p = 4096 * page_no p"
  using unat_page_of [of p] by (simp add: paged_def page_no_def minus_mod_eq_mult_div)

lemma paged_eq: "paged p \<Longrightarrow> paged q \<Longrightarrow> page_no p = page_no q \<longleftrightarrow> p = q"
  by (metis paged_unat unat_word_inj)

lemma page_of_eq: "page_of x = page_of y \<longleftrightarrow> page_no x = page_no y"
  using paged_eq [of "page_of x" "page_of y"] by simp

lemma span32_aligned:
  assumes "4 dvd unat a" and "x \<in> span32 a"
  shows "unat x div 4 = unat a div 4"
proof -
  have b: "unat a < 2 ^ 32" using unsigned_less [of a, where 'a = nat] by simp
  have lim: "unat a + 3 < 2 ^ 32"
  proof -
    obtain k where "unat a = 4 * k" using assms(1) by blast
    then show ?thesis using b by simp
  qed
  have "unat (a + 1) = unat a + 1" "unat (a + 2) = unat a + 2" "unat (a + 3) = unat a + 3"
    using lim by (simp_all add: unat_add_no_overflow)
  moreover have "(4 * k + j) div 4 = k" if "j < 4" for k j :: nat using that by simp
  ultimately show ?thesis using assms by (auto simp: span32_def elim!: dvdE)
qed

lemma span32_page: "4 dvd unat a \<Longrightarrow> x \<in> span32 a \<Longrightarrow> page_no x = page_no a"
  using span32_aligned [of a x] by (simp add: page_no_def div_mult2_eq [of _ 4 1024, simplified])

lemma slot_unat:
  assumes "paged p" and "unat k < 1024"
  shows "unat (p + 4 * k) = unat p + 4 * unat k"
proof -
  have "page_no p < 2 ^ 20" using unsigned_less [of p, where 'a = nat] by (simp add: page_no_def less_mult_imp_div_less)
  moreover have "unat (4 * k) = 4 * unat k" using assms(2) by (simp add: unat_word_ariths)
  ultimately show ?thesis using assms paged_unat [OF assms(1)] by (simp add: unat_add_no_overflow)
qed

lemma slot_page:
  assumes "paged p" and "unat k < 1024"
  shows "page_no (p + 4 * k) = page_no p" "4 dvd unat (p + 4 * k)"
proof -
  have u: "unat (p + 4 * k) = 4096 * page_no p + 4 * unat k"
    using slot_unat [OF assms] paged_unat [OF assms(1)] by simp
  show "page_no (p + 4 * k) = page_no p" unfolding page_no_def [of "p + 4 * k"] u using assms(2) by simp
  show "4 dvd unat (p + 4 * k)" unfolding u by (simp add: dvd_add)
qed

lemma slot_eq:
  assumes "paged p" and "paged q" and "unat k < 1024" and "unat l < 1024"
  shows "p + 4 * k = q + 4 * l \<longleftrightarrow> p = q \<and> k = l"
proof
  assume e: "p + 4 * k = q + 4 * l"
  then have "page_no p = page_no q" using slot_page(1) assms by metis
  then have pq: "p = q" using paged_eq assms by blast
  then have "unat k = unat l" using e slot_unat [OF assms(1,3)] slot_unat [OF assms(2,4)] by simp
  then show "p = q \<and> k = l" using pq unat_word_inj by blast
qed simp

lemma span32_disjoint: "4 dvd unat a \<Longrightarrow> 4 dvd unat b \<Longrightarrow> a \<noteq> b \<Longrightarrow> span32 a \<inter> span32 b = {}"
  using span32_aligned [of a] span32_aligned [of b] by (metis disjoint_iff dvd_div_eq_iff unat_word_inj)

lemma entry_same_page:
  assumes "same_page (page_no p) (kmem s) (kmem s')" and "paged p" and "unat i < 1024"
  shows "entry s' p i = entry s p i"
  unfolding entry_def
  by (rule load32_cong) (use assms span32_page [OF slot_page(2)] slot_page(1) in \<open>auto simp: same_page_def\<close>)

lemma entry_set_entry:
  assumes "paged p" and "paged q" and "unat i < 1024" and "unat j < 1024"
  shows "entry (set_entry p i v s) q j = (if p = q \<and> i = j then v else entry s q j)"
proof (cases "p = q \<and> i = j")
  case True
  then show ?thesis by (simp add: entry_def set_entry_def)
next
  case False
  then have "q + 4 * j \<noteq> p + 4 * i" using slot_eq assms by metis
  then show ?thesis
    using False span32_disjoint [of "q + 4 * j" "p + 4 * i"] slot_page(2) assms
    by (auto simp: entry_def set_entry_def load32_store32_other)
qed

lemma set_entry_same_page:
  assumes "paged p" and "unat i < 1024" and "n \<noteq> page_no p"
  shows "same_page n (kmem s) (kmem (set_entry p i v s))"
  unfolding same_page_def
proof (intro allI impI)
  fix x assume x: "page_no x = n"
  then have "x \<notin> span32 (p + 4 * i)" using span32_page slot_page assms by metis
  then show "kmem (set_entry p i v s) x = kmem s x" by (simp add: set_entry_def store32_byte_other)
qed

lemma page_offset:
  assumes "paged p" and "page_no x = page_no p"
  shows "x - p < 4096"
proof -
  have "unat p = 4096 * (unat x div 4096)"
    using paged_unat [OF assms(1)] assms(2) by (simp only: page_no_def [of x])
  then have "unat x = unat p + unat x mod 4096" by simp
  moreover have "unat x mod 4096 < 4096" by simp
  ultimately have "p \<le> x" "unat x - unat p < 4096" by (simp_all add: word_le_nat_alt)
  then show ?thesis by (simp add: word_less_nat_alt unat_sub_le)
qed

lemma page_offset_other:
  assumes "paged p" and "page_no x \<noteq> page_no p"
  shows "\<not> x - p < 4096"
proof
  assume "x - p < 4096"
  then have d: "unat (x - p) < 4096" by (simp add: word_less_nat_alt)
  have x: "x = p + (x - p)" by simp
  have "page_no p < 2 ^ 20" using unsigned_less [of p, where 'a = nat] by (simp add: page_no_def less_mult_imp_div_less)
  then have "unat (p + (x - p)) = unat p + unat (x - p)"
    using d paged_unat [OF assms(1)] by (intro unat_add_no_overflow) simp
  then have "unat x = 4096 * page_no p + unat (x - p)" using paged_unat [OF assms(1)] x by simp
  then show False using d assms(2) by (simp add: page_no_def)
qed

lemma memset_same_page: "paged p \<Longrightarrow> n \<noteq> page_no p \<Longrightarrow> same_page n m (memset p v 4096 m)"
  using page_offset_other by (auto simp: same_page_def memset_apply)

lemma memset_entry:
  assumes "paged p" and "unat i < 1024"
  shows "load32 (memset p 0 4096 m) (p + 4 * i) = 0"
proof -
  have "x \<in> span32 (p + 4 * i) \<Longrightarrow> memset p 0 4096 m x = 0" for x
    using page_offset [OF assms(1)] span32_page [OF slot_page(2) [OF assms]] slot_page(1) [OF assms]
    by (simp add: memset_apply)
  then have "load32 (memset p 0 4096 m) (p + 4 * i) = load32 (\<lambda>_. 0) (p + 4 * i)"
    by (intro load32_cong) simp
  then show ?thesis by (simp add: load32_def)
qed

section \<open>The bitmap and the frames\<close>

text \<open>The bitmap of the physical memory manager does not reach into page \<open>n\<close>.\<close>

definition bitmap_clear :: "'a vmm_state_scheme \<Rightarrow> nat \<Rightarrow> bool" where
  "bitmap_clear s n \<longleftrightarrow> 4 dvd unat (pmm_bitmap s) \<and>
     (\<forall>k < unat (pmm_max_blocks s) div 32. page_no (pmm_bitmap s + 4 * of_nat k) \<noteq> n)"

lemma bitmap_slot_aligned: "4 dvd unat b \<Longrightarrow> 4 dvd unat (b + 4 * k)" for b k :: u32
  by (simp add: unat_word_ariths dvd_mod dvd_add)

lemma div32_less:
  fixes f n :: nat
  assumes "f < n" and "n mod 32 = 0"
  shows "f div 32 < n div 32"
proof -
  obtain q where "n = 32 * q" using assms(2) by (metis dvdE mod_0_imp_dvd)
  then show ?thesis using assms(1) less_mult_imp_div_less [of f q 32] by simp
qed

lemma bitmap_set_same_page:
  assumes "bitmap_clear s n" and "f < unat (pmm_max_blocks s)" and "unat (pmm_max_blocks s) mod 32 = 0" and "f < 2 ^ 32"
  shows "same_page n (kmem s) (kmem (bitmap_set (of_nat f) s))" "same_page n (kmem s) (kmem (bitmap_unset (of_nat f) s))"
proof -
  let ?a = "pmm_bitmap s + 4 * (of_nat f div 32)"
  have "f div 32 < unat (pmm_max_blocks s) div 32" by (rule div32_less [OF assms(2,3)])
  then have p: "page_no ?a \<noteq> n" using assms(1,4) by (simp add: bitmap_clear_def of_nat_div32)
  have al: "4 dvd unat ?a" using assms(1) bitmap_slot_aligned by (simp add: bitmap_clear_def)
  have "x \<notin> span32 ?a" if "page_no x = n" for x using span32_page [OF al, of x] that p by auto
  then show "same_page n (kmem s) (kmem (bitmap_set (of_nat f) s))" "same_page n (kmem s) (kmem (bitmap_unset (of_nat f) s))"
    by (simp_all add: same_page_def bitmap_set_def bitmap_unset_def store32_byte_other)
qed

text \<open>Memory changes outside the bitmap do not change what it says.\<close>

lemma bitmap_word_kept:
  assumes "\<And>n. \<not> bitmap_clear s n \<Longrightarrow> same_page n (kmem s) (kmem s')" and "4 dvd unat (pmm_bitmap s)"
    and "pmm_bitmap s' = pmm_bitmap s" and "k < unat (pmm_max_blocks s) div 32"
  shows "bitmap_word s' (of_nat k) = bitmap_word s (of_nat k)"
proof -
  let ?a = "pmm_bitmap s + 4 * of_nat k"
  have "\<not> bitmap_clear s (page_no ?a)" using assms(4) by (auto simp: bitmap_clear_def)
  then have "same_page (page_no ?a) (kmem s) (kmem s')" by (rule assms(1))
  moreover have "page_no x = page_no ?a" if "x \<in> span32 ?a" for x
    using span32_page [OF bitmap_slot_aligned [OF assms(2)] that] .
  ultimately show ?thesis
    unfolding bitmap_word_def assms(3) by (intro load32_cong) (auto simp: same_page_def)
qed

lemma bitmap_test_kept:
  assumes "\<And>n. \<not> bitmap_clear s n \<Longrightarrow> same_page n (kmem s) (kmem s')" and "4 dvd unat (pmm_bitmap s)"
    and "pmm_bitmap s' = pmm_bitmap s" and "f < unat (pmm_max_blocks s)" and "pmm_wf s"
  shows "bitmap_test s' (of_nat f) = bitmap_test s (of_nat f)"
proof -
  have "f < 2 ^ 32" "f div 32 < unat (pmm_max_blocks s) div 32"
    using assms(5) div32_less [OF assms(4)] assms(4) by (simp_all add: pmm_wf_def)
  then show ?thesis using bitmap_word_kept [OF assms(1-3)] by (simp add: bitmap_test_of_nat)
qed

lemma pmm_wf_kept:
  assumes "\<And>n. \<not> bitmap_clear s n \<Longrightarrow> same_page n (kmem s) (kmem s')" and "4 dvd unat (pmm_bitmap s)"
    and "pmm_bitmap s' = pmm_bitmap s" and "pmm_max_blocks s' = pmm_max_blocks s" and "pmm_used_blocks s' = pmm_used_blocks s"
    and "pmm_wf s" and "0 < unat (pmm_max_blocks s)"
  shows "pmm_wf s'"
proof -
  have t: "bitmap_test s' (of_nat f) = bitmap_test s (of_nat f)" if "f < unat (pmm_max_blocks s)" for f
    using bitmap_test_kept [OF assms(1-3) that assms(6)] by blast
  then have "pmm_count s' = pmm_count s" unfolding pmm_count_def assms(4) by (intro count_below_cong) simp
  then show ?thesis using assms(4-7) t [of 0] by (simp add: pmm_wf_def)
qed

section \<open>Well-formed address spaces\<close>

text \<open>Pages are addressed by their physical address (the mode the kernel runs in).\<close>

definition identity_mode :: "'a vmm_state_scheme \<Rightarrow> bool" where
  "identity_mode s \<longleftrightarrow> kernel_directory_phys s = 0 \<or> kernel_directory s < KERNEL_VIRTUAL_BASE"

lemma phys_to_virt_id [simp]: "identity_mode s \<Longrightarrow> phys_to_virt s p = p"
  by (auto simp: identity_mode_def phys_to_virt_def)

text \<open>An allocated frame that the bitmap does not reach into.\<close>

definition frame :: "'a vmm_state_scheme \<Rightarrow> u32 \<Rightarrow> bool" where
  "frame s p \<longleftrightarrow> paged p \<and> p \<noteq> 0 \<and> page_no p < unat (pmm_max_blocks s) \<and> bitmap_test s (of_nat (page_no p)) \<and>
     bitmap_clear s (page_no p)"

text \<open>
  The physical memory manager is sound, its bitmap does not reach into a free frame, and the tables of
  the directory \<open>pd\<close> are pairwise different allocated frames.
\<close>

definition space_wf :: "'a vmm_state_scheme \<Rightarrow> u32 \<Rightarrow> bool" where
  "space_wf s pd \<longleftrightarrow> pmm_wf s \<and> identity_mode s \<and> frame s pd \<and>
     (\<forall>f < unat (pmm_max_blocks s). \<not> bitmap_test s (of_nat f) \<longrightarrow> bitmap_clear s f) \<and>
     (\<forall>i. unat i < 1024 \<and> present (entry s pd i) \<longrightarrow> frame s (page_of (entry s pd i)) \<and> page_of (entry s pd i) \<noteq> pd) \<and>
     (\<forall>i j. unat i < 1024 \<and> unat j < 1024 \<and> i \<noteq> j \<and> present (entry s pd i) \<and> present (entry s pd j) \<longrightarrow>
        page_of (entry s pd i) \<noteq> page_of (entry s pd j))"

text \<open>The physical address of \<open>va\<close> as the two table levels give it.\<close>

definition translate :: "'a vmm_state_scheme \<Rightarrow> u32 \<Rightarrow> u32 \<Rightarrow> u32" where
  "translate s pd va =
     (let e = entry s pd (page_directory_index va) in
      if present e
      then let t = entry s (page_of e) (page_table_index va) in if present t then page_of t OR (va AND 0xFFF) else 0
      else 0)"

lemma index_unat:
  "unat (page_directory_index va) = page_no va div 1024" "unat (page_table_index va) = page_no va mod 1024"
  "unat (page_directory_index va) < 1024" "unat (page_table_index va) < 1024"
proof -
  have m: "(0x3FF :: u32) = mask 10" by (simp add: mask_eq_exp_minus_1)
  have b: "unat va < 2 ^ 32" using unsigned_less [of va, where 'a = nat] by simp
  have q: "page_no va < 1024 * 1024" using b by (simp add: page_no_def less_mult_imp_div_less)
  have "unat (page_directory_index va) = unat va div 2 ^ 22 mod 2 ^ 10"
    unfolding page_directory_index_def m by (simp only: take_bit_eq_mask [symmetric])
      (simp add: take_bit_eq_mod drop_bit_eq_div unat_div_distrib unat_mod_distrib)
  also have "unat va div 2 ^ 22 = page_no va div 1024" by (simp add: page_no_def div_mult2_eq [symmetric])
  also have "\<dots> mod 2 ^ 10 = page_no va div 1024" using q by (simp add: less_mult_imp_div_less)
  finally show d: "unat (page_directory_index va) = page_no va div 1024" .
  show t: "unat (page_table_index va) = page_no va mod 1024"
    unfolding page_table_index_def m page_no_def by (simp only: take_bit_eq_mask [symmetric])
      (simp add: take_bit_eq_mod drop_bit_eq_div unat_div_distrib unat_mod_distrib)
  show "unat (page_directory_index va) < 1024" using d q by (simp add: less_mult_imp_div_less)
  show "unat (page_table_index va) < 1024" using t by simp
qed

lemma index_eq:
  "page_directory_index a = page_directory_index b \<and> page_table_index a = page_table_index b \<longleftrightarrow> page_of a = page_of b"
proof -
  have "page_directory_index a = page_directory_index b \<longleftrightarrow> page_no a div 1024 = page_no b div 1024"
    "page_table_index a = page_table_index b \<longleftrightarrow> page_no a mod 1024 = page_no b mod 1024"
    using index_unat(1,2) unat_word_inj by metis+
  then show ?thesis unfolding page_of_eq by (metis div_mult_mod_eq)
qed

lemma index_page_of [simp]:
  "page_directory_index (page_of va) = page_directory_index va" "page_table_index (page_of va) = page_table_index va"
  using index_eq [of "page_of va" va] by (simp_all add: page_of_eq)

lemma get_page_table_read:
  assumes "identity_mode s"
  shows "get_page_table pd va False s =
    (if present (entry s pd (page_directory_index va)) then page_of (entry s pd (page_directory_index va)) else 0, s)"
  using assms by (simp add: get_page_table_def Let_def)

lemma get_physical_translate:
  assumes "space_wf s pd"
  shows "vmm_get_physical_address pd va s = translate s pd va"
  using assms index_unat(3) [of va] unfolding space_wf_def
  by (auto simp: vmm_get_physical_address_def get_page_table_read translate_def Let_def frame_def)

text \<open>A step that writes only to page \<open>p\<close>.\<close>

definition writes_page :: "'a vmm_state_scheme \<Rightarrow> 'a vmm_state_scheme \<Rightarrow> u32 \<Rightarrow> bool" where
  "writes_page s s' p \<longleftrightarrow> (\<forall>n. n \<noteq> page_no p \<longrightarrow> same_page n (kmem s) (kmem s')) \<and>
     pmm_bitmap s' = pmm_bitmap s \<and> pmm_max_blocks s' = pmm_max_blocks s \<and> pmm_used_blocks s' = pmm_used_blocks s \<and>
     kernel_directory s' = kernel_directory s \<and> kernel_directory_phys s' = kernel_directory_phys s"

lemma writes_page_set_entry: "paged p \<Longrightarrow> unat i < 1024 \<Longrightarrow> writes_page s (set_entry p i v s) p"
  using set_entry_same_page by (auto simp: writes_page_def) (simp_all add: set_entry_def)

lemma writes_page_memset: "paged p \<Longrightarrow> writes_page s (s\<lparr>kmem := memset p v 4096 (kmem s)\<rparr>) p"
  by (simp add: writes_page_def memset_same_page)

lemma writes_page_clear [simp]: "writes_page s s' p \<Longrightarrow> bitmap_clear s' n = bitmap_clear s n"
  by (simp add: writes_page_def bitmap_clear_def)

lemma writes_page_mode [simp]: "writes_page s s' p \<Longrightarrow> identity_mode s' = identity_mode s"
  by (simp add: writes_page_def identity_mode_def)

lemma writes_page_entry:
  "writes_page s s' p \<Longrightarrow> paged p \<Longrightarrow> paged q \<Longrightarrow> q \<noteq> p \<Longrightarrow> unat i < 1024 \<Longrightarrow> entry s' q i = entry s q i"
  by (rule entry_same_page) (auto simp: writes_page_def paged_eq)

lemma writes_page_bitmap:
  assumes "writes_page s s' p" and "frame s p" and "pmm_wf s"
  shows "pmm_wf s'" and "f < unat (pmm_max_blocks s) \<Longrightarrow> bitmap_test s' (of_nat f) = bitmap_test s (of_nat f)"
    and "frame s' q = frame s q"
proof -
  have c: "bitmap_clear s (page_no p)" "4 dvd unat (pmm_bitmap s)" "0 < unat (pmm_max_blocks s)"
    using assms(2) by (auto simp: frame_def bitmap_clear_def)
  have same: "same_page n (kmem s) (kmem s')" if "\<not> bitmap_clear s n" for n
  proof -
    have "n \<noteq> page_no p" using that c(1) by auto
    then show ?thesis using assms(1) by (simp add: writes_page_def)
  qed
  have f: "pmm_bitmap s' = pmm_bitmap s" "pmm_max_blocks s' = pmm_max_blocks s" "pmm_used_blocks s' = pmm_used_blocks s"
    using assms(1) by (simp_all add: writes_page_def)
  show "pmm_wf s'" by (rule pmm_wf_kept [OF same c(2) f assms(3) c(3)])
  show t: "bitmap_test s' (of_nat f) = bitmap_test s (of_nat f)" if "f < unat (pmm_max_blocks s)" for f
    using bitmap_test_kept [OF same c(2) f(1) that assms(3)] .
  show "frame s' q = frame s q" using t f(2) assms(1) by (auto simp: frame_def)
qed

text \<open>Writing to a table (or to a fresh frame) keeps the address space well-formed.\<close>

lemma space_wf_write:
  assumes "space_wf s pd" and "writes_page s s' p" and "frame s p" and "p \<noteq> pd"
  shows "space_wf s' pd" and "unat i < 1024 \<Longrightarrow> entry s' pd i = entry s pd i"
proof -
  have wf: "pmm_wf s" and pd: "paged pd" and p: "paged p" using assms(1,3) by (auto simp: space_wf_def frame_def)
  note b = writes_page_bitmap [OF assms(2,3) wf]
  show e: "entry s' pd i = entry s pd i" if "unat i < 1024" for i
    by (rule writes_page_entry [OF assms(2) p pd _ that]) (use assms(4) in simp)
  have mx: "pmm_max_blocks s' = pmm_max_blocks s" using assms(2) by (simp add: writes_page_def)
  have "identity_mode s'" "frame s' pd" using assms(1,2) b(3) by (simp_all add: space_wf_def)
  moreover have "\<forall>f < unat (pmm_max_blocks s'). \<not> bitmap_test s' (of_nat f) \<longrightarrow> bitmap_clear s' f"
    using assms(1,2) b(2) mx by (simp add: space_wf_def)
  moreover have "\<forall>i. unat i < 1024 \<and> present (entry s' pd i) \<longrightarrow> frame s' (page_of (entry s' pd i)) \<and> page_of (entry s' pd i) \<noteq> pd"
    using assms(1) e b(3) unfolding space_wf_def by metis
  moreover have "\<forall>i j. unat i < 1024 \<and> unat j < 1024 \<and> i \<noteq> j \<and> present (entry s' pd i) \<and> present (entry s' pd j) \<longrightarrow>
      page_of (entry s' pd i) \<noteq> page_of (entry s' pd j)"
    using assms(1) e unfolding space_wf_def by metis
  ultimately show "space_wf s' pd" using b(1) unfolding space_wf_def by blast
qed

lemma frame_no_small: "f < unat (pmm_max_blocks s) \<Longrightarrow> pmm_wf s \<Longrightarrow> f < 2 ^ 20"
  by (simp add: pmm_wf_def)

lemma frame_addr:
  assumes "f < 2 ^ 20"
  shows "paged (of_nat (4096 * f))" "page_no (of_nat (4096 * f)) = f"
proof -
  have u: "unat (of_nat (4096 * f) :: u32) = 4096 * f" using assms by (intro unat_of_nat_small) simp
  then show "page_no (of_nat (4096 * f)) = f" by (simp add: page_no_def)
  have "unat (page_of (of_nat (4096 * f))) = unat (of_nat (4096 * f) :: u32)" unfolding unat_page_of u by simp
  then show "paged (of_nat (4096 * f))" unfolding paged_def by (rule unat_word_inj)
qed

text \<open>What an allocation needs and keeps, with or without an address space.\<close>

definition frames_ok :: "'a vmm_state_scheme \<Rightarrow> bool" where
  "frames_ok s \<longleftrightarrow> pmm_wf s \<and> (\<forall>f < unat (pmm_max_blocks s). \<not> bitmap_test s (of_nat f) \<longrightarrow> bitmap_clear s f)"

lemma alloc_frame:
  assumes wf: "frames_ok s" and al: "pmm_alloc_block s = (p, s1)" and nz: "p \<noteq> 0"
  shows "frames_ok s1" and "frame s1 p" and "\<not> frame s p"
    and "frame s q \<Longrightarrow> frame s1 q \<and> (\<forall>i. unat i < 1024 \<longrightarrow> entry s1 q i = entry s q i)"
    and "kernel_directory s1 = kernel_directory s" and "current_directory s1 = current_directory s"
    and "kernel_directory_phys s1 = kernel_directory_phys s" and "pmm_max_blocks s1 = pmm_max_blocks s"
proof -
  have pw: "pmm_wf s" using wf by (simp add: frames_ok_def)
  obtain f where f: "0 < f" "f < unat (pmm_max_blocks s)" "\<not> bitmap_test s (of_nat f)" "p = of_nat (4096 * f)"
      "s1 = (bitmap_set (of_nat f) s)\<lparr>pmm_used_blocks := pmm_used_blocks s + 1\<rparr>"
    using pw
  proof (cases rule: pmm_alloc_block_cases)
    case full
    then show thesis using al nz by simp
  next
    case (frame f)
    then show thesis using al that by simp
  qed
  have small: "f < 2 ^ 20" "f < 2 ^ 32" using frame_no_small [OF f(2) pw] by simp_all
  note fa = frame_addr [OF small(1)]
  have cl: "bitmap_clear s f" using wf f(2,3) by (simp add: frames_ok_def)
  show "\<not> frame s p" using f(3,4) fa by (simp add: frame_def)
  show "kernel_directory s1 = kernel_directory s" "current_directory s1 = current_directory s"
    "kernel_directory_phys s1 = kernel_directory_phys s"
    unfolding f(5) by (simp_all add: bitmap_set_def)
  have bc: "bitmap_clear s1 n = bitmap_clear s n" for n unfolding f(5) by (simp add: bitmap_clear_def)
  show mx: "pmm_max_blocks s1 = pmm_max_blocks s" unfolding f(5) by simp
  have tst: "bitmap_test s1 b \<longleftrightarrow> b = of_nat f \<or> bitmap_test s b" for b unfolding f(5) by (simp add: bitmap_test_set)
  have m32: "unat (pmm_max_blocks s) mod 32 = 0" using pw by (simp add: pmm_wf_def)
  have same: "same_page n (kmem s) (kmem s1)" if "bitmap_clear s n" for n
    unfolding f(5) using bitmap_set_same_page(1) [OF that f(2) m32 small(2)] by simp
  show "frame s1 q \<and> (\<forall>i. unat i < 1024 \<longrightarrow> entry s1 q i = entry s q i)" if "frame s q" for q
    using that same [of "page_no q"] entry_same_page [of q s s1] bc tst mx by (simp add: frame_def)
  show "frame s1 p" using fa f cl bc tst mx small nz by (simp add: frame_def)
  have "pmm_wf s1" unfolding f(5) by (rule pmm_wf_set [OF pw f(2,3)])
  then show "frames_ok s1" using wf tst bc mx by (simp add: frames_ok_def)
qed

text \<open>Allocating a frame while an address space is in use.\<close>

lemma space_wf_alloc:
  assumes wf: "space_wf s pd" and al: "pmm_alloc_block s = (p, s1)" and nz: "p \<noteq> 0"
  shows "space_wf s1 pd" and "frame s1 p" and "\<not> frame s p" and "p \<noteq> pd"
    and "frame s q \<Longrightarrow> frame s1 q \<and> (\<forall>i. unat i < 1024 \<longrightarrow> entry s1 q i = entry s q i)"
    and "kernel_directory s1 = kernel_directory s" and "current_directory s1 = current_directory s"
proof -
  have ok: "frames_ok s" and fpd: "frame s pd" using wf by (simp_all add: space_wf_def frames_ok_def)
  note a = alloc_frame [OF ok al nz]
  show "frame s1 p" "\<not> frame s p" "kernel_directory s1 = kernel_directory s" "current_directory s1 = current_directory s"
    using a by simp_all
  show "p \<noteq> pd" using a(3) fpd by auto
  show keep: "frame s1 q \<and> (\<forall>i. unat i < 1024 \<longrightarrow> entry s1 q i = entry s q i)" if "frame s q" for q
    by (rule a(4) [OF that])
  note pd = keep [OF fpd]
  have "identity_mode s1" using wf a(5,7) by (simp add: space_wf_def identity_mode_def)
  moreover have "\<forall>i. unat i < 1024 \<and> present (entry s1 pd i) \<longrightarrow> frame s1 (page_of (entry s1 pd i)) \<and> page_of (entry s1 pd i) \<noteq> pd"
    using wf pd keep unfolding space_wf_def by metis
  moreover have "\<forall>i j. unat i < 1024 \<and> unat j < 1024 \<and> i \<noteq> j \<and> present (entry s1 pd i) \<and> present (entry s1 pd j) \<longrightarrow>
      page_of (entry s1 pd i) \<noteq> page_of (entry s1 pd j)"
    using wf pd unfolding space_wf_def by metis
  ultimately show "space_wf s1 pd" using a(1) pd unfolding space_wf_def frames_ok_def by blast
qed

lemma page_of_or:
  assumes "paged p" and "page_of fl = 0"
  shows "page_of (p OR fl) = p"
proof -
  have "page_of (p OR fl) = page_of p OR page_of fl" by (simp add: page_of_def bit.conj_disj_distrib2)
  then show ?thesis using assms by (simp add: paged_def)
qed

lemma present_or: "fl AND PAGE_PRESENT \<noteq> 0 \<Longrightarrow> present (p OR fl)"
  by (auto simp: present_def bit.conj_disj_distrib2 or_eq_0_iff)

lemma table_flags:
  "page_of ((PAGE_PRESENT OR PAGE_WRITE) OR (if b then PAGE_USER else 0)) = 0"
  "((PAGE_PRESENT OR PAGE_WRITE) OR (if b then PAGE_USER else 0)) AND PAGE_PRESENT \<noteq> 0"
  by (simp_all add: page_of_def PAGE_PRESENT_def PAGE_WRITE_def PAGE_USER_def)

lemma not_present_0 [simp]: "\<not> present 0"
  by (simp add: present_def)

text \<open>Entering a table frame into a free slot of the directory.\<close>

lemma install_table:
  assumes wf: "space_wf s pd" and p: "frame s p" "p \<noteq> pd" and il: "unat i < 1024"
    and fresh: "\<forall>k. unat k < 1024 \<and> present (entry s pd k) \<longrightarrow> page_of (entry s pd k) \<noteq> p"
    and e: "page_of e = p" "present e"
  shows "space_wf (set_entry pd i e s) pd"
    and "unat k < 1024 \<Longrightarrow> entry (set_entry pd i e s) pd k = (if k = i then e else entry s pd k)"
    and "frame s q \<Longrightarrow> q \<noteq> pd \<Longrightarrow> unat k < 1024 \<Longrightarrow> entry (set_entry pd i e s) q k = entry s q k"
    and "frame (set_entry pd i e s) q = frame s q"
proof -
  let ?s = "set_entry pd i e s"
  have fpd: "frame s pd" and pw: "pmm_wf s" using wf by (auto simp: space_wf_def)
  then have ppd: "paged pd" by (simp add: frame_def)
  have w: "writes_page s ?s pd" by (rule writes_page_set_entry [OF ppd il])
  note b = writes_page_bitmap [OF w fpd pw]
  show ent: "entry ?s pd k = (if k = i then e else entry s pd k)" if "unat k < 1024" for k
    using entry_set_entry [OF ppd ppd il that, of e s] by auto
  show "entry ?s q k = entry s q k" if "frame s q" "q \<noteq> pd" "unat k < 1024" for q k
    using writes_page_entry [OF w ppd _ that(2,3)] that(1) by (simp add: frame_def)
  show fr: "frame ?s q = frame s q" for q by (rule b(3))
  have tables: "frame s (page_of (entry s pd k)) \<and> page_of (entry s pd k) \<noteq> pd" if "unat k < 1024" "present (entry s pd k)" for k
    using wf that by (simp add: space_wf_def)
  have "\<forall>f < unat (pmm_max_blocks ?s). \<not> bitmap_test ?s (of_nat f) \<longrightarrow> bitmap_clear ?s f"
    using wf w b(2) by (simp add: space_wf_def writes_page_def bitmap_clear_def)
  moreover have "identity_mode ?s" "frame ?s pd" using wf w fr fpd by (simp_all add: space_wf_def)
  moreover have "frame ?s (page_of (entry ?s pd k)) \<and> page_of (entry ?s pd k) \<noteq> pd"
    if "unat k < 1024" "present (entry ?s pd k)" for k
    using ent [OF that(1)] that(2) tables [OF that(1)] e(1) p fr by (cases "k = i") simp_all
  moreover have "page_of (entry ?s pd k) \<noteq> page_of (entry ?s pd j)"
    if kj: "unat k < 1024" "unat j < 1024" "k \<noteq> j" "present (entry ?s pd k)" "present (entry ?s pd j)" for k j
  proof (cases "k = i \<or> j = i")
    case True
    then show ?thesis using ent [OF kj(1)] ent [OF kj(2)] kj e(1) fresh by auto
  next
    case False
    then show ?thesis using ent [OF kj(1)] ent [OF kj(2)] kj wf unfolding space_wf_def by metis
  qed
  ultimately show "space_wf ?s pd" using b(1) unfolding space_wf_def by blast
qed

lemma translate_cong:
  assumes "space_wf s pd" and "\<And>i. unat i < 1024 \<Longrightarrow> entry s' pd i = entry s pd i"
    and "\<And>q i. frame s q \<Longrightarrow> q \<noteq> pd \<Longrightarrow> unat i < 1024 \<Longrightarrow> entry s' q i = entry s q i"
  shows "translate s' pd va = translate s pd va"
proof (cases "present (entry s pd (page_directory_index va))")
  case True
  then have "frame s (page_of (entry s pd (page_directory_index va)))" "page_of (entry s pd (page_directory_index va)) \<noteq> pd"
    using assms(1) index_unat(3) [of va] by (simp_all add: space_wf_def)
  then show ?thesis
    using assms(2) [OF index_unat(3)] assms(3) index_unat(4) [of va] by (simp add: translate_def Let_def)
next
  case False
  then show ?thesis using assms(2) [OF index_unat(3)] by (simp add: translate_def Let_def)
qed

text \<open>A fresh, zeroed frame, and its entry into an empty slot: the translation does not change.\<close>

lemma new_table:
  fixes s :: "'a vmm_state_scheme"
  assumes wf: "space_wf s pd" and al: "pmm_alloc_block s = (p, s1)" and nz: "p \<noteq> 0"
    and il: "unat i < 1024" and np: "\<not> present (entry s pd i)"
    and e: "page_of e = p" "present e" and s3: "s3 = set_entry pd i e (s1\<lparr>kmem := memset p 0 4096 (kmem s1)\<rparr>)"
  shows "space_wf s3 pd" and "frame s3 p" and "p \<noteq> pd" and "entry s3 pd i = e"
    and "translate s3 pd va = translate s pd va"
proof -
  note a = space_wf_alloc [OF wf al nz]
  have pp: "paged p" and fpd: "frame s pd" using a(2) wf by (auto simp: frame_def space_wf_def)
  define s2 where "s2 = s1\<lparr>kmem := memset p 0 4096 (kmem s1)\<rparr>"
  have w2: "writes_page s1 s2 p" unfolding s2_def by (rule writes_page_memset [OF pp])
  note sp2 = space_wf_write [OF a(1) w2 a(2,4)]
  have f2: "frame s2 q = frame s1 q" for q
    using writes_page_bitmap(3) [OF w2 a(2)] a(1) by (simp add: space_wf_def)
  have e2: "entry s2 pd k = entry s pd k" if "unat k < 1024" for k using sp2(2) [OF that] a(5) [OF fpd] that by simp
  have fresh: "\<forall>k. unat k < 1024 \<and> present (entry s2 pd k) \<longrightarrow> page_of (entry s2 pd k) \<noteq> p"
    using e2 wf a(3) unfolding space_wf_def by metis
  have p2: "frame s2 p" using f2 a(2) by simp
  note it = install_table [OF sp2(1) p2 a(4) il fresh e, folded s3 [folded s2_def]]
  show "space_wf s3 pd" "frame s3 p" "p \<noteq> pd" "entry s3 pd i = e" using it(1,2,4) p2 a(4) il by simp_all
  have zero: "entry s3 p k = 0" if "unat k < 1024" for k
    using memset_entry [OF pp that] it(3) [OF p2 a(4) that] by (simp add: entry_def s2_def)
  have keep: "entry s3 q k = entry s q k" if "frame s q" "q \<noteq> pd" "unat k < 1024" for q k
  proof -
    have q: "q \<noteq> p" "paged q" "frame s1 q" using that(1) a(3) a(5) [OF that(1)] by (auto simp: frame_def)
    then have "entry s3 q k = entry s1 q k"
      using it(3) [OF _ that(2,3)] f2 writes_page_entry [OF w2 pp q(2,1) that(3)] by simp
    then show ?thesis using a(5) [OF that(1)] that(3) by simp
  qed
  show "translate s3 pd va = translate s pd va"
  proof (cases "page_directory_index va = i")
    case True
    then show ?thesis using it(2) [OF il] e zero [OF index_unat(4)] np by (simp add: translate_def Let_def)
  next
    case False
    then have "entry s3 pd (page_directory_index va) = entry s pd (page_directory_index va)"
      using it(2) [OF index_unat(3)] e2 [OF index_unat(3)] by simp
    then show ?thesis
      using wf keep index_unat(3,4) [of va] by (simp add: translate_def Let_def space_wf_def)
  qed
qed

lemma get_page_table_create:
  fixes s :: "'a vmm_state_scheme"
  assumes wf: "space_wf s pd"
  obtains (none) "get_page_table pd va True s = (0, s)" and "\<not> present (entry s pd (page_directory_index va))"
      and "\<forall>f < unat (pmm_max_blocks s). bitmap_test s (of_nat f)"
  | (table) t s' where "get_page_table pd va True s = (t, s')" and "frame s' t" and "t \<noteq> pd" and "space_wf s' pd"
      and "present (entry s' pd (page_directory_index va))" and "page_of (entry s' pd (page_directory_index va)) = t"
      and "\<forall>va'. translate s' pd va' = translate s pd va'" and "current_directory s' = current_directory s"
proof -
  let ?i = "page_directory_index va"
  have mode: "identity_mode s" and pw: "pmm_wf s" using wf by (auto simp: space_wf_def)
  have il: "unat ?i < 1024" by (rule index_unat(3))
  show thesis
  proof (cases "present (entry s pd ?i)")
    case True
    then have "frame s (page_of (entry s pd ?i))" "page_of (entry s pd ?i) \<noteq> pd" using wf il by (auto simp: space_wf_def)
    then show thesis using True mode wf by (intro table [of "page_of (entry s pd ?i)" s]) (simp_all add: get_page_table_def Let_def)
  next
    case np: False
    obtain p s1 where al: "pmm_alloc_block s = (p, s1)" by fastforce
    show thesis
    proof (cases "p = 0")
      case True
      from pw have "s1 = s \<and> (\<forall>f < unat (pmm_max_blocks s). bitmap_test s (of_nat f))"
      proof (cases rule: pmm_alloc_block_cases)
        case (frame f)
        then show ?thesis using al True frame_address(2) [of f] frame_no_small [OF frame(2) pw] by simp
      qed (use al in simp)
      then show thesis using none True np al mode by (simp add: get_page_table_def Let_def)
    next
      case nz: False
      let ?fl = "(PAGE_PRESENT OR PAGE_WRITE) OR (if va < KERNEL_VIRTUAL_BASE then PAGE_USER else 0)"
      define s3 where "s3 = set_entry pd ?i (p OR ?fl) (s1\<lparr>kmem := memset p 0 4096 (kmem s1)\<rparr>)"
      note a = space_wf_alloc [OF wf al nz]
      have "paged p" using a(2) by (simp add: frame_def)
      then have pe: "page_of (p OR ?fl) = p" "present (p OR ?fl)"
        using page_of_or present_or table_flags by blast+
      note nt = new_table [OF wf al nz il np pe s3_def]
      have "identity_mode s1" using a(1) by (simp add: space_wf_def)
      then have "get_page_table pd va True s = (p, s3)"
        using np mode al nz by (simp add: get_page_table_def Let_def s3_def)
      moreover have "current_directory s3 = current_directory s" using a(7) by (simp add: s3_def set_entry_def)
      ultimately show thesis using table [of p s3] nt pe by simp
    qed
  qed
qed

section \<open>Properties\<close>

text \<open>Writing an entry of the table of \<open>va\<close> changes the translation of that page only.\<close>

lemma translate_set_table:
  assumes wf: "space_wf s pd" and pr: "present (entry s pd (page_directory_index va))"
    and t: "t = page_of (entry s pd (page_directory_index va))"
  shows "translate (set_entry t (page_table_index va) v s) pd va' =
    (if page_of va' = page_of va then (if present v then page_of v OR (va' AND 0xFFF) else 0) else translate s pd va')"
    and "space_wf (set_entry t (page_table_index va) v s) pd"
proof -
  let ?j = "page_table_index va"
  have il: "unat (page_directory_index x) < 1024" "unat (page_table_index x) < 1024" for x using index_unat by blast+
  have ft: "frame s t" "t \<noteq> pd" unfolding t using wf pr il(1) [of va] unfolding space_wf_def by blast+
  then have pt: "paged t" by (simp add: frame_def)
  have w: "writes_page s (set_entry t ?j v s) t" by (rule writes_page_set_entry [OF pt il(2)])
  note sw = space_wf_write [OF wf w ft]
  show "space_wf (set_entry t ?j v s) pd" by (rule sw(1))
  have e: "entry (set_entry t ?j v s) pd (page_directory_index va') = entry s pd (page_directory_index va')"
    by (rule sw(2) [OF il(1)])
  show "translate (set_entry t ?j v s) pd va' =
    (if page_of va' = page_of va then (if present v then page_of v OR (va' AND 0xFFF) else 0) else translate s pd va')"
  proof (cases "present (entry s pd (page_directory_index va'))")
    case False
    then have "page_directory_index va' \<noteq> page_directory_index va" using pr by auto
    then have "page_of va' \<noteq> page_of va" using index_eq by metis
    then show ?thesis using False e by (simp add: translate_def)
  next
    case True
    let ?q = "page_of (entry s pd (page_directory_index va'))"
    have q: "paged ?q" by simp
    have qt: "?q = t \<longleftrightarrow> page_directory_index va' = page_directory_index va"
      using wf True pr il(1) t unfolding space_wf_def by metis
    have "entry (set_entry t ?j v s) ?q (page_table_index va') =
        (if page_of va' = page_of va then v else entry s ?q (page_table_index va'))"
      using entry_set_entry [OF pt q il(2) [of va] il(2) [of va'], of v s] qt index_eq [of va' va] by auto
    then show ?thesis using True e by (simp add: translate_def Let_def)
  qed
qed

text \<open>Registers and logs are not part of the tables.\<close>

lemma space_fields:
  assumes "kmem s' = kmem s" "pmm_bitmap s' = pmm_bitmap s" "pmm_max_blocks s' = pmm_max_blocks s"
    "pmm_used_blocks s' = pmm_used_blocks s" "kernel_directory s' = kernel_directory s"
    "kernel_directory_phys s' = kernel_directory_phys s"
  shows "translate s' pd va = translate s pd va" and "space_wf s' pd = space_wf s pd"
proof -
  have e: "entry s' = entry s" by (intro ext) (simp add: entry_def assms(1))
  have b: "bitmap_test s' = bitmap_test s" "bitmap_clear s' = bitmap_clear s"
    by (intro ext, simp add: bitmap_test_def bitmap_word_def bitmap_clear_def assms)+
  have "pmm_wf s' = pmm_wf s" "frame s' = frame s" "identity_mode s' = identity_mode s"
    using b assms(2-) by (simp_all add: pmm_wf_def pmm_count_def frame_def identity_mode_def fun_eq_iff)
  then show "space_wf s' pd = space_wf s pd" using e b assms(3) by (simp add: space_wf_def)
  show "translate s' pd va = translate s pd va" unfolding translate_def e ..
qed

lemma translate_invlpg [simp]:
  "translate (invlpg va s) pd va' = translate s pd va'" "space_wf (invlpg va s) pd = space_wf s pd"
  by (rule space_fields; simp add: invlpg_def)+

lemma vmm_map_page_effect:
  fixes s :: "'a vmm_state_scheme"
  assumes "space_wf s pd" and "flags AND PAGE_PRESENT \<noteq> 0" and "page_of flags = 0"
  shows "\<exists>r s'. vmm_map_page pd va pa flags s = (r, s') \<and>
    (if r = 0
     then space_wf s' pd \<and> (\<forall>va'. vmm_get_physical_address pd va' s' =
       (if page_of va' = page_of va then page_of pa OR (va' AND 0xFFF) else vmm_get_physical_address pd va' s))
     else r = -1 \<and> s' = s \<and> \<not> present (entry s pd (page_directory_index va)) \<and>
       (\<forall>f < unat (pmm_max_blocks s). bitmap_test s (of_nat f)))"
  using assms(1)
proof (cases rule: get_page_table_create [where va = "page_of va"])
  case none
  then show ?thesis by (intro exI [of _ "-1"] exI [of _ s]) (simp add: vmm_map_page_def Let_def)
next
  case (table t s1)
  let ?v = "page_of pa OR flags"
  let ?s2 = "set_entry t (page_table_index va) ?v s1"
  have t0: "t \<noteq> 0" using table(2) by (simp add: frame_def)
  have pr: "present (entry s1 pd (page_directory_index va))" and te: "t = page_of (entry s1 pd (page_directory_index va))"
    using table(5,6) by simp_all
  have v: "present ?v" "page_of ?v = page_of pa" using present_or [OF assms(2)] page_of_or [OF paged_page_of assms(3)] by blast+
  have wf2: "space_wf ?s2 pd" using translate_set_table(2) [OF table(4) pr te] .
  have tr: "translate ?s2 pd va' = (if page_of va' = page_of va then page_of pa OR (va' AND 0xFFF) else translate s pd va')" for va'
    using translate_set_table(1) [OF table(4) pr te, of ?v va'] v table(7) by simp
  define s' where "s' = (if pd = current_directory ?s2 then invlpg (page_of va) ?s2 else ?s2)"
  have m: "vmm_map_page pd va pa flags s = (0, s')"
    using table(1) t0 by (simp add: vmm_map_page_def Let_def s'_def)
  have wf': "space_wf s' pd" and tr': "translate s' pd va' = translate ?s2 pd va'" for va'
    using wf2 by (auto simp: s'_def)
  show ?thesis
    using m wf' tr tr' get_physical_translate [OF wf'] get_physical_translate [OF assms(1)]
    by (intro exI [of _ "0 :: int"] exI [of _ s']) simp
qed

text \<open>
  C12: \<open>vmm_map_page\<close> updates the address translation at exactly one page. With flags that contain
  \<^verbatim>\<open>PAGE_PRESENT\<close> it either fails, because a page table is needed and no frame is free, and changes
  nothing; or afterwards every address of the page translates to the same offset in the given
  physical page, every other address translates as before, and the tables stay well-formed.
\<close>

theorem vmm_map_page_correct:
  fixes s :: "'a vmm_state_scheme"
  assumes "space_wf s pd" and "flags AND PAGE_PRESENT \<noteq> 0" and "page_of flags = 0"
  shows "\<exists>r s'. vmm_map_page pd va pa flags s = (r, s') \<and>
    (if r = 0
     then space_wf s' pd \<and> (\<forall>va'. vmm_get_physical_address pd va' s' =
       (if page_of va' = page_of va then page_of pa OR (va' AND 0xFFF) else vmm_get_physical_address pd va' s))
     else r = -1 \<and> s' = s \<and> \<not> present (entry s pd (page_directory_index va)) \<and>
       (\<forall>f < unat (pmm_max_blocks s). bitmap_test s (of_nat f)))"
  by (rule vmm_map_page_effect [OF assms])

text \<open>
  \<open>vmm_unmap_page\<close> removes exactly one page from the translation.
\<close>

theorem vmm_unmap_page_correct:
  assumes "space_wf s pd"
  shows "space_wf (vmm_unmap_page pd va s) pd \<and> vmm_get_physical_address pd va' (vmm_unmap_page pd va s) =
      (if page_of va' = page_of va then 0 else vmm_get_physical_address pd va' s)"
proof -
  have mode: "identity_mode s" using assms by (simp add: space_wf_def)
  have "space_wf (vmm_unmap_page pd va s) pd \<and> translate (vmm_unmap_page pd va s) pd va' =
      (if page_of va' = page_of va then 0 else translate s pd va')"
  proof (cases "present (entry s pd (page_directory_index va))")
    case False
    then have "vmm_unmap_page pd va s = s" by (simp add: vmm_unmap_page_def get_page_table_read [OF mode] Let_def)
    moreover have "translate s pd va' = 0" if "page_of va' = page_of va"
      using that False index_eq [of va' va] by (simp add: translate_def)
    ultimately show ?thesis using assms by simp
  next
    case True
    let ?t = "page_of (entry s pd (page_directory_index va))"
    have "?t \<noteq> 0" using assms True index_unat(3) [of va] by (auto simp: space_wf_def frame_def)
    then show ?thesis
      using translate_set_table [OF assms True refl, of 0] True
      by (auto simp: vmm_unmap_page_def get_page_table_read [OF mode] Let_def)
  qed
  then show ?thesis
    using get_physical_translate [OF assms] get_physical_translate [of "vmm_unmap_page pd va s" pd] by auto
qed

text \<open>
  What the hardware requires of a user access to the page of \<open>x\<close>: both levels present, and the page
  marked for user (and write) access.
\<close>

definition user_page :: "'a vmm_state_scheme \<Rightarrow> u32 \<Rightarrow> bool \<Rightarrow> u32 \<Rightarrow> bool" where
  "user_page s pd wr x \<longleftrightarrow>
     (let e = entry s (phys_to_virt s pd) (page_directory_index x);
          t = entry s (phys_to_virt s (page_of e)) (page_table_index x)
      in present e \<and> present t \<and> t AND PAGE_USER \<noteq> 0 \<and> (wr \<longrightarrow> t AND PAGE_WRITE \<noteq> 0))"

lemma check_pages_step:
  "check_pages s pd wr e page =
     (if page > e then Some True else if user_page s pd wr page then check_pages s pd wr e (page + PAGE_SIZE) else Some False)"
  by (subst check_pages.simps) (simp add: user_page_def Let_def)

lemma user_page_cong: "page_no x = page_no y \<Longrightarrow> user_page s pd wr x = user_page s pd wr y"
  using index_eq [of x y] by (simp add: user_page_def page_of_eq)

lemma check_pages_ok:
  assumes "paged page" and "unat e < 0xC0000000"
  shows "check_pages s pd wr e page = Some (\<forall>x. page \<le> x \<and> x \<le> e \<longrightarrow> user_page s pd wr x)"
  using assms
proof (induction "unat e + 4096 - unat page" arbitrary: page rule: less_induct)
  case less
  show ?case
  proof (cases "page > e")
    case True
    then show ?thesis by (subst check_pages_step) auto
  next
    case False
    then have le: "unat page \<le> unat e" by (simp add: word_le_nat_alt not_less)
    have u: "unat (page + PAGE_SIZE) = unat page + 4096"
      using le less.prems(2) by (simp add: PAGE_SIZE_def unat_add_no_overflow)
    have pu: "unat page = 4096 * page_no page" by (rule paged_unat [OF less.prems(1)])
    have "unat (page_of (page + PAGE_SIZE)) = unat (page + PAGE_SIZE)" unfolding unat_page_of u pu by simp
    then have pg: "paged (page + PAGE_SIZE)" unfolding paged_def by (rule unat_word_inj)
    have ih: "check_pages s pd wr e (page + PAGE_SIZE) = Some (\<forall>x. page + PAGE_SIZE \<le> x \<and> x \<le> e \<longrightarrow> user_page s pd wr x)"
      by (rule less.hyps [OF _ pg less.prems(2)]) (use u le in simp)
    have same: "page_no x = page_no page" if "page \<le> x" "\<not> page + PAGE_SIZE \<le> x" for x
    proof -
      have "4096 * page_no page \<le> unat x" "unat x < 4096 * page_no page + 4096"
        using that u pu by (simp_all add: word_le_nat_alt)
      then show ?thesis by (simp add: page_no_def [of x] div_nat_eqI)
    qed
    have "(\<forall>x. page \<le> x \<and> x \<le> e \<longrightarrow> user_page s pd wr x) \<longleftrightarrow>
        user_page s pd wr page \<and> (\<forall>x. page + PAGE_SIZE \<le> x \<and> x \<le> e \<longrightarrow> user_page s pd wr x)"
    proof -
      have "page \<le> x" if "page + PAGE_SIZE \<le> x" for x using that u by (simp add: word_le_nat_alt)
      moreover have "user_page s pd wr x" if "page \<le> x" "\<not> page + PAGE_SIZE \<le> x" "user_page s pd wr page" for x
        using user_page_cong [OF same [OF that(1,2)], of s pd wr] that(3) by simp
      ultimately show ?thesis using False by (meson leI order_refl)
    qed
    then show ?thesis using ih False by (subst check_pages_step) simp
  qed
qed

lemma check_user_ptr_sound:
  assumes "unat ptr + unat len \<le> 2 ^ 32" and "ptr \<noteq> 0" and "len \<noteq> 0" and "current_directory s \<noteq> 0"
  shows "vmm_check_user_ptr ptr len wr s =
    Some (unat ptr + unat len \<le> 0xC0000000 \<and>
      (\<forall>x. ptr \<le> x \<and> unat x < unat ptr + unat len \<longrightarrow> user_page s (current_directory s) wr x))"
proof -
  let ?e = "ptr + len - 1"
  have l: "0 < unat len" using assms(3) by (simp add: unat_gt_0)
  have e: "unat ?e = unat ptr + unat len - 1"
  proof -
    have "unat (len - 1) = unat len - 1" using assms(3) by (simp add: unat_minus_one)
    then have "unat (ptr + (len - 1)) = unat ptr + (unat len - 1)"
      using assms(1) l by (intro unat_add_no_overflow [of ptr "len - 1", THEN trans]) simp_all
    then show ?thesis using l by (simp add: algebra_simps)
  qed
  show ?thesis
  proof (cases "unat ptr + unat len \<le> 0xC0000000")
    case False
    then have "?e > USER_SPACE_END" using e l by (simp add: USER_SPACE_END_def word_less_nat_alt)
    then show ?thesis using False assms(2,3) by (simp add: vmm_check_user_ptr_def Let_def)
  next
    case True
    then have b: "\<not> (ptr > USER_SPACE_END \<or> ?e > USER_SPACE_END)" "unat ?e < 0xC0000000"
      using e l by (auto simp: USER_SPACE_END_def word_less_nat_alt)
    have lo: "page_of ptr \<le> ptr" by (simp add: word_le_nat_alt unat_page_of)
    have "user_page s (current_directory s) wr x" if "page_of ptr \<le> x" "\<not> ptr \<le> x" "user_page s (current_directory s) wr ptr" for x
    proof -
      have "4096 * page_no ptr \<le> unat x" "unat x < unat ptr"
        using that paged_unat [OF paged_page_of, of ptr] by (simp_all add: word_le_nat_alt)
      then have "page_no x = page_no ptr" by (simp add: page_no_def div_nat_eqI)
      then show ?thesis using that(3) user_page_cong [of x ptr s] by blast
    qed
    moreover have "x \<le> ?e \<longleftrightarrow> unat x < unat ptr + unat len" for x
      unfolding word_le_nat_alt e using l by linarith
    moreover have "ptr \<le> ?e" unfolding word_le_nat_alt e using l by linarith
    ultimately have "(\<forall>x. page_of ptr \<le> x \<and> x \<le> ?e \<longrightarrow> user_page s (current_directory s) wr x) \<longleftrightarrow>
        (\<forall>x. ptr \<le> x \<and> unat x < unat ptr + unat len \<longrightarrow> user_page s (current_directory s) wr x)"
      using lo by (meson order_refl order_trans)
    then show ?thesis
      using check_pages_ok [OF paged_page_of b(2), of s "current_directory s" wr ptr] b(1) True assms(2-4)
      by (simp add: vmm_check_user_ptr_def vmm_get_current_directory_def Let_def)
  qed
qed


lemma check_user_ptr_wraps:
  assumes "0x1000 \<le> ptr" and "ptr \<le> USER_SPACE_END" and "current_directory s \<noteq> 0"
  shows "vmm_check_user_ptr ptr (1 - ptr) wr s = Some True"
proof -
  have "ptr \<noteq> 0" "1 - ptr \<noteq> 0" using assms(1) by (auto simp: word_le_nat_alt)
  moreover have "page_of ptr > 0"
  proof -
    have "4096 \<le> unat ptr" using assms(1) by (simp add: word_le_nat_alt)
    moreover have "unat ptr mod 4096 < 4096" by simp
    ultimately have "0 < unat (page_of ptr)" unfolding unat_page_of by linarith
    then show ?thesis by (simp add: word_less_nat_alt)
  qed
  moreover have "check_pages s (current_directory s) wr 0 (page_of ptr) = Some True"
    using calculation(3) by (subst check_pages_step) simp
  ultimately show ?thesis
    using assms(2,3) by (simp add: vmm_check_user_ptr_def vmm_get_current_directory_def Let_def not_less)
qed

text \<open>
  The check does not survive a length that wraps around the address space: for every user pointer
  from \<open>0x1000\<close> on, the length that runs through the whole rest of memory up to and including address
  0 is accepted, whatever is mapped.
\<close>

theorem vmm_check_user_ptr_wraps:
  assumes "0x1000 \<le> ptr" and "ptr \<le> USER_SPACE_END" and "current_directory s \<noteq> 0"
  shows "vmm_check_user_ptr ptr (1 - ptr) wr s = Some True"
  using assms by (rule check_user_ptr_wraps)

text \<open>Frames that are allocated elsewhere do not disturb the translation.\<close>

lemma translate_alloc:
  assumes "space_wf s pd" and "pmm_alloc_block s = (p, s1)" and "p \<noteq> 0"
  shows "translate s1 pd va = translate s pd va"
  by (rule translate_cong [OF assms(1)]) (use space_wf_alloc(5) [OF assms] assms(1) in \<open>auto simp: space_wf_def\<close>)

text \<open>
  \<open>vmm_alloc_page\<close> gives a page its own frame: on success the page translates to a frame that was
  free before, and all other pages translate as before. When the frame or the page table cannot be
  had, nothing is kept: the state, the bitmap included, is the one before the call.
\<close>

theorem vmm_alloc_page_correct:
  fixes s :: "'a vmm_state_scheme"
  assumes "space_wf s pd" and "page_of flags = 0"
  shows "\<exists>r s'. vmm_alloc_page pd va flags s = (r, s') \<and>
    (if r = 0
     then space_wf s' pd \<and> (\<exists>f. f < unat (pmm_max_blocks s) \<and> \<not> bitmap_test s (of_nat f) \<and>
       (\<forall>va'. vmm_get_physical_address pd va' s' =
         (if page_of va' = page_of va then of_nat (4096 * f) OR (va' AND 0xFFF) else vmm_get_physical_address pd va' s)))
     else r = -1 \<and> s' = s)"
proof -
  have pw: "pmm_wf s" using assms(1) by (simp add: space_wf_def)
  from pw show ?thesis
  proof (cases rule: pmm_alloc_block_cases)
    case full
    then show ?thesis by (intro exI [of _ "-1"] exI [of _ s]) (simp add: vmm_alloc_page_def)
  next
    case (frame f)
    let ?p = "of_nat (4096 * f) :: u32"
    define s1 where "s1 = (bitmap_set (of_nat f) s)\<lparr>pmm_used_blocks := pmm_used_blocks s + 1\<rparr>"
    have small: "f < 2 ^ 20" by (rule frame_no_small [OF frame(2) pw])
    have al: "pmm_alloc_block s = (?p, s1)" using frame(5) by (simp add: s1_def)
    have nz: "?p \<noteq> 0" by (rule frame_address(2) [OF frame(1) small])
    have pg: "page_of ?p = ?p" using frame_addr(1) [OF small] by (simp add: paged_def)
    have fl: "(flags OR PAGE_PRESENT) AND PAGE_PRESENT \<noteq> 0" "page_of (flags OR PAGE_PRESENT) = 0"
      using assms(2) by (simp_all add: page_of_def PAGE_PRESENT_def bit.conj_disj_distrib2)
    obtain r s2 where m: "vmm_map_page pd va ?p (flags OR PAGE_PRESENT) s1 = (r, s2)"
      and r: "if r = 0
        then space_wf s2 pd \<and> (\<forall>va'. vmm_get_physical_address pd va' s2 =
          (if page_of va' = page_of va then page_of ?p OR (va' AND 0xFFF) else vmm_get_physical_address pd va' s1))
        else r = -1 \<and> s2 = s1"
      using vmm_map_page_effect [OF space_wf_alloc(1) [OF assms(1) al nz] fl, of va ?p] by metis
    show ?thesis
    proof (cases "r = 0")
      case True
      then have "vmm_alloc_page pd va flags s = (0, s2)" using al nz m by (simp add: vmm_alloc_page_def)
      moreover have "vmm_get_physical_address pd va' s1 = vmm_get_physical_address pd va' s" for va'
        using translate_alloc [OF assms(1) al nz] get_physical_translate [OF assms(1)]
          get_physical_translate [OF space_wf_alloc(1) [OF assms(1) al nz]] by simp
      ultimately show ?thesis
        using True r pg frame(2,3) by (intro exI [of _ "0 :: int"] exI [of _ s2]) auto
    next
      case False
      have "pmm_free_block ?p s1 = s"
        using bitmap_unset_set [OF frame(3)] frame_address(1) [OF small]
        by (simp add: pmm_free_block_def s1_def bitmap_set_def bitmap_unset_def bitmap_word_def)
      then have "vmm_alloc_page pd va flags s = (-1, s)" using False r al nz m by (simp add: vmm_alloc_page_def)
      then show ?thesis by (intro exI [of _ "-1"] exI [of _ s]) simp
    qed
  qed
qed

section \<open>Paging at start-up\<close>

lemma fold_set_entry:
  assumes "paged p" and "n \<le> 1024"
  shows "writes_page s (fold (\<lambda>i. set_entry p (of_nat i) (g i)) [0..<n] s) p \<and>
    (\<forall>j. unat j < 1024 \<longrightarrow> entry (fold (\<lambda>i. set_entry p (of_nat i) (g i)) [0..<n] s) p j =
      (if unat j < n then g (unat j) else entry s p j))"
  using assms(2)
proof (induction n)
  case 0
  then show ?case by (simp add: writes_page_def)
next
  case (Suc n)
  have n: "unat (of_nat n :: u32) = n" using Suc.prems by (intro unat_of_nat_small) simp
  then have nl: "unat (of_nat n :: u32) < 1024" using Suc.prems by simp
  let ?s = "fold (\<lambda>i. set_entry p (of_nat i) (g i)) [0..<n] s"
  have ih: "writes_page s ?s p" "\<And>j. unat j < 1024 \<Longrightarrow> entry ?s p j = (if unat j < n then g (unat j) else entry s p j)"
    using Suc by simp_all
  have step: "fold (\<lambda>i. set_entry p (of_nat i) (g i)) [0..<Suc n] s = set_entry p (of_nat n) (g n) ?s" by simp
  have "writes_page s (set_entry p (of_nat n) (g n) ?s) p"
    using ih(1) writes_page_set_entry [OF assms(1) nl, of ?s "g n"]
    by (auto simp: writes_page_def intro: same_page_trans)
  moreover have "entry (set_entry p (of_nat n) (g n) ?s) p j = (if unat j < Suc n then g (unat j) else entry s p j)"
    if "unat j < 1024" for j
  proof -
    have "of_nat n = j \<longleftrightarrow> n = unat j" using n by (metis unat_word_inj)
    then show ?thesis using entry_set_entry [OF assms(1,1) nl that, of "g n" ?s] ih(2) [OF that] by auto
  qed
  ultimately show ?case unfolding step by simp
qed

text \<open>The entries of an identity-mapped table.\<close>

definition identity_entry :: "nat \<Rightarrow> nat \<Rightarrow> u32" where
  "identity_entry k j = ((of_nat k * 0x400000 + of_nat j * PAGE_SIZE) OR PAGE_PRESENT) OR PAGE_WRITE"

lemma page_of_split: "page_of va OR (va AND 0xFFF) = va"
  by (rule bit_word_eqI) (auto simp: page_of_def bit_simps)

lemma identity_entry_page:
  assumes "unat (page_directory_index va) = k" and "unat (page_table_index va) = j"
  shows "page_of (identity_entry k j) = page_of va" "present (identity_entry k j)"
proof -
  have q: "page_no va = 1024 * k + j" using index_unat(1,2) [of va] assms by simp
  have lt: "k < 1024" "j < 1024" using index_unat(3,4) [of va] assms by simp_all
  have "of_nat k * 0x400000 + of_nat j * PAGE_SIZE = (of_nat (4096 * (1024 * k + j)) :: u32)"
    by (simp add: PAGE_SIZE_def algebra_simps)
  moreover have "page_of va = of_nat (4096 * (1024 * k + j))"
  proof (rule unat_word_inj)
    have "unat (of_nat (4096 * (1024 * k + j)) :: u32) = 4096 * (1024 * k + j)"
      using lt by (intro unat_of_nat_small) simp
    then show "unat (page_of va) = unat (of_nat (4096 * (1024 * k + j)) :: u32)"
      using paged_unat [OF paged_page_of, of va] q by simp
  qed
  ultimately have "of_nat k * 0x400000 + of_nat j * PAGE_SIZE = page_of va" by (simp only:)
  then have eq: "identity_entry k j = page_of va OR (PAGE_PRESENT OR PAGE_WRITE)"
    unfolding identity_entry_def by (simp only: or.assoc)
  show "page_of (identity_entry k j) = page_of va" "present (identity_entry k j)"
    unfolding eq using page_of_or [OF paged_page_of, of "PAGE_PRESENT OR PAGE_WRITE" va]
      present_or [of "PAGE_PRESENT OR PAGE_WRITE" "page_of va"] table_flags [of False] by simp_all
qed

lemma alloc_some:
  assumes "pmm_wf s" and "pmm_get_free_block_count s \<noteq> 0"
  shows "\<exists>p s1. pmm_alloc_block s = (p, s1) \<and> p \<noteq> 0"
  using assms(1)
proof (cases rule: pmm_alloc_block_cases)
  case full
  then show ?thesis using assms pmm_free_count_zero by blast
next
  case (frame f)
  then show ?thesis using frame_address(2) [OF frame(1) frame_no_small [OF frame(2) assms(1)]] by auto
qed

lemma alloc_count:
  assumes "pmm_wf s" and "pmm_alloc_block s = (p, s1)" and "p \<noteq> 0"
  shows "pmm_get_free_block_count s1 = pmm_get_free_block_count s - 1"
  using assms(1)
proof (cases rule: pmm_alloc_block_cases)
  case full
  then show ?thesis using assms(2,3) by simp
next
  case (frame f)
  then show ?thesis using assms(2) by (auto simp: pmm_get_free_block_count_def algebra_simps)
qed

lemma identity_table_ok:
  assumes wf: "space_wf s pd" and il: "k < 1024" and np: "\<not> present (entry s pd (of_nat k))"
    and run: "identity_table pd k s = (True, s')"
  obtains t where "space_wf s' pd" and "frame s' t" and "t \<noteq> pd" and "present (entry s' pd (of_nat k))"
    and "page_of (entry s' pd (of_nat k)) = t" and "\<forall>j. unat j < 1024 \<longrightarrow> entry s' t j = identity_entry k (unat j)"
    and "\<forall>i. unat i < 1024 \<and> i \<noteq> of_nat k \<longrightarrow> entry s' pd i = entry s pd i"
    and "\<forall>q i. frame s q \<and> q \<noteq> pd \<and> unat i < 1024 \<longrightarrow> frame s' q \<and> entry s' q i = entry s q i"
    and "kernel_directory s' = kernel_directory s" and "pmm_get_free_block_count s' = pmm_get_free_block_count s - 1"
    and "kernel_directory_phys s' = kernel_directory_phys s"
proof -
  obtain t s1 where al: "pmm_alloc_block s = (t, s1)" by fastforce
  have nz: "t \<noteq> 0" using run al by (auto simp: identity_table_def)
  note a = space_wf_alloc [OF wf al nz]
  have pt: "paged t" and fpd: "frame s pd" using a(2) wf by (auto simp: frame_def space_wf_def)
  have m1: "identity_mode s1" using a(1) by (simp add: space_wf_def)
  let ?z = "fold (\<lambda>i. set_entry t (of_nat i) 0) [0..<1024] s1"
  let ?w = "fold (\<lambda>i. set_entry t (of_nat i) (identity_entry k i)) [0..<1024] ?z"
  let ?e = "(t OR PAGE_PRESENT) OR PAGE_WRITE"
  have s': "s' = set_entry pd (of_nat k) ?e ?w"
    using run al nz m1 by (simp add: identity_table_def identity_entry_def Let_def)
  have "writes_page s1 ?z t" using fold_set_entry [OF pt order_refl, of s1 "\<lambda>_. 0"] by blast
  moreover have wz: "writes_page ?z ?w t" "\<forall>j. unat j < 1024 \<longrightarrow> entry ?w t j = identity_entry k (unat j)"
    using fold_set_entry [OF pt order_refl, of ?z "identity_entry k"] by auto
  ultimately have w: "writes_page s1 ?w t" by (auto simp: writes_page_def intro: same_page_trans)
  note sp = space_wf_write [OF a(1) w a(2,4)]
  have fw: "frame ?w q = frame s1 q" for q
    using writes_page_bitmap(3) [OF w a(2)] a(1) by (simp add: space_wf_def)
  have ew: "entry ?w pd i = entry s pd i" if "unat i < 1024" for i using sp(2) [OF that] a(5) [OF fpd] that by simp
  have fresh: "\<forall>i. unat i < 1024 \<and> present (entry ?w pd i) \<longrightarrow> page_of (entry ?w pd i) \<noteq> t"
  proof (intro allI impI)
    fix i assume i: "unat i < 1024 \<and> present (entry ?w pd i)"
    then have "frame s (page_of (entry s pd i))" using ew [of i] wf by (simp add: space_wf_def)
    then show "page_of (entry ?w pd i) \<noteq> t" using ew [of i] i a(3) by auto
  qed
  have e: "page_of ?e = t" "present ?e"
    using page_of_or [OF pt, of "PAGE_PRESENT OR PAGE_WRITE"] present_or [of "PAGE_PRESENT OR PAGE_WRITE" t] table_flags [of False]
    by (simp_all add: or.assoc)
  have kl: "unat (of_nat k :: u32) < 1024" using il by (simp add: unat_of_nat_small)
  have ft: "frame ?w t" using fw a(2) by simp
  note it = install_table [OF sp(1) ft a(4) kl fresh e, folded s']
  have "frames_ok s" using wf by (simp add: space_wf_def frames_ok_def)
  from alloc_frame(7) [OF this al nz]
  have "kernel_directory s' = kernel_directory s" "pmm_get_free_block_count s' = pmm_get_free_block_count s1"
    "kernel_directory_phys s' = kernel_directory_phys s"
    using w a(6) by (simp_all add: s' writes_page_def set_entry_def pmm_get_free_block_count_def)
  moreover have "pmm_get_free_block_count s1 = pmm_get_free_block_count s - 1" by (rule alloc_count [OF _ al nz]) (use wf in \<open>simp add: space_wf_def\<close>)
  moreover have "frame s' q \<and> entry s' q i = entry s q i" if q: "frame s q" "q \<noteq> pd" "unat i < 1024" for q i
  proof -
    have "q \<noteq> t" "paged q" "frame s1 q" using q(1) a(3) a(5) [OF q(1)] by (auto simp: frame_def)
    then have "entry ?w q i = entry s1 q i" "frame ?w q" using writes_page_entry [OF w pt] q(3) fw by simp_all
    then show ?thesis using it(3,4) q a(5) [OF q(1)] by simp
  qed
  ultimately show thesis
    using that [of t] it(1,2,4) it(3) [OF ft a(4)] ft a(4) kl e wz(2) ew by simp
qed

lemma identity_table_returns:
  assumes "pmm_wf s" and "pmm_get_free_block_count s \<noteq> 0"
  shows "\<exists>s'. identity_table pd k s = (True, s')"
proof -
  obtain t s1 where "pmm_alloc_block s = (t, s1)" "t \<noteq> 0" using alloc_some [OF assms] by blast
  then show ?thesis by (simp add: identity_table_def Let_def)
qed

lemma empty_directory:
  assumes ok: "frames_ok s" and al: "pmm_alloc_block s = (kd, s1)" and nz: "kd \<noteq> 0"
    and low: "unat (pmm_max_blocks s) \<le> 0xC0000"
    and z: "z = fold (\<lambda>i. set_entry kd (of_nat i) 0) [0..<1024] (s1\<lparr>kernel_directory := kd, kernel_directory_phys := kd, current_directory := kd\<rparr>)"
  shows "space_wf z kd" and "\<forall>i. unat i < 1024 \<longrightarrow> entry z kd i = 0" and "kernel_directory z = kd"
    and "pmm_get_free_block_count z = pmm_get_free_block_count s - 1" and "kernel_directory_phys z = kd"
proof -
  note a = alloc_frame [OF ok al nz]
  let ?s2 = "s1\<lparr>kernel_directory := kd, kernel_directory_phys := kd, current_directory := kd\<rparr>"
  have pk: "paged kd" "page_no kd < 0xC0000" using a(2,8) low by (simp_all add: frame_def)
  have e2: "bitmap_test ?s2 = bitmap_test s1" "bitmap_clear ?s2 = bitmap_clear s1" "pmm_wf ?s2 = pmm_wf s1"
    by (simp_all add: fun_eq_iff bitmap_test_def bitmap_word_def bitmap_clear_def pmm_wf_def pmm_count_def)
  have f2: "frame ?s2 kd" "pmm_wf ?s2" using a(1,2) e2 by (simp_all add: frame_def frames_ok_def)
  have w: "writes_page ?s2 z kd" "\<forall>i. unat i < 1024 \<longrightarrow> entry z kd i = 0"
    using fold_set_entry [OF pk(1) order_refl, of ?s2 "\<lambda>_. 0"] z by auto
  note b = writes_page_bitmap [OF w(1) f2]
  show "\<forall>i. unat i < 1024 \<longrightarrow> entry z kd i = 0" by (rule w(2))
  show kz: "kernel_directory z = kd" "kernel_directory_phys z = kd" using w(1) by (simp_all add: writes_page_def)
  have "unat kd = 4096 * page_no kd" by (rule paged_unat [OF pk(1)])
  then have "kd < KERNEL_VIRTUAL_BASE" using pk(2) by (simp add: KERNEL_VIRTUAL_BASE_def word_less_nat_alt)
  then have "identity_mode z" using kz by (simp add: identity_mode_def)
  moreover have "\<forall>f < unat (pmm_max_blocks z). \<not> bitmap_test z (of_nat f) \<longrightarrow> bitmap_clear z f"
    using a(1) b(2) w(1) e2 by (simp add: frames_ok_def writes_page_def bitmap_clear_def)
  moreover have "\<not> present (entry z kd i)" if "unat i < 1024" for i using w(2) that by simp
  moreover have "frame z kd" using b(3) f2(1) by simp
  ultimately show "space_wf z kd" using b(1) unfolding space_wf_def by blast
  have "pmm_wf s" using ok by (simp add: frames_ok_def)
  from alloc_count [OF this al nz] show "pmm_get_free_block_count z = pmm_get_free_block_count s - 1"
    using w(1) by (simp add: writes_page_def pmm_get_free_block_count_def)
qed

lemma translate_identity:
  assumes "present (entry s pd (of_nat k))" and "page_of (entry s pd (of_nat k)) = t"
    and "\<forall>j. unat j < 1024 \<longrightarrow> entry s t j = identity_entry k (unat j)" and "unat (page_directory_index va) = k"
  shows "translate s pd va = va"
proof -
  have k: "page_directory_index va = of_nat k" by (simp add: assms(4) [symmetric])
  show ?thesis
    using assms k identity_entry_page [OF assms(4) refl] index_unat(4) [of va] page_of_split [of va]
    by (simp add: translate_def Let_def)
qed

text \<open>
  C13: After \<open>vmm_init\<close>, on a machine with at least three free frames, all below 3 GB, paging is on with
  the new kernel directory, its tables are well-formed, and every address of the first 8 MB translates
  to itself.
\<close>

theorem vmm_init_identity:
  fixes s :: "'a vmm_state_scheme"
  assumes "frames_ok s" and "unat (pmm_max_blocks s) \<le> 0xC0000" and "3 \<le> unat (pmm_get_free_block_count s)"
  shows "\<exists>s' kd. vmm_init s = s' \<and> kd \<noteq> 0 \<and> kernel_directory s' = kd \<and> cr3 s' = kd \<and> space_wf s' kd \<and>
    cr0 s' AND 0x80000000 \<noteq> 0 \<and> (\<forall>va < 0x800000. vmm_get_physical_address kd va s' = va)"
proof -
  have pw: "pmm_wf s" using assms(1) by (simp add: frames_ok_def)
  let ?c = "\<lambda>s. unat (pmm_get_free_block_count s)"
  have dec: "unat (w - 1) = unat w - 1" if "1 \<le> unat w" for w :: u32
  proof -
    have "w \<noteq> 0" using that by auto
    then show ?thesis by (simp add: unat_minus_one)
  qed
  have "pmm_get_free_block_count s \<noteq> 0" using assms(3) by auto
  then obtain kd s1 where al: "pmm_alloc_block s = (kd, s1)" "kd \<noteq> 0" using alloc_some [OF pw] by blast
  let ?s2 = "s1\<lparr>kernel_directory := kd, kernel_directory_phys := kd, current_directory := kd\<rparr>"
  define z where "z = fold (\<lambda>i. set_entry kd (of_nat i) 0) [0..<1024] ?s2"
  note d = empty_directory [OF assms(1) al assms(2) z_def]
  have cz: "2 \<le> ?c z" using d(4) dec assms(3) by simp
  have zw: "pmm_wf z" and zn: "pmm_get_free_block_count z \<noteq> 0" using d(1) cz by (auto simp: space_wf_def)
  obtain s3 where s3: "identity_table kd 0 z = (True, s3)" using identity_table_returns [OF zw zn] by blast
  have np: "\<not> present (entry z kd (of_nat 0))" using d(2) by simp
  have k0: "0 < (1024 :: nat)" and k1: "1 < (1024 :: nat)" by simp_all
  obtain t0 where t0: "space_wf s3 kd" "frame s3 t0" "t0 \<noteq> kd" "present (entry s3 kd (of_nat 0))"
    "page_of (entry s3 kd (of_nat 0)) = t0" "\<forall>j. unat j < 1024 \<longrightarrow> entry s3 t0 j = identity_entry 0 (unat j)"
    "\<forall>i. unat i < 1024 \<and> i \<noteq> of_nat 0 \<longrightarrow> entry s3 kd i = entry z kd i"
    "\<forall>q i. frame z q \<and> q \<noteq> kd \<and> unat i < 1024 \<longrightarrow> frame s3 q \<and> entry s3 q i = entry z q i"
    "kernel_directory s3 = kernel_directory z"
    "pmm_get_free_block_count s3 = pmm_get_free_block_count z - 1" "kernel_directory_phys s3 = kernel_directory_phys z"
    by (rule identity_table_ok [OF d(1) k0 np s3])
  have c3: "1 \<le> ?c s3" using t0(10) dec cz by simp
  have w3: "pmm_wf s3" and n3: "pmm_get_free_block_count s3 \<noteq> 0" using t0(1) c3 by (auto simp: space_wf_def)
  obtain s4 where s4: "identity_table kd 1 s3 = (True, s4)" using identity_table_returns [OF w3 n3] by blast
  have np1: "\<not> present (entry s3 kd (of_nat 1))" using t0(7) d(2) by simp
  obtain t1 where t1: "space_wf s4 kd" "frame s4 t1" "t1 \<noteq> kd" "present (entry s4 kd (of_nat 1))"
    "page_of (entry s4 kd (of_nat 1)) = t1" "\<forall>j. unat j < 1024 \<longrightarrow> entry s4 t1 j = identity_entry 1 (unat j)"
    "\<forall>i. unat i < 1024 \<and> i \<noteq> of_nat 1 \<longrightarrow> entry s4 kd i = entry s3 kd i"
    "\<forall>q i. frame s3 q \<and> q \<noteq> kd \<and> unat i < 1024 \<longrightarrow> frame s4 q \<and> entry s4 q i = entry s3 q i"
    "kernel_directory s4 = kernel_directory s3"
    "pmm_get_free_block_count s4 = pmm_get_free_block_count s3 - 1" "kernel_directory_phys s4 = kernel_directory_phys s3"
    by (rule identity_table_ok [OF t0(1) k1 np1 s4])
  have e0: "entry s4 kd (of_nat 0) = entry s3 kd (of_nat 0)" using t1(7) by simp
  have "\<forall>j. unat j < 1024 \<longrightarrow> entry s4 t0 j = identity_entry 0 (unat j)" using t1(8) t0(2,3,6) by simp
  note id0 = translate_identity [OF t0(4,5) [folded e0] this] and id1 = translate_identity [OF t1(4-6)]
  have tr: "translate s4 kd va = va" if "va < 0x800000" for va
  proof -
    have "unat va < 0x800000" using that by (simp add: word_less_nat_alt)
    then have "unat va div 4096 div 1024 < 2" by (simp add: less_mult_imp_div_less)
    then have "unat (page_directory_index va) = 0 \<or> unat (page_directory_index va) = 1"
      unfolding index_unat(1) page_no_def by linarith
    then show ?thesis using id0 id1 by blast
  qed
  let ?s' = "(write_cr3 (kernel_directory_phys s4) s4)\<lparr>cr0 := cr0 s4 OR 0x80000000\<rparr>"
  have "identity_mode z" using d(1) by (simp add: space_wf_def)
  then have m2: "identity_mode ?s2" using d(3,5) al(2) by (simp add: identity_mode_def)
  have run: "vmm_init s = ?s'"
    using al m2 s3 s4 by (simp add: vmm_init_def Let_def z_def [symmetric] write_cr3_def)
  have sf: "translate ?s' kd va = translate s4 kd va" "space_wf ?s' kd = space_wf s4 kd" for va
    by (rule space_fields; simp add: write_cr3_def)+
  then have wf': "space_wf ?s' kd" using t1(1) by simp
  have "vmm_get_physical_address kd va ?s' = va" if "va < 0x800000" for va
    using get_physical_translate [OF wf'] sf(1) tr [OF that] by simp
  moreover have "kernel_directory ?s' = kd" "cr3 ?s' = kd" using t1(9,11) t0(9,11) d(3,5) by (simp_all add: write_cr3_def)
  moreover have "cr0 ?s' AND 0x80000000 \<noteq> 0"
    by (simp add: bit.conj_disj_distrib2 or_eq_0_iff)
  ultimately show ?thesis using run wf' al(2) by blast
qed

section \<open>Witnesses\<close>

text \<open>
  An empty directory in frame 2 of the 32-frame machine of \<open>pmm_demo\<close>, whose bitmap is in frame 1.
\<close>

definition vmm_demo :: vmm_state where
  "vmm_demo = pmm_state.extend pmm_demo (vmm_state.fields 0 0x2000 0 0 0 [])"

lemma vmm_demo_pmm:
  "kmem vmm_demo = kmem pmm_demo" "pmm_bitmap vmm_demo = 0x1000" "pmm_max_blocks vmm_demo = 32"
  "pmm_used_blocks vmm_demo = pmm_used_blocks pmm_demo" "current_directory vmm_demo = 0x2000" "kernel_directory_phys vmm_demo = 0"
  by (simp_all add: vmm_demo_def pmm_state.defs vmm_state.defs pmm_demo_def)

lemma vmm_demo_test: "bitmap_test vmm_demo b = bitmap_test pmm_demo b"
  by (simp add: bitmap_test_def bitmap_word_def vmm_demo_pmm) (simp add: pmm_demo_def)

lemma vmm_demo_clear: "bitmap_clear vmm_demo n \<longleftrightarrow> n \<noteq> 1"
  by (auto simp: bitmap_clear_def vmm_demo_pmm page_no_def)

lemma vmm_demo_entry: "unat i < 1024 \<Longrightarrow> entry vmm_demo 0x2000 i = 0"
proof -
  assume i: "unat i < 1024"
  have p: "paged 0x2000" by (simp add: paged_def page_of_def)
  have "page_no (0x2000 + 4 * i) = 2" using slot_page(1) [OF p i] by (simp add: page_no_def)
  then have "span32 (0x2000 + 4 * i) \<inter> span32 0x1000 = {}"
    using span32_page [OF slot_page(2) [OF p i]] span32_page [of "0x1000"] by (force simp: page_no_def)
  then show ?thesis
    unfolding entry_def vmm_demo_pmm pmm_demo_def pmm_state.simps machine.simps
    by (subst load32_store32_other) (simp_all add: load32_def)
qed

lemma vmm_demo_wf: "space_wf vmm_demo 0x2000"
proof -
  have "pmm_wf vmm_demo"
    using pmm_demo_wf by (simp add: pmm_wf_def pmm_count_def vmm_demo_test vmm_demo_pmm)
  moreover have "frame vmm_demo 0x2000"
    using pmm_demo_test [of 2] by (simp add: frame_def vmm_demo_clear vmm_demo_pmm vmm_demo_test paged_def page_of_def page_no_def)
  moreover have "bitmap_clear vmm_demo f" if "\<not> bitmap_test vmm_demo (of_nat f)" "f < 32" for f
    using that pmm_demo_test [of f] by (auto simp: vmm_demo_clear vmm_demo_test)
  ultimately show ?thesis
    using vmm_demo_entry unfolding space_wf_def by (simp add: identity_mode_def vmm_demo_pmm) (metis not_present_0)
qed

theorem vmm_map_page_correct_witness:
  "\<exists>r s'. vmm_map_page 0x2000 0x40001234 0x7000 3 vmm_demo = (r, s') \<and>
     (r = 0 \<longrightarrow> vmm_get_physical_address 0x2000 0x40001ABC s' = 0x7ABC)"
proof -
  have f: "(3 :: u32) AND PAGE_PRESENT \<noteq> 0" "page_of 3 = 0" by (simp_all add: PAGE_PRESENT_def page_of_def)
  have a: "page_of 0x40001ABC = page_of 0x40001234" "page_of 0x7000 OR (0x40001ABC AND 0xFFF) = (0x7ABC :: u32)"
    by (simp_all add: page_of_def)
  show ?thesis using vmm_map_page_correct [OF vmm_demo_wf f, of "0x40001234" "0x7000"] a by (auto split: if_splits)
qed

theorem vmm_unmap_page_correct_witness:
  "space_wf (vmm_unmap_page 0x2000 0x5000 vmm_demo) 0x2000 \<and>
     vmm_get_physical_address 0x2000 0x5123 (vmm_unmap_page 0x2000 0x5000 vmm_demo) = 0"
  using vmm_unmap_page_correct [OF vmm_demo_wf, of "0x5000" "0x5123"]
    vmm_unmap_page_correct [OF vmm_demo_wf, of "0x5123" "0x5000"] by (simp add: page_of_def)

theorem vmm_alloc_page_correct_witness:
  "\<exists>r s'. vmm_alloc_page 0x2000 0x5000 6 vmm_demo = (r, s') \<and> (r = 0 \<or> s' = vmm_demo)"
  using vmm_alloc_page_correct [OF vmm_demo_wf, of 6 "0x5000"] by (auto simp: page_of_def split: if_splits)


theorem vmm_check_user_ptr_wraps_witness:
  "vmm_check_user_ptr 0x5000 (1 - 0x5000) True vmm_demo = Some True"
  using vmm_check_user_ptr_wraps [of "0x5000" vmm_demo True] by (simp add: vmm_demo_pmm USER_SPACE_END_def)

text \<open>A machine of 32 frames with the bitmap in frame 1 and the frames 8 to 15 free.\<close>

definition vmm_boot :: vmm_state where
  "vmm_boot = pmm_init_region 0x8000 0x8000 (pmm_init 0x20000 0x1000 vmm_demo)"

lemma vmm_boot_frames:
  "frames_ok vmm_boot" "pmm_max_blocks vmm_boot = 32" "pmm_get_free_block_count vmm_boot = 8"
proof -
  let ?i = "pmm_init 0x20000 0x1000 vmm_demo"
  have mx: "pmm_max_blocks ?i = 32" "pmm_bitmap ?i = 0x1000" "pmm_used_blocks ?i = 32" by (simp_all add: pmm_init_def Let_def)
  have wi: "pmm_wf ?i" by (rule pmm_init_wf [of _ 1]) simp_all
  have ti: "bitmap_test ?i (of_nat f)" if "f < 32" for f
    using pmm_init_test [of "0x20000" 1 f "0x1000" vmm_demo] that by simp
  have r: "unat (0x8000 :: u32) < 2 ^ 31" "4096 \<le> unat (0x8000 :: u32)"
    "unat (0x8000 :: u32) div 4096 + unat (0x8000 :: u32) div 4096 \<le> unat (pmm_max_blocks ?i)" by (simp_all add: mx)
  have all: "\<forall>g. unat (0x8000 :: u32) div 4096 \<le> g \<and> g < unat (0x8000 :: u32) div 4096 + unat (0x8000 :: u32) div 4096 \<longrightarrow>
      bitmap_test ?i (of_nat g)" using ti by simp
  note ok = pmm_init_region_ok [OF wi r(1,1,2,3) all, folded vmm_boot_def]
  show mb: "pmm_max_blocks vmm_boot = 32" by (simp add: vmm_boot_def pmm_init_region_def mx)
  have bb: "pmm_bitmap vmm_boot = 0x1000" by (simp add: vmm_boot_def pmm_init_region_def mx)
  show "frames_ok vmm_boot"
    using ok(1) ok(2) ti by (auto simp: frames_ok_def mb bitmap_clear_def bb page_no_def)
  have "pmm_used_blocks (unset_blocks n a s) = pmm_used_blocks s - of_nat n" for n a and s :: vmm_state
    by (induction n arbitrary: a s) simp_all
  moreover have "nat (sint (0x8000 :: u32) sdiv 4096) = 8" by (simp add: sint_div)
  ultimately show "pmm_get_free_block_count vmm_boot = 8"
    by (simp add: pmm_get_free_block_count_def mb) (simp add: vmm_boot_def pmm_init_region_def mx)
qed

theorem vmm_init_identity_witness:
  "\<exists>s' kd. vmm_init vmm_boot = s' \<and> kd \<noteq> 0 \<and> cr3 s' = kd \<and> vmm_get_physical_address kd 0xB8000 s' = 0xB8000"
  using vmm_init_identity [OF vmm_boot_frames(1)] vmm_boot_frames(2,3) by fastforce

end
