(* ===== verification/Heap.thy ===== *)
theory Heap
  imports Vmm
begin

text \<open>
  \<^verbatim>\<open>kernel/mm/heap.c\<close>: the kernel heap, a best-fit allocator whose block headers (\<^verbatim>\<open>struct heap_block\<close>:
  \<^verbatim>\<open>size\<close> at offset 0, \<^verbatim>\<open>used\<close> at 4, \<^verbatim>\<open>next\<close> at 8, 12 bytes in all) are stored in the byte memory in front
  of each block. The loops over the block list are partial: \<^term>\<open>None\<close> is a loop that never ends. The
  second half relates the memory to the list of blocks it encodes and proves every operation against
  that list.
\<close>

record heap_state = vmm_state +
  heap_start :: u32
  heap_size :: u32
  heap_used :: u32

definition blk_size :: "mem \<Rightarrow> u32 \<Rightarrow> u32" where
  "blk_size m b = load32 m b"

definition blk_used :: "mem \<Rightarrow> u32 \<Rightarrow> u8" where
  "blk_used m b = m (b + 4)"

definition blk_next :: "mem \<Rightarrow> u32 \<Rightarrow> u32" where
  "blk_next m b = load32 m (b + 8)"

definition set_blk_size :: "u32 \<Rightarrow> u32 \<Rightarrow> mem \<Rightarrow> mem" where
  "set_blk_size b v m = store32 b v m"

definition set_blk_used :: "u32 \<Rightarrow> u8 \<Rightarrow> mem \<Rightarrow> mem" where
  "set_blk_used b v m = m(b + 4 := v)"

definition set_blk_next :: "u32 \<Rightarrow> u32 \<Rightarrow> mem \<Rightarrow> mem" where
  "set_blk_next b v m = store32 (b + 8) v m"

section \<open>Operations\<close>

definition heap_init :: "u32 \<Rightarrow> u32 \<Rightarrow> 'a heap_state_scheme \<Rightarrow> u32 \<times> 'a heap_state_scheme" where
  "heap_init start sz s =
     (start + 12,
      s\<lparr>heap_start := start, heap_size := sz, heap_used := 12,
        kmem := set_blk_next start 0 (set_blk_used start 0 (set_blk_size start (sz - 12) (kmem s)))\<rparr>)"

definition split_block :: "u32 \<Rightarrow> u32 \<Rightarrow> mem \<Rightarrow> mem" where
  "split_block block sz m =
     (if blk_size m block \<ge> sz + 12 + 16
      then let new_block = block + 12 + sz;
               m = set_blk_size new_block (blk_size m block - sz - 12) m;
               m = set_blk_used new_block 0 m;
               m = set_blk_next new_block (blk_next m block) m;
               m = set_blk_size block sz m
           in set_blk_next block new_block m
      else m)"

text \<open>The loop of \<^verbatim>\<open>merge_free_blocks\<close>, from \<open>block\<close> on; \<open>hs\<close> and \<open>sz\<close> are \<^verbatim>\<open>heap_start\<close> and \<^verbatim>\<open>heap_size\<close>.\<close>

partial_function (option) merge_loop :: "u32 \<Rightarrow> u32 \<Rightarrow> u32 \<Rightarrow> mem \<Rightarrow> mem option" where
  "merge_loop hs sz block m =
     (if block = 0 \<or> blk_next m block = 0 then Some m
      else if block < hs \<or> block \<ge> hs + sz then Some m
      else if blk_next m block < hs \<or> blk_next m block \<ge> hs + sz then Some m
      else if blk_used m block = 0 \<and> blk_used m (blk_next m block) = 0
      then let new_size = blk_size m block + 12 + blk_size m (blk_next m block) in
        if new_size < blk_size m block \<or> new_size \<ge> sz
        then merge_loop hs sz (blk_next m block) m
        else let m' = set_blk_size block new_size m in
             merge_loop hs sz block (set_blk_next block (blk_next m' (blk_next m' block)) m')
      else merge_loop hs sz (blk_next m block) m)"

definition merge_free_blocks :: "'a heap_state_scheme \<Rightarrow> 'a heap_state_scheme option" where
  "merge_free_blocks s =
     map_option (\<lambda>m. s\<lparr>kmem := m\<rparr>) (merge_loop (heap_start s) (heap_size s) (heap_start s) (kmem s))"

partial_function (option) best_fit_loop ::
    "u32 \<Rightarrow> mem \<Rightarrow> u32 \<Rightarrow> u32 \<Rightarrow> u32 \<Rightarrow> u32 option" where
  "best_fit_loop sz m best best_diff block =
     (if block = 0 then Some best
      else if blk_used m block = 0 \<and> blk_size m block \<ge> sz \<and> blk_size m block - sz < best_diff
      then let diff = blk_size m block - sz in
        if diff = 0 then Some block else best_fit_loop sz m block diff (blk_next m block)
      else best_fit_loop sz m best best_diff (blk_next m block))"

definition find_best_fit :: "u32 \<Rightarrow> 'a heap_state_scheme \<Rightarrow> u32 option" where
  "find_best_fit sz s = best_fit_loop sz (kmem s) 0 0xFFFFFFFF (heap_start s)"

text \<open>The two identical branches of \<^verbatim>\<open>kmalloc\<close> that take the block found.\<close>

definition take_block :: "u32 \<Rightarrow> u32 \<Rightarrow> 'a heap_state_scheme \<Rightarrow> u32 \<times> 'a heap_state_scheme" where
  "take_block block sz s =
     (block + 12,
      s\<lparr>kmem := set_blk_used block 1 (split_block block sz (kmem s)),
        heap_used := heap_used s + (sz + 12)\<rparr>)"

definition round_up4 :: "u32 \<Rightarrow> u32" where
  "round_up4 n = (n + 3) AND NOT 3"

definition kmalloc :: "u32 \<Rightarrow> 'a heap_state_scheme \<Rightarrow> (u32 \<times> 'a heap_state_scheme) option" where
  "kmalloc size0 s =
     (if size0 = 0 then Some (0, s)
      else let sz = round_up4 size0 in
        do {
          block \<leftarrow> find_best_fit sz s;
          if block \<noteq> 0 then Some (take_block block sz s)
          else do {
            s \<leftarrow> merge_free_blocks s;
            block \<leftarrow> find_best_fit sz s;
            if block \<noteq> 0 then Some (take_block block sz s) else Some (0, s)
          }
        })"

definition align_magic :: u32 where
  "align_magic = 0xA11C4FED"

definition kmalloc_aligned :: "u32 \<Rightarrow> u32 \<Rightarrow> 'a heap_state_scheme \<Rightarrow> (u32 \<times> 'a heap_state_scheme) option" where
  "kmalloc_aligned sz align s =
     (if align = 0 \<or> align AND (align - 1) \<noteq> 0 then Some (0, s)
      else do {
        (ptr, s) \<leftarrow> kmalloc (sz + align + 4 + 4) s;
        if ptr = 0 then Some (0, s)
        else let aligned = (ptr + 4 + 4 + align - 1) AND NOT (align - 1)
             in Some (aligned, s\<lparr>kmem := store32 (aligned - 4) ptr (store32 (aligned - 4 - 4) align_magic (kmem s))\<rparr>)
      })"

partial_function (option) validate_loop :: "u32 \<Rightarrow> u32 \<Rightarrow> u32 \<Rightarrow> mem \<Rightarrow> mem option" where
  "validate_loop hs sz block m =
     (if block = 0 then Some m
      else if block < hs \<or> block \<ge> hs + sz then Some m
      else if blk_used m block = 0 \<and> blk_size m block = 0 \<and> blk_next m block \<noteq> 0
      then merge_loop hs sz hs m
      else validate_loop hs sz (blk_next m block) m)"

definition heap_validate :: "'a heap_state_scheme \<Rightarrow> 'a heap_state_scheme option" where
  "heap_validate s =
     map_option (\<lambda>m. s\<lparr>kmem := m\<rparr>) (validate_loop (heap_start s) (heap_size s) (heap_start s) (kmem s))"

definition kfree :: "u32 \<Rightarrow> 'a heap_state_scheme \<Rightarrow> 'a heap_state_scheme option" where
  "kfree ptr s =
     (let heap_end = heap_start s + heap_size s;
          orig = load32 (kmem s) (ptr - 4);
          aligned = load32 (kmem s) (ptr - 4 - 4) = align_magic
      in if ptr = 0 then Some s
         else if ptr < heap_start s \<or> ptr \<ge> heap_end then Some s
         else if aligned \<and> (orig < heap_start s \<or> orig \<ge> heap_end) then Some s
         else let block = (if aligned then orig else ptr) - 12 in
           if blk_used (kmem s) block \<noteq> 0
           then do {
             s \<leftarrow> merge_free_blocks (s\<lparr>heap_used := heap_used s - (blk_size (kmem s) block + 12),
                    kmem := set_blk_used block 0 (kmem s)\<rparr>);
             heap_validate s
           }
           else Some s)"

definition heap_get_used :: "'a heap_state_scheme \<Rightarrow> u32" where
  "heap_get_used s = heap_used s"

definition heap_get_free :: "'a heap_state_scheme \<Rightarrow> u32" where
  "heap_get_free s = heap_size s - heap_used s"

text \<open>The loop of \<^verbatim>\<open>heap_get_fragmentation\<close>: it may call the merge and start over.\<close>

partial_function (option) frag_loop ::
    "u32 \<Rightarrow> u32 \<Rightarrow> u32 \<Rightarrow> u32 \<Rightarrow> u32 \<Rightarrow> u32 \<Rightarrow> mem \<Rightarrow> (u32 \<times> u32 \<times> mem) option" where
  "frag_loop hs sz block iterations count largest m =
     (if block = 0 \<or> iterations \<ge> 10000 then Some (count, largest, m)
      else if block < hs \<or> block \<ge> hs + sz then Some (count, largest, m)
      else if blk_size m block = 0 \<and> blk_next m block \<noteq> 0
      then (case merge_loop hs sz hs m of
              None \<Rightarrow> None
            | Some m' \<Rightarrow> frag_loop hs sz hs iterations 0 0 m')
      else if blk_used m block = 0
      then frag_loop hs sz (blk_next m block) (iterations + 1) (count + 1)
             (if blk_size m block > largest then blk_size m block else largest) m
      else frag_loop hs sz (blk_next m block) (iterations + 1) count largest m)"

definition heap_get_fragmentation :: "'a heap_state_scheme \<Rightarrow> (u32 \<times> u32 \<times> 'a heap_state_scheme) option" where
  "heap_get_fragmentation s =
     map_option (\<lambda>(c, l, m). (c, l, s\<lparr>kmem := m\<rparr>))
       (frag_loop (heap_start s) (heap_size s) (heap_start s) 0 0 0 (kmem s))"

definition heap_defragment :: "'a heap_state_scheme \<Rightarrow> 'a heap_state_scheme option" where
  "heap_defragment s = merge_free_blocks s"

section \<open>The block list\<close>

text \<open>
  A block is its payload size and whether it is used. \<open>layout m a bs e\<close>: the memory from address \<open>a\<close> to
  \<open>e\<close> is exactly the headers and payloads of \<open>bs\<close>, chained in address order and ended by NULL.
\<close>

type_synonym blk = "nat \<times> bool"

primrec layout :: "mem \<Rightarrow> nat \<Rightarrow> blk list \<Rightarrow> nat \<Rightarrow> bool" where
  "layout m a [] e \<longleftrightarrow> False"
| "layout m a (b # bs) e \<longleftrightarrow>
     blk_size m (of_nat a) = of_nat (fst b) \<and> blk_used m (of_nat a) = (if snd b then 1 else 0) \<and>
     blk_next m (of_nat a) = (if bs = [] then 0 else of_nat (a + 12 + fst b)) \<and>
     4 dvd fst b \<and> a + 12 + fst b \<le> e \<and>
     (if bs = [] then a + 12 + fst b = e else layout m (a + 12 + fst b) bs e)"

text \<open>The number of bytes a list of blocks takes, headers included, and the payload bytes in use.\<close>

definition extent :: "blk list \<Rightarrow> nat" where
  "extent bs = (\<Sum>b\<leftarrow>bs. 12 + fst b)"

primrec used_bytes :: "nat \<Rightarrow> blk list \<Rightarrow> nat set" where
  "used_bytes a [] = {}"
| "used_bytes a (b # bs) = (if snd b then {a + 12..<a + 12 + fst b} else {}) \<union> used_bytes (a + 12 + fst b) bs"

text \<open>The used blocks, as the address handed out and the payload size.\<close>

primrec used_blocks :: "nat \<Rightarrow> blk list \<Rightarrow> (nat \<times> nat) set" where
  "used_blocks a [] = {}"
| "used_blocks a (b # bs) = (if snd b then {(a + 12, fst b)} else {}) \<union> used_blocks (a + 12 + fst b) bs"

lemma extent_simps [simp]:
  "extent [] = 0" "extent (b # bs) = 12 + fst b + extent bs" "extent (bs @ cs) = extent bs + extent cs"
  by (simp_all add: extent_def)

lemma layout_extent: "layout m a bs e \<Longrightarrow> e = a + extent bs"
proof (induction bs arbitrary: a)
  case (Cons b bs)
  then have "bs \<noteq> [] \<Longrightarrow> e = a + 12 + fst b + extent bs" by simp
  then show ?case using Cons.prems by (cases "bs = []") auto
qed simp

lemma layout_nonempty: "layout m a bs e \<Longrightarrow> bs \<noteq> []"
  by (cases bs) auto

lemma used_bytes_bounds: "x \<in> used_bytes a bs \<Longrightarrow> a + 12 \<le> x \<and> x < a + extent bs"
  by (induction bs arbitrary: a) (force split: if_splits)+

lemma used_bytes_append: "used_bytes a (bs @ cs) = used_bytes a bs \<union> used_bytes (a + extent bs) cs"
  by (induction bs arbitrary: a) (auto simp: add.assoc)

lemma used_blocks_append: "used_blocks a (bs @ cs) = used_blocks a bs \<union> used_blocks (a + extent bs) cs"
  by (induction bs arbitrary: a) (auto simp: add.assoc)

lemma used_bytes_blocks: "used_bytes a bs = (\<Union>(p, n) \<in> used_blocks a bs. {p..<p + n})"
  by (induction bs arbitrary: a) auto

section \<open>Memory at natural-number addresses\<close>

definition agree :: "nat set \<Rightarrow> mem \<Rightarrow> mem \<Rightarrow> bool" where
  "agree X m m' \<longleftrightarrow> (\<forall>x\<in>X. x < 2 ^ 32 \<longrightarrow> m' (of_nat x) = m (of_nat x))"

lemma agree_refl [simp, intro]: "agree X m m"
  by (simp add: agree_def)

lemma agree_trans: "agree X m m' \<Longrightarrow> agree X m' m'' \<Longrightarrow> agree X m m''"
  by (simp add: agree_def)

lemma agree_mono: "agree X m m' \<Longrightarrow> Y \<subseteq> X \<Longrightarrow> agree Y m m'"
  by (auto simp: agree_def)

lemma span32_of_nat: "span32 (of_nat a) = of_nat ` {a..<a + 4}"
proof -
  have "{a..<a + 4} = {a, a + 1, a + 2, a + 3}" by auto
  then show ?thesis by (simp add: span32_def add.commute)
qed

lemma agree_store32: "a + 4 \<le> 2 ^ 32 \<Longrightarrow> agree (- {a..<a + 4}) m (store32 (of_nat a) v m)"
  unfolding agree_def
  by (intro ballI impI store32_byte_other) (auto simp: span32_of_nat of_nat_word_inj)

lemma agree_load32:
  assumes "agree {a..<a + 4} m m'" and "a + 4 \<le> 2 ^ 32"
  shows "load32 m' (of_nat a) = load32 m (of_nat a)"
  by (rule load32_cong) (use assms in \<open>auto simp: agree_def span32_of_nat\<close>)

lemma agree_upd: "a < 2 ^ 32 \<Longrightarrow> agree (- {a}) m (m(of_nat a := v))"
  by (auto simp: agree_def of_nat_word_inj)

text \<open>The fields of the header at \<open>a\<close>, and what is written when they are set.\<close>

lemma header_agree:
  assumes "agree {a..<a + 12} m m'" and "a + 12 \<le> 2 ^ 32"
  shows "blk_size m' (of_nat a) = blk_size m (of_nat a)" "blk_used m' (of_nat a) = blk_used m (of_nat a)"
    "blk_next m' (of_nat a) = blk_next m (of_nat a)"
proof -
  show "blk_size m' (of_nat a) = blk_size m (of_nat a)"
    unfolding blk_size_def by (rule agree_load32) (use assms agree_mono in auto)
  have "load32 m' (of_nat (a + 8)) = load32 m (of_nat (a + 8))"
    by (rule agree_load32) (use assms agree_mono in auto)
  then show "blk_next m' (of_nat a) = blk_next m (of_nat a)" by (simp add: blk_next_def add.commute)
  have "m' (of_nat (a + 4)) = m (of_nat (a + 4))"
  proof -
    have "a + 4 \<in> {a..<a + 12}" "a + 4 < 2 ^ 32" using assms(2) by auto
    then show ?thesis using assms(1) unfolding agree_def by blast
  qed
  then show "blk_used m' (of_nat a) = blk_used m (of_nat a)" by (simp add: blk_used_def add.commute)
qed

lemma header_writes:
  assumes "a + 12 \<le> 2 ^ 32"
  shows "agree (- {a..<a + 12}) m (set_blk_size (of_nat a) v m)"
    "agree (- {a..<a + 12}) m (set_blk_used (of_nat a) u m)"
    "agree (- {a..<a + 12}) m (set_blk_next (of_nat a) w m)"
proof -
  show "agree (- {a..<a + 12}) m (set_blk_size (of_nat a) v m)"
    unfolding set_blk_size_def by (rule agree_mono [OF agree_store32]) (use assms in auto)
  have "agree (- {a..<a + 12}) m (m(of_nat (a + 4) := u))"
    by (rule agree_mono [OF agree_upd]) (use assms in auto)
  then show "agree (- {a..<a + 12}) m (set_blk_used (of_nat a) u m)"
    by (simp add: set_blk_used_def add.commute)
  have "agree (- {a..<a + 12}) m (store32 (of_nat (a + 8)) w m)"
    by (rule agree_mono [OF agree_store32]) (use assms in auto)
  then show "agree (- {a..<a + 12}) m (set_blk_next (of_nat a) w m)"
    by (simp add: set_blk_next_def add.commute)
qed

lemma header_fields [simp]:
  "blk_size (set_blk_size b v m) b = v" "blk_size (set_blk_used b u m) b = blk_size m b"
  "blk_size (set_blk_next b w m) b = blk_size m b" "blk_used (set_blk_size b v m) b = blk_used m b"
  "blk_used (set_blk_used b u m) b = u" "blk_used (set_blk_next b w m) b = blk_used m b"
  "blk_next (set_blk_size b v m) b = blk_next m b" "blk_next (set_blk_used b u m) b = blk_next m b"
  "blk_next (set_blk_next b w m) b = w"
proof -
  have ne: "b \<noteq> b + k" if "k \<noteq> 0" for b k :: u32 using that by simp
  have sh: "b + k + l = b + (k + l)" for b k l :: u32 by (simp add: add.assoc)
  show "blk_size (set_blk_next b w m) b = blk_size m b" "blk_next (set_blk_size b v m) b = blk_next m b"
    unfolding blk_size_def set_blk_next_def blk_next_def set_blk_size_def
    by (rule load32_store32_other; simp add: span32_def sh)+
  show "blk_size (set_blk_size b v m) b = v" "blk_next (set_blk_next b w m) b = w"
    by (simp_all add: blk_size_def set_blk_next_def blk_next_def set_blk_size_def)
qed (simp_all add: blk_size_def blk_used_def blk_next_def set_blk_size_def set_blk_used_def
    set_blk_next_def load32_def store32_def add.assoc)

section \<open>The layout under writes\<close>

text \<open>The header bytes of a list of blocks, the only memory \<open>layout\<close> depends on.\<close>

primrec headers :: "nat \<Rightarrow> blk list \<Rightarrow> nat set" where
  "headers a [] = {}"
| "headers a (b # bs) = {a..<a + 12} \<union> headers (a + 12 + fst b) bs"

lemma headers_bounds: "x \<in> headers a bs \<Longrightarrow> a \<le> x \<and> x < a + extent bs"
  by (induction bs arbitrary: a) (force split: if_splits)+

lemma headers_append: "headers a (bs @ cs) = headers a bs \<union> headers (a + extent bs) cs"
  by (induction bs arbitrary: a) (auto simp: add.assoc)

lemma headers_used: "headers a bs \<inter> used_bytes a bs = {}"
proof (induction bs arbitrary: a)
  case (Cons b bs)
  have h: "headers (a + 12 + fst b) bs \<subseteq> {a + 12 + fst b..}" using headers_bounds by auto
  have u: "used_bytes (a + 12 + fst b) bs \<subseteq> {a + 12 + fst b..}" using used_bytes_bounds by force
  show ?case
    using Cons.IH [of "a + 12 + fst b"] h u by (auto simp: disjoint_iff subset_iff)
qed simp

lemma layout_agree:
  assumes "layout m a bs e" and "agree (headers a bs) m m'" and "e \<le> 2 ^ 32"
  shows "layout m' a bs e"
  using assms(1,2)
proof (induction bs arbitrary: a)
  case (Cons b bs)
  have "agree {a..<a + 12} m m'" "agree (headers (a + 12 + fst b) bs) m m'"
    using Cons.prems(2) by (auto intro: agree_mono)
  moreover have "a + 12 \<le> 2 ^ 32" using Cons.prems(1) assms(3) by simp
  ultimately show ?case
    using Cons.prems(1) Cons.IH [of "a + 12 + fst b"] header_agree [of a m m'] by (auto split: if_splits)
qed simp

text \<open>Changing the blocks from some position on.\<close>

lemma layout_suffix: "layout m a (pre @ bs) e \<Longrightarrow> bs \<noteq> [] \<Longrightarrow> layout m (a + extent pre) bs e"
proof (induction pre arbitrary: a)
  case (Cons b pre)
  then show ?case using Cons.IH [of "a + 12 + fst b"] by (simp add: add.assoc)
qed simp

lemma layout_replace:
  assumes "layout m a (pre @ bs) e" and "bs \<noteq> []" and "agree (headers a pre) m m'"
    and "layout m' (a + extent pre) cs e" and "e \<le> 2 ^ 32"
  shows "layout m' a (pre @ cs) e"
  using assms(1,3,4)
proof (induction pre arbitrary: a)
  case (Cons b pre)
  have "agree {a..<a + 12} m m'" "agree (headers (a + 12 + fst b) pre) m m'"
    using Cons.prems(2) by (auto intro: agree_mono)
  moreover have "a + 12 \<le> 2 ^ 32" using Cons.prems(1) assms(5) by simp
  moreover have "layout m' (a + 12 + fst b) (pre @ cs) e"
    using Cons calculation assms(2) by (intro Cons.IH) (auto simp: add.assoc)
  ultimately show ?case
    using Cons.prems(1) assms(2) header_agree [of a m m'] layout_nonempty [OF Cons.prems(3)] by simp
qed simp

section \<open>Coalescing\<close>

fun merge_blocks :: "blk list \<Rightarrow> blk list" where
  "merge_blocks (b # c # bs) =
     (if \<not> snd b \<and> \<not> snd c then merge_blocks ((fst b + 12 + fst c, False) # bs)
      else b # merge_blocks (c # bs))"
| "merge_blocks bs = bs"

text \<open>No two neighbours are free.\<close>

fun coalesced :: "blk list \<Rightarrow> bool" where
  "coalesced (b # c # bs) \<longleftrightarrow> (snd b \<or> snd c) \<and> coalesced (c # bs)"
| "coalesced bs \<longleftrightarrow> True"

lemma merge_blocks_hd: "merge_blocks (b # bs) = (fst (hd (merge_blocks (b # bs))), snd b) # tl (merge_blocks (b # bs))"
proof (induction "b # bs" arbitrary: b bs rule: merge_blocks.induct)
  case (1 b c bs)
  then show ?case by (cases b) auto
qed auto

lemma coalesced_merge: "coalesced (merge_blocks bs)"
proof (induction bs rule: merge_blocks.induct)
  case (1 b c bs)
  show ?case
  proof (cases "\<not> snd b \<and> \<not> snd c")
    case False
    then have "coalesced (b # merge_blocks (c # bs))"
      using 1(2) by (subst merge_blocks_hd, subst (asm) merge_blocks_hd) auto
    then show ?thesis using False by auto
  qed (use 1 in auto)
qed auto

lemma merge_coalesced: "coalesced bs \<Longrightarrow> merge_blocks bs = bs"
  by (induction bs rule: merge_blocks.induct) auto

lemma extent_merge [simp]: "extent (merge_blocks bs) = extent bs"
  by (induction bs rule: merge_blocks.induct) auto

lemma merge_blocks_eq_Nil [simp]: "merge_blocks bs = [] \<longleftrightarrow> bs = []"
  by (induction bs rule: merge_blocks.induct) auto

lemma used_blocks_merge [simp]: "used_blocks a (merge_blocks bs) = used_blocks a bs"
  by (induction bs arbitrary: a rule: merge_blocks.induct) (auto simp: add_ac)

lemma used_bytes_merge [simp]: "used_bytes a (merge_blocks bs) = used_bytes a bs"
  by (simp add: used_bytes_blocks)

lemma headers_merge: "headers a (merge_blocks bs) \<subseteq> headers a bs"
proof (induction bs arbitrary: a rule: merge_blocks.induct)
  case (1 b c bs)
  show ?case
  proof (cases "\<not> snd b \<and> \<not> snd c")
    case True
    then show ?thesis using 1(1) [of a] by (auto simp: add_ac)
  next
    case False
    then show ?thesis using 1(2) [of "a + 12 + fst b"] by auto
  qed
qed auto

text \<open>Joining the block at \<open>a\<close> with the free block behind it.\<close>

lemma layout_join:
  assumes "layout m a ((n, False) # (k, False) # bs) e" and "e < 2 ^ 32"
  defines "m1 \<equiv> set_blk_size (of_nat a) (of_nat (n + 12 + k)) m"
  defines "m2 \<equiv> set_blk_next (of_nat a) (blk_next m1 (blk_next m1 (of_nat a))) m1"
  shows "layout m2 a ((n + 12 + k, False) # bs) e" and "agree (- {a..<a + 12}) m m2"
proof -
  let ?c = "a + 12 + n"
  have c: "blk_next m (of_nat a) = of_nat ?c" "layout m ?c ((k, False) # bs) e" using assms(1) by auto
  have b: "a + 12 \<le> 2 ^ 32" "?c + 12 \<le> 2 ^ 32" using assms(1,2) by auto
  have a1: "agree (- {a..<a + 12}) m m1" unfolding m1_def by (rule header_writes [OF b(1)])
  have "agree {?c..<?c + 12} m m1" by (rule agree_mono [OF a1]) auto
  then have "blk_next m1 (of_nat ?c) = blk_next m (of_nat ?c)" using b(2) by (rule header_agree)
  moreover have "blk_next m1 (of_nat a) = of_nat ?c" using c(1) by (simp add: m1_def)
  ultimately have m2: "m2 = set_blk_next (of_nat a) (blk_next m (of_nat ?c)) m1" by (simp add: m2_def)
  show a2: "agree (- {a..<a + 12}) m m2"
    unfolding m2 by (rule agree_trans [OF a1]) (rule header_writes [OF b(1)])
  have "layout m2 (?c + 12 + k) bs e" if "bs \<noteq> []"
  proof (rule layout_agree)
    show "layout m (?c + 12 + k) bs e" using c(2) that by simp
    show "agree (headers (?c + 12 + k) bs) m m2"
      by (rule agree_mono [OF a2]) (use headers_bounds in force)
    show "e \<le> 2 ^ 32" using assms(2) by simp
  qed
  then show "layout m2 a ((n + 12 + k, False) # bs) e"
    using assms(1) c by (auto simp: m2 m1_def add_ac split: if_splits)
qed

text \<open>The merge loop started at any block of the list coalesces the rest of the list and returns.\<close>

lemma merge_loop_layout:
  assumes "layout m a bs e" and "hs \<le> a" and "0 < a" and "e = hs + sz" and "e < 2 ^ 32"
    and "hs + extent bs \<le> e"
  shows "\<exists>m'. merge_loop (of_nat hs) (of_nat sz) (of_nat a) m = Some m' \<and>
    layout m' a (merge_blocks bs) e \<and> agree (- headers a bs) m m'"
  using assms(1,2,3,6)
proof (induction bs arbitrary: a m rule: merge_blocks.induct)
  case (1 b c bs)
  let ?c = "a + 12 + fst b"
  have u: "unat (of_nat x :: u32) = x" if "x < e + 1" for x
    using that assms(5) by (intro unat_of_nat_small) simp
  have l: "layout m ?c (c # bs) e" "blk_next m (of_nat a) = of_nat ?c"
    "blk_size m (of_nat a) = of_nat (fst b)" "blk_size m (of_nat ?c) = of_nat (fst c)"
    "blk_used m (of_nat a) = (if snd b then 1 else 0)" "blk_used m (of_nat ?c) = (if snd c then 1 else 0)"
    "?c + 12 + fst c \<le> e" using 1(3) by auto
  have ua: "unat (of_nat a :: u32) = a" "unat (of_nat ?c :: u32) = ?c" "unat (of_nat hs :: u32) = hs"
    "unat (of_nat hs + of_nat sz :: u32) = hs + sz"
    using u [of a] u [of ?c] u [of hs] u [of "hs + sz"] l(7) 1(4) assms(4) by auto
  have guards: "of_nat a \<noteq> (0 :: u32)" "of_nat ?c \<noteq> (0 :: u32)"
    "\<not> (of_nat a < (of_nat hs :: u32) \<or> of_nat hs + of_nat sz \<le> (of_nat a :: u32))"
    "\<not> (of_nat ?c < (of_nat hs :: u32) \<or> of_nat hs + of_nat sz \<le> (of_nat ?c :: u32))"
    unfolding word_less_nat_alt word_le_nat_alt ua
    using ua(1,2) 1(4,5) l(7) assms(4) by (auto simp del: of_nat_add)
  show ?case
  proof (cases "\<not> snd b \<and> \<not> snd c")
    case True
    define m1 where "m1 = set_blk_size (of_nat a) (of_nat (fst b + 12 + fst c)) m"
    define m2 where "m2 = set_blk_next (of_nat a) (blk_next m1 (blk_next m1 (of_nat a))) m1"
    have bc: "b = (fst b, False)" "c = (fst c, False)" using True by (auto simp: prod_eq_iff)
    have j: "layout m2 a ((fst b + 12 + fst c, False) # bs) e" "agree (- {a..<a + 12}) m m2"
      using layout_join [of m a "fst b" "fst c" bs e] 1(3) bc assms(5) unfolding m1_def m2_def by auto
    have ns: "unat (of_nat (fst b) + 12 + of_nat (fst c) :: u32) = fst b + 12 + fst c"
      using u [of "fst b + 12 + fst c"] 1(6) by simp
    have "\<not> (of_nat (fst b) + 12 + of_nat (fst c) < (of_nat (fst b) :: u32) \<or>
        of_nat sz \<le> (of_nat (fst b) + 12 + of_nat (fst c) :: u32))"
      unfolding word_less_nat_alt word_le_nat_alt ns
      using u [of "fst b"] u [of sz] 1(6) assms(4) by simp
    moreover have nsz: "of_nat (fst b + 12 + fst c) = (of_nat (fst b) + 12 + of_nat (fst c) :: u32)" by simp
    ultimately have step: "merge_loop (of_nat hs) (of_nat sz) (of_nat a) m =
        merge_loop (of_nat hs) (of_nat sz) (of_nat a) m2"
      using guards True by (subst merge_loop.simps) (simp add: l m1_def m2_def nsz Let_def del: of_nat_add)
    obtain m' where m': "merge_loop (of_nat hs) (of_nat sz) (of_nat a) m2 = Some m'"
      "layout m' a (merge_blocks ((fst b + 12 + fst c, False) # bs)) e"
      "agree (- headers a ((fst b + 12 + fst c, False) # bs)) m2 m'"
      using 1(1) [OF True j(1) 1(4,5)] 1(6) by auto
    have "agree (- headers a (b # c # bs)) m m'"
      by (rule agree_trans [OF agree_mono [OF j(2)] agree_mono [OF m'(3)]]) (auto simp: add_ac)
    then show ?thesis using m' step True by simp
  next
    case False
    then have step: "merge_loop (of_nat hs) (of_nat sz) (of_nat a) m =
        merge_loop (of_nat hs) (of_nat sz) (of_nat ?c) m"
      using guards by (subst merge_loop.simps) (auto simp: l simp del: of_nat_add)
    obtain m' where m': "merge_loop (of_nat hs) (of_nat sz) (of_nat ?c) m = Some m'"
      "layout m' ?c (merge_blocks (c # bs)) e" "agree (- headers ?c (c # bs)) m m'"
      using 1(2) [OF False l(1)] 1(4,5,6) by auto
    have "agree {a..<a + 12} m m'"
      by (rule agree_mono [OF m'(3)]) (use headers_bounds [of _ ?c "c # bs"] in fastforce)
    then have "layout m' a (b # merge_blocks (c # bs)) e"
      using header_agree [of a m m'] 1(3) m'(2) assms(5) by auto
    moreover have "agree (- headers a (b # c # bs)) m m'"
      by (rule agree_mono [OF m'(3)]) auto
    ultimately show ?thesis using m' step False by auto
  qed
qed (auto simp: merge_loop.simps [of _ _ "of_nat _"])

section \<open>Best fit\<close>

primrec pick :: "nat \<Rightarrow> nat \<Rightarrow> blk list \<Rightarrow> nat \<Rightarrow> nat \<Rightarrow> nat" where
  "pick sz a [] best d = best"
| "pick sz a (b # bs) best d =
     (if \<not> snd b \<and> sz \<le> fst b \<and> fst b - sz < d
      then if fst b = sz then a else pick sz (a + 12 + fst b) bs a (fst b - sz)
      else pick sz (a + 12 + fst b) bs best d)"

lemma best_fit_loop_layout:
  assumes "layout m a bs e" and "0 < a" and "e < 2 ^ 32" and "sz < 2 ^ 32" and "d < 2 ^ 32"
  shows "best_fit_loop (of_nat sz) m (of_nat best) (of_nat d) (of_nat a) = Some (of_nat (pick sz a bs best d))"
  using assms(1,2,5)
proof (induction bs arbitrary: a best d)
  case (Cons b bs)
  let ?c = "a + 12 + fst b"
  have bnd: "?c \<le> e" using Cons.prems(1) by simp
  have u: "unat (of_nat a :: u32) = a" "unat (of_nat (fst b) :: u32) = fst b" "unat (of_nat sz :: u32) = sz"
    "unat (of_nat d :: u32) = d" "unat (of_nat (fst b - sz) :: u32) = fst b - sz"
    using bnd assms(3,4) Cons.prems(3) by (auto intro!: unat_of_nat_small)
  have ne: "of_nat a \<noteq> (0 :: u32)" using u(1) Cons.prems(2) by auto
  have diff: "of_nat (fst b) - of_nat sz = (of_nat (fst b - sz) :: u32)" if "sz \<le> fst b"
    using that by simp
  have hit: "blk_used m (of_nat a) = 0 \<and> of_nat sz \<le> blk_size m (of_nat a) \<and>
      blk_size m (of_nat a) - of_nat sz < (of_nat d :: u32) \<longleftrightarrow> \<not> snd b \<and> sz \<le> fst b \<and> fst b - sz < d"
    using Cons.prems(1) u diff by (auto simp: word_le_nat_alt word_less_nat_alt simp del: of_nat_diff)
  have zero: "(of_nat (fst b - sz) :: u32) = 0 \<longleftrightarrow> fst b - sz = 0"
    using bnd assms(3) by (intro of_nat_eq_0_small) simp
  have nx: "blk_next m (of_nat a) = (if bs = [] then 0 else of_nat ?c)" using Cons.prems(1) by simp
  have rest: "best_fit_loop (of_nat sz) m (of_nat best') (of_nat d') (blk_next m (of_nat a)) =
      Some (of_nat (pick sz ?c bs best' d'))" if "d' < 2 ^ 32" for best' d'
    using Cons.IH [of ?c d' best'] Cons.prems(1,2) that unfolding nx
    by (cases "bs = []") (simp_all add: best_fit_loop.simps [of _ _ _ _ 0])
  show ?case
  proof (cases "\<not> snd b \<and> sz \<le> fst b \<and> fst b - sz < d")
    case True
    then have sz: "blk_size m (of_nat a) - of_nat sz = (of_nat (fst b - sz) :: u32)"
      using Cons.prems(1) diff by simp
    have "fst b - sz < 2 ^ 32" using bnd assms(3) by simp
    then show ?thesis
      using True hit rest [of "fst b - sz" a] ne zero
      by (subst best_fit_loop.simps) (auto simp: sz Let_def simp del: of_nat_diff)
  next
    case False
    then show ?thesis
      using hit rest [of d best] ne Cons.prems(3) by (subst best_fit_loop.simps) auto
  qed
qed simp

lemma pick_cases:
  obtains (none) "pick sz a bs best d = best" and "\<forall>(k, u)\<in>set bs. \<not> u \<and> sz \<le> k \<longrightarrow> d \<le> k - sz"
  | (block) pre n suf where "bs = pre @ (n, False) # suf" and "pick sz a bs best d = a + extent pre"
      and "sz \<le> n" and "n - sz < d" and "\<forall>(k, u)\<in>set bs. \<not> u \<and> sz \<le> k \<longrightarrow> n \<le> k"
proof -
  have "pick sz a bs best d = best \<and> (\<forall>(k, u)\<in>set bs. \<not> u \<and> sz \<le> k \<longrightarrow> d \<le> k - sz) \<or>
    (\<exists>pre n suf. bs = pre @ (n, False) # suf \<and> pick sz a bs best d = a + extent pre \<and> sz \<le> n \<and>
      n - sz < d \<and> (\<forall>(k, u)\<in>set bs. \<not> u \<and> sz \<le> k \<longrightarrow> n \<le> k))" (is "?P a bs best d")
  proof (induction bs arbitrary: a best d)
    case (Cons b bs)
    have ext: "\<exists>pre n suf. b # bs = pre @ (n, False) # suf \<and> p = a + extent pre \<and> Q n"
      if "\<exists>pre n suf. bs = pre @ (n, False) # suf \<and> p = a + 12 + fst b + extent pre \<and> Q n" for p Q
      using that by (metis add.assoc append_Cons extent_simps(2))
    show ?case
    proof (cases "\<not> snd b \<and> sz \<le> fst b \<and> fst b - sz < d")
      case hit: True
      have b: "b = (fst b, False)" using hit by (simp add: prod_eq_iff)
      show ?thesis
      proof (cases "fst b = sz")
        case True
        then show ?thesis
          using b hit by (intro disjI2 exI [of _ "[]"] exI [of _ sz] exI [of _ bs]) (auto simp: case_prod_beta)
      next
        case False
        from Cons.IH [of "a + 12 + fst b" a "fst b - sz"] show ?thesis
        proof
          assume "pick sz (a + 12 + fst b) bs a (fst b - sz) = a \<and>
            (\<forall>(k, u)\<in>set bs. \<not> u \<and> sz \<le> k \<longrightarrow> fst b - sz \<le> k - sz)"
          then show ?thesis
            using b hit False
            by (intro disjI2 exI [of _ "[]"] exI [of _ "fst b"] exI [of _ bs]) (auto simp: case_prod_beta)
        next
          assume "\<exists>pre n suf. bs = pre @ (n, False) # suf \<and>
            pick sz (a + 12 + fst b) bs a (fst b - sz) = a + 12 + fst b + extent pre \<and> sz \<le> n \<and>
            n - sz < fst b - sz \<and> (\<forall>(k, u)\<in>set bs. \<not> u \<and> sz \<le> k \<longrightarrow> n \<le> k)"
          from ext [OF this] obtain pre n suf where 1: "b # bs = pre @ (n, False) # suf"
            and 2: "pick sz (a + 12 + fst b) bs a (fst b - sz) = a + extent pre" "sz \<le> n"
              "n - sz < fst b - sz" "\<forall>(k, u)\<in>set bs. \<not> u \<and> sz \<le> k \<longrightarrow> n \<le> k" by blast
          have 3: "pick sz a (b # bs) best d = a + extent pre" "n - sz < d" using hit False 2 by auto
          have "\<forall>(k, u)\<in>set (b # bs). \<not> u \<and> sz \<le> k \<longrightarrow> n \<le> k" using hit 2 by auto
          with 1 2(2) 3 show ?thesis by blast
        qed
      qed
    next
      case False
      from Cons.IH [of "a + 12 + fst b" best d] show ?thesis
      proof
        assume "pick sz (a + 12 + fst b) bs best d = best \<and>
          (\<forall>(k, u)\<in>set bs. \<not> u \<and> sz \<le> k \<longrightarrow> d \<le> k - sz)"
        then show ?thesis using False by (intro disjI1) (auto simp: case_prod_beta)
      next
        assume "\<exists>pre n suf. bs = pre @ (n, False) # suf \<and>
          pick sz (a + 12 + fst b) bs best d = a + 12 + fst b + extent pre \<and> sz \<le> n \<and>
          n - sz < d \<and> (\<forall>(k, u)\<in>set bs. \<not> u \<and> sz \<le> k \<longrightarrow> n \<le> k)"
        from ext [OF this] obtain pre n suf where 1: "b # bs = pre @ (n, False) # suf"
          and 2: "pick sz (a + 12 + fst b) bs best d = a + extent pre" "sz \<le> n"
            "n - sz < d" "\<forall>(k, u)\<in>set bs. \<not> u \<and> sz \<le> k \<longrightarrow> n \<le> k" by blast
        have 3: "pick sz a (b # bs) best d = a + extent pre" using False 2 by auto
        have "\<forall>(k, u)\<in>set (b # bs). \<not> u \<and> sz \<le> k \<longrightarrow> n \<le> k" using False 2 by auto
        with 1 2(2,3) 3 show ?thesis by blast
      qed
    qed
  qed simp
  then show thesis using that by blast
qed

section \<open>Taking a block\<close>

text \<open>What \<open>split_block\<close> followed by \<^verbatim>\<open>used = 1\<close> makes of a free block of size \<open>n\<close>.\<close>

definition split_blk :: "nat \<Rightarrow> nat \<Rightarrow> blk list" where
  "split_blk sz n = (if sz + 28 \<le> n then [(sz, True), (n - sz - 12, False)] else [(n, True)])"

lemma split_blk_extent [simp]: "extent (split_blk sz n) = 12 + n" "split_blk sz n \<noteq> []"
  by (auto simp: split_blk_def)

lemma take_block_layout:
  assumes l: "layout m a ((n, False) # suf) e" and a0: "0 < a" and sz: "sz \<le> n" "4 dvd sz" and e: "e + 16 \<le> 2 ^ 32"
  defines "m' \<equiv> set_blk_used (of_nat a) 1 (split_block (of_nat a) (of_nat sz) m)"
  shows "layout m' a (split_blk sz n @ suf) e" and "agree (- {a..<a + 12 + n}) m m'"
proof -
  have b: "a + 12 + n \<le> e" "blk_size m (of_nat a) = of_nat n" "4 dvd n"
    and nx: "blk_next m (of_nat a) = (if suf = [] then 0 else of_nat (a + 12 + n))"
    and suf: "suf \<noteq> [] \<Longrightarrow> layout m (a + 12 + n) suf e" "suf = [] \<Longrightarrow> a + 12 + n = e" using l by auto
  have b12: "a + 12 \<le> 2 ^ 32" using b(1) e by simp
  have u: "unat (of_nat n :: u32) = n" using b(1) e by (intro unat_of_nat_small) simp
  have "of_nat sz + 12 + 16 = (of_nat (sz + 28) :: u32)" by simp
  moreover have "unat (of_nat (sz + 28) :: u32) = sz + 28"
    using b(1) e sz(1) a0 by (intro unat_of_nat_small) simp
  ultimately have "unat (of_nat sz + 12 + 16 :: u32) = sz + 28" by (simp only:)
  then have cond: "blk_size m (of_nat a) \<ge> of_nat sz + 12 + (16 :: u32) \<longleftrightarrow> sz + 28 \<le> n"
    unfolding b(2) word_le_nat_alt u by simp
  have "layout m' a (split_blk sz n @ suf) e \<and> agree (- {a..<a + 12 + n}) m m'"
  proof (cases "sz + 28 \<le> n")
    case True
    let ?c = "a + 12 + sz"
    have cw: "of_nat a + 12 + of_nat sz = (of_nat ?c :: u32)" by simp
    have c12: "?c + 12 \<le> 2 ^ 32" using True b(1) e by simp
    define m3 where "m3 = set_blk_next (of_nat ?c) (blk_next m (of_nat a))
      (set_blk_used (of_nat ?c) 0 (set_blk_size (of_nat ?c) (of_nat n - of_nat sz - 12) m))"
    have a3: "agree (- {?c..<?c + 12}) m m3"
      unfolding m3_def by (intro agree_trans [OF header_writes(1) agree_trans [OF header_writes(2) header_writes(3)]] c12)
    have nx': "blk_next (set_blk_used (of_nat ?c) 0 (set_blk_size (of_nat ?c) (of_nat n - of_nat sz - 12) m)) (of_nat a)
        = blk_next m (of_nat a)"
      by (rule header_agree(3) [OF agree_mono [OF agree_trans [OF header_writes(1) header_writes(2)]] b12])
        (use c12 in auto)
    have m': "m' = set_blk_used (of_nat a) 1 (set_blk_next (of_nat a) (of_nat ?c) (set_blk_size (of_nat a) (of_nat sz) m3))"
      unfolding m'_def split_block_def using cond True nx' unfolding cw m3_def by (simp add: Let_def b(2))
    have a4: "agree (- {a..<a + 12}) m3 m'"
      unfolding m' by (intro agree_trans [OF header_writes(1) agree_trans [OF header_writes(3) header_writes(2)]] b12)
    have "agree {?c..<?c + 12} m3 m'" by (rule agree_mono [OF a4]) auto
    note hc = header_agree [OF this c12]
    have ag: "agree (- {a..<a + 12 + n}) m m'"
      by (rule agree_trans [OF agree_mono [OF a3] agree_mono [OF a4]]) (use True in auto)
    have "layout m' (a + 12 + n) suf e" if "suf \<noteq> []"
      by (rule layout_agree [OF suf(1) [OF that] agree_mono [OF ag]]) (use headers_bounds e in fastforce)+
    moreover have "4 dvd n - sz - 12" using b(3) sz(2) by (simp add: dvd_diff_nat)
    moreover have "?c + 12 + (n - sz - 12) = a + 12 + n" using True by simp
    moreover have "of_nat n - of_nat sz - (12 :: u32) = of_nat (n - sz - 12)" using True by simp
    ultimately have "layout m' a ([(sz, True), (n - sz - 12, False)] @ suf) e"
      using hc sz b(1) suf(2) nx True
      by (auto simp: m3_def simp del: of_nat_add of_nat_diff) (auto simp: m' add_ac)
    moreover have "split_blk sz n = [(sz, True), (n - sz - 12, False)]" using True by (simp add: split_blk_def)
    ultimately show ?thesis using ag by (simp only: simp_thms)
  next
    case False
    then have m': "m' = set_blk_used (of_nat a) 1 m" using cond by (simp add: m'_def split_block_def)
    have ag: "agree (- {a..<a + 12 + n}) m m'"
      unfolding m' by (rule agree_mono [OF header_writes(2) [OF b12]]) auto
    have "layout m' (a + 12 + n) suf e" if "suf \<noteq> []"
      by (rule layout_agree [OF suf(1) [OF that] agree_mono [OF ag]]) (use headers_bounds e in fastforce)+
    then have "layout m' a ((n, True) # suf) e" using l by (auto simp: m')
    then show ?thesis using ag False by (auto simp: split_blk_def)
  qed
  then show "layout m' a (split_blk sz n @ suf) e" and "agree (- {a..<a + 12 + n}) m m'" by auto
qed

section \<open>The heap invariant and kmalloc\<close>

definition heap_blocks :: "'a heap_state_scheme \<Rightarrow> blk list \<Rightarrow> bool" where
  "heap_blocks s bs \<longleftrightarrow> 0 < heap_start s \<and> 4 dvd unat (heap_start s) \<and>
     unat (heap_start s) + unat (heap_size s) + 16 \<le> 2 ^ 32 \<and> (\<forall>(k, u)\<in>set bs. u \<longrightarrow> 0 < k) \<and>
     layout (kmem s) (unat (heap_start s)) bs (unat (heap_start s) + unat (heap_size s))"

text \<open>Everything outside the heap, and the payload of every used block.\<close>

definition foreign :: "'a heap_state_scheme \<Rightarrow> blk list \<Rightarrow> nat set" where
  "foreign s bs = - {unat (heap_start s)..<unat (heap_start s) + unat (heap_size s)} \<union>
     used_bytes (unat (heap_start s)) bs"

lemma layout_unique: "layout m a bs e \<Longrightarrow> layout m a cs e \<Longrightarrow> e < 2 ^ 32 \<Longrightarrow> 0 < a \<Longrightarrow> bs = cs"
proof (induction bs arbitrary: a cs)
  case (Cons b bs)
  obtain c cs' where cs: "cs = c # cs'" using Cons.prems(2) by (cases cs) auto
  have l: "fst b < 2 ^ 32" "fst c < 2 ^ 32" "a + 12 + fst b < 2 ^ 32" using Cons.prems(1,2,3) cs by auto
  have "of_nat (fst b) = (of_nat (fst c) :: u32)" using Cons.prems(1,2) cs by simp
  then have f: "fst b = fst c" using of_nat_word_inj [of "fst b" "fst c", where 'a = 32] l by simp
  have "snd b = snd c" using Cons.prems(1,2) cs by (auto split: if_splits)
  moreover have "of_nat (a + 12 + fst b) \<noteq> (0 :: u32)"
    using l(3) Cons.prems(4) by (simp add: of_nat_eq_0_small del: of_nat_add)
  then have "bs = [] \<longleftrightarrow> cs' = []" using Cons.prems(1,2) cs f by (auto split: if_splits)
  then have "bs = cs'"
    using Cons.IH [of "a + 12 + fst b" cs'] Cons.prems cs f by (cases "bs = []") auto
  ultimately show ?case using f cs by (simp add: prod_eq_iff)
qed simp

lemma heap_blocks_unique: "heap_blocks s bs \<Longrightarrow> heap_blocks s cs \<Longrightarrow> bs = cs"
  by (rule layout_unique) (auto simp: heap_blocks_def word_less_nat_alt)

lemma heap_extent: "heap_blocks s bs \<Longrightarrow> extent bs = unat (heap_size s)"
  using layout_extent unfolding heap_blocks_def by (metis add_left_cancel)

lemma round_up4:
  assumes "unat n \<le> 0xFFFFFFFC"
  shows "unat (round_up4 n) = (unat n + 3) div 4 * 4" "unat n \<le> unat (round_up4 n)" "4 dvd unat (round_up4 n)"
    "n \<noteq> 0 \<Longrightarrow> 0 < unat (round_up4 n)"
proof -
  have "unat (n + 3) = unat n + 3" using assms by (simp add: unat_word_ariths)
  moreover have "(3 :: u32) = mask 2" by (simp add: mask_eq_exp_minus_1)
  ultimately show eq: "unat (round_up4 n) = (unat n + 3) div 4 * 4"
    unfolding round_up4_def using unat_and_not_mask [of "n + 3" 2] by (simp add: minus_mod_eq_div_mult)
  show "unat n \<le> unat (round_up4 n)" "4 dvd unat (round_up4 n)" unfolding eq by auto
  assume "n \<noteq> 0"
  then have "0 < unat n" by (simp add: unat_gt_0)
  then show "0 < unat (round_up4 n)" unfolding eq by simp
qed

text \<open>A successful search and the block it takes, on a heap with blocks \<open>bs\<close>.\<close>

lemma find_take:
  assumes h: "heap_blocks s bs" and sz: "4 dvd unat sz" and pos: "0 < unat sz"
  obtains (missing) "find_best_fit sz s = Some 0" and "\<forall>(k, u)\<in>set bs. u \<or> k < unat sz"
  | (taken) pre n suf p s' where "bs = pre @ (n, False) # suf" and "unat sz \<le> n"
      and "\<forall>(k, u)\<in>set bs. \<not> u \<and> unat sz \<le> k \<longrightarrow> n \<le> k"
      and "find_best_fit sz s = Some (of_nat (unat (heap_start s) + extent pre))"
      and "of_nat (unat (heap_start s) + extent pre) \<noteq> (0 :: u32)"
      and "take_block (of_nat (unat (heap_start s) + extent pre)) sz s = (p, s')"
      and "p \<noteq> 0" and "unat p = unat (heap_start s) + extent pre + 12"
      and "heap_blocks s' (pre @ split_blk (unat sz) n @ suf)"
      and "heap_start s' = heap_start s" and "heap_size s' = heap_size s"
      and "agree (foreign s bs) (kmem s) (kmem s')"
proof -
  define a e where "a = unat (heap_start s)" and "e = unat (heap_start s) + unat (heap_size s)"
  have l: "layout (kmem s) a bs e" "0 < a" "e + 16 \<le> 2 ^ 32"
    using h by (auto simp: heap_blocks_def a_def e_def word_less_nat_alt)
  have hs: "heap_start s = of_nat a" "sz = of_nat (unat sz)" by (auto simp: a_def)
  have "unat sz < 2 ^ 32" using unsigned_less [of sz, where 'a = nat] by simp
  then have f: "find_best_fit sz s = Some (of_nat (pick (unat sz) a bs 0 0xFFFFFFFF))"
    using best_fit_loop_layout [OF l(1,2), of "unat sz" "0xFFFFFFFF" 0] l(3) by (simp add: find_best_fit_def hs(1))
  have small: "k < 2 ^ 32 - 12" if "(k, u) \<in> set bs" for k u
  proof -
    have "k + 12 \<le> extent bs" using that by (induction bs) auto
    then show ?thesis using layout_extent [OF l(1)] l(2,3) by simp
  qed
  show thesis
  proof (cases rule: pick_cases [of "unat sz" a bs 0 "0xFFFFFFFF"])
    case none
    have a: "\<forall>(k, u)\<in>set bs. u \<or> k < unat sz"
    proof (intro ballI, clarify)
      fix k u assume "(k, u) \<in> set bs" and "\<not> k < unat sz"
      then show u using none(2) small [of k u] by (auto simp: not_less)
    qed
    have "find_best_fit sz s = Some 0" using f none(1) by simp
    from missing [OF this a] show thesis .
  next
    case (block pre n suf)
    define b where "b = a + extent pre"
    have lb: "layout (kmem s) b ((n, False) # suf) e"
      unfolding b_def by (rule layout_suffix) (use l(1) block(1) in auto)
    have b: "0 < b" "b + 12 + n \<le> e" using lb l(2) by (auto simp: b_def)
    define m' where "m' = set_blk_used (of_nat b) 1 (split_block (of_nat b) (of_nat (unat sz)) (kmem s))"
    note t = take_block_layout [OF lb b(1) block(3) sz l(3), folded m'_def]
    have ub: "unat (of_nat b :: u32) = b" using b l(3) by (intro unat_of_nat_small) simp
    have p: "unat (of_nat b + 12 :: u32) = b + 12"
      using b l(3) unat_of_nat_plus [of b "12 :: u32"] by simp
    have e: "e = b + 12 + n + extent suf" using layout_extent [OF lb] by simp
    have "agree (headers a pre) (kmem s) m'"
      by (rule agree_mono [OF t(2)]) (use headers_bounds [of _ a pre] in \<open>fastforce simp: b_def\<close>)
    then have lay: "layout m' a (pre @ split_blk (unat sz) n @ suf) e"
      using layout_replace [of "kmem s" a pre "(n, False) # suf" e m'] l(1,3) block(1) t(1) by (simp add: b_def)
    have fr: "agree (foreign s bs) (kmem s) m'"
    proof (rule agree_mono [OF t(2)])
      have "x \<notin> {b..<b + 12 + n}" if "x \<in> used_bytes a bs" for x
        using that used_bytes_bounds [of x a pre] used_bytes_bounds [of x "b + 12 + n" suf]
        by (auto simp: block(1) used_bytes_append b_def)
      then show "foreign s bs \<subseteq> - {b..<b + 12 + n}"
        using b(2) by (auto simp: foreign_def b_def e_def a_def)
    qed
    have nz: "of_nat b \<noteq> (0 :: u32)" "of_nat b + 12 \<noteq> (0 :: u32)" using ub p b(1) by auto
    let ?s = "s\<lparr>kmem := m', heap_used := heap_used s + (sz + 12)\<rparr>"
    have bb: "unat (heap_start s) + extent pre = b" by (simp add: b_def a_def)
    have "find_best_fit sz s = Some (of_nat b)" using f block(2) by (simp add: b_def)
    moreover have "take_block (of_nat b) sz s = (of_nat b + 12, ?s)" by (simp add: take_block_def m'_def)
    moreover have "heap_blocks ?s (pre @ split_blk (unat sz) n @ suf)"
      using h lay pos block(1,3) by (auto simp: heap_blocks_def a_def e_def split_blk_def)
    ultimately show thesis
      using taken [of pre n suf "of_nat b + 12" ?s] block(1,3,5) fr nz p unfolding bb by simp
  qed
qed

lemma merge_free_blocks_ok:
  assumes "heap_blocks s bs"
  obtains m' where "merge_free_blocks s = Some (s\<lparr>kmem := m'\<rparr>)"
    and "heap_blocks (s\<lparr>kmem := m'\<rparr>) (merge_blocks bs)" and "agree (foreign s bs) (kmem s) m'"
    and "merge_loop (heap_start s) (heap_size s) (heap_start s) (kmem s) = Some m'"
proof -
  define a e where "a = unat (heap_start s)" and "e = unat (heap_start s) + unat (heap_size s)"
  have l: "layout (kmem s) a bs e" "0 < a" "e + 16 \<le> 2 ^ 32"
    using assms by (auto simp: heap_blocks_def a_def e_def word_less_nat_alt)
  have x: "e = a + extent bs" using layout_extent [OF l(1)] .
  obtain m' where m': "merge_loop (heap_start s) (heap_size s) (heap_start s) (kmem s) = Some m'"
    "layout m' a (merge_blocks bs) e" "agree (- headers a bs) (kmem s) m'"
    using merge_loop_layout [OF l(1), of a "unat (heap_size s)"] l x by (auto simp: a_def e_def)
  have pos: "\<forall>(k, u)\<in>set (merge_blocks cs). u \<longrightarrow> 0 < k" if "\<forall>(k, u)\<in>set cs. u \<longrightarrow> 0 < k" for cs
    using that by (induction cs rule: merge_blocks.induct) auto
  have "heap_blocks (s\<lparr>kmem := m'\<rparr>) (merge_blocks bs)"
    using assms m'(2) pos [of bs] by (simp add: heap_blocks_def a_def e_def)
  moreover have "agree (foreign s bs) (kmem s) m'"
    by (rule agree_mono [OF m'(3)])
      (use headers_used [of a bs] headers_bounds [of _ a bs] x in \<open>fastforce simp: foreign_def a_def e_def\<close>)
  ultimately show thesis using m'(1) by (intro that) (auto simp: merge_free_blocks_def)
qed

lemma used_blocks_bounds: "(p, n) \<in> used_blocks a bs \<Longrightarrow> a + 12 \<le> p \<and> p + n \<le> a + extent bs"
  by (induction bs arbitrary: a) (force split: if_splits)+

lemma used_blocks_split:
  assumes "(p, n) \<in> used_blocks a bs"
  obtains pre suf where "bs = pre @ (n, True) # suf" and "p = a + extent pre + 12"
  using assms
proof (induction bs arbitrary: a thesis)
  case (Cons b bs)
  show ?case
  proof (cases "snd b \<and> p = a + 12 \<and> n = fst b")
    case True
    then show ?thesis using Cons.prems(1) [of "[]" bs] by (cases b) auto
  next
    case False
    then have "(p, n) \<in> used_blocks (a + 12 + fst b) bs" using Cons.prems(2) by (auto split: if_splits)
    from Cons.IH [OF _ this] obtain pre suf where "bs = pre @ (n, True) # suf" "p = a + 12 + fst b + extent pre + 12"
      by blast
    then show ?thesis using Cons.prems(1) [of "b # pre" suf] by simp
  qed
qed simp

lemma layout_dvd: "layout m a bs e \<Longrightarrow> (k, u) \<in> set bs \<Longrightarrow> 4 dvd k"
  by (induction bs arbitrary: a) (auto split: if_splits)

lemma extent_dvd: "\<forall>(k, u)\<in>set bs. 4 dvd k \<Longrightarrow> 4 dvd extent bs"
  by (induction bs) (auto intro!: dvd_add)

text \<open>The effect of taking a free block on the set of used blocks.\<close>

lemma used_blocks_take:
  assumes "sz \<le> n" and b_def: "b = a + extent pre + 12"
  shows "\<exists>k\<ge>sz. k \<le> n \<and> used_blocks a (pre @ split_blk sz n @ suf) =
      insert (b, k) (used_blocks a (pre @ (n, False) # suf)) \<and> b + k \<le> a + extent (pre @ (n, False) # suf)"
    and "(b, j) \<notin> used_blocks a (pre @ (n, False) # suf)"
    and "{b..<b + n} \<inter> used_bytes a (pre @ (n, False) # suf) = {}"
proof -
  have "used_blocks a (pre @ split_blk sz n @ suf) =
      insert (b, fst (hd (split_blk sz n))) (used_blocks a (pre @ (n, False) # suf))"
    using assms(1) by (auto simp: used_blocks_append split_blk_def b_def add_ac)
  moreover have "sz \<le> fst (hd (split_blk sz n))" "fst (hd (split_blk sz n)) \<le> n"
    using assms(1) by (auto simp: split_blk_def)
  ultimately show "\<exists>k\<ge>sz. k \<le> n \<and> used_blocks a (pre @ split_blk sz n @ suf) =
      insert (b, k) (used_blocks a (pre @ (n, False) # suf)) \<and> b + k \<le> a + extent (pre @ (n, False) # suf)"
    by (intro exI [of _ "fst (hd (split_blk sz n))"]) (simp add: b_def)
  show "(b, j) \<notin> used_blocks a (pre @ (n, False) # suf)"
    using used_blocks_bounds [of b j a pre] used_blocks_bounds [of b j "a + (extent pre + (12 + n))" suf]
    by (auto simp: used_blocks_append b_def add_ac)
  show "{b..<b + n} \<inter> used_bytes a (pre @ (n, False) # suf) = {}"
    using used_bytes_bounds [of _ a pre] used_bytes_bounds [of _ "a + extent pre + 12 + n" suf]
    by (fastforce simp: used_bytes_append b_def)
qed

lemma kmalloc_ok:
  assumes h: "heap_blocks s bs" and nz: "size0 \<noteq> 0" and fits: "unat size0 \<le> 0xFFFFFFFC"
  obtains (fail) s' where "kmalloc size0 s = Some (0, s')" and "heap_blocks s' (merge_blocks bs)"
      and "\<forall>(k, u)\<in>set (merge_blocks bs). u \<or> k < unat (round_up4 size0)"
      and "heap_start s' = heap_start s" and "heap_size s' = heap_size s"
      and "agree (foreign s bs) (kmem s) (kmem s')"
  | (block) p s' cs pre n suf where "kmalloc size0 s = Some (p, s')" and "p \<noteq> 0"
      and "cs = bs \<or> cs = merge_blocks bs \<and> (\<forall>(k, u)\<in>set bs. u \<or> k < unat (round_up4 size0))" and "cs = pre @ (n, False) # suf"
      and "unat (round_up4 size0) \<le> n" and "unat p = unat (heap_start s) + extent pre + 12"
      and "\<forall>(k, u)\<in>set cs. \<not> u \<and> unat (round_up4 size0) \<le> k \<longrightarrow> n \<le> k"
      and "heap_blocks s' (pre @ split_blk (unat (round_up4 size0)) n @ suf)"
      and "heap_start s' = heap_start s" and "heap_size s' = heap_size s"
      and "agree (foreign s bs) (kmem s) (kmem s')"
proof -
  let ?sz = "round_up4 size0"
  note r = round_up4(3) [OF fits] round_up4(4) [OF fits nz]
  from h r show thesis
  proof (cases rule: find_take)
    case missing1: missing
    obtain m' where m: "merge_free_blocks s = Some (s\<lparr>kmem := m'\<rparr>)"
      "heap_blocks (s\<lparr>kmem := m'\<rparr>) (merge_blocks bs)" "agree (foreign s bs) (kmem s) m'"
      using merge_free_blocks_ok [OF h] by metis
    from m(2) r show thesis
    proof (cases rule: find_take)
      case missing
      then have "kmalloc size0 s = Some (0, s\<lparr>kmem := m'\<rparr>)" using nz missing1(1) m(1) by (simp add: kmalloc_def Let_def)
      from fail [OF this m(2) missing(2)] m(3) show thesis by simp
    next
      case (taken pre n suf p s')
      then have "kmalloc size0 s = Some (p, s')" using nz missing1(1) m(1) by (simp add: kmalloc_def Let_def)
      moreover have "agree (foreign s bs) (kmem s) (kmem s')"
        using agree_trans [OF m(3)] taken(12) by (simp add: foreign_def)
      ultimately show thesis using block [of p s' "merge_blocks bs" pre n suf] taken missing1(2) by simp
    qed
  next
    case (taken pre n suf p s')
    then have "kmalloc size0 s = Some (p, s')" using nz by (simp add: kmalloc_def Let_def)
    then show thesis using block [of p s' bs pre n suf] taken by simp
  qed
qed

section \<open>kfree\<close>

lemma load32_low: "ucast (load32 m a) = m a"
  by (rule bit_word_eqI) (auto simp: load32_def bit_simps)

text \<open>The pointer of a plain block is not taken for an aligned one: the byte at \<open>ptr - 8\<close> is the flag.\<close>

lemma not_magic:
  assumes "blk_used m b = 1"
  shows "load32 m (b + 12 - 4 - 4) \<noteq> align_magic"
proof
  assume a: "load32 m (b + 12 - 4 - 4) = align_magic"
  have "b + 12 - 4 - 4 = b + 4" by simp
  then have "m (b + 4) = ucast align_magic" using a load32_low [of m "b + 4"] by (simp add: add.commute)
  then show False using assms by (simp add: blk_used_def align_magic_def)
qed

lemma validate_loop_layout:
  assumes "layout m a bs e" and "0 < a" and "e < 2 ^ 32"
    and "merge_loop hs sz hs m = Some m1"
  shows "\<exists>m'. validate_loop hs sz (of_nat a) m = Some m' \<and> (m' = m \<or> m' = m1)"
  using assms(1,2)
proof (induction bs arbitrary: a)
  case (Cons b bs)
  have "of_nat a \<noteq> (0 :: u32)"
    using Cons.prems assms(3) by (subst of_nat_eq_0_small) auto
  moreover have "\<exists>m'. validate_loop hs sz (blk_next m (of_nat a)) m = Some m' \<and> (m' = m \<or> m' = m1)"
  proof (cases "bs = []")
    case True
    then show ?thesis using Cons.prems(1) by (subst validate_loop.simps) auto
  next
    case False
    then show ?thesis using Cons.IH [of "a + 12 + fst b"] Cons.prems by auto
  qed
  ultimately show ?case using assms(4) by (subst validate_loop.simps) auto
qed simp

lemma heap_validate_ok:
  assumes "heap_blocks s bs" and "coalesced bs"
  obtains m' where "heap_validate s = Some (s\<lparr>kmem := m'\<rparr>)"
    and "heap_blocks (s\<lparr>kmem := m'\<rparr>) bs" and "agree (foreign s bs) (kmem s) m'"
proof -
  obtain m1 where m1: "heap_blocks (s\<lparr>kmem := m1\<rparr>) (merge_blocks bs)" "agree (foreign s bs) (kmem s) m1"
    "merge_loop (heap_start s) (heap_size s) (heap_start s) (kmem s) = Some m1"
    using merge_free_blocks_ok [OF assms(1)] by metis
  obtain m' where "validate_loop (heap_start s) (heap_size s) (of_nat (unat (heap_start s))) (kmem s) = Some m'"
    "m' = kmem s \<or> m' = m1"
    using validate_loop_layout [OF _ _ _ m1(3), of "unat (heap_start s)" bs "unat (heap_start s) + unat (heap_size s)"] assms(1)
    by (auto simp: heap_blocks_def word_less_nat_alt)
  then show thesis
    using m1 assms merge_coalesced [OF assms(2)]
    by (intro that [of m']) (auto simp: heap_validate_def heap_blocks_def)
qed

lemma kfree_ok:
  assumes h: "heap_blocks s bs" and p: "(unat p, n) \<in> used_blocks (unat (heap_start s)) bs"
  obtains s' pre suf where "bs = pre @ (n, True) # suf" and "unat p = unat (heap_start s) + extent pre + 12"
    and "kfree p s = Some s'" and "heap_blocks s' (merge_blocks (pre @ (n, False) # suf))"
    and "heap_start s' = heap_start s" and "heap_size s' = heap_size s"
    and "heap_used s' = heap_used s - (of_nat n + 12)"
    and "agree (foreign s (pre @ (n, False) # suf)) (kmem s) (kmem s')"
proof -
  define a e where "a = unat (heap_start s)" and "e = unat (heap_start s) + unat (heap_size s)"
  obtain pre suf where bs: "bs = pre @ (n, True) # suf" "unat p = a + extent pre + 12"
    using used_blocks_split [OF p] unfolding a_def by metis
  define b where "b = a + extent pre"
  have l: "layout (kmem s) a bs e" "0 < a" "e + 16 \<le> 2 ^ 32"
    using h by (auto simp: heap_blocks_def a_def e_def word_less_nat_alt)
  have lb: "layout (kmem s) b ((n, True) # suf) e"
    unfolding b_def by (rule layout_suffix) (use l(1) bs(1) in auto)
  have b: "b + 12 + n \<le> e" "0 < n" "a \<le> b" using lb h bs(1) by (auto simp: b_def heap_blocks_def)
  have b12: "b + 12 \<le> 2 ^ 32" using b(1) l(3) by simp
  have "unat (of_nat b + 12 :: u32) = b + 12" using b(1) l(3) unat_of_nat_plus [of b "12 :: u32"] by simp
  then have pw: "p = of_nat b + 12" using bs(2) by (intro unat_word_inj) (simp add: b_def)
  have ue: "unat (heap_start s + heap_size s) = e"
    using l(3) by (simp add: e_def unat_add_no_overflow)
  have guards: "p \<noteq> 0" "\<not> (p < heap_start s \<or> heap_start s + heap_size s \<le> p)"
    using bs(2) b ue by (auto simp: word_less_nat_alt word_le_nat_alt a_def b_def)
  have used: "blk_used (kmem s) (of_nat b) = 1" "blk_size (kmem s) (of_nat b) = of_nat n" using lb by auto
  define m1 where "m1 = set_blk_used (of_nat b) 0 (kmem s)"
  define s1 where "s1 = s\<lparr>heap_used := heap_used s - (of_nat n + 12), kmem := m1\<rparr>"
  have a1: "agree (- {b..<b + 12}) (kmem s) m1" unfolding m1_def by (rule header_writes [OF b12])
  have "agree (headers (b + 12 + n) suf) (kmem s) m1"
    by (rule agree_mono [OF a1]) (use headers_bounds in fastforce)
  then have "layout m1 (b + 12 + n) suf e" if "suf \<noteq> []"
    using layout_agree [of "kmem s" _ suf e] lb l(3) that by auto
  then have "layout m1 b ((n, False) # suf) e" using lb by (auto simp: m1_def)
  moreover have "agree (headers a pre) (kmem s) m1"
    by (rule agree_mono [OF a1]) (use headers_bounds [of _ a pre] in \<open>fastforce simp: b_def\<close>)
  ultimately have "layout m1 a (pre @ (n, False) # suf) e"
    using layout_replace [of "kmem s" a pre "(n, True) # suf" e m1 "(n, False) # suf"] l bs(1)
    by (simp add: b_def del: layout.simps)
  then have h1: "heap_blocks s1 (pre @ (n, False) # suf)"
    using h bs(1) by (auto simp: heap_blocks_def s1_def a_def e_def)
  from merge_free_blocks_ok [OF h1] obtain m2 where m2: "merge_free_blocks s1 = Some (s1\<lparr>kmem := m2\<rparr>)"
    "heap_blocks (s1\<lparr>kmem := m2\<rparr>) (merge_blocks (pre @ (n, False) # suf))"
    "agree (foreign s1 (pre @ (n, False) # suf)) m1 m2" by (auto simp: s1_def)
  from heap_validate_ok [OF m2(2) coalesced_merge] obtain m3 where
    m3: "heap_validate (s1\<lparr>kmem := m2\<rparr>) = Some (s1\<lparr>kmem := m3\<rparr>)"
    "heap_blocks (s1\<lparr>kmem := m3\<rparr>) (merge_blocks (pre @ (n, False) # suf))"
    "agree (foreign s1 (pre @ (n, False) # suf)) m2 m3" by (auto simp: foreign_def)
  have "kfree p s = Some (s1\<lparr>kmem := m3\<rparr>)"
    using guards not_magic [OF used(1)] m2(1) m3(1) used
    unfolding kfree_def Let_def pw by (simp add: s1_def m1_def)
  moreover have "agree (foreign s (pre @ (n, False) # suf)) (kmem s) m1"
  proof (rule agree_mono [OF a1])
    have "x \<notin> {b..<b + 12}" if "x \<in> used_bytes a (pre @ (n, False) # suf)" for x
      using that used_bytes_bounds [of x a pre] used_bytes_bounds [of x "b + 12 + n" suf]
      by (auto simp: used_bytes_append b_def)
    then show "foreign s (pre @ (n, False) # suf) \<subseteq> - {b..<b + 12}"
      using b by (auto simp: foreign_def b_def e_def a_def)
  qed
  then have "agree (foreign s (pre @ (n, False) # suf)) (kmem s) m3"
    using m2(3) m3(3) by (auto simp: foreign_def s1_def intro: agree_trans)
  ultimately show thesis
    using that [OF bs(1)] bs(2) m3(2) by (simp add: a_def s1_def)
qed

section \<open>The heap is an allocator\<close>

definition heap_inv :: "'a heap_state_scheme \<Rightarrow> bool" where
  "heap_inv s \<longleftrightarrow> (\<exists>bs. heap_blocks s bs)"

definition heap_live :: "'a heap_state_scheme \<Rightarrow> u32 set" where
  "heap_live s = {p. \<exists>bs n. heap_blocks s bs \<and> (unat p, n) \<in> used_blocks (unat (heap_start s)) bs}"

definition heap_fits :: "u32 \<Rightarrow> bool" where
  "heap_fits n \<longleftrightarrow> n \<le> 0xFFFFFFFC"

lemma heap_live_eq:
  "heap_blocks s bs \<Longrightarrow> heap_live s = {p. \<exists>n. (unat p, n) \<in> used_blocks (unat (heap_start s)) bs}"
  unfolding heap_live_def using heap_blocks_unique by blast

lemma kmalloc_live:
  assumes "heap_blocks s bs" and "heap_fits n"
  obtains p s' where "kmalloc n s = Some (p, s')" and "heap_inv s'"
    and "p = 0 \<Longrightarrow> heap_live s' = heap_live s"
    and "p \<noteq> 0 \<Longrightarrow> p \<notin> heap_live s \<and> heap_live s' = insert p (heap_live s)"
proof (cases "n = 0")
  case True
  then show thesis using assms(1) by (intro that [of 0 s]) (auto simp: kmalloc_def heap_inv_def)
next
  case False
  have fits: "unat n \<le> 0xFFFFFFFC" using assms(2) by (simp add: heap_fits_def word_le_nat_alt)
  from assms(1) False fits show thesis
  proof (cases rule: kmalloc_ok)
    case (fail s')
    then show thesis
      using assms(1) by (intro that [of 0 s']) (auto simp: heap_inv_def heap_live_eq)
  next
    case (block p s' cs pre k suf)
    let ?a = "unat (heap_start s)"
    have ub: "used_blocks ?a bs = used_blocks ?a (pre @ (k, False) # suf)" using block(3,4) by auto
    obtain j where j: "used_blocks ?a (pre @ split_blk (unat (round_up4 n)) k @ suf) =
        insert (unat p, j) (used_blocks ?a bs)"
      using used_blocks_take(1) [OF block(5,6), of suf] unfolding ub by auto
    have "(unat p, i) \<notin> used_blocks ?a bs" for i
      using used_blocks_take(2) [OF block(5,6)] ub by simp
    then have "p \<notin> heap_live s" "heap_live s' = insert p (heap_live s)"
      unfolding heap_live_eq [OF assms(1)] heap_live_eq [OF block(8)] block(9) j
      by (auto intro: unat_word_inj)
    then show thesis using block(1,2,8) by (intro that [of p s']) (auto simp: heap_inv_def)
  qed
qed

lemma kfree_live:
  assumes "heap_blocks s bs" and "p \<in> heap_live s"
  obtains s' where "kfree p s = Some s'" and "heap_inv s'" and "heap_live s' = heap_live s - {p}"
proof -
  obtain n where n: "(unat p, n) \<in> used_blocks (unat (heap_start s)) bs"
    using assms by (auto simp: heap_live_eq)
  from kfree_ok [OF assms(1) n] obtain s' pre suf where k: "bs = pre @ (n, True) # suf"
    "unat p = unat (heap_start s) + extent pre + 12" "kfree p s = Some s'"
    "heap_blocks s' (merge_blocks (pre @ (n, False) # suf))" "heap_start s' = heap_start s" by metis
  let ?a = "unat (heap_start s)"
  have ub: "used_blocks ?a bs = insert (unat p, n) (used_blocks ?a (pre @ (n, False) # suf))"
    using k(1,2) by (auto simp: used_blocks_append)
  have "(unat p, i) \<notin> used_blocks ?a (pre @ (n, False) # suf)" for i
    using used_blocks_take(2) [OF order_refl k(2)] by simp
  then have "heap_live s' = heap_live s - {p}"
    unfolding heap_live_eq [OF assms(1)] heap_live_eq [OF k(4)] k(5) used_blocks_merge ub
    by (auto intro: unat_word_inj)
  then show thesis using k(3,4) by (intro that [of s']) (auto simp: heap_inv_def)
qed

interpretation heap: allocator kmalloc kfree heap_live heap_inv heap_fits
proof unfold_locales
  fix s s' :: "'a heap_state_scheme" and n p :: u32
  assume i: "heap_inv s"
  then obtain bs where bs: "heap_blocks s bs" by (auto simp: heap_inv_def)
  show "\<exists>p h'. kmalloc n s = Some (p, h') \<and> heap_inv h'" if "heap_fits n"
    using kmalloc_live [OF bs that] by metis
  show "heap_live s' = heap_live s" if "heap_fits n" and "kmalloc n s = Some (0, s')"
    using kmalloc_live [OF bs that(1)] that(2) by (metis option.inject prod.inject)
  show "p \<notin> heap_live s \<and> heap_live s' = insert p (heap_live s)"
    if "heap_fits n" and "kmalloc n s = Some (p, s')" and "p \<noteq> 0"
    using kmalloc_live [OF bs that(1)] that(2,3) by (metis option.inject prod.inject)
  show "0 \<notin> heap_live s"
    using used_blocks_bounds [of 0 _ "unat (heap_start s)" bs] by (auto simp: heap_live_eq [OF bs])
  show "\<exists>h'. kfree p s = Some h' \<and> heap_inv h'" if "p \<in> heap_live s"
    using kfree_live [OF bs that] by metis
  show "heap_live s' = heap_live s - {p}" if "p \<in> heap_live s" and "kfree p s = Some s'"
    using kfree_live [OF bs that(1)] that(2) by (metis option.inject)
qed

text \<open>The first half of the contract of \<open>kmalloc_aligned\<close>: the plain block it allocates.\<close>

lemma kmalloc_block:
  assumes "heap_blocks s bs" and "n \<noteq> 0" and "unat n \<le> 0xFFFFFFFC"
  obtains (fail) s' where "kmalloc n s = Some (0, s')" and "heap_blocks s' (merge_blocks bs)"
  | (block) p s' bs' k where "kmalloc n s = Some (p, s')" and "p \<noteq> 0" and "heap_blocks s' bs'"
      and "unat n \<le> k" and "heap_start s' = heap_start s" and "heap_size s' = heap_size s"
      and "used_blocks (unat (heap_start s)) bs' = insert (unat p, k) (used_blocks (unat (heap_start s)) bs)"
      and "(\<forall>j. (unat p, j) \<notin> used_blocks (unat (heap_start s)) bs)"
      and "{unat p..<unat p + k} \<inter> used_bytes (unat (heap_start s)) bs = {}"
      and "agree (foreign s bs) (kmem s) (kmem s')"
  using assms
proof (cases rule: kmalloc_ok)
  case (fail s')
  then show thesis using that(1) by blast
next
  case (block p s' cs pre j suf)
  let ?a = "unat (heap_start s)"
  have ub: "used_blocks ?a bs = used_blocks ?a cs" "used_bytes ?a bs = used_bytes ?a cs" using block(3) by auto
  obtain k where k: "unat (round_up4 n) \<le> k" "k \<le> j"
    "used_blocks ?a (pre @ split_blk (unat (round_up4 n)) j @ suf) = insert (unat p, k) (used_blocks ?a cs)"
    using used_blocks_take(1) [OF block(5,6), of suf] block(4) by auto
  have "\<forall>i. (unat p, i) \<notin> used_blocks ?a cs" using used_blocks_take(2) [OF block(5,6)] block(4) by simp
  moreover have "{unat p..<unat p + k} \<inter> used_bytes ?a cs = {}"
    using used_blocks_take(3) [OF block(5,6), of suf] block(4) k(2) by fastforce
  ultimately show thesis
    using that(2) [OF block(1,2,8), of k] block(9,10,11) k(1,3) ub round_up4(2) [OF assms(3)] by simp
qed

text \<open>\<open>n\<close> bytes at \<open>p\<close> lie in one used block.\<close>

definition heap_room :: "'a heap_state_scheme \<Rightarrow> u32 \<Rightarrow> nat \<Rightarrow> bool" where
  "heap_room s p n \<longleftrightarrow>
     (\<exists>bs k. heap_blocks s bs \<and> (unat p, k) \<in> used_blocks (unat (heap_start s)) bs \<and> n \<le> k)"

lemma heap_room_eq:
  "heap_blocks s bs \<Longrightarrow> heap_room s p n \<longleftrightarrow> (\<exists>k\<ge>n. (unat p, k) \<in> used_blocks (unat (heap_start s)) bs)"
  unfolding heap_room_def using heap_blocks_unique by blast

lemma heap_room_bound: "heap_room s p n \<Longrightarrow> unat p + n < 2 ^ 32"
  using used_blocks_bounds heap_extent by (fastforce simp: heap_room_def heap_blocks_def)

lemma kmalloc_room:
  assumes "heap_inv s" and "heap_fits n" and "kmalloc n s = Some (p, s')"
  shows "p \<noteq> 0 \<Longrightarrow> heap_room s' p (unat n)" and "heap_room s q k \<Longrightarrow> heap_room s' q k"
proof -
  obtain bs where bs: "heap_blocks s bs" using assms(1) by (auto simp: heap_inv_def)
  have "(p \<noteq> 0 \<longrightarrow> heap_room s' p (unat n)) \<and> (heap_room s q k \<longrightarrow> heap_room s' q k)"
  proof (cases "n = 0")
    case True
    then show ?thesis using assms(3) by (auto simp: kmalloc_def)
  next
    case False
    have "unat n \<le> 0xFFFFFFFC" using assms(2) by (simp add: heap_fits_def word_le_nat_alt)
    from bs False this show ?thesis
    proof (cases rule: kmalloc_ok)
      case (fail s1)
      then show ?thesis using assms(3) by (auto simp: heap_room_eq [OF bs] heap_room_eq [OF fail(2)])
    next
      case (block p1 s1 cs pre j suf)
      let ?a = "unat (heap_start s)"
      have ub: "used_blocks ?a bs = used_blocks ?a cs" using block(3) by auto
      obtain i where "unat (round_up4 n) \<le> i"
        "used_blocks ?a (pre @ split_blk (unat (round_up4 n)) j @ suf) = insert (unat p1, i) (used_blocks ?a cs)"
        using used_blocks_take(1) [OF block(5,6), of suf] block(4) by auto
      moreover have eq: "p1 = p" "s1 = s'" using block(1) assms(3) by auto
      ultimately show ?thesis
        using block(9) ub round_up4(2) [OF \<open>unat n \<le> 0xFFFFFFFC\<close>]
        by (auto intro: exI [of _ i] simp: heap_room_eq [OF bs] heap_room_eq [OF block(8) [unfolded eq]])
    qed
  qed
  then show "p \<noteq> 0 \<Longrightarrow> heap_room s' p (unat n)" "heap_room s q k \<Longrightarrow> heap_room s' q k" by auto
qed

lemma kfree_room:
  assumes "heap_inv s" and "p \<in> heap_live s" and "kfree p s = Some s'" and "q \<noteq> p" and "heap_room s q k"
  shows "heap_room s' q k"
proof -
  obtain bs where bs: "heap_blocks s bs" using assms(1) by (auto simp: heap_inv_def)
  obtain n where n: "(unat p, n) \<in> used_blocks (unat (heap_start s)) bs"
    using assms(2) by (auto simp: heap_live_eq [OF bs])
  from kfree_ok [OF bs n] obtain s1 pre suf where k: "bs = pre @ (n, True) # suf" "kfree p s = Some s1"
    "unat p = unat (heap_start s) + extent pre + 12"
    "heap_blocks s1 (merge_blocks (pre @ (n, False) # suf))" "heap_start s1 = heap_start s" by metis
  have eq: "s1 = s'" using k(2) assms(3) by simp
  have "unat q \<noteq> unat p" using assms(4) unat_word_inj by blast
  then show ?thesis
    using assms(5) k(1,3,5) eq
    by (auto simp: heap_room_eq [OF bs] heap_room_eq [OF k(4) [unfolded eq]] used_blocks_append)
qed

interpretation heap: sized_allocator kmalloc kfree heap_live heap_inv heap_fits heap_room
proof unfold_locales
  show "p \<in> heap_live s" if "heap_room s p n" for s :: "'a heap_state_scheme" and p n
    using that by (auto simp: heap_room_def heap_live_def)
qed (use kmalloc_room kfree_room in auto)

text \<open>\<open>kmalloc\<close> and \<open>kfree\<close> touch the memory and the usage counter, nothing else of the kernel state.\<close>

lemma kmalloc_frame: "kmalloc n s = Some (p, s') \<Longrightarrow> s'\<lparr>kmem := kmem s, heap_used := heap_used s\<rparr> = s"
  by (auto simp: kmalloc_def take_block_def merge_free_blocks_def Let_def bind_eq_Some_conv split: if_splits)

lemma kfree_frame: "kfree p s = Some s' \<Longrightarrow> s'\<lparr>kmem := kmem s, heap_used := heap_used s\<rparr> = s"
  by (auto simp: kfree_def merge_free_blocks_def heap_validate_def Let_def bind_eq_Some_conv split: if_splits)

text \<open>Writing into the payload of a used block leaves the block list alone.\<close>

lemma heap_blocks_payload:
  assumes "heap_blocks s bs" and "agree (- used_bytes (unat (heap_start s)) bs) (kmem s) m"
  shows "heap_blocks (s\<lparr>kmem := m\<rparr>) bs"
proof -
  have "agree (headers (unat (heap_start s)) bs) (kmem s) m"
    using assms(2) by (rule agree_mono) (use headers_used in blast)
  then show ?thesis using assms(1) layout_agree by (fastforce simp: heap_blocks_def)
qed

text \<open>Writing inside the room of a pointer.\<close>

lemma heap_write:
  assumes "heap_room s p n" and "agree (- {unat p..<unat p + n}) (kmem s) m"
  shows "heap_inv (s\<lparr>kmem := m\<rparr>)" and "heap_live (s\<lparr>kmem := m\<rparr>) = heap_live s"
    and "heap_room (s\<lparr>kmem := m\<rparr>) = heap_room s"
proof -
  obtain bs k where bs: "heap_blocks s bs" "(unat p, k) \<in> used_blocks (unat (heap_start s)) bs" "n \<le> k"
    using assms(1) by (auto simp: heap_room_def)
  have "{unat p..<unat p + n} \<subseteq> {unat p..<unat p + k}" using bs(3) by auto
  also have "\<dots> \<subseteq> used_bytes (unat (heap_start s)) bs" using bs(2) by (auto simp: used_bytes_blocks)
  finally have "{unat p..<unat p + n} \<subseteq> used_bytes (unat (heap_start s)) bs" .
  then have h: "heap_blocks (s\<lparr>kmem := m\<rparr>) bs"
    using heap_blocks_payload [OF bs(1)] assms(2) agree_mono by blast
  show "heap_inv (s\<lparr>kmem := m\<rparr>)" using h by (auto simp: heap_inv_def)
  show "heap_live (s\<lparr>kmem := m\<rparr>) = heap_live s" unfolding heap_live_eq [OF h] heap_live_eq [OF bs(1)] by simp
  show "heap_room (s\<lparr>kmem := m\<rparr>) = heap_room s"
    by (intro ext) (simp add: heap_room_eq [OF h] heap_room_eq [OF bs(1)])
qed

section \<open>Initialisation, aligned blocks, statistics\<close>

lemma heap_init_ok:
  assumes "0 < start" and "4 dvd unat start" and "4 dvd unat sz" and "12 \<le> sz"
    and "unat start + unat sz + 16 \<le> 2 ^ 32"
  shows "heap_blocks (snd (heap_init start sz s)) [(unat sz - 12, False)]"
proof -
  have "12 \<le> unat sz" using assms(4) by (simp add: word_le_nat_alt)
  moreover from this have "of_nat (unat sz - 12) = sz - 12" by (simp add: of_nat_diff)
  ultimately show ?thesis using assms by (auto simp: heap_init_def heap_blocks_def)
qed

text \<open>A pointer with the marker in front is freed through the pointer stored beside the marker.\<close>

lemma kfree_aligned:
  assumes h: "heap_blocks s bs" and p: "(unat p, n) \<in> used_blocks (unat (heap_start s)) bs"
    and q: "heap_start s \<le> q" "q < heap_start s + heap_size s"
    and "load32 (kmem s) (q - 4 - 4) = align_magic" and "load32 (kmem s) (q - 4) = p"
  shows "kfree q s = kfree p s"
proof -
  obtain pre suf where bs: "bs = pre @ (n, True) # suf" "unat p = unat (heap_start s) + extent pre + 12"
    using used_blocks_split [OF p] by metis
  have l: "layout (kmem s) (unat (heap_start s)) bs (unat (heap_start s) + unat (heap_size s))"
    "unat (heap_start s) + unat (heap_size s) + 16 \<le> 2 ^ 32" "0 < n" "0 < heap_start s"
    using h bs(1) by (auto simp: heap_blocks_def)
  have "layout (kmem s) (unat (heap_start s) + extent pre) ((n, True) # suf) (unat (heap_start s) + unat (heap_size s))"
    by (rule layout_suffix) (use l(1) bs(1) in auto)
  then have "blk_used (kmem s) (of_nat (unat (heap_start s) + extent pre)) = 1" by (auto simp del: of_nat_add)
  moreover have "p = of_nat (unat (heap_start s) + extent pre) + 12"
    using bs(2) by (metis of_nat_add of_nat_numeral of_nat_unat ucast_id)
  ultimately have nm: "load32 (kmem s) (p - 4 - 4) \<noteq> align_magic" using not_magic by metis
  have "unat (heap_start s + heap_size s) = unat (heap_start s) + unat (heap_size s)"
    using l(2) by (simp add: unat_add_no_overflow)
  then have pg: "\<not> (p < heap_start s \<or> heap_start s + heap_size s \<le> p)" "p \<noteq> 0"
    using bs layout_extent [OF l(1)] l(3,4) by (auto simp: word_less_nat_alt word_le_nat_alt)
  have "q \<noteq> 0" using q(1) l(4) by auto
  then show ?thesis
    using assms(5,6) q pg nm by (auto simp: kfree_def Let_def not_less not_le)
qed

lemma align_bounds:
  fixes ptr al :: u32
  assumes "al \<noteq> 0" and "al AND (al - 1) = 0" and "unat ptr + unat al + 8 < 2 ^ 32"
  defines "q \<equiv> (ptr + 4 + 4 + al - 1) AND NOT (al - 1)"
  shows "unat al dvd unat q" and "unat ptr + 8 \<le> unat q" and "unat q < unat ptr + 8 + unat al"
proof -
  obtain k where k: "unat al = 2 ^ k" "al - 1 = mask k" using word_and_pred_zero assms(1,2) by metis
  have "ptr + 4 + 4 + al - 1 = ptr + (8 + (al - 1))" by simp
  moreover have u1: "unat (al - 1) = unat al - 1" using assms(1) by (simp add: unat_minus_one)
  moreover have "0 < unat al" using assms(1) by (simp add: unat_gt_0)
  ultimately have x: "unat (ptr + 4 + 4 + al - 1) = unat ptr + 8 + unat al - 1"
    using assms(3) unat_add_no_overflow [of 8 "al - 1"] unat_add_no_overflow [of ptr "8 + (al - 1)"]
    by (simp add: add.left_commute)
  let ?x = "unat ptr + 8 + unat al - 1"
  have q: "unat q = ?x - ?x mod unat al"
    unfolding q_def k(2) unat_and_not_mask k(1) [symmetric] x ..
  then show "unat al dvd unat q" by (simp add: minus_mod_eq_mult_div)
  have "?x mod unat al < unat al" using \<open>0 < unat al\<close> by simp
  then show "unat ptr + 8 \<le> unat q" "unat q < unat ptr + 8 + unat al"
    using q \<open>0 < unat al\<close> by linarith+
qed

primrec largest_free :: "blk list \<Rightarrow> nat \<Rightarrow> nat" where
  "largest_free [] l = l"
| "largest_free (b # bs) l = largest_free bs (if snd b then l else max l (fst b))"

lemma frag_loop_layout:
  assumes "layout m a bs e" and "0 < a" and "hs \<le> a" and "e = hs + sz" and "e < 2 ^ 32"
    and "\<forall>(k, u)\<in>set bs. 0 < k" and "it + length bs \<le> 10000" and "l < 2 ^ 32"
  shows "frag_loop (of_nat hs) (of_nat sz) (of_nat a) (of_nat it) (of_nat c) (of_nat l) m =
    Some (of_nat (c + length (filter (\<lambda>b. \<not> snd b) bs)), of_nat (largest_free bs l), m)"
  using assms(1,2,3,6,7,8)
proof (induction bs arbitrary: a it c l)
  case (Cons b bs)
  let ?c = "a + 12 + fst b"
  have u: "unat (of_nat x :: u32) = x" if "x \<le> e" for x
    using that assms(5) by (intro unat_of_nat_small) simp
  have bnd: "?c \<le> e" using Cons.prems(1) by simp
  have "of_nat hs + of_nat sz = (of_nat e :: u32)" using assms(4) by simp
  then have g: "of_nat a \<noteq> (0 :: u32)" "\<not> (of_nat a < (of_nat hs :: u32) \<or> of_nat hs + of_nat sz \<le> (of_nat a :: u32))"
    "\<not> (10000 :: u32) \<le> of_nat it"
    using u [of a] u [of e] u [of hs] bnd Cons.prems(2,3,5) assms(4) unat_of_nat_small [of it, where 'a = 32]
    by (auto simp: word_less_nat_alt word_le_nat_alt)
  have sz: "blk_size m (of_nat a) = of_nat (fst b)" "blk_size m (of_nat a) \<noteq> 0"
    using Cons.prems(1,4) u [of "fst b"] bnd by auto
  have lg: "(if blk_size m (of_nat a) > of_nat l then blk_size m (of_nat a) else of_nat l) =
      (of_nat (max l (fst b)) :: u32)"
    using u [of "fst b"] bnd unat_of_nat_small [of l, where 'a = 32] Cons.prems(6)
    unfolding sz(1) word_less_nat_alt by auto
  have rest: "frag_loop (of_nat hs) (of_nat sz) (blk_next m (of_nat a)) (of_nat it + 1) (of_nat c') (of_nat l') m =
      Some (of_nat (c' + length (filter (\<lambda>b. \<not> snd b) bs)), of_nat (largest_free bs l'), m)"
    if "l' < 2 ^ 32" for c' l'
    using Cons.IH [of ?c "Suc it" l' c'] Cons.prems that
    by (cases "bs = []") (auto simp: add.commute frag_loop.simps [of _ _ 0])
  have "max l (fst b) < 2 ^ 32" using Cons.prems(6) bnd assms(5) by simp
  then show ?case
    using g sz(2) lg rest [of "max l (fst b)" "Suc c"] rest [of l c] Cons.prems(1,6)
    by (subst frag_loop.simps) (auto simp: add.commute)
qed simp

lemma aligned_stores:
  assumes "heap_blocks s bs" and "(p, n) \<in> used_blocks (unat (heap_start s)) bs"
    and "p + 8 \<le> unat q" and "unat q \<le> p + n"
    and m_def: "m = store32 (q - 4) v (store32 (q - 4 - 4) w (kmem s))"
  shows "heap_blocks (s\<lparr>kmem := m\<rparr>) bs" and "load32 m (q - 4) = v" and "load32 m (q - 4 - 4) = w"
    and "agree (- {p..<p + n}) (kmem s) m"
proof -
  have eq: "q - 4 = of_nat (unat q - 4)" "q - 4 - 4 = of_nat (unat q - 8)"
    using assms(3) by (simp_all add: of_nat_diff)
  have u: "unat q < 2 ^ 32" using unsigned_less [of q, where 'a = nat] by simp
  have w: "agree (- {k..<k + 4}) M (store32 (of_nat k) x M)" if "k + 4 \<le> unat q" for k x M
    by (rule agree_store32) (use that u in simp)
  have a1: "agree (- {unat q - 8..<unat q - 8 + 4}) (kmem s) (store32 (q - 4 - 4) w (kmem s))"
    unfolding eq(2) by (rule w) (use assms(3) in simp)
  have a2: "agree (- {unat q - 4..<unat q - 4 + 4}) (store32 (q - 4 - 4) w (kmem s)) m"
    unfolding m_def using w [of "unat q - 4" "store32 (q - 4 - 4) w (kmem s)" v] assms(3)
    by (simp only: eq(1) [symmetric])
  show ag: "agree (- {p..<p + n}) (kmem s) m"
    by (rule agree_trans [OF agree_mono [OF a1] agree_mono [OF a2]]) (use assms(3,4) in auto)
  have "{p..<p + n} \<subseteq> used_bytes (unat (heap_start s)) bs"
    using assms(2) by (auto simp: used_bytes_blocks)
  then show "heap_blocks (s\<lparr>kmem := m\<rparr>) bs"
    using heap_blocks_payload [OF assms(1) agree_mono [OF ag]] by blast
  show "load32 m (q - 4) = v" by (simp add: m_def)
  have "load32 m (of_nat (unat q - 8)) = load32 (store32 (q - 4 - 4) w (kmem s)) (of_nat (unat q - 8))"
    by (rule agree_load32 [OF agree_mono [OF a2]]) (use assms(3) u in auto)
  then show "load32 m (q - 4 - 4) = w" unfolding eq(2) by simp
qed

text \<open>A loop that comes back to the same state never returns.\<close>

lemma frag_loop_stuck:
  assumes "merge_loop hs sz hs m = Some m" and "hs \<noteq> 0" and "it < 10000" and "hs < hs + sz"
    and "blk_size m hs = 0" and "blk_next m hs \<noteq> 0"
  shows "frag_loop hs sz hs it c l m = None"
proof (rule ccontr)
  assume "frag_loop hs sz hs it c l m \<noteq> None"
  then obtain r where "frag_loop hs sz hs it c l m = Some r" by blast
  then have "\<not> (hs = hs \<and> merge_loop hs sz hs m = Some m \<and> it < 10000 \<and> hs < hs + sz \<and> hs \<noteq> 0 \<and>
      blk_size m hs = 0 \<and> blk_next m hs \<noteq> 0)"
    by (rule frag_loop.raw_induct [where P = "\<lambda>hs sz b it c l m r. \<not> (b = hs \<and> merge_loop hs sz hs m = Some m \<and>
        it < 10000 \<and> hs < hs + sz \<and> hs \<noteq> 0 \<and> blk_size m hs = 0 \<and> blk_next m hs \<noteq> 0)", rotated])
      (auto split: if_splits option.splits, blast)
  then show False using assms by simp
qed

section \<open>Properties\<close>

text \<open>
  A concrete heap: 256 bytes at \<open>0x2000\<close>, initialised by \<open>heap_init\<close>.
\<close>

definition heap_demo :: heap_state where
  "heap_demo = snd (heap_init 0x2000 256 (vmm_state.extend
     (pmm_state.extend pmm_demo (vmm_state.fields 0 0 0 0 0 [])) (heap_state.fields 0 0 0)))"

lemma heap_demo_blocks: "heap_blocks heap_demo [(244, False)]"
  using heap_init_ok [of "0x2000" 256] unfolding heap_demo_def by simp

lemma heap_demo_alloc:
  obtains p s' where "kmalloc 5 heap_demo = Some (p, s')" "p \<noteq> 0" "heap_blocks s' [(8, True), (224, False)]"
    "unat p = 0x2000 + 12" "heap_start s' = 0x2000"
proof -
  have f: "unat (5 :: u32) \<le> 0xFFFFFFFC" "(5 :: u32) \<noteq> 0" by simp_all
  have st: "heap_start heap_demo = 0x2000" by (simp add: heap_demo_def heap_init_def)
  from heap_demo_blocks f(2,1) show thesis
  proof (cases rule: kmalloc_ok)
    case (fail s')
    then show ?thesis using round_up4(1) [OF f(1)] by simp
  next
    case (block p s' cs pre n suf)
    then have "pre @ (n, False) # suf = [(244, False)]" by auto
    then have "pre = []" "n = 244" "suf = []" by (auto simp: append_eq_Cons_conv)
    then show ?thesis using block that st round_up4(1) [OF f(1)] by (simp add: split_blk_def)
  qed
qed

text \<open>No free block of \<open>cs\<close> has \<open>sz\<close> bytes; a smallest free block that has.\<close>

definition no_fit :: "nat \<Rightarrow> blk list \<Rightarrow> bool" where
  "no_fit sz cs \<longleftrightarrow> (\<forall>(k, u)\<in>set cs. u \<or> k < sz)"

definition best_fit :: "nat \<Rightarrow> blk list \<Rightarrow> blk list \<Rightarrow> nat \<Rightarrow> blk list \<Rightarrow> bool" where
  "best_fit sz cs pre n suf \<longleftrightarrow> cs = pre @ (n, False) # suf \<and> sz \<le> n \<and>
     (\<forall>(k, u)\<in>set cs. \<not> u \<and> sz \<le> k \<longrightarrow> n \<le> k)"

text \<open>
  C14: \<open>kmalloc\<close> implements best fit on the list of blocks that the heap memory encodes. For a request of
  1 to \<open>0xFFFFFFFC\<close> bytes it returns. It fails only when no free block fits even after coalescing, and
  then only coalesces. Otherwise it takes a smallest free block that fits, of the list as it is or,
  when nothing fits there, of the coalesced list, and splits off the remainder when that leaves a
  block of at least 16 bytes.
\<close>

theorem kmalloc_best_fit:
  assumes "heap_blocks s bs" and "size0 \<noteq> 0" and "size0 \<le> 0xFFFFFFFC"
  shows "\<exists>p s'. kmalloc size0 s = Some (p, s') \<and>
    (let sz = unat (round_up4 size0) in
     if p = 0 then no_fit sz (merge_blocks bs) \<and> heap_blocks s' (merge_blocks bs)
     else \<exists>cs pre n suf. (cs = bs \<or> no_fit sz bs \<and> cs = merge_blocks bs) \<and> best_fit sz cs pre n suf \<and>
       unat p = unat (heap_start s) + extent pre + 12 \<and> heap_blocks s' (pre @ split_blk sz n @ suf))"
proof -
  have fits: "unat size0 \<le> 0xFFFFFFFC" using assms(3) by (simp add: word_le_nat_alt)
  from assms(1,2) fits show ?thesis
  proof (cases rule: kmalloc_ok)
    case (fail s')
    then show ?thesis by (simp add: no_fit_def)
  next
    case (block p s' cs pre n suf)
    then have "cs = bs \<or> no_fit (unat (round_up4 size0)) bs \<and> cs = merge_blocks bs"
      "best_fit (unat (round_up4 size0)) cs pre n suf" by (auto simp: no_fit_def best_fit_def)
    then show ?thesis using block(1,2,6,8) by (auto simp: Let_def)
  qed
qed

theorem kmalloc_best_fit_witness:
  "\<exists>p s'. kmalloc 5 heap_demo = Some (p, s') \<and> heap_blocks s' [(8, True), (224, False)]"
proof -
  have r: "unat (round_up4 5) = 8" using round_up4(1) [of 5] by simp
  obtain p s' where k: "kmalloc 5 heap_demo = Some (p, s')"
    and c: "if p = 0 then no_fit 8 (merge_blocks [(244, False)]) \<and> heap_blocks s' (merge_blocks [(244, False)])
     else \<exists>cs pre n suf. (cs = [(244, False)] \<or> no_fit 8 [(244, False)] \<and> cs = merge_blocks [(244, False)]) \<and>
       best_fit 8 cs pre n suf \<and> unat p = unat (heap_start heap_demo) + extent pre + 12 \<and>
       heap_blocks s' (pre @ split_blk 8 n @ suf)"
    using kmalloc_best_fit [OF heap_demo_blocks, of 5] r by (auto simp: Let_def)
  then have "heap_blocks s' [(8, True), (224, False)]"
    by (auto simp: no_fit_def best_fit_def split_blk_def Cons_eq_append_conv split: if_splits)
  then show ?thesis using k by blast
qed



text \<open>
  C16: \<open>kfree\<close> of the pointer of a block in use returns, frees that block and no other, leaves the heap
  well-formed with no two free neighbours, gives the block's bytes back to the counter, and changes no
  byte outside the heap or in another block in use.
\<close>

theorem kfree_correct:
  assumes "heap_blocks s bs" and "(unat p, n) \<in> used_blocks (unat (heap_start s)) bs"
  shows "\<exists>s' bs'. kfree p s = Some s' \<and> heap_blocks s' bs' \<and> coalesced bs' \<and>
    used_blocks (unat (heap_start s)) bs' = used_blocks (unat (heap_start s)) bs - {(unat p, n)} \<and>
    heap_used s' = heap_used s - (of_nat n + 12) \<and>
    agree (foreign s bs - {unat p..<unat p + n}) (kmem s) (kmem s')"
proof -
  from kfree_ok [OF assms] obtain s' pre suf where k: "bs = pre @ (n, True) # suf"
    "unat p = unat (heap_start s) + extent pre + 12" "kfree p s = Some s'"
    "heap_blocks s' (merge_blocks (pre @ (n, False) # suf))" "heap_used s' = heap_used s - (of_nat n + 12)"
    "agree (foreign s (pre @ (n, False) # suf)) (kmem s) (kmem s')" by metis
  let ?a = "unat (heap_start s)"
  have "used_blocks ?a bs = insert (unat p, n) (used_blocks ?a (pre @ (n, False) # suf))"
    using k(1,2) by (auto simp: used_blocks_append)
  moreover have "(unat p, n) \<notin> used_blocks ?a (pre @ (n, False) # suf)"
    using used_blocks_take(2) [OF order_refl k(2)] by simp
  ultimately have "used_blocks ?a (merge_blocks (pre @ (n, False) # suf)) = used_blocks ?a bs - {(unat p, n)}"
    by auto
  moreover have "foreign s bs - {unat p..<unat p + n} \<subseteq> foreign s (pre @ (n, False) # suf)"
    using k(1,2) by (auto simp: foreign_def used_bytes_append)
  ultimately show ?thesis using k coalesced_merge agree_mono by metis
qed

theorem kfree_correct_witness:
  "\<exists>p s' s'' bs'. kmalloc 5 heap_demo = Some (p, s') \<and> kfree p s' = Some s'' \<and> heap_blocks s'' bs' \<and>
     used_blocks 0x2000 bs' = {}"
proof -
  obtain p s' where k: "kmalloc 5 heap_demo = Some (p, s')" "heap_blocks s' [(8, True), (224, False)]"
    "unat p = 0x2000 + 12" "heap_start s' = 0x2000" using heap_demo_alloc by metis
  then show ?thesis using kfree_correct [OF k(2), of p 8] by auto
qed

text \<open>
  an allocation undone at once gives back the set of live pointers, on every well-formed heap; this
  is the contract the error paths of the task and port constructors rely on.
\<close>

theorem kmalloc_kfree_roundtrip:
  assumes "heap_inv s" and "heap_fits n" and "kmalloc n s = Some (p, s1)" and "p \<noteq> 0"
  shows "\<exists>s2. kfree p s1 = Some s2 \<and> heap_inv s2 \<and> heap_live s2 = heap_live s"
  using heap.alloc_free [OF assms] .

theorem kmalloc_kfree_roundtrip_witness:
  "\<exists>p s1 s2. kmalloc 5 heap_demo = Some (p, s1) \<and> p \<noteq> 0 \<and> kfree p s1 = Some s2 \<and> heap_live s2 = heap_live heap_demo"
proof -
  obtain p s1 where k: "kmalloc 5 heap_demo = Some (p, s1)" "p \<noteq> 0" using heap_demo_alloc by metis
  moreover have "heap_inv heap_demo" using heap_demo_blocks by (auto simp: heap_inv_def)
  ultimately show ?thesis using kmalloc_kfree_roundtrip [of heap_demo 5 p s1] by (auto simp: heap_fits_def)
qed

text \<open>
  \<open>kmalloc_aligned\<close> returns; a non-NULL result is a multiple of the alignment, the requested bytes lie
  inside a fresh block after room for the marker and the original pointer, no byte outside the heap or
  in a block in use changes, and \<open>kfree\<close> of the aligned pointer is \<open>kfree\<close> of the block's own pointer.
\<close>

theorem kmalloc_aligned_correct:
  assumes h: "heap_blocks s bs" and al: "al \<noteq> 0" "al AND (al - 1) = 0"
    and sz: "unat sz + unat al + 8 \<le> 0xFFFFFFFC"
  shows "\<exists>q s' bs'. kmalloc_aligned sz al s = Some (q, s') \<and> heap_blocks s' bs' \<and>
    (q \<noteq> 0 \<longrightarrow> unat al dvd unat q \<and> (\<exists>p n. unat p + 8 \<le> unat q \<and> unat q + unat sz \<le> unat p + n \<and>
       used_blocks (unat (heap_start s)) bs' = insert (unat p, n) (used_blocks (unat (heap_start s)) bs) \<and>
       {unat p..<unat p + n} \<inter> used_bytes (unat (heap_start s)) bs = {} \<and>
       agree (foreign s bs) (kmem s) (kmem s') \<and> kfree q s' = kfree p s'))"
proof -
  have t: "unat (sz + al + 4 + 4) = unat sz + unat al + 8"
    using sz unat_add_no_overflow [of sz al] unat_add_no_overflow [of "sz + al" 8] by (simp add: add.assoc)
  have tn: "sz + al + 4 + 4 \<noteq> 0" "unat (sz + al + 4 + 4) \<le> 0xFFFFFFFC" using t sz by auto
  from h tn show ?thesis
  proof (cases rule: kmalloc_block)
    case (fail s')
    then show ?thesis using al by (auto simp: kmalloc_aligned_def)
  next
    case (block p s1 bs' n)
    define q where "q = (p + 4 + 4 + al - 1) AND NOT (al - 1)"
    let ?a = "unat (heap_start s)"
    have pn: "(unat p, n) \<in> used_blocks (unat (heap_start s1)) bs'" using block(5,7) by simp
    have e: "unat p + n \<le> ?a + unat (heap_size s)" "?a + 12 \<le> unat p" "?a + unat (heap_size s) + 16 \<le> 2 ^ 32"
      using used_blocks_bounds [OF pn] heap_extent [OF block(3)] block(3,5,6) by (auto simp: heap_blocks_def)
    have "unat p + unat al + 8 < 2 ^ 32" using e block(4) t by linarith
    note q = align_bounds [OF al this, folded q_def]
    have qn: "unat q + unat sz \<le> unat p + n" using q(3) block(4) t by linarith
    let ?m = "store32 (q - 4) p (store32 (q - 4 - 4) align_magic (kmem s1))"
    have "unat q \<le> unat p + n" using qn by linarith
    note st = aligned_stores [OF block(3) pn q(2) this refl, of p align_magic]
    have r: "kmalloc_aligned sz al s = Some (q, s1\<lparr>kmem := ?m\<rparr>)"
      using al block(1,2) by (simp add: kmalloc_aligned_def q_def Let_def)
    have qe: "unat q < ?a + unat (heap_size s)" using q(3) block(4) t e(1) by linarith
    have "unat (heap_start s1 + heap_size s1) = ?a + unat (heap_size s)"
      using e(3) block(5,6) by (simp add: unat_add_no_overflow)
    then have "kfree q (s1\<lparr>kmem := ?m\<rparr>) = kfree p (s1\<lparr>kmem := ?m\<rparr>)"
      using st(1,2,3) pn q(2) e(2) qe block(5)
      by (intro kfree_aligned) (auto simp: word_le_nat_alt word_less_nat_alt)
    moreover have "agree (foreign s bs) (kmem s) ?m"
    proof (rule agree_trans [OF block(10)], rule agree_mono [OF st(4)])
      show "foreign s bs \<subseteq> - {unat p..<unat p + n}" using e block(9) by (auto simp: foreign_def)
    qed
    moreover have "q \<noteq> 0" using q(2) by auto
    ultimately show ?thesis using r st(1) q qn block(7,9) by auto
  qed
qed

theorem kmalloc_aligned_correct_witness:
  "\<exists>q s'. kmalloc_aligned 16 32 heap_demo = Some (q, s') \<and> (q \<noteq> 0 \<longrightarrow> 32 dvd unat q)"
  using kmalloc_aligned_correct [OF heap_demo_blocks, of 32 16] by auto

text \<open>
  on a well-formed heap whose blocks are not empty, \<open>heap_get_fragmentation\<close> returns the number of free
  blocks and the size of the largest one and changes nothing, as long as the walk stays within its
  10000 iterations.
\<close>

theorem heap_get_fragmentation_correct:
  assumes "heap_blocks s bs" and "\<forall>(k, u)\<in>set bs. 0 < k" and "length bs \<le> 10000"
  shows "heap_get_fragmentation s =
    Some (of_nat (length (filter (\<lambda>b. \<not> snd b) bs)), of_nat (largest_free bs 0), s)"
proof -
  have "frag_loop (heap_start s) (heap_size s) (heap_start s) 0 0 0 (kmem s) =
      Some (of_nat (length (filter (\<lambda>b. \<not> snd b) bs)), of_nat (largest_free bs 0), kmem s)"
    using frag_loop_layout [of "kmem s" "unat (heap_start s)" bs _ "unat (heap_start s)" "unat (heap_size s)" 0 0 0] assms
    by (simp add: heap_blocks_def word_less_nat_alt)
  then show ?thesis by (simp add: heap_get_fragmentation_def)
qed

theorem heap_get_fragmentation_correct_witness:
  "heap_get_fragmentation heap_demo = Some (1, 244, heap_demo)"
  using heap_get_fragmentation_correct [OF heap_demo_blocks] by simp

text \<open>
  a request that rounds up past \<open>2\<^sup>3\<^sup>2\<close> becomes a request for 0 bytes: on a fresh heap
  \<open>kmalloc(0xFFFFFFFD)\<close> succeeds and returns a pointer to a block of size 0, and after it
  \<open>heap_get_fragmentation\<close> never returns, because the empty block makes it start over for ever.
\<close>

theorem kmalloc_wraps_and_hangs:
  "\<exists>p s'. kmalloc 0xFFFFFFFD heap_demo = Some (p, s') \<and> p \<noteq> 0 \<and> blk_size (kmem s') (p - 12) = 0 \<and>
     heap_get_fragmentation s' = None"
proof -
  have l: "layout (kmem heap_demo) 0x2000 [(244, False)] 0x2100" and hd: "heap_start heap_demo = 0x2000" "heap_size heap_demo = 0x100"
    using heap_demo_blocks by (simp_all add: heap_blocks_def heap_demo_def heap_init_def)
  have f: "find_best_fit 0 heap_demo = Some 0x2000"
    using best_fit_loop_layout [OF l, of 0 "0xFFFFFFFF" 0] by (simp add: find_best_fit_def hd)
  define m where "m = set_blk_used 0x2000 1 (split_block 0x2000 0 (kmem heap_demo))"
  define s' where "s' = heap_demo\<lparr>kmem := m, heap_used := heap_used heap_demo + 12\<rparr>"
  have "(0xFFFFFFFD + 3 :: u32) = 0" by (simp only: word_uint_eq_iff) simp
  then have "round_up4 0xFFFFFFFD = 0" by (simp only: round_up4_def) simp
  then have k: "kmalloc 0xFFFFFFFD heap_demo = Some (0x200C, s')"
    using f by (simp add: kmalloc_def Let_def take_block_def s'_def m_def)
  have "layout m 0x2000 (split_blk 0 244 @ []) 0x2100"
    using take_block_layout(1) [OF l, of 0] by (simp add: m_def)
  then have h: "blk_size m 0x2000 = 0" "blk_used m 0x2000 = 1" "blk_next m 0x2000 = 0x200C" "blk_next m 0x200C = 0"
    by (simp_all add: split_blk_def)
  have "merge_loop 0x2000 0x100 0x200C m = Some m" using h by (subst merge_loop.simps) simp
  then have "merge_loop 0x2000 0x100 0x2000 m = Some m" using h by (subst merge_loop.simps) simp
  from frag_loop_stuck [OF this, of 0] have "frag_loop 0x2000 0x100 0x2000 0 0 0 m = None" using h by simp
  then have "heap_get_fragmentation s' = None" by (simp add: heap_get_fragmentation_def s'_def hd)
  then show ?thesis using k h by (auto simp: s'_def)
qed

end
