(* ===== verification/Sched.thy ===== *)
theory Sched
  imports Heap
begin

text \<open>
  \<^verbatim>\<open>kernel/sched/sched.c\<close>: tasks and the scheduler. A \<^verbatim>\<open>struct task\<close> is a record in the typed store
  \<open>tasks\<close>, at the address \<open>kmalloc\<close> gave for its 100 bytes; reading a task through a pointer that is not
  in the store (never allocated, or freed) gives \<^term>\<open>None\<close>. The stacks live in the byte memory. A
  \<^verbatim>\<open>pid_t\<close>, \<^verbatim>\<open>tid_t\<close> or \<^verbatim>\<open>int32_t\<close> is a 32-bit word. The assembly routine \<^verbatim>\<open>switch_context\<close> and
  \<^verbatim>\<open>tss_set_kernel_stack\<close> are recorded as effects: the pairs of tasks switched between, and the
  kernel stack pointer given to the TSS.
\<close>

datatype task_status = TASK_RUNNING | TASK_READY | TASK_BLOCKED | TASK_ZOMBIE

record task_context =
  ctx_edi :: u32
  ctx_esi :: u32
  ctx_ebp :: u32
  ctx_esp :: u32
  ctx_ebx :: u32
  ctx_edx :: u32
  ctx_ecx :: u32
  ctx_eax :: u32
  ctx_eip :: u32
  ctx_eflags :: u32
  ctx_cr3 :: u32

record task =
  t_id :: u32
  t_pid :: u32
  t_parent_pid :: u32
  t_state :: task_status
  t_priority :: u8
  t_time_slice :: u32
  t_kernel_mode :: bool
  t_kernel_stack :: u32
  t_kernel_stack_top :: u32
  t_user_stack :: u32
  t_user_stack_top :: u32
  t_cpu_ticks :: u32
  t_exit_code :: u32
  t_waiting_for :: u32
  t_context :: task_context
  t_next :: u32

record sched_state = heap_state +
  tasks :: "u32 \<rightharpoonup> task"
  task_queue :: u32
  current_task :: u32
  next_tid :: u32
  tick_count :: u32
  tss_esp0 :: u32
  switches :: "(u32 \<times> u32) list"

definition zero_context :: task_context where
  "zero_context = \<lparr>ctx_edi = 0, ctx_esi = 0, ctx_ebp = 0, ctx_esp = 0, ctx_ebx = 0, ctx_edx = 0, ctx_ecx = 0,
     ctx_eax = 0, ctx_eip = 0, ctx_eflags = 0, ctx_cr3 = 0\<rparr>"

text \<open>\<^verbatim>\<open>memset(t, 0, sizeof(struct task))\<close>\<close>

definition zero_task :: task where
  "zero_task = \<lparr>t_id = 0, t_pid = 0, t_parent_pid = 0, t_state = TASK_RUNNING, t_priority = 0, t_time_slice = 0,
     t_kernel_mode = False, t_kernel_stack = 0, t_kernel_stack_top = 0, t_user_stack = 0,
     t_user_stack_top = 0, t_cpu_ticks = 0, t_exit_code = 0, t_waiting_for = 0,
     t_context = zero_context, t_next = 0\<rparr>"

definition sizeof_task :: u32 where "sizeof_task = 100"
definition KERNEL_STACK_SIZE :: u32 where "KERNEL_STACK_SIZE = 0x4000"
definition USER_STACK_SIZE :: u32 where "USER_STACK_SIZE = 0x4000"

definition task_next :: "'a sched_state_scheme \<Rightarrow> u32 \<Rightarrow> u32 option" where
  "task_next s p = map_option t_next (tasks s p)"

text \<open>A field test of the task at \<open>p\<close>, as the walks over the queue use it.\<close>

definition task_test :: "'a sched_state_scheme \<Rightarrow> (task \<Rightarrow> bool) \<Rightarrow> u32 \<Rightarrow> bool" where
  "task_test s P p \<longleftrightarrow> (case tasks s p of None \<Rightarrow> False | Some t \<Rightarrow> P t)"

definition upd_task :: "u32 \<Rightarrow> (task \<Rightarrow> task) \<Rightarrow> 'a sched_state_scheme \<Rightarrow> 'a sched_state_scheme option" where
  "upd_task p f s = (case tasks s p of None \<Rightarrow> None | Some t \<Rightarrow> Some (s\<lparr>tasks := (tasks s)(p \<mapsto> f t)\<rparr>))"

text \<open>\<^verbatim>\<open>kfree(t)\<close> for a task: the object is gone.\<close>

definition free_task :: "u32 \<Rightarrow> 'a sched_state_scheme \<Rightarrow> 'a sched_state_scheme option" where
  "free_task p s = kfree p (s\<lparr>tasks := (tasks s)(p := None)\<rparr>)"

section \<open>Task creation\<close>

definition sched_init :: "'a sched_state_scheme \<Rightarrow> 'a sched_state_scheme" where
  "sched_init s = s\<lparr>task_queue := 0, current_task := 0, next_tid := 1, tick_count := 0\<rparr>"

definition sched_get_task_list :: "'a sched_state_scheme \<Rightarrow> u32" where
  "sched_get_task_list s = task_queue s"

definition sched_get_current :: "'a sched_state_scheme \<Rightarrow> u32" where
  "sched_get_current s = current_task s"

definition sched_get_total_ticks :: "'a sched_state_scheme \<Rightarrow> u32" where
  "sched_get_total_ticks s = tick_count s"

text \<open>\<^verbatim>\<open>current_task ? current_task->pid : 0\<close>\<close>

definition current_pid :: "'a sched_state_scheme \<Rightarrow> u32 option" where
  "current_pid s = (if current_task s = 0 then Some 0 else map_option t_pid (tasks s (current_task s)))"

text \<open>\<^verbatim>\<open>kstack[-1] = ret; kstack[-2..-5] = 0\<close>, with \<open>tos\<close> the end of the kernel stack.\<close>

definition init_kstack :: "u32 \<Rightarrow> u32 \<Rightarrow> mem \<Rightarrow> mem" where
  "init_kstack tos ret m =
     store32 (tos - 20) 0 (store32 (tos - 16) 0 (store32 (tos - 12) 0 (store32 (tos - 8) 0 (store32 (tos - 4) ret m))))"

text \<open>\<open>user_entry\<close> is the address of \<^verbatim>\<open>user_task_entry\<close>.\<close>

definition task_create ::
    "u32 \<Rightarrow> u32 \<Rightarrow> u8 \<Rightarrow> bool \<Rightarrow> 'a sched_state_scheme \<Rightarrow> (u32 \<times> 'a sched_state_scheme) option" where
  "task_create user_entry entry_addr prio kmode s =
     do {
       (t, s) \<leftarrow> kmalloc sizeof_task s;
       if t = 0 then Some (0, s)
       else do {
         ppid \<leftarrow> current_pid s;
         let tk = zero_task\<lparr>t_id := next_tid s, t_pid := next_tid s, t_parent_pid := ppid, t_state := TASK_READY,
                   t_priority := prio, t_time_slice := 10, t_kernel_mode := kmode, t_exit_code := 0, t_waiting_for := 0\<rparr>;
         let s = s\<lparr>next_tid := next_tid s + 1, tasks := (tasks s)(t \<mapsto> tk)\<rparr>;
         (ks, s) \<leftarrow> kmalloc KERNEL_STACK_SIZE s;
         if ks = 0 then do { s \<leftarrow> free_task t s; Some (0, s) }
         else do {
           let tos = ks + KERNEL_STACK_SIZE;
           let tk = tk\<lparr>t_kernel_stack := ks, t_kernel_stack_top := tos\<rparr>;
           if kmode
           then let tk = tk\<lparr>t_context := (t_context tk)\<lparr>ctx_esp := tos - 20, ctx_eip := entry_addr, ctx_eflags := 0x202\<rparr>,
                           t_next := task_queue s\<rparr>
                in Some (t, s\<lparr>kmem := init_kstack tos entry_addr (kmem s), tasks := (tasks s)(t \<mapsto> tk), task_queue := t\<rparr>)
           else do {
             (us, s) \<leftarrow> kmalloc USER_STACK_SIZE s;
             if us = 0 then do { s \<leftarrow> kfree ks s; s \<leftarrow> free_task t s; Some (0, s) }
             else let tk = tk\<lparr>t_user_stack := us, t_user_stack_top := us + USER_STACK_SIZE,
                            t_context := (t_context tk)\<lparr>ctx_esp := tos - 20, ctx_eip := entry_addr, ctx_eflags := 0x202\<rparr>,
                            t_next := task_queue s\<rparr>
                  in Some (t, s\<lparr>kmem := init_kstack tos user_entry (kmem s), tasks := (tasks s)(t \<mapsto> tk), task_queue := t\<rparr>)
           }
         }
       }
     }"

definition task_create_user ::
    "u32 \<Rightarrow> u32 \<Rightarrow> u8 \<Rightarrow> 'a sched_state_scheme \<Rightarrow> (u32 \<times> 'a sched_state_scheme) option" where
  "task_create_user user_entry entry_point prio s =
     do {
       (t, s) \<leftarrow> kmalloc sizeof_task s;
       if t = 0 then Some (0, s)
       else do {
         ppid \<leftarrow> current_pid s;
         let tk = zero_task\<lparr>t_id := next_tid s, t_pid := next_tid s, t_parent_pid := ppid, t_state := TASK_READY,
                   t_priority := prio, t_time_slice := 10, t_kernel_mode := False, t_exit_code := 0, t_waiting_for := 0\<rparr>;
         let s = s\<lparr>next_tid := next_tid s + 1, tasks := (tasks s)(t \<mapsto> tk)\<rparr>;
         (ks, s) \<leftarrow> kmalloc KERNEL_STACK_SIZE s;
         if ks = 0 then do { s \<leftarrow> free_task t s; Some (0, s) }
         else do {
           let tos = ks + KERNEL_STACK_SIZE;
           let tk = tk\<lparr>t_kernel_stack := ks, t_kernel_stack_top := tos\<rparr>;
           (us, s) \<leftarrow> kmalloc USER_STACK_SIZE s;
           if us = 0 then do { s \<leftarrow> kfree ks s; s \<leftarrow> free_task t s; Some (0, s) }
           else let tk = tk\<lparr>t_user_stack := us, t_user_stack_top := us + USER_STACK_SIZE,
                          t_context := (t_context tk)\<lparr>ctx_eip := entry_point, ctx_eflags := 0x202, ctx_esp := tos - 20\<rparr>,
                          t_next := task_queue s\<rparr>
                in Some (t, s\<lparr>kmem := init_kstack tos user_entry (kmem s), tasks := (tasks s)(t \<mapsto> tk), task_queue := t\<rparr>)
         }
       }
     }"

section \<open>Walks over the task queue\<close>

definition task_find :: "u32 \<Rightarrow> 'a sched_state_scheme \<Rightarrow> u32 option" where
  "task_find pid s = chain_find (task_next s) (task_test s (\<lambda>t. t_pid t = pid)) (task_queue s)"

definition task_destroy :: "u32 \<Rightarrow> 'a sched_state_scheme \<Rightarrow> 'a sched_state_scheme option" where
  "task_destroy tid s =
     do {
       (prev, p) \<leftarrow> chain_find_prev (task_next s) (task_test s (\<lambda>t. t_id t = tid)) 0 (task_queue s);
       if p = 0 then Some s
       else do {
         t \<leftarrow> tasks s p;
         s \<leftarrow> (if prev \<noteq> 0 then upd_task prev (\<lambda>q. q\<lparr>t_next := t_next t\<rparr>) s
              else Some (s\<lparr>task_queue := t_next t\<rparr>));
         s \<leftarrow> (if t_kernel_stack t \<noteq> 0 then kfree (t_kernel_stack t) s else Some s);
         s \<leftarrow> (if t_user_stack t \<noteq> 0 then kfree (t_user_stack t) s else Some s);
         free_task p s
       }
     }"

definition task_exit :: "u32 \<Rightarrow> u32 \<Rightarrow> 'a sched_state_scheme \<Rightarrow> 'a sched_state_scheme option" where
  "task_exit tid exit_code s =
     do {
       p \<leftarrow> chain_find (task_next s) (task_test s (\<lambda>t. t_id t = tid)) (task_queue s);
       if p = 0 then Some s
       else do {
         s \<leftarrow> upd_task p (\<lambda>t. t\<lparr>t_state := TASK_ZOMBIE, t_exit_code := exit_code\<rparr>) s;
         t \<leftarrow> tasks s p;
         par \<leftarrow> task_find (t_parent_pid t) s;
         if par \<noteq> 0 \<and> task_test s (\<lambda>q. t_state q = TASK_BLOCKED \<and> (t_waiting_for q = t_pid t \<or> t_waiting_for q = -1)) par
         then upd_task par (\<lambda>q. q\<lparr>t_state := TASK_READY\<rparr>) s
         else Some s
       }
     }"

definition task_fork :: "'a sched_state_scheme \<Rightarrow> (u32 \<times> 'a sched_state_scheme) option" where
  "task_fork s =
     (if current_task s = 0 then Some (-1, s)
      else do {
        (c, s) \<leftarrow> kmalloc sizeof_task s;
        if c = 0 then Some (-1, s)
        else do {
          cur \<leftarrow> tasks s (current_task s);
          let ch = cur\<lparr>t_id := next_tid s, t_pid := next_tid s, t_parent_pid := t_pid cur, t_state := TASK_READY,
                    t_time_slice := 10, t_cpu_ticks := 0, t_exit_code := 0, t_waiting_for := 0\<rparr>;
          let s = s\<lparr>next_tid := next_tid s + 1, tasks := (tasks s)(c \<mapsto> ch)\<rparr>;
          (ks, s) \<leftarrow> kmalloc KERNEL_STACK_SIZE s;
          if ks = 0 then do { s \<leftarrow> free_task c s; Some (-1, s) }
          else do {
            let s = s\<lparr>kmem := memcpy ks (t_kernel_stack cur) KERNEL_STACK_SIZE (kmem s)\<rparr>;
            let offset = ctx_esp (t_context cur) - t_kernel_stack cur;
            let ch = ch\<lparr>t_kernel_stack := ks, t_kernel_stack_top := ks + KERNEL_STACK_SIZE,
                      t_context := (t_context ch)\<lparr>ctx_esp := ks + offset\<rparr>\<rparr>;
            if \<not> t_kernel_mode cur \<and> t_user_stack cur \<noteq> 0
            then do {
              (us, s) \<leftarrow> kmalloc USER_STACK_SIZE s;
              if us = 0 then do { s \<leftarrow> kfree ks s; s \<leftarrow> free_task c s; Some (-1, s) }
              else let ch = ch\<lparr>t_user_stack := us, t_user_stack_top := us + USER_STACK_SIZE,
                             t_context := (t_context ch)\<lparr>ctx_eax := 0\<rparr>, t_next := task_queue s\<rparr>
                   in Some (t_pid ch, s\<lparr>kmem := memcpy us (t_user_stack cur) USER_STACK_SIZE (kmem s),
                        tasks := (tasks s)(c \<mapsto> ch), task_queue := c\<rparr>)
            }
            else let ch = ch\<lparr>t_context := (t_context ch)\<lparr>ctx_eax := 0\<rparr>, t_next := task_queue s\<rparr>
                 in Some (t_pid ch, s\<lparr>tasks := (tasks s)(c \<mapsto> ch), task_queue := c\<rparr>)
          }
        }
      })"

section \<open>Scheduling\<close>

text \<open>The loop body of \<^verbatim>\<open>pick_next_task\<close>: \<open>best\<close> is replaced by a ready task of strictly higher priority.\<close>

definition pick_step :: "'a sched_state_scheme \<Rightarrow> u32 \<Rightarrow> u32 \<Rightarrow> u32" where
  "pick_step s p best =
     (case tasks s p of
        None \<Rightarrow> best
      | Some t \<Rightarrow>
          if t_state t = TASK_READY
          then if best = 0 \<or> (case tasks s best of None \<Rightarrow> False | Some b \<Rightarrow> t_priority t > t_priority b) then p else best
          else best)"

definition pick_next_task :: "'a sched_state_scheme \<Rightarrow> u32 option" where
  "pick_next_task s = chain_fold (task_next s) (pick_step s) (task_queue s) 0"

definition schedule :: "'a sched_state_scheme \<Rightarrow> 'a sched_state_scheme option" where
  "schedule s =
     (if task_queue s = 0 then Some s
      else do {
        nx \<leftarrow> pick_next_task s;
        if nx = 0 then Some s
        else do {
          s \<leftarrow> (if current_task s = 0 then Some s
               else do {
                 cur \<leftarrow> tasks s (current_task s);
                 if t_state cur = TASK_RUNNING then upd_task (current_task s) (\<lambda>t. t\<lparr>t_state := TASK_READY\<rparr>) s else Some s
               });
          let old = current_task s;
          s \<leftarrow> upd_task nx (\<lambda>t. t\<lparr>t_state := TASK_RUNNING, t_time_slice := 10\<rparr>) (s\<lparr>current_task := nx\<rparr>);
          cur \<leftarrow> tasks s nx;
          let s = (if t_kernel_stack cur \<noteq> 0 then s\<lparr>tss_esp0 := t_kernel_stack cur + KERNEL_STACK_SIZE\<rparr> else s);
          if old \<noteq> nx then Some (s\<lparr>switches := switches s @ [(old, nx)]\<rparr>) else Some s
        }
      })"

definition sched_yield :: "'a sched_state_scheme \<Rightarrow> 'a sched_state_scheme option" where
  "sched_yield s = schedule s"

definition sched_tick :: "'a sched_state_scheme \<Rightarrow> 'a sched_state_scheme option" where
  "sched_tick s =
     (let s = s\<lparr>tick_count := tick_count s + 1\<rparr> in
      if current_task s = 0 then Some s
      else do {
        s \<leftarrow> upd_task (current_task s)
               (\<lambda>t. t\<lparr>t_cpu_ticks := t_cpu_ticks t + 1,
                      t_time_slice := (if t_time_slice t > 0 then t_time_slice t - 1 else t_time_slice t)\<rparr>) s;
        t \<leftarrow> tasks s (current_task s);
        if t_time_slice t = 0 then schedule s else Some s
      })"

definition sched_block :: "'a sched_state_scheme \<Rightarrow> 'a sched_state_scheme option" where
  "sched_block s =
     (if current_task s = 0 then Some s
      else do {
        s \<leftarrow> upd_task (current_task s) (\<lambda>t. t\<lparr>t_state := TASK_BLOCKED\<rparr>) s;
        schedule s
      })"

definition sched_unblock :: "u32 \<Rightarrow> 'a sched_state_scheme \<Rightarrow> 'a sched_state_scheme option" where
  "sched_unblock tid s =
     do {
       p \<leftarrow> chain_find (task_next s) (task_test s (\<lambda>t. t_id t = tid)) (task_queue s);
       if p = 0 then Some s else upd_task p (\<lambda>t. t\<lparr>t_state := TASK_READY\<rparr>) s
     }"

definition sched_get_idle_task :: "'a sched_state_scheme \<Rightarrow> u32 option" where
  "sched_get_idle_task s = chain_find (task_next s) (task_test s (\<lambda>t. t_priority t = 0)) (task_queue s)"

text \<open>
  One pass of the endless loop of \<^verbatim>\<open>task_wait\<close>: either it returns a pid (with the exit status), or the
  caller is blocked inside \<open>schedule\<close> and runs the next pass when it is scheduled again.
\<close>

datatype wait_result = WaitReturn u32 "u32 option" | WaitBlocked

definition task_wait_pass :: "u32 \<Rightarrow> 'a sched_state_scheme \<Rightarrow> (wait_result \<times> 'a sched_state_scheme) option" where
  "task_wait_pass pid s =
     (if current_task s = 0 then Some (WaitReturn (-1) None, s)
      else do {
        cur \<leftarrow> tasks s (current_task s);
        let mine = (\<lambda>t. t_parent_pid t = t_pid cur \<and> (pid = -1 \<or> t_pid t = pid));
        z \<leftarrow> chain_find (task_next s) (task_test s (\<lambda>t. mine t \<and> t_state t = TASK_ZOMBIE)) (task_queue s);
        if z \<noteq> 0
        then do {
          t \<leftarrow> tasks s z;
          s \<leftarrow> task_destroy (t_id t) s;
          Some (WaitReturn (t_pid t) (Some (t_exit_code t)), s)
        }
        else do {
          c \<leftarrow> chain_find (task_next s) (task_test s mine) (task_queue s);
          if c = 0 then Some (WaitReturn (-1) None, s)
          else do {
            s \<leftarrow> upd_task (current_task s) (\<lambda>t. t\<lparr>t_waiting_for := pid, t_state := TASK_BLOCKED\<rparr>) s;
            s \<leftarrow> schedule s;
            Some (WaitBlocked, s)
          }
        }
      })"

text \<open>\<^verbatim>\<open>user_task_entry\<close>: the arguments of \<^verbatim>\<open>enter_usermode\<close>, when it is called.\<close>

definition user_task_entry :: "'a sched_state_scheme \<Rightarrow> (u32 \<times> u32 \<times> u32 \<times> u32) option option" where
  "user_task_entry s =
     (if current_task s = 0 then Some None
      else do {
        t \<leftarrow> tasks s (current_task s);
        Some (if t_kernel_mode t then None
              else Some (ctx_eip (t_context t), t_user_stack_top t, 0x1B, 0x23))
      })"

section \<open>The invariant of the task table\<close>

text \<open>
  \<open>sched_wf s ts\<close>: the queue is the finite list \<open>ts\<close> of exactly the allocated tasks, ids are distinct, equal
  to the pid and below \<^verbatim>\<open>next_tid\<close>, the current task is in the queue, and no other task is running.
\<close>

definition sched_wf :: "'a sched_state_scheme \<Rightarrow> u32 list \<Rightarrow> bool" where
  "sched_wf s ts \<longleftrightarrow>
     chain (task_next s) (task_queue s) ts \<and> dom (tasks s) = set ts \<and>
     (\<forall>p q t u. tasks s p = Some t \<and> tasks s q = Some u \<and> t_id t = t_id u \<longrightarrow> p = q) \<and>
     (\<forall>p t. tasks s p = Some t \<longrightarrow> t_pid t = t_id t \<and> 0 < t_id t \<and> t_id t < next_tid s) \<and>
     current_task s \<in> insert 0 (set ts) \<and>
     (\<forall>p t. tasks s p = Some t \<and> t_state t = TASK_RUNNING \<longrightarrow> p = current_task s) \<and> 0 < next_tid s"

named_theorems sched_simps \<open>definitions unfolded in the step-by-step proofs of the scheduler\<close>

lemmas [sched_simps] = task_test_def upd_task_def task_next_def

lemma sched_wf_chain: "sched_wf s ts \<Longrightarrow> chain (task_next s) (task_queue s) ts"
  by (simp add: sched_wf_def)

lemma sched_wf_task: "sched_wf s ts \<Longrightarrow> p \<in> set ts \<Longrightarrow> \<exists>t. tasks s p = Some t"
  by (auto simp: sched_wf_def)

lemma sched_wf_not_null: "sched_wf s ts \<Longrightarrow> tasks s 0 = None"
  using chain_nonzero by (fastforce simp: sched_wf_def)

lemma sched_wf_current: "sched_wf s ts \<Longrightarrow> current_task s \<noteq> 0 \<Longrightarrow> \<exists>t. tasks s (current_task s) = Some t"
  by (auto simp: sched_wf_def)

lemma sched_wf_frame:
  assumes "tasks s' = tasks s" "task_queue s' = task_queue s" "current_task s' = current_task s" "next_tid s' = next_tid s"
  shows "sched_wf s' ts = sched_wf s ts"
proof -
  have "task_next s' = task_next s" using assms(1) by (simp add: task_next_def fun_eq_iff)
  then show ?thesis using assms by (simp add: sched_wf_def)
qed

text \<open>Changing a task without touching its identity or its link.\<close>

lemma sched_wf_upd:
  assumes "sched_wf s ts" and "tasks s p = Some t"
    and "t_id u = t_id t" "t_pid u = t_pid t" "t_next u = t_next t"
    and "t_state u = TASK_RUNNING \<longrightarrow> p = current_task s"
  shows "sched_wf (s\<lparr>tasks := (tasks s)(p \<mapsto> u)\<rparr>) ts"
proof -
  have "chain (task_next (s\<lparr>tasks := (tasks s)(p \<mapsto> u)\<rparr>)) (task_queue s) ts"
    by (rule chain_cong [OF sched_wf_chain [OF assms(1)]]) (use assms in \<open>auto simp: task_next_def\<close>)
  then show ?thesis
    using assms unfolding sched_wf_def by (auto simp: dom_fun_upd insert_absorb split: if_splits)
qed

lemma sched_wf_upd_task:
  assumes "sched_wf s ts" and "upd_task p f s = Some s'"
    and "\<And>t. t_id (f t) = t_id t" "\<And>t. t_pid (f t) = t_pid t" "\<And>t. t_next (f t) = t_next t"
    and "\<And>t. tasks s p = Some t \<Longrightarrow> t_state (f t) = TASK_RUNNING \<Longrightarrow> p = current_task s"
  shows "sched_wf s' ts"
  using assms(2) sched_wf_upd [OF assms(1), of p] assms(3-6) by (auto simp: upd_task_def split: option.splits)

lemma find_task:
  assumes "sched_wf s ts"
  shows "chain_find (task_next s) (task_test s P) (task_queue s) =
    Some (case List.find (task_test s P) ts of None \<Rightarrow> 0 | Some p \<Rightarrow> p)"
  by (rule chain_find_chain [OF sched_wf_chain [OF assms]])

lemma find_task_cases:
  assumes "sched_wf s ts"
  obtains (none) "chain_find (task_next s) (task_test s P) (task_queue s) = Some 0"
      and "\<forall>p\<in>set ts. \<not> task_test s P p"
  | (task) p t where "chain_find (task_next s) (task_test s P) (task_queue s) = Some p"
      and "p \<in> set ts" and "p \<noteq> 0" and "tasks s p = Some t" and "P t"
proof (cases "List.find (task_test s P) ts")
  case None
  then have "\<forall>p\<in>set ts. \<not> task_test s P p" by (simp add: find_None_iff)
  then show thesis using find_task [OF assms, of P] None by (intro none) simp_all
next
  case (Some p)
  then have p: "p \<in> set ts" "task_test s P p" by (auto simp: find_Some_iff)
  then obtain t where "tasks s p = Some t" "P t" by (auto simp: task_test_def split: option.splits)
  moreover have "p \<noteq> 0" using p(1) chain_nonzero [OF sched_wf_chain [OF assms]] by metis
  ultimately show thesis using find_task [OF assms, of P] Some p by (intro task) auto
qed

section \<open>The choice of the next task\<close>

definition ready :: "'a sched_state_scheme \<Rightarrow> u32 \<Rightarrow> bool" where
  "ready s p \<longleftrightarrow> task_test s (\<lambda>t. t_state t = TASK_READY) p"

definition prio :: "'a sched_state_scheme \<Rightarrow> u32 \<Rightarrow> nat" where
  "prio s p = (case tasks s p of None \<Rightarrow> 0 | Some t \<Rightarrow> unat (t_priority t))"

text \<open>\<open>p\<close> is the first ready task of highest priority in the queue \<open>ts\<close>.\<close>

definition choice :: "'a sched_state_scheme \<Rightarrow> u32 list \<Rightarrow> u32 \<Rightarrow> bool" where
  "choice s ts p \<longleftrightarrow> (\<exists>pre suf. ts = pre @ p # suf \<and> ready s p \<and>
     (\<forall>q\<in>set pre. ready s q \<longrightarrow> prio s q < prio s p) \<and> (\<forall>q\<in>set suf. ready s q \<longrightarrow> prio s q \<le> prio s p))"

lemma pick_step_cases:
  "pick_step s p best = (if ready s p \<and> (best = 0 \<or> tasks s best \<noteq> None \<and> prio s best < prio s p) then p else best)"
  by (auto simp: pick_step_def ready_def task_test_def prio_def word_less_nat_alt split: option.splits)

lemma fold_pick:
  assumes "\<forall>p\<in>set ts. p \<noteq> 0 \<and> tasks s p \<noteq> None"
  shows "if \<exists>p\<in>set ts. ready s p then choice s ts (fold (pick_step s) ts 0) else fold (pick_step s) ts 0 = 0"
  using assms
proof (induction ts rule: rev_induct)
  case (snoc p ts)
  define b where "b = fold (pick_step s) ts 0"
  have p: "p \<noteq> 0" "tasks s p \<noteq> None" using snoc.prems by auto
  show ?case
  proof (cases "\<exists>q\<in>set ts. ready s q")
    case True
    then have c: "choice s ts b" using snoc by (simp add: b_def)
    then obtain pre suf where ps: "ts = pre @ b # suf" "ready s b" "\<forall>q\<in>set pre. ready s q \<longrightarrow> prio s q < prio s b"
      "\<forall>q\<in>set suf. ready s q \<longrightarrow> prio s q \<le> prio s b" unfolding choice_def by blast
    have b: "b \<noteq> 0" "tasks s b \<noteq> None" using ps(1) snoc.prems by auto
    have "choice s (ts @ [p]) (pick_step s p b)"
    proof (cases "ready s p \<and> prio s b < prio s p")
      case True
      then have "\<forall>q\<in>set ts. ready s q \<longrightarrow> prio s q < prio s p" using ps by fastforce
      then show ?thesis using True b unfolding choice_def pick_step_cases
        by (intro exI [of _ ts] exI [of _ "[]"]) auto
    next
      case False
      then have eq: "pick_step s p b = b" using b by (auto simp: pick_step_cases)
      show ?thesis unfolding eq choice_def
        using ps False by (intro exI [of _ pre] exI [of _ "suf @ [p]"]) auto
    qed
    then show ?thesis using True by (simp add: b_def)
  next
    case False
    then have "b = 0" using snoc by (auto simp: b_def)
    then have "fold (pick_step s) (ts @ [p]) 0 = (if ready s p then p else 0)"
      by (simp add: b_def [symmetric] pick_step_cases)
    moreover have "choice s (ts @ [p]) p" if "ready s p"
      unfolding choice_def using that False by (intro exI [of _ ts] exI [of _ "[]"]) auto
    ultimately show ?thesis using False by auto
  qed
qed simp

lemma choice_in: "choice s ts p \<Longrightarrow> p \<in> set ts \<and> ready s p"
  by (auto simp: choice_def)

lemma choice_max: "choice s ts p \<Longrightarrow> q \<in> set ts \<Longrightarrow> ready s q \<Longrightarrow> prio s q \<le> prio s p"
  by (fastforce simp: choice_def)

lemma pick_next_task_cases:
  assumes "sched_wf s ts"
  obtains (none) "pick_next_task s = Some 0" and "\<forall>p\<in>set ts. \<not> ready s p"
  | (task) p where "pick_next_task s = Some p" and "choice s ts p" and "p \<noteq> 0"
proof -
  have nz: "\<forall>p\<in>set ts. p \<noteq> 0 \<and> tasks s p \<noteq> None"
    using sched_wf_task [OF assms] chain_nonzero [OF sched_wf_chain [OF assms]] by fastforce
  have "pick_next_task s = Some (fold (pick_step s) ts 0)"
    unfolding pick_next_task_def by (rule chain_fold_chain [OF sched_wf_chain [OF assms]])
  then show thesis
    using fold_pick [OF nz] none task nz choice_in by (metis (full_types))
qed

section \<open>The effect of schedule\<close>

text \<open>A running current task goes back to ready.\<close>

definition demoted :: "'a sched_state_scheme \<Rightarrow> u32 \<rightharpoonup> task" where
  "demoted s = (tasks s)(current_task s :=
     map_option (\<lambda>t. if t_state t = TASK_RUNNING then t\<lparr>t_state := TASK_READY\<rparr> else t) (tasks s (current_task s)))"

definition switch_to :: "u32 \<Rightarrow> 'a sched_state_scheme \<Rightarrow> 'a sched_state_scheme" where
  "switch_to p s =
     (case tasks s p of
        None \<Rightarrow> s
      | Some t \<Rightarrow> s\<lparr>tasks := (demoted s)(p \<mapsto> t\<lparr>t_state := TASK_RUNNING, t_time_slice := 10\<rparr>), current_task := p,
          tss_esp0 := (if t_kernel_stack t \<noteq> 0 then t_kernel_stack t + KERNEL_STACK_SIZE else tss_esp0 s),
          switches := (if current_task s \<noteq> p then switches s @ [(current_task s, p)] else switches s)\<rparr>)"

lemma schedule_none:
  assumes "sched_wf s ts" and "\<forall>p\<in>set ts. \<not> ready s p"
  shows "schedule s = Some s"
  using assms(1)
proof (cases rule: pick_next_task_cases)
  case none
  then show ?thesis by (simp add: schedule_def)
next
  case (task p)
  then show ?thesis using assms(2) choice_in by blast
qed

lemma fun_upd_idem_Some: "m p = Some t \<Longrightarrow> m(p := Some t) = m"
  by (simp add: fun_upd_idem)

lemma schedule_switch:
  assumes "sched_wf s ts" and "\<exists>p\<in>set ts. ready s p"
  obtains p where "choice s ts p" and "schedule s = Some (switch_to p s)"
  using assms(1)
proof (cases rule: pick_next_task_cases)
  case none
  then show thesis using assms(2) by blast
next
  case (task p)
  then obtain t where t: "tasks s p = Some t" "t_state t = TASK_READY"
    using choice_in by (fastforce simp: ready_def task_test_def split: option.splits)
  have q: "task_queue s \<noteq> 0"
    using choice_in [OF task(2)] sched_wf_chain [OF assms(1)] by (cases ts) auto
  have "schedule s = Some (switch_to p s)"
  proof (cases "current_task s = 0")
    case True
    then have "demoted s = tasks s" using sched_wf_not_null [OF assms(1)] by (auto simp: demoted_def)
    then show ?thesis
      using True q task t by (simp add: schedule_def switch_to_def upd_task_def Let_def)
  next
    case False
    then obtain c where c: "tasks s (current_task s) = Some c" using sched_wf_current [OF assms(1)] by blast
    show ?thesis
    proof (cases "t_state c = TASK_RUNNING")
      case True
      then have "p \<noteq> current_task s" using c t by auto
      then show ?thesis
        using False q task t c True
        by (simp add: schedule_def switch_to_def upd_task_def demoted_def Let_def)
    next
      case nr: False
      then have "demoted s = tasks s" using c by (simp add: demoted_def fun_upd_idem)
      then show ?thesis
        using False q task t c nr by (simp add: schedule_def switch_to_def upd_task_def Let_def)
    qed
  qed
  then show thesis using that task(2) by blast
qed

lemma switch_to_frame [simp]:
  "kmem (switch_to p s) = kmem s" "heap_start (switch_to p s) = heap_start s"
  "heap_size (switch_to p s) = heap_size s" "next_tid (switch_to p s) = next_tid s"
  "task_queue (switch_to p s) = task_queue s"
  by (simp_all add: switch_to_def split: option.splits)

text \<open>What the switch does to the task at \<open>q\<close>.\<close>

lemma switch_to_task:
  "tasks s p \<noteq> None \<Longrightarrow> tasks (switch_to p s) q =
     map_option (\<lambda>t. if q = p then t\<lparr>t_state := TASK_RUNNING, t_time_slice := 10\<rparr>
       else if q = current_task s \<and> t_state t = TASK_RUNNING then t\<lparr>t_state := TASK_READY\<rparr> else t) (tasks s q)"
  by (auto simp: switch_to_def demoted_def option.map_comp comp_def option.map_ident split: option.splits)

lemma switch_to_current: "tasks s p \<noteq> None \<Longrightarrow> current_task (switch_to p s) = p"
  by (auto simp: switch_to_def)

lemma sched_wf_switch:
  assumes "sched_wf s ts" and "p \<in> set ts"
  shows "sched_wf (switch_to p s) ts"
proof -
  have p: "tasks s p \<noteq> None" using sched_wf_task [OF assms] by auto
  note t = switch_to_task [OF p] switch_to_current [OF p]
  have "task_next (switch_to p s) q = task_next s q" for q
    by (auto simp: task_next_def t option.map_comp comp_def intro!: option.map_cong)
  then have "chain (task_next (switch_to p s)) (task_queue s) ts"
    using chain_cong [OF sched_wf_chain [OF assms(1)]] by simp
  moreover have "dom (tasks (switch_to p s)) = set ts" using assms(1) by (auto simp: t dom_def sched_wf_def)
  moreover have K: "\<exists>v. tasks s q = Some v \<and> t_id u = t_id v \<and> t_pid u = t_pid v \<and>
      (t_state u = TASK_RUNNING \<longrightarrow> q = p)" if "tasks (switch_to p s) q = Some u" for q u
    using that assms(1) unfolding t sched_wf_def by (auto split: if_splits)
  have "q = q'" if "tasks (switch_to p s) q = Some u" "tasks (switch_to p s) q' = Some u'" "t_id u = t_id u'" for q q' u u'
    using K [OF that(1)] K [OF that(2)] that(3) assms(1) by (auto simp: sched_wf_def)
  moreover have "t_pid u = t_id u \<and> 0 < t_id u \<and> t_id u < next_tid s" if "tasks (switch_to p s) q = Some u" for q u
    using K [OF that] assms(1) by (auto simp: sched_wf_def)
  moreover have "q = p" if "tasks (switch_to p s) q = Some u" "t_state u = TASK_RUNNING" for q u
    using K [OF that(1)] that(2) by auto
  moreover have "0 < next_tid s" using assms(1) by (simp add: sched_wf_def)
  ultimately show ?thesis using assms(2) unfolding sched_wf_def t(2) switch_to_frame by blast
qed

lemma schedule_wf:
  assumes "sched_wf s ts"
  shows "\<exists>s'. schedule s = Some s' \<and> sched_wf s' ts \<and> kmem s' = kmem s \<and>
    heap_start s' = heap_start s \<and> heap_size s' = heap_size s"
proof (cases "\<exists>p\<in>set ts. ready s p")
  case True
  then obtain p where "choice s ts p" "schedule s = Some (switch_to p s)" using schedule_switch [OF assms] by blast
  then show ?thesis using sched_wf_switch [OF assms] choice_in by (intro exI [of _ "switch_to p s"]) auto
next
  case False
  then show ?thesis using schedule_none [OF assms] assms by auto
qed

section \<open>Steps that do not allocate\<close>

lemma sched_tick_wf:
  assumes "sched_wf s ts"
  shows "\<exists>s'. sched_tick s = Some s' \<and> sched_wf s' ts"
proof (cases "current_task s = 0")
  case True
  then show ?thesis
    using assms sched_wf_frame [of "s\<lparr>tick_count := tick_count s + 1\<rparr>" s ts] by (auto simp: sched_tick_def Let_def)
next
  case False
  then obtain c where c: "tasks s (current_task s) = Some c" using sched_wf_current [OF assms] by blast
  let ?f = "\<lambda>t. t\<lparr>t_cpu_ticks := t_cpu_ticks t + 1,
    t_time_slice := (if t_time_slice t > 0 then t_time_slice t - 1 else t_time_slice t)\<rparr>"
  let ?s = "s\<lparr>tick_count := tick_count s + 1\<rparr>"
  have w: "sched_wf ?s ts" using assms sched_wf_frame [of ?s s ts] by simp
  have w2: "sched_wf (?s\<lparr>tasks := (tasks s)(current_task s \<mapsto> ?f c)\<rparr>) ts"
    using sched_wf_upd [OF w, of "current_task s" c "?f c"] c by simp
  show ?thesis
    using False c schedule_wf [OF w2] w2 by (auto simp: sched_tick_def Let_def upd_task_def)
qed

lemma sched_block_wf:
  assumes "sched_wf s ts"
  shows "\<exists>s'. sched_block s = Some s' \<and> sched_wf s' ts"
proof (cases "current_task s = 0")
  case True
  then show ?thesis using assms by (auto simp: sched_block_def)
next
  case False
  then obtain c where c: "tasks s (current_task s) = Some c" using sched_wf_current [OF assms] by blast
  have w: "sched_wf (s\<lparr>tasks := (tasks s)(current_task s \<mapsto> c\<lparr>t_state := TASK_BLOCKED\<rparr>)\<rparr>) ts"
    using sched_wf_upd [OF assms c] by simp
  show ?thesis using False c schedule_wf [OF w] by (auto simp: sched_block_def upd_task_def)
qed

lemma sched_unblock_wf:
  assumes "sched_wf s ts"
  shows "\<exists>s'. sched_unblock tid s = Some s' \<and> sched_wf s' ts"
  using assms
proof (cases rule: find_task_cases [where P = "\<lambda>t. t_id t = tid"])
  case none
  then show ?thesis using assms by (auto simp: sched_unblock_def)
next
  case (task p t)
  then show ?thesis using sched_wf_upd [OF assms task(4)] by (auto simp: sched_unblock_def upd_task_def)
qed

lemma task_exit_wf:
  assumes "sched_wf s ts"
  shows "\<exists>s'. task_exit tid code s = Some s' \<and> sched_wf s' ts"
  using assms
proof (cases rule: find_task_cases [where P = "\<lambda>t. t_id t = tid"])
  case none
  then show ?thesis using assms by (auto simp: task_exit_def)
next
  case (task p t)
  let ?t = "t\<lparr>t_state := TASK_ZOMBIE, t_exit_code := code\<rparr>"
  let ?s = "s\<lparr>tasks := (tasks s)(p \<mapsto> ?t)\<rparr>"
  have w: "sched_wf ?s ts" using sched_wf_upd [OF assms task(4), of ?t] by simp
  have pre: "task_exit tid code s = do {
      par \<leftarrow> task_find (t_parent_pid t) ?s;
      if par \<noteq> 0 \<and> task_test ?s (\<lambda>q. t_state q = TASK_BLOCKED \<and> (t_waiting_for q = t_pid t \<or> t_waiting_for q = -1)) par
      then upd_task par (\<lambda>q. q\<lparr>t_state := TASK_READY\<rparr>) ?s else Some ?s }"
    using task by (simp add: task_exit_def upd_task_def)
  from w show ?thesis
  proof (cases rule: find_task_cases [where P = "\<lambda>q. t_pid q = t_parent_pid t"])
    case none
    then show ?thesis using w unfolding pre by (auto simp: task_find_def)
  next
    case (task par q)
    then show ?thesis using w sched_wf_upd [OF w task(4), of "q\<lparr>t_state := TASK_READY\<rparr>"] unfolding pre
      by (auto simp: task_find_def upd_task_def)
  qed
qed

section \<open>Ownership of heap memory\<close>

text \<open>The heap blocks a task owns: its structure and its stacks.\<close>

definition owned :: "u32 \<Rightarrow> task \<Rightarrow> u32 list" where
  "owned p t = p # filter (\<lambda>x. x \<noteq> 0) [t_kernel_stack t, t_user_stack t]"

definition sched_own :: "'a sched_state_scheme \<Rightarrow> bool" where
  "sched_own s \<longleftrightarrow> heap_inv s \<and>
     (\<forall>p t. tasks s p = Some t \<longrightarrow> set (owned p t) \<subseteq> heap_live s \<and> distinct (owned p t) \<and>
        (t_kernel_mode t \<longrightarrow> t_user_stack t = 0)) \<and>
     (\<forall>p q t u. tasks s p = Some t \<and> tasks s q = Some u \<and> p \<noteq> q \<longrightarrow> set (owned p t) \<inter> set (owned q u) = {})"

lemma sched_heap_frame [simp]:
  "heap_blocks (s\<lparr>tasks := x1\<rparr>) = heap_blocks s" "heap_blocks (s\<lparr>task_queue := x2\<rparr>) = heap_blocks s"
  "heap_blocks (s\<lparr>current_task := x3\<rparr>) = heap_blocks s" "heap_blocks (s\<lparr>next_tid := x4\<rparr>) = heap_blocks s"
  by (simp_all add: fun_eq_iff heap_blocks_def)

lemma sched_live_frame [simp]:
  "heap_live (s\<lparr>tasks := x1\<rparr>) = heap_live s" "heap_live (s\<lparr>task_queue := x2\<rparr>) = heap_live s"
  "heap_live (s\<lparr>current_task := x3\<rparr>) = heap_live s" "heap_live (s\<lparr>next_tid := x4\<rparr>) = heap_live s"
  "heap_inv (s\<lparr>tasks := x1\<rparr>) = heap_inv s" "heap_inv (s\<lparr>task_queue := x2\<rparr>) = heap_inv s"
  "heap_inv (s\<lparr>current_task := x3\<rparr>) = heap_inv s" "heap_inv (s\<lparr>next_tid := x4\<rparr>) = heap_inv s"
  "heap_room (s\<lparr>tasks := x1\<rparr>) = heap_room s" "heap_room (s\<lparr>task_queue := x2\<rparr>) = heap_room s"
  "heap_room (s\<lparr>current_task := x3\<rparr>) = heap_room s" "heap_room (s\<lparr>next_tid := x4\<rparr>) = heap_room s"
  by (simp_all add: heap_live_def heap_inv_def heap_room_def fun_eq_iff)

lemma heap_frame_sched:
  fixes s s' :: "'a sched_state_scheme"
  assumes "s'\<lparr>kmem := kmem s, heap_used := heap_used s\<rparr> = s"
  shows "tasks s' = tasks s" "task_queue s' = task_queue s" "current_task s' = current_task s"
    "next_tid s' = next_tid s" "tick_count s' = tick_count s" "tss_esp0 s' = tss_esp0 s" "switches s' = switches s"
  using arg_cong [OF assms, of tasks] arg_cong [OF assms, of task_queue] arg_cong [OF assms, of current_task]
    arg_cong [OF assms, of next_tid] arg_cong [OF assms, of tick_count] arg_cong [OF assms, of tss_esp0]
    arg_cong [OF assms, of switches] by simp_all

lemma kmalloc_sched [simp]:
  fixes s :: "'a sched_state_scheme"
  assumes "kmalloc n s = Some (p, s')"
  shows "tasks s' = tasks s" "task_queue s' = task_queue s" "current_task s' = current_task s"
    "next_tid s' = next_tid s" "tick_count s' = tick_count s" "tss_esp0 s' = tss_esp0 s" "switches s' = switches s"
  using heap_frame_sched [OF kmalloc_frame [OF assms]] .

lemma kfree_sched [simp]:
  fixes s :: "'a sched_state_scheme"
  assumes "kfree p s = Some s'"
  shows "tasks s' = tasks s" "task_queue s' = task_queue s" "current_task s' = current_task s"
    "next_tid s' = next_tid s" "tick_count s' = tick_count s" "tss_esp0 s' = tss_esp0 s" "switches s' = switches s"
  using heap_frame_sched [OF kfree_frame [OF assms]] .

lemma sizes_fit [simp]: "heap_fits sizeof_task" "heap_fits KERNEL_STACK_SIZE" "heap_fits USER_STACK_SIZE"
  by (simp_all add: heap_fits_def sizeof_task_def KERNEL_STACK_SIZE_def USER_STACK_SIZE_def)

lemma init_kstack_agree:
  assumes "unat ks + 0x4000 < 2 ^ 32"
  shows "agree (- {unat ks..<unat ks + 0x4000}) m (init_kstack (ks + KERNEL_STACK_SIZE) ret m)"
proof -
  have eq: "ks + KERNEL_STACK_SIZE - of_nat j = of_nat (unat ks + 0x4000 - j)" if "j \<le> 0x4000" for j
    using that by (simp add: KERNEL_STACK_SIZE_def of_nat_diff)
  have w: "agree (- {unat ks..<unat ks + 0x4000}) M (store32 (ks + KERNEL_STACK_SIZE - of_nat j) v M)"
    if "4 \<le> j" "j \<le> 0x4000" for j v M
    unfolding eq [OF that(2)] by (rule agree_mono [OF agree_store32]) (use assms that in auto)
  show ?thesis
    unfolding init_kstack_def
    by (rule agree_trans [OF agree_trans [OF agree_trans [OF agree_trans
      [OF w [of 4, simplified] w [of 8, simplified]] w [of 12, simplified]] w [of 16, simplified]] w [of 20, simplified]])
qed

lemma load32_init_kstack: "load32 (init_kstack tos ret m) (tos - 4) = ret"
proof -
  define b where "b = tos - 20"
  have e: "tos - 4 = b + 4 * 4" "tos - 8 = b + 4 * 3" "tos - 12 = b + 4 * 2" "tos - 16 = b + 4 * 1" "tos - 20 = b + 4 * 0"
    by (simp_all add: b_def)
  have dis: "span32 (b + 4 * 4) \<inter> span32 (b + 4 * k) = {}" if "k \<noteq> 4" and "unat k < 4" for k
    by (rule span32_array) (use that in auto)
  show ?thesis
    unfolding init_kstack_def e
    by (subst load32_store32_other, rule dis, simp, simp)+ (rule load32_store32_same)
qed

lemma sched_own_mono:
  "sched_own s \<Longrightarrow> tasks s' = tasks s \<Longrightarrow> heap_inv s' \<Longrightarrow> heap_live s \<subseteq> heap_live s' \<Longrightarrow> sched_own s'"
  unfolding sched_own_def by (metis subset_trans)

lemma sched_own_live: "sched_own s \<Longrightarrow> tasks s p = Some t \<Longrightarrow> set (owned p t) \<subseteq> heap_live s"
  by (simp add: sched_own_def)

lemma sched_own_fresh: "sched_own s \<Longrightarrow> p \<notin> heap_live s \<Longrightarrow> tasks s p = None"
  by (auto simp: sched_own_def owned_def dest: spec [of _ p] intro: ccontr)

lemma sched_own_add:
  assumes "sched_own s" and "heap_inv s'" and "tasks s' = (tasks s)(t \<mapsto> tk)"
    and "set (owned t tk) \<inter> heap_live s = {}" and "distinct (owned t tk)"
    and "heap_live s' = heap_live s \<union> set (owned t tk)" and "t_kernel_mode tk \<longrightarrow> t_user_stack tk = 0"
  shows "sched_own s'"
proof -
  have "set (owned q u) \<subseteq> heap_live s" if "tasks s q = Some u" for q u
    using sched_own_live [OF assms(1) that] .
  then have "set (owned t tk) \<inter> set (owned q u) = {}" if "tasks s q = Some u" for q u
    using that assms(4) by blast
  then show ?thesis
    using assms unfolding sched_own_def by (auto simp: split: if_splits) (blast | metis disjoint_iff)+
qed

lemma tid_less: "w \<noteq> -1 \<Longrightarrow> w < w + 1" "w \<noteq> -1 \<Longrightarrow> 0 < w + 1" for w :: u32
proof -
  assume "w \<noteq> -1"
  then have nz: "w + 1 \<noteq> 0" by (metis add_eq_0_iff2)
  then have "unat (w + 1) = Suc (unat w)" using unatSuc [of w] by (simp add: add.commute)
  then show "w < w + 1" by (simp add: word_less_nat_alt)
  show "0 < w + 1" using nz by (simp add: word_gt_0)
qed

lemma sched_wf_next:
  assumes "sched_wf s ts" and "next_tid s \<noteq> -1" and "tasks s' = tasks s" "task_queue s' = task_queue s"
    "current_task s' = current_task s" "next_tid s' = next_tid s + 1"
  shows "sched_wf s' ts"
proof -
  have "task_next s' = task_next s" using assms(3) by (simp add: task_next_def fun_eq_iff)
  moreover have "t_id t < next_tid s + 1" if "tasks s p = Some t" for p t
    using assms(1) that less_trans [OF _ tid_less(1) [OF assms(2)]] by (auto simp: sched_wf_def)
  ultimately show ?thesis using assms(1,3-6) tid_less(2) [OF assms(2)] unfolding sched_wf_def by simp
qed

lemma sched_wf_add:
  assumes "sched_wf s ts" and "t \<noteq> 0" and "tasks s t = None" and "next_tid s \<noteq> -1"
    and "t_id tk = next_tid s" "t_pid tk = next_tid s" "t_next tk = task_queue s" "t_state tk \<noteq> TASK_RUNNING"
    and "tasks s' = (tasks s)(t \<mapsto> tk)" "task_queue s' = t" "current_task s' = current_task s"
      "next_tid s' = next_tid s + 1"
  shows "sched_wf s' (t # ts)"
proof -
  note nt = tid_less [OF assms(4)]
  have K: "t_pid u = t_id u \<and> 0 < t_id u \<and> t_id u < next_tid s" if "tasks s q = Some u" for q u
    using assms(1) that by (auto simp: sched_wf_def)
  have chain: "chain (task_next s') t (t # ts)"
  proof -
    have "chain (task_next s') (task_queue s) ts"
    proof (rule chain_cong [OF sched_wf_chain [OF assms(1)]])
      fix q assume "q \<in> set ts"
      then have "q \<noteq> t" using assms(1,3) by (auto simp: sched_wf_def)
      then show "task_next s' q = task_next s q" using assms(9) by (simp add: task_next_def)
    qed
    then show ?thesis using assms(2,7,9) by (simp add: task_next_def)
  qed
  moreover have "dom (tasks s') = set (t # ts)" using assms(1,9) by (simp add: sched_wf_def)
  moreover have "p = q" if "tasks s' p = Some x" "tasks s' q = Some y" "t_id x = t_id y" for p q x y
  proof -
    have old: "p = q" if "tasks s p = Some x" "tasks s q = Some y" using that \<open>t_id x = t_id y\<close> assms(1)
      unfolding sched_wf_def by blast
    have lt: "t_id u \<noteq> t_id tk" if "tasks s r = Some u" for r u
      using K [OF that] assms(5) less_irrefl by metis
    show ?thesis
    proof (cases "p = t"; cases "q = t")
      assume "p \<noteq> t" "q \<noteq> t"
      then show ?thesis using that old assms(9) by simp
    next
      assume "p \<noteq> t" "q = t"
      then show ?thesis using that lt [of p x] assms(9) by simp
    next
      assume "p = t" "q \<noteq> t"
      then show ?thesis using that lt [of q y] assms(9) by simp
    qed simp
  qed
  moreover have "t_pid x = t_id x \<and> 0 < t_id x \<and> t_id x < next_tid s'" if "tasks s' p = Some x" for p x
  proof (cases "p = t")
    case True
    then have "x = tk" using that assms(9) by simp
    then show ?thesis using assms(1,5,6,12) nt(1) by (simp add: sched_wf_def)
  next
    case False
    then have "tasks s p = Some x" using that assms(9) by simp
    from K [OF this] show ?thesis using less_trans [OF _ nt(1), of "t_id x"] assms(12) by simp
  qed
  moreover have "p = current_task s'" if "tasks s' p = Some x" "t_state x = TASK_RUNNING" for p x
    using that assms(1,8,9,11) by (cases "p = t") (auto simp: sched_wf_def)
  moreover have "current_task s' \<in> insert 0 (set (t # ts))" using assms(1,11) by (auto simp: sched_wf_def)
  moreover have "0 < next_tid s'" using assms(12) nt(2) by simp
  ultimately show ?thesis unfolding sched_wf_def assms(10) by blast
qed

text \<open>A user task is created by the same steps in both constructors.\<close>

lemma task_create_user_eq: "task_create_user ue entry_addr pr s = task_create ue entry_addr pr False s"
  by (simp add: task_create_user_def task_create_def zero_task_def zero_context_def Let_def cong: if_cong)

lemma current_pid_wf: "sched_wf s ts \<Longrightarrow> \<exists>ppid. current_pid s = Some ppid"
  using sched_wf_current [of s ts] by (cases "current_task s = 0") (auto simp: current_pid_def)

lemma free_task_undo:
  assumes "heap_inv s" and "t \<in> heap_live s" and "tasks s = (tasks s0)(t \<mapsto> tk)" and "tasks s0 t = None"
  obtains s' where "free_task t s = Some s'" and "heap_inv s'" and "heap_live s' = heap_live s - {t}"
    and "tasks s' = tasks s0" and "task_queue s' = task_queue s" and "current_task s' = current_task s"
    and "next_tid s' = next_tid s"
proof -
  let ?s = "s\<lparr>tasks := (tasks s)(t := None)\<rparr>"
  obtain s' where f: "kfree t ?s = Some s'" "heap_inv s'" "heap_live s' = heap_live ?s - {t}"
    using heap.free_cases [of ?s t] assms(1,2) by (metis sched_live_frame(1,5))
  have "(tasks s)(t := None) = tasks s0" using assms(3,4) by (simp add: fun_eq_iff)
  then show thesis using f kfree_sched [OF f(1)] by (intro that [of s']) (auto simp: free_task_def)
qed

text \<open>The task that a successful \<open>task_create\<close> puts at the head of the queue.\<close>

definition new_task :: "'a sched_state_scheme \<Rightarrow> u32 \<Rightarrow> u32 \<Rightarrow> u8 \<Rightarrow> bool \<Rightarrow> u32 \<Rightarrow> u32 \<Rightarrow> task" where
  "new_task s ppid entry_addr pr kmode ks us =
     zero_task\<lparr>t_id := next_tid s, t_pid := next_tid s, t_parent_pid := ppid, t_state := TASK_READY,
       t_priority := pr, t_time_slice := 10, t_kernel_mode := kmode, t_kernel_stack := ks,
       t_kernel_stack_top := ks + KERNEL_STACK_SIZE, t_user_stack := us,
       t_user_stack_top := (if kmode then 0 else us + USER_STACK_SIZE),
       t_context := zero_context\<lparr>ctx_esp := ks + KERNEL_STACK_SIZE - 20, ctx_eip := entry_addr, ctx_eflags := 0x202\<rparr>,
       t_next := task_queue s\<rparr>"

lemma task_create_cases:
  fixes s :: "'a sched_state_scheme"
  assumes wf: "sched_wf s ts" and own: "sched_own s" and tid: "next_tid s \<noteq> -1"
  obtains (fail) s' where "task_create ue entry_addr pr kmode s = Some (0, s')" and "sched_wf s' ts" and "sched_own s'"
      and "heap_live s' = heap_live s" and "tasks s' = tasks s"
  | (task) t s' ppid ks us where "task_create ue entry_addr pr kmode s = Some (t, s')" and "t \<noteq> 0"
      and "sched_wf s' (t # ts)" and "sched_own s'" and "current_pid s = Some ppid"
      and "tasks s' = (tasks s)(t \<mapsto> new_task s ppid entry_addr pr kmode ks us)"
      and "heap_live s' = heap_live s \<union> set (owned t (new_task s ppid entry_addr pr kmode ks us))"
      and "set (owned t (new_task s ppid entry_addr pr kmode ks us)) \<inter> heap_live s = {}"
      and "ks \<noteq> 0" and "kmode \<longleftrightarrow> us = 0"
      and "load32 (kmem s') (ks + KERNEL_STACK_SIZE - 4) = (if kmode then entry_addr else ue)"
proof -
  have inv: "heap_inv s" using own by (simp add: sched_own_def)
  obtain ppid where ppid: "current_pid s = Some ppid" using current_pid_wf [OF wf] by blast
  from inv sizes_fit(1) show thesis
  proof (cases rule: heap.alloc_cases)
    case (null s1)
    note fr = kmalloc_sched [OF null(1)]
    have "sched_wf s1 ts" using wf sched_wf_frame [OF fr(1-4)] by simp
    moreover have "sched_own s1" using sched_own_mono [OF own fr(1) null(2)] null(3) by simp
    ultimately show thesis using null fr by (intro fail [of s1]) (auto simp: task_create_def)
  next
    case (pointer t s1)
    note fr = kmalloc_sched [OF pointer(1)]
    have fresh: "tasks s t = None" using sched_own_fresh [OF own pointer(4)] .
    define tk where "tk = zero_task\<lparr>t_id := next_tid s, t_pid := next_tid s, t_parent_pid := ppid, t_state := TASK_READY,
      t_priority := pr, t_time_slice := 10, t_kernel_mode := kmode, t_exit_code := 0, t_waiting_for := 0\<rparr>"
    define s2 where "s2 = s1\<lparr>next_tid := next_tid s + 1, tasks := (tasks s)(t \<mapsto> tk)\<rparr>"
    have h2: "heap_inv s2" "heap_live s2 = insert t (heap_live s)" using pointer by (auto simp: s2_def)
    have f2: "tasks s2 = (tasks s)(t \<mapsto> tk)" "task_queue s2 = task_queue s" "current_task s2 = current_task s"
      "next_tid s2 = next_tid s + 1" using fr by (auto simp: s2_def)
    have pp: "current_pid s1 = Some ppid" using ppid fr(1,3) by (auto simp: current_pid_def split: if_splits)
    note unf = task_create_def pointer(1,2) fr pp tk_def s2_def
    from h2(1) sizes_fit(2) show thesis
    proof (cases rule: heap.alloc_cases)
      case (null s3)
      note fr3 = kmalloc_sched [OF null(1)]
      have "t \<in> heap_live s3" "tasks s3 = (tasks s)(t \<mapsto> tk)" using null(3) h2(2) fr3 f2 by auto
      from free_task_undo [OF null(2) this fresh] obtain s4 where s4: "free_task t s3 = Some s4" "heap_inv s4"
        "heap_live s4 = heap_live s3 - {t}" "tasks s4 = tasks s" "task_queue s4 = task_queue s3"
        "current_task s4 = current_task s3" "next_tid s4 = next_tid s3" by blast
      have "task_create ue entry_addr pr kmode s = Some (0, s4)" using null(1) s4(1) by (simp add: unf)
      moreover have "sched_wf s4 ts" by (rule sched_wf_next [OF wf tid]) (use s4 fr3 f2 in auto)
      moreover have live: "heap_live s4 = heap_live s" using s4(3) null(3) h2(2) pointer(4) by auto
      moreover have "sched_own s4" using sched_own_mono [OF own s4(4,2)] live by simp
      ultimately show thesis using s4(4) by (intro fail [of s4]) auto
    next
      case stack: (pointer ks s3)
      note fr3 = kmalloc_sched [OF stack(1)]
      have t3: "tasks s3 = (tasks s)(t \<mapsto> tk)" "task_queue s3 = task_queue s" "current_task s3 = current_task s"
        "next_tid s3 = next_tid s + 1" using fr3 f2 by auto
      have d: "ks \<noteq> t" "ks \<notin> heap_live s" "heap_live s3 = {ks, t} \<union> heap_live s"
        using stack(4,5) h2(2) by auto
      have room: "heap_room s3 ks 0x4000" using stack(6) by (simp add: KERNEL_STACK_SIZE_def)
      show thesis
      proof (cases kmode)
        case True
        define k where "k = new_task s ppid entry_addr pr True ks 0"
        define s4 where "s4 = s3\<lparr>kmem := init_kstack (ks + KERNEL_STACK_SIZE) entry_addr (kmem s3)\<rparr>"
        define s5 where "s5 = s4\<lparr>tasks := (tasks s)(t \<mapsto> k), task_queue := t\<rparr>"
        have w: "heap_inv s4" "heap_live s4 = heap_live s3"
          unfolding s4_def using heap_write [OF room init_kstack_agree [OF heap_room_bound [OF room]]] by auto
        have c: "task_create ue entry_addr pr kmode s = Some (t, s5)"
          using stack(1,2) True t3 by (simp add: unf s5_def s4_def k_def new_task_def zero_task_def Let_def)
        have o: "set (owned t k) = {t, ks}" "distinct (owned t k)"
          using stack(2) d(1) by (auto simp: owned_def k_def new_task_def zero_task_def)
        have wf5: "sched_wf s5 (t # ts)"
          by (rule sched_wf_add [OF wf pointer(2) fresh tid, of k])
            (use t3 in \<open>auto simp: s5_def s4_def k_def new_task_def\<close>)
        have live: "heap_live s5 = heap_live s \<union> set (owned t k)" using w(2) d(3) o(1) by (auto simp: s5_def)
        have dis: "set (owned t k) \<inter> heap_live s = {}" using o(1) d(2) pointer(4) by auto
        have own5: "sched_own s5"
          by (rule sched_own_add [OF own _ _ dis o(2) live]) (use w(1) in \<open>auto simp: s5_def k_def new_task_def\<close>)
        have l: "load32 (kmem s5) (ks + KERNEL_STACK_SIZE - 4) = entry_addr"
          using load32_init_kstack by (simp add: s5_def s4_def)
        show thesis by (rule task [OF c pointer(2) wf5 own5 ppid, of ks 0])
          (use True l live dis stack(2) in \<open>auto simp: s5_def k_def\<close>)
      next
        case user: False
        from stack(3) sizes_fit(3) show thesis
        proof (cases rule: heap.alloc_cases)
          case (null s4)
          note fr4 = kmalloc_sched [OF null(1)]
          have "ks \<in> heap_live s4" using null(3) d(3) by simp
          then obtain s5 where s5: "kfree ks s4 = Some s5" "heap_inv s5" "heap_live s5 = heap_live s4 - {ks}"
            using heap.free_cases [OF null(2)] by metis
          note fr5 = kfree_sched [OF s5(1)]
          have "t \<in> heap_live s5" "tasks s5 = (tasks s)(t \<mapsto> tk)" using s5(3) null(3) d t3(1) fr4 fr5 by auto
          from free_task_undo [OF s5(2) this fresh] obtain s6 where s6: "free_task t s5 = Some s6" "heap_inv s6"
            "heap_live s6 = heap_live s5 - {t}" "tasks s6 = tasks s" "task_queue s6 = task_queue s5"
            "current_task s6 = current_task s5" "next_tid s6 = next_tid s5" by blast
          have "task_create ue entry_addr pr kmode s = Some (0, s6)"
            using stack(1,2) null(1) s5(1) s6(1) user by (simp add: unf Let_def)
          moreover have "sched_wf s6 ts" by (rule sched_wf_next [OF wf tid]) (use s6 fr4 fr5 t3 in auto)
          moreover have live: "heap_live s6 = heap_live s" using s6(3) s5(3) null(3) d pointer(4) by auto
          moreover have "sched_own s6" using sched_own_mono [OF own s6(4,2)] live by simp
          ultimately show thesis using s6(4) by (intro fail [of s6]) auto
        next
          case us: (pointer us s4)
          note fr4 = kmalloc_sched [OF us(1)]
          define k where "k = new_task s ppid entry_addr pr False ks us"
          define s5 where "s5 = s4\<lparr>kmem := init_kstack (ks + KERNEL_STACK_SIZE) ue (kmem s4)\<rparr>"
          define s6 where "s6 = s5\<lparr>tasks := (tasks s)(t \<mapsto> k), task_queue := t\<rparr>"
          have room4: "heap_room s4 ks 0x4000" using us(7) room by blast
          have w: "heap_inv s5" "heap_live s5 = heap_live s4"
            unfolding s5_def using heap_write [OF room4 init_kstack_agree [OF heap_room_bound [OF room4]]] by auto
          have c: "task_create ue entry_addr pr kmode s = Some (t, s6)"
            using stack(1,2) us(1,2) user t3 fr4
            by (simp add: unf s6_def s5_def k_def new_task_def zero_task_def Let_def)
          have us': "us \<notin> heap_live s3" "us \<noteq> t" "us \<noteq> ks" using us(4) d(3) by auto
          have o: "set (owned t k) = {t, ks, us}" "distinct (owned t k)"
            using stack(2) us(2) d(1) us' by (auto simp: owned_def k_def new_task_def zero_task_def)
          have wf6: "sched_wf s6 (t # ts)"
            by (rule sched_wf_add [OF wf pointer(2) fresh tid, of k])
              (use t3 fr4 in \<open>auto simp: s6_def s5_def k_def new_task_def\<close>)
          have live: "heap_live s6 = heap_live s \<union> set (owned t k)" using w(2) us(5) d(3) o(1) by (auto simp: s6_def)
          have dis: "set (owned t k) \<inter> heap_live s = {}" using o(1) d pointer(4) us' by auto
          have own6: "sched_own s6"
            by (rule sched_own_add [OF own _ _ dis o(2) live]) (use w(1) in \<open>auto simp: s6_def k_def new_task_def\<close>)
          have l: "load32 (kmem s6) (ks + KERNEL_STACK_SIZE - 4) = ue"
            using load32_init_kstack by (simp add: s6_def s5_def)
          show thesis by (rule task [OF c pointer(2) wf6 own6 ppid, of ks us])
            (use user l live dis stack(2) us(2) in \<open>auto simp: s6_def k_def\<close>)
        qed
      qed
    qed
  qed
qed

section \<open>Destroying a task\<close>

lemma free_opt:
  fixes s :: "'a sched_state_scheme"
  assumes "heap_inv s" and "x \<noteq> 0 \<Longrightarrow> x \<in> heap_live s"
  obtains s' where "(if x \<noteq> 0 then kfree x s else Some s) = Some s'" and "heap_inv s'"
    and "heap_live s' = heap_live s - {x}" and "tasks s' = tasks s" "task_queue s' = task_queue s"
    "current_task s' = current_task s" "next_tid s' = next_tid s"
proof (cases "x = 0")
  case True
  then show thesis using assms heap.live_nonzero [OF assms(1)] by (intro that [of s]) auto
next
  case False
  then obtain s' where s': "kfree x s = Some s'" "heap_inv s'" "heap_live s' = heap_live s - {x}"
    using heap.free_cases [OF assms(1)] assms(2) by metis
  then show thesis using False kfree_sched [OF s'(1)] by (intro that [of s']) auto
qed

text \<open>The two states agree on the task at \<open>q\<close> up to its link.\<close>

definition same_task :: "'a sched_state_scheme \<Rightarrow> 'a sched_state_scheme \<Rightarrow> u32 \<Rightarrow> bool" where
  "same_task s s' q \<longleftrightarrow> map_option (\<lambda>t. t\<lparr>t_next := 0\<rparr>) (tasks s' q) = map_option (\<lambda>t. t\<lparr>t_next := 0\<rparr>) (tasks s q)"

lemma same_task_Some:
  assumes "same_task s s' q" and "tasks s' q = Some u"
  obtains v where "tasks s q = Some v" and "u\<lparr>t_next := 0\<rparr> = v\<lparr>t_next := 0\<rparr>"
  using assms by (cases "tasks s q") (auto simp: same_task_def)

lemma same_fields:
  "u\<lparr>t_next := x\<rparr> = v\<lparr>t_next := x\<rparr> \<Longrightarrow> t_id u = t_id v \<and> t_pid u = t_pid v \<and> t_state u = t_state v \<and>
     t_parent_pid u = t_parent_pid v \<and> t_waiting_for u = t_waiting_for v \<and> t_exit_code u = t_exit_code v \<and>
     t_kernel_mode u = t_kernel_mode v \<and> t_user_stack u = t_user_stack v \<and> owned p u = owned p v"
  by (cases u; cases v) (auto simp: owned_def)

text \<open>Removing \<open>p\<close> from the queue: the state before the frees.\<close>

lemma unlink:
  assumes wf: "sched_wf s ts" and p: "tasks s p = Some t"
  obtains prev s1 pre post where "ts = pre @ p # post"
    and "chain_find_prev (task_next s) (task_test s (\<lambda>u. t_id u = t_id t)) 0 (task_queue s) = Some (prev, p)"
    and "p \<noteq> 0"
    and "(if prev \<noteq> 0 then upd_task prev (\<lambda>q. q\<lparr>t_next := t_next t\<rparr>) s else Some (s\<lparr>task_queue := t_next t\<rparr>)) = Some s1"
    and "chain (task_next s1) (task_queue s1) (pre @ post)" and "\<forall>q. same_task s s1 q" and "tasks s1 p = Some t"
    and "heap_live s1 = heap_live s" "heap_inv s1 = heap_inv s" "current_task s1 = current_task s" "next_tid s1 = next_tid s"
proof -
  have "p \<in> set ts" using wf p by (auto simp: sched_wf_def)
  then obtain pre post where ts: "ts = pre @ p # post" by (meson split_list)
  have ch: "chain (task_next s) (task_queue s) (pre @ p # post)" using sched_wf_chain [OF wf] ts by simp
  have d: "distinct (pre @ p # post)" using chain_distinct [OF ch] .
  have nz: "0 \<notin> set (pre @ p # post)" using chain_nonzero [OF ch] .
  have no: "\<forall>q\<in>set pre. \<not> task_test s (\<lambda>u. t_id u = t_id t) q"
  proof
    fix q assume q: "q \<in> set pre"
    then have "q \<noteq> p" using d by auto
    then show "\<not> task_test s (\<lambda>u. t_id u = t_id t) q"
      using wf p unfolding sched_wf_def task_test_def by (auto split: option.splits)
  qed
  have nx: "task_next s p = Some (t_next t)" using p by (simp add: task_next_def)
  have f: "chain_find_prev (task_next s) (task_test s (\<lambda>u. t_id u = t_id t)) 0 (task_queue s) = Some (last (0 # pre), p)"
    by (rule chain_find_prev_hit [OF ch no]) (use p in \<open>simp add: task_test_def\<close>)
  show thesis
  proof (cases "pre = []")
    case True
    let ?s = "s\<lparr>task_queue := t_next t\<rparr>"
    have "chain (task_next s) (t_next t) post" using ch True nx by auto
    moreover have "task_next ?s = task_next s" by (simp add: task_next_def fun_eq_iff)
    ultimately show thesis using True ts f nz p by (intro that [of pre post 0 ?s]) (auto simp: same_task_def)
  next
    case False
    define v where "v = last pre"
    have "v \<in> set pre" using False by (simp add: v_def)
    then have v: "v \<in> set pre" "v \<noteq> 0" "v \<noteq> p" using nz d by auto
    then obtain u where u: "tasks s v = Some u" using sched_wf_task [OF wf] ts by fastforce
    let ?s = "s\<lparr>tasks := (tasks s)(v \<mapsto> u\<lparr>t_next := t_next t\<rparr>)\<rparr>"
    have "chain (task_next ?s) (task_queue s) (pre @ post)"
      by (rule chain_unlink [OF ch False nx]) (use u in \<open>auto simp: task_next_def v_def\<close>)
    moreover have "\<forall>q. same_task s ?s q" using u by (auto simp: same_task_def)
    ultimately show thesis
      using False ts f nz p u v by (intro that [of pre post v ?s]) (auto simp: upd_task_def v_def [symmetric])
  qed
qed

text \<open>
  Destroying the current task also returns, but leaves \<open>current_task\<close> pointing to the freed structure.
\<close>

lemma task_destroy_any:
  fixes s :: "'a sched_state_scheme"
  assumes wf: "sched_wf s ts" and own: "sched_own s" and p: "tasks s p = Some t"
  obtains s' where "task_destroy (t_id t) s = Some s'"
    and "p \<noteq> current_task s \<Longrightarrow> sched_wf s' (remove1 p ts)" and "sched_own s'"
    and "heap_live s' = heap_live s - set (owned p t)" and "tasks s' p = None"
    and "\<forall>q. q \<noteq> p \<longrightarrow> same_task s s' q" and "current_task s' = current_task s" and "next_tid s' = next_tid s"
  using wf p
proof (rule unlink)
  fix prev s1 pre post
  assume ts: "ts = pre @ p # post"
    and f: "chain_find_prev (task_next s) (task_test s (\<lambda>u. t_id u = t_id t)) 0 (task_queue s) = Some (prev, p)"
    and nz: "p \<noteq> 0"
    and u: "(if prev \<noteq> 0 then upd_task prev (\<lambda>q. q\<lparr>t_next := t_next t\<rparr>) s else Some (s\<lparr>task_queue := t_next t\<rparr>)) = Some s1"
    and ch: "chain (task_next s1) (task_queue s1) (pre @ post)" and same: "\<forall>q. same_task s s1 q"
    and p1: "tasks s1 p = Some t"
    and h1: "heap_live s1 = heap_live s" "heap_inv s1 = heap_inv s" "current_task s1 = current_task s" "next_tid s1 = next_tid s"
  have o: "set (owned p t) \<subseteq> heap_live s" "distinct (owned p t)" "heap_inv s"
    using own p by (auto simp: sched_own_def)
  let ?k = "t_kernel_stack t" and ?u = "t_user_stack t"
  have ks: "?k \<noteq> 0 \<Longrightarrow> ?k \<in> heap_live s1" "?u \<noteq> 0 \<Longrightarrow> ?u \<in> heap_live s1 - {?k}" "p \<in> heap_live s1 - {?k} - {?u}"
    using o(1,2) h1(1) nz by (auto simp: owned_def split: if_splits)
  obtain s2 where s2: "(if ?k \<noteq> 0 then kfree ?k s1 else Some s1) = Some s2" "heap_inv s2" "heap_live s2 = heap_live s1 - {?k}"
    "tasks s2 = tasks s1" "task_queue s2 = task_queue s1" "current_task s2 = current_task s1" "next_tid s2 = next_tid s1"
    using free_opt [of s1 ?k] ks(1) o(3) h1(2) by metis
  obtain s3 where s3: "(if ?u \<noteq> 0 then kfree ?u s2 else Some s2) = Some s3" "heap_inv s3" "heap_live s3 = heap_live s2 - {?u}"
    "tasks s3 = tasks s2" "task_queue s3 = task_queue s2" "current_task s3 = current_task s2" "next_tid s3 = next_tid s2"
    using free_opt [of s2 ?u] ks(2) s2(2,3) by metis
  have "tasks s3 = ((tasks s1)(p := None))(p \<mapsto> t)" using s3(4) s2(4) p1 by (simp add: fun_eq_iff)
  then obtain s' where s': "free_task p s3 = Some s'" "heap_inv s'" "heap_live s' = heap_live s3 - {p}"
    "tasks s' = (tasks s1)(p := None)" "task_queue s' = task_queue s3" "current_task s' = current_task s3" "next_tid s' = next_tid s3"
    using free_task_undo [of s3 p "s1\<lparr>tasks := (tasks s1)(p := None)\<rparr>" t] s3(2,3) s2(3) ks(3) by auto
  have d: "task_destroy (t_id t) s = Some s'"
    using f nz p u s2(1) s3(1) s'(1) by (simp add: task_destroy_def)
  have sm: "same_task s s' q" if "q \<noteq> p" for q using same that s'(4) by (simp add: same_task_def)
  have bk: "\<exists>v. tasks s q = Some v \<and> u\<lparr>t_next := 0\<rparr> = v\<lparr>t_next := 0\<rparr> \<and> q \<noteq> p" if u1: "tasks s' q = Some u" for q u
  proof -
    have q: "q \<noteq> p" using u1 s'(4) by auto
    obtain v where "tasks s q = Some v" "u\<lparr>t_next := 0\<rparr> = v\<lparr>t_next := 0\<rparr>"
      using same_task_Some [OF sm [OF q] u1] by metis
    then show ?thesis using q by simp
  qed
  have live: "heap_live s' = heap_live s - set (owned p t)"
    using s'(3) s3(3) s2(3) h1(1) heap.live_nonzero [OF o(3)] by (auto simp: owned_def)
  have wf': "sched_wf s' (remove1 p ts)" if nc: "p \<noteq> current_task s"
  proof -
    have dt: "distinct ts" using chain_distinct [OF sched_wf_chain [OF wf]] .
    then have rm: "remove1 p ts = pre @ post" using ts by (simp add: remove1_append)
    have "chain (task_next s') (task_queue s') (pre @ post)"
      unfolding s'(5) s3(5) s2(5)
      by (rule chain_cong [OF ch]) (use dt ts s'(4) in \<open>auto simp: task_next_def\<close>)
    moreover have "dom (tasks s') = set (pre @ post)"
    proof -
      have "tasks s1 q = None \<longleftrightarrow> tasks s q = None" for q
        using same [rule_format, of q] by (auto simp: same_task_def)
      then have "dom (tasks s1) = dom (tasks s)" by (auto simp: dom_def)
      then show ?thesis using s'(4) wf dt ts by (auto simp: sched_wf_def)
    qed
    moreover have "q = r" if "tasks s' q = Some x" "tasks s' r = Some y" "t_id x = t_id y" for q r x y
      using bk [OF that(1)] bk [OF that(2)] that(3) same_fields wf unfolding sched_wf_def by metis
    moreover have "t_pid x = t_id x \<and> 0 < t_id x \<and> t_id x < next_tid s'" if "tasks s' q = Some x" for q x
      using bk [OF that] same_fields wf s'(7) s3(7) s2(7) h1(4) unfolding sched_wf_def by metis
    moreover have "q = current_task s'" if "tasks s' q = Some x" "t_state x = TASK_RUNNING" for q x
      using bk [OF that(1)] that(2) same_fields wf s'(6) s3(6) s2(6) h1(3) unfolding sched_wf_def by metis
    moreover have "current_task s' \<in> insert 0 (set (pre @ post))" "0 < next_tid s'"
      using wf nc ts s'(6,7) s3(6,7) s2(6,7) h1(3,4) by (auto simp: sched_wf_def)
    ultimately show ?thesis unfolding sched_wf_def rm by blast
  qed
  have own': "sched_own s'"
  proof -
    have "set (owned q x) \<subseteq> heap_live s' \<and> distinct (owned q x) \<and> (t_kernel_mode x \<longrightarrow> t_user_stack x = 0)"
      if x: "tasks s' q = Some x" for q x
    proof -
      obtain v where v: "tasks s q = Some v" "owned q x = owned q v" "q \<noteq> p" "t_kernel_mode x = t_kernel_mode v"
        "t_user_stack x = t_user_stack v" using bk [OF x] same_fields by metis
      then have "set (owned q v) \<inter> set (owned p t) = {}" using own p by (auto simp: sched_own_def)
      moreover have "set (owned q v) \<subseteq> heap_live s" "distinct (owned q v)" "t_kernel_mode v \<longrightarrow> t_user_stack v = 0"
        using own v(1) by (auto simp: sched_own_def)
      ultimately show ?thesis using v(2,4,5) live by auto
    qed
    moreover have "set (owned q x) \<inter> set (owned r y) = {}" if "tasks s' q = Some x" "tasks s' r = Some y" "q \<noteq> r" for q r x y
      using bk [OF that(1)] bk [OF that(2)] that(3) same_fields own unfolding sched_own_def by metis
    ultimately show ?thesis using s'(2) unfolding sched_own_def by blast
  qed
  show thesis
    using that [OF d wf' own' live] s'(4,6,7) s3(6,7) s2(6,7) h1(3,4) sm by simp
qed

lemma task_destroy_found:
  fixes s :: "'a sched_state_scheme"
  assumes wf: "sched_wf s ts" and own: "sched_own s" and p: "tasks s p = Some t" and nc: "p \<noteq> current_task s"
  obtains s' where "task_destroy (t_id t) s = Some s'" and "sched_wf s' (remove1 p ts)" and "sched_own s'"
    and "heap_live s' = heap_live s - set (owned p t)" and "tasks s' p = None"
    and "\<forall>q. q \<noteq> p \<longrightarrow> same_task s s' q" and "current_task s' = current_task s" and "next_tid s' = next_tid s"
proof (rule task_destroy_any [OF wf own p])
  fix s'
  assume s': "task_destroy (t_id t) s = Some s'" "p \<noteq> current_task s \<Longrightarrow> sched_wf s' (remove1 p ts)" "sched_own s'"
    "heap_live s' = heap_live s - set (owned p t)" "tasks s' p = None" "\<forall>q. q \<noteq> p \<longrightarrow> same_task s s' q"
    "current_task s' = current_task s" "next_tid s' = next_tid s"
  show thesis by (rule that [OF s'(1) s'(2) [OF nc] s'(3-8)])
qed

section \<open>Steps that keep the identity and the memory of every task\<close>

definition identity :: "task \<Rightarrow> u32 \<times> u32 \<times> u32 \<times> u32 \<times> u32 \<times> bool" where
  "identity t = (t_id t, t_pid t, t_next t, t_kernel_stack t, t_user_stack t, t_kernel_mode t)"

definition keeps :: "'a sched_state_scheme \<Rightarrow> 'a sched_state_scheme \<Rightarrow> bool" where
  "keeps s s' \<longleftrightarrow> kmem s' = kmem s \<and> heap_start s' = heap_start s \<and> heap_size s' = heap_size s \<and>
     next_tid s' = next_tid s \<and> (\<forall>q. map_option identity (tasks s' q) = map_option identity (tasks s q))"

lemma keeps_refl [simp]: "keeps s s"
  by (simp add: keeps_def)

lemma keeps_trans: "keeps s s' \<Longrightarrow> keeps s' s'' \<Longrightarrow> keeps s s''"
  by (simp add: keeps_def)

lemma keeps_upd:
  "tasks s p = Some t \<Longrightarrow> identity u = identity t \<Longrightarrow> keeps s (s\<lparr>tasks := (tasks s)(p \<mapsto> u)\<rparr>)"
  by (simp add: keeps_def)

lemma keeps_heap:
  assumes "keeps s s'"
  shows "heap_inv s' = heap_inv s" "heap_live s' = heap_live s"
  using assms by (simp_all add: keeps_def heap_inv_def heap_live_def heap_blocks_def)

lemma keeps_own:
  assumes "keeps s s'" and "sched_own s"
  shows "sched_own s'"
proof -
  have K: "\<exists>v. tasks s q = Some v \<and> owned q u = owned q v \<and> t_kernel_mode u = t_kernel_mode v \<and>
      t_user_stack u = t_user_stack v" if "tasks s' q = Some u" for q u
  proof -
    have "map_option identity (tasks s q) = map_option identity (tasks s' q)" using assms(1) by (simp add: keeps_def)
    then have "map_option identity (tasks s q) = Some (identity u)" using that by simp
    then show ?thesis by (cases "tasks s q") (auto simp: identity_def owned_def)
  qed
  have "set (owned q u) \<subseteq> heap_live s \<and> distinct (owned q u) \<and> (t_kernel_mode u \<longrightarrow> t_user_stack u = 0)"
    if "tasks s' q = Some u" for q u
    using K [OF that] assms(2) unfolding sched_own_def by metis
  moreover have "set (owned q u) \<inter> set (owned r v) = {}" if "tasks s' q = Some u" "tasks s' r = Some v" "q \<noteq> r" for q r u v
    using K [OF that(1)] K [OF that(2)] that(3) assms(2) unfolding sched_own_def by metis
  moreover have "heap_inv s" using assms(2) by (simp add: sched_own_def)
  ultimately show ?thesis unfolding sched_own_def keeps_heap [OF assms(1)] by blast
qed

lemma keeps_switch: "tasks s p \<noteq> None \<Longrightarrow> keeps s (switch_to p s)"
  by (auto simp: keeps_def switch_to_task option.map_comp comp_def identity_def intro!: option.map_cong)

lemma keeps_schedule: "sched_wf s ts \<Longrightarrow> schedule s = Some s' \<Longrightarrow> keeps s s'"
proof (cases "\<exists>p\<in>set ts. ready s p")
  case True
  assume w: "sched_wf s ts" and "schedule s = Some s'"
  then obtain p where "choice s ts p" "s' = switch_to p s" using schedule_switch [OF w True] by (metis option.inject)
  then show ?thesis using keeps_switch choice_in sched_wf_task [OF w] by force
next
  case False
  assume "sched_wf s ts" and "schedule s = Some s'"
  then show ?thesis using schedule_none False by fastforce
qed

lemma keeps_tick: "keeps s (s\<lparr>tick_count := n\<rparr>)"
  by (simp add: keeps_def)

lemma sched_tick_inv:
  assumes "sched_wf s ts" and "sched_own s" and "sched_tick s = Some s'"
  shows "sched_wf s' ts \<and> sched_own s'"
proof -
  have wf: "sched_wf s' ts" using sched_tick_wf [OF assms(1)] assms(3) by simp
  have "keeps s s'"
  proof (cases "current_task s = 0")
    case True
    then show ?thesis using assms(3) keeps_tick by (auto simp: sched_tick_def Let_def)
  next
    case False
    then obtain c where c: "tasks s (current_task s) = Some c" using sched_wf_current [OF assms(1)] by blast
    let ?s = "s\<lparr>tick_count := tick_count s + 1\<rparr>"
    define d where "d = c\<lparr>t_cpu_ticks := t_cpu_ticks c + 1,
      t_time_slice := (if t_time_slice c > 0 then t_time_slice c - 1 else t_time_slice c)\<rparr>"
    let ?t = "?s\<lparr>tasks := (tasks ?s)(current_task s \<mapsto> d)\<rparr>"
    have d: "identity d = identity c" "t_id d = t_id c" "t_pid d = t_pid c" "t_next d = t_next c" "t_state d = t_state c"
      by (simp_all add: d_def identity_def)
    have k: "keeps s ?t" by (rule keeps_trans [OF keeps_tick keeps_upd]) (use c d in auto)
    have "sched_wf ?s ts" using assms(1) sched_wf_frame [of ?s s ts] by simp
    then have w: "sched_wf ?t ts" using sched_wf_upd [of ?s ts "current_task s" c d] c d by simp
    have "sched_tick s = (if t_time_slice d = 0 then schedule ?t else Some ?t)"
      using False c unfolding d_def by (simp add: sched_tick_def upd_task_def Let_def)
    then have "s' = ?t \<or> schedule ?t = Some s'" using assms(3) by (auto split: if_splits)
    then show ?thesis using k keeps_schedule [OF w] keeps_trans by blast
  qed
  then show ?thesis using wf keeps_own assms(2) by blast
qed

lemma sched_block_inv:
  assumes "sched_wf s ts" and "sched_own s" and "sched_block s = Some s'"
  shows "sched_wf s' ts \<and> sched_own s'"
proof -
  have wf: "sched_wf s' ts" using sched_block_wf [OF assms(1)] assms(3) by simp
  have "keeps s s'"
  proof (cases "current_task s = 0")
    case True
    then show ?thesis using assms(3) by (simp add: sched_block_def)
  next
    case False
    then obtain c where c: "tasks s (current_task s) = Some c" using sched_wf_current [OF assms(1)] by blast
    let ?t = "s\<lparr>tasks := (tasks s)(current_task s \<mapsto> c\<lparr>t_state := TASK_BLOCKED\<rparr>)\<rparr>"
    have "keeps s ?t" by (rule keeps_upd [OF c]) (simp add: identity_def)
    moreover have "schedule ?t = Some s'" using assms(3) False c by (simp add: sched_block_def upd_task_def)
    moreover have "sched_wf ?t ts" using sched_wf_upd [OF assms(1) c] by simp
    ultimately show ?thesis using keeps_schedule keeps_trans by blast
  qed
  then show ?thesis using wf keeps_own assms(2) by blast
qed

lemma upd_task_keeps: "upd_task p f s = Some s' \<Longrightarrow> (\<And>t. identity (f t) = identity t) \<Longrightarrow> keeps s s'"
  by (auto simp: upd_task_def intro!: keeps_upd split: option.splits)

lemma sched_unblock_inv:
  assumes "sched_wf s ts" and "sched_own s" and "sched_unblock tid s = Some s'"
  shows "sched_wf s' ts \<and> sched_own s'"
proof -
  have "keeps s s'"
    using assms(3) upd_task_keeps [of _ "\<lambda>t. t\<lparr>t_state := TASK_READY\<rparr>" s s']
    by (auto simp: sched_unblock_def bind_eq_Some_conv identity_def split: if_splits)
  then show ?thesis using sched_unblock_wf [OF assms(1), of tid] assms keeps_own by auto
qed

lemma task_exit_inv:
  assumes "sched_wf s ts" and "sched_own s" and "task_exit tid code s = Some s'"
  shows "sched_wf s' ts \<and> sched_own s'"
proof -
  have "keeps s s'"
    using assms(3) upd_task_keeps [of _ "\<lambda>t. t\<lparr>t_state := TASK_READY\<rparr>"]
      upd_task_keeps [of _ "\<lambda>t. t\<lparr>t_state := TASK_ZOMBIE, t_exit_code := code\<rparr>"]
    by (auto simp: task_exit_def bind_eq_Some_conv identity_def split: if_splits) (blast intro: keeps_trans)+
  then show ?thesis using task_exit_wf [OF assms(1), of tid code] assms keeps_own by auto
qed

section \<open>Fork\<close>

lemma mem_copy_frame: "(\<And>i. i < n \<Longrightarrow> y \<noteq> d + of_nat i) \<Longrightarrow> mem_copy n d a m y = m y"
proof (induction n arbitrary: d a m)
  case (Suc n)
  have "y \<noteq> d" using Suc.prems [of 0] by simp
  moreover have "y \<noteq> d + 1 + of_nat i" if "i < n" for i using Suc.prems [of "Suc i"] that by (simp add: add.assoc)
  ultimately show ?case using Suc.IH by simp
qed simp

lemma memcpy_agree:
  assumes "unat d + unat n \<le> 2 ^ 32"
  shows "agree (- {unat d..<unat d + unat n}) m (memcpy d a n m)"
  unfolding agree_def memcpy_def
proof (intro ballI impI mem_copy_frame)
  fix x i assume x: "x \<in> - {unat d..<unat d + unat n}" "x < 2 ^ 32" and i: "i < unat n"
  have "d + of_nat i = of_nat (unat d + i)" by simp
  moreover have "(of_nat x :: u32) = of_nat (unat d + i) \<longleftrightarrow> x = unat d + i"
    by (rule of_nat_word_inj) (use x i assms in auto)
  ultimately show "(of_nat x :: u32) \<noteq> d + of_nat i" using x(1) i by auto
qed

text \<open>The child of \<open>cur\<close> with its own stacks.\<close>

definition fork_task :: "'a sched_state_scheme \<Rightarrow> task \<Rightarrow> u32 \<Rightarrow> u32 \<Rightarrow> task" where
  "fork_task s cur ks us =
     cur\<lparr>t_id := next_tid s, t_pid := next_tid s, t_parent_pid := t_pid cur, t_state := TASK_READY,
       t_time_slice := 10, t_cpu_ticks := 0, t_exit_code := 0, t_waiting_for := 0,
       t_kernel_stack := ks, t_kernel_stack_top := ks + KERNEL_STACK_SIZE, t_user_stack := us,
       t_user_stack_top := (if \<not> t_kernel_mode cur \<and> t_user_stack cur \<noteq> 0 then us + USER_STACK_SIZE else t_user_stack_top cur),
       t_context := (t_context cur)\<lparr>ctx_esp := ks + (ctx_esp (t_context cur) - t_kernel_stack cur), ctx_eax := 0\<rparr>,
       t_next := task_queue s\<rparr>"

lemma fork_task_kernel:
  assumes "t_user_stack cur = 0"
  shows "fork_task s cur ks 0 =
    cur\<lparr>t_id := next_tid s, t_pid := next_tid s, t_parent_pid := t_pid cur, t_state := TASK_READY,
      t_time_slice := 10, t_cpu_ticks := 0, t_exit_code := 0, t_waiting_for := 0,
      t_kernel_stack := ks, t_kernel_stack_top := ks + KERNEL_STACK_SIZE,
      t_context := (t_context cur)\<lparr>ctx_esp := ks + (ctx_esp (t_context cur) - t_kernel_stack cur), ctx_eax := 0\<rparr>,
      t_next := task_queue s\<rparr>"
  using assms by (cases cur) (simp add: fork_task_def)

lemma task_fork_cases:
  fixes s :: "'a sched_state_scheme"
  assumes wf: "sched_wf s ts" and own: "sched_own s" and tid: "next_tid s \<noteq> -1"
    and cur: "current_task s \<noteq> 0" "tasks s (current_task s) = Some cur"
  obtains (fail) s' where "task_fork s = Some (-1, s')" and "sched_wf s' ts" and "sched_own s'"
      and "heap_live s' = heap_live s" and "tasks s' = tasks s"
  | (child) c s' ks us where "task_fork s = Some (next_tid s, s')" and "c \<noteq> 0"
      and "sched_wf s' (c # ts)" and "sched_own s'" and "tasks s c = None"
      and "tasks s' = (tasks s)(c \<mapsto> fork_task s cur ks us)"
      and "heap_live s' = heap_live s \<union> set (owned c (fork_task s cur ks us))"
      and "set (owned c (fork_task s cur ks us)) \<inter> heap_live s = {}" and "ks \<noteq> 0"
proof -
  have inv: "heap_inv s" and km: "t_kernel_mode cur \<longrightarrow> t_user_stack cur = 0"
    using own cur by (auto simp: sched_own_def)
  from inv sizes_fit(1) show thesis
  proof (cases rule: heap.alloc_cases)
    case (null s1)
    note fr = kmalloc_sched [OF null(1)]
    have "sched_wf s1 ts" using wf sched_wf_frame [OF fr(1-4)] by simp
    moreover have "sched_own s1" using sched_own_mono [OF own fr(1) null(2)] null(3) by simp
    ultimately show thesis using null fr cur by (intro fail [of s1]) (auto simp: task_fork_def)
  next
    case (pointer t s1)
    note fr = kmalloc_sched [OF pointer(1)]
    have fresh: "tasks s t = None" using sched_own_fresh [OF own pointer(4)] .
    then have nt: "current_task s \<noteq> t" using cur by auto
    define tk where "tk = cur\<lparr>t_id := next_tid s, t_pid := next_tid s, t_parent_pid := t_pid cur, t_state := TASK_READY,
      t_time_slice := 10, t_cpu_ticks := 0, t_exit_code := 0, t_waiting_for := 0\<rparr>"
    define s2 where "s2 = s1\<lparr>next_tid := next_tid s + 1, tasks := (tasks s)(t \<mapsto> tk)\<rparr>"
    have h2: "heap_inv s2" "heap_live s2 = insert t (heap_live s)" using pointer by (auto simp: s2_def)
    have f2: "tasks s2 = (tasks s)(t \<mapsto> tk)" "task_queue s2 = task_queue s" "current_task s2 = current_task s"
      "next_tid s2 = next_tid s + 1" using fr by (auto simp: s2_def)
    note unf = task_fork_def pointer(1,2) fr cur tk_def s2_def
    from h2(1) sizes_fit(2) show thesis
    proof (cases rule: heap.alloc_cases)
      case (null s3)
      note fr3 = kmalloc_sched [OF null(1)]
      have "t \<in> heap_live s3" "tasks s3 = (tasks s)(t \<mapsto> tk)" using null(3) h2(2) fr3 f2 by auto
      from free_task_undo [OF null(2) this fresh] obtain s4 where s4: "free_task t s3 = Some s4" "heap_inv s4"
        "heap_live s4 = heap_live s3 - {t}" "tasks s4 = tasks s" "task_queue s4 = task_queue s3"
        "current_task s4 = current_task s3" "next_tid s4 = next_tid s3" by blast
      have "task_fork s = Some (-1, s4)" using null(1) s4(1) by (simp add: unf)
      moreover have "sched_wf s4 ts" by (rule sched_wf_next [OF wf tid]) (use s4 fr3 f2 in auto)
      moreover have live: "heap_live s4 = heap_live s" using s4(3) null(3) h2(2) pointer(4) by auto
      moreover have "sched_own s4" using sched_own_mono [OF own s4(4,2)] live by simp
      ultimately show thesis using s4(4) by (intro fail [of s4]) auto
    next
      case stack: (pointer ks s3)
      note fr3 = kmalloc_sched [OF stack(1)]
      have room: "heap_room s3 ks 0x4000" using stack(6) by (simp add: KERNEL_STACK_SIZE_def)
      define s4 where "s4 = s3\<lparr>kmem := memcpy ks (t_kernel_stack cur) KERNEL_STACK_SIZE (kmem s3)\<rparr>"
      have "agree (- {unat ks..<unat ks + 0x4000}) (kmem s3) (memcpy ks (t_kernel_stack cur) KERNEL_STACK_SIZE (kmem s3))"
        using memcpy_agree [of ks KERNEL_STACK_SIZE] heap_room_bound [OF room] by (simp add: KERNEL_STACK_SIZE_def)
      from heap_write [OF room this] have w: "heap_inv s4" "heap_live s4 = heap_live s3" by (auto simp: s4_def)
      have t4: "tasks s4 = (tasks s)(t \<mapsto> tk)" "task_queue s4 = task_queue s" "current_task s4 = current_task s"
        "next_tid s4 = next_tid s + 1" using fr3 f2 by (auto simp: s4_def)
      have d: "ks \<noteq> t" "ks \<notin> heap_live s" "heap_live s4 = {ks, t} \<union> heap_live s"
        using stack(4,5) h2(2) w(2) by auto
      have fin: thesis if "task_fork s = Some (next_tid s, s')" "heap_inv s'" "tasks s' = (tasks s)(t \<mapsto> fork_task s cur ks us)"
        "task_queue s' = t" "current_task s' = current_task s" "next_tid s' = next_tid s + 1"
        "heap_live s' = heap_live s4 \<union> (if us = 0 then {} else {us})" "us \<noteq> 0 \<Longrightarrow> us \<notin> heap_live s4"
        "t_kernel_mode cur \<longrightarrow> us = 0" for us s'
      proof -
        let ?k = "fork_task s cur ks us"
        have o: "set (owned t ?k) = {t, ks} \<union> (if us = 0 then {} else {us})" "distinct (owned t ?k)"
          using stack(2) d that(8) by (auto simp: owned_def fork_task_def)
        have wf': "sched_wf s' (t # ts)"
          by (rule sched_wf_add [OF wf pointer(2) fresh tid, of ?k]) (use that in \<open>auto simp: fork_task_def\<close>)
        have live: "heap_live s' = heap_live s \<union> set (owned t ?k)" using that(7) d(3) o(1) by auto
        have dis: "set (owned t ?k) \<inter> heap_live s = {}" using o(1) d pointer(4) that(8) by auto
        have "sched_own s'"
          by (rule sched_own_add [OF own that(2,3) dis o(2) live]) (use that(9) in \<open>simp add: fork_task_def\<close>)
        then show thesis using child [OF that(1) pointer(2) wf' _ fresh that(3) live dis stack(2)] by blast
      qed
      show thesis
      proof (cases "\<not> t_kernel_mode cur \<and> t_user_stack cur \<noteq> 0")
        case False
        then have z: "t_user_stack cur = 0" using km by auto
        let ?s = "s4\<lparr>tasks := (tasks s)(t \<mapsto> fork_task s cur ks 0), task_queue := t\<rparr>"
        have f: "task_fork s = Some (next_tid s, ?s)"
          unfolding fork_task_kernel [OF z] using z stack(1,2) t4 fr3 by (simp add: unf s4_def Let_def)
        show thesis by (rule fin [where us = 0, OF f]) (use w(1) t4 in auto)
      next
        case True
        from w(1) sizes_fit(3) show thesis
        proof (cases rule: heap.alloc_cases)
          case (null s5)
          note fr5 = kmalloc_sched [OF null(1)]
          have "ks \<in> heap_live s5" using null(3) d(3) by simp
          then obtain s6 where s6: "kfree ks s5 = Some s6" "heap_inv s6" "heap_live s6 = heap_live s5 - {ks}"
            using heap.free_cases [OF null(2)] by metis
          note fr6 = kfree_sched [OF s6(1)]
          have "t \<in> heap_live s6" "tasks s6 = (tasks s)(t \<mapsto> tk)" using s6(3) null(3) d t4(1) fr5 fr6 by auto
          from free_task_undo [OF s6(2) this fresh] obtain s7 where s7: "free_task t s6 = Some s7" "heap_inv s7"
            "heap_live s7 = heap_live s6 - {t}" "tasks s7 = tasks s" "task_queue s7 = task_queue s6"
            "current_task s7 = current_task s6" "next_tid s7 = next_tid s6" by blast
          have "task_fork s = Some (-1, s7)"
            using stack(1,2) null(1) s6(1) s7(1) True by (simp add: unf s4_def Let_def)
          moreover have "sched_wf s7 ts" by (rule sched_wf_next [OF wf tid]) (use s7 fr5 fr6 t4 in auto)
          moreover have live: "heap_live s7 = heap_live s" using s7(3) s6(3) null(3) d pointer(4) by auto
          moreover have "sched_own s7" using sched_own_mono [OF own s7(4,2)] live by simp
          ultimately show thesis using s7(4) by (intro fail [of s7]) auto
        next
          case us: (pointer us s5)
          note fr5 = kmalloc_sched [OF us(1)]
          let ?m = "memcpy us (t_user_stack cur) USER_STACK_SIZE (kmem s5)"
          have room5: "heap_room s5 us 0x4000" using us(6) by (simp add: USER_STACK_SIZE_def)
          have "agree (- {unat us..<unat us + 0x4000}) (kmem s5) ?m"
            using memcpy_agree [of us USER_STACK_SIZE] heap_room_bound [OF room5] by (simp add: USER_STACK_SIZE_def)
          note w5 = heap_write [OF room5 this]
          let ?s = "s5\<lparr>kmem := ?m, tasks := (tasks s)(t \<mapsto> fork_task s cur ks us), task_queue := t\<rparr>"
          have f: "task_fork s = Some (next_tid s, ?s)"
            using True stack(1,2) us(1,2) t4 fr3 fr5 by (simp add: unf s4_def fork_task_def Let_def)
          show thesis by (rule fin [OF f]) (use True us(2,4,5) w5 t4 fr5 in simp_all)
        qed
      qed
    qed
  qed
qed

section \<open>Waiting for a child\<close>

text \<open>The tests of \<^verbatim>\<open>task_wait\<close> on a task: a child the caller waits for, and one that has exited.\<close>

definition awaited :: "u32 \<Rightarrow> u32 \<Rightarrow> task \<Rightarrow> bool" where
  "awaited ppid pid t \<longleftrightarrow> t_parent_pid t = ppid \<and> (pid = -1 \<or> t_pid t = pid)"

lemma task_wait_pass_cases:
  fixes s :: "'a sched_state_scheme"
  assumes wf: "sched_wf s ts" and own: "sched_own s" and cur: "tasks s (current_task s) = Some cur"
    and run: "t_state cur \<noteq> TASK_ZOMBIE"
  obtains (reap) z t s' where "tasks s z = Some t" and "awaited (t_pid cur) pid t" and "t_state t = TASK_ZOMBIE"
      and "z \<noteq> current_task s"
      and "task_wait_pass pid s = Some (WaitReturn (t_pid t) (Some (t_exit_code t)), s')"
      and "sched_wf s' (remove1 z ts)" and "sched_own s'" and "tasks s' z = None"
      and "heap_live s' = heap_live s - set (owned z t)" and "\<forall>q. q \<noteq> z \<longrightarrow> same_task s s' q"
  | (none) "\<forall>p t. tasks s p = Some t \<longrightarrow> \<not> awaited (t_pid cur) pid t"
      and "task_wait_pass pid s = Some (WaitReturn (-1) None, s)"
  | (block) s' where "\<forall>p t. tasks s p = Some t \<and> awaited (t_pid cur) pid t \<longrightarrow> t_state t \<noteq> TASK_ZOMBIE"
      and "\<exists>p t. tasks s p = Some t \<and> awaited (t_pid cur) pid t"
      and "task_wait_pass pid s = Some (WaitBlocked, s')" and "sched_wf s' ts" and "sched_own s'"
      and "schedule (s\<lparr>tasks := (tasks s)(current_task s \<mapsto> cur\<lparr>t_waiting_for := pid, t_state := TASK_BLOCKED\<rparr>)\<rparr>) = Some s'"
proof -
  have c0: "current_task s \<noteq> 0" using cur sched_wf_not_null [OF wf] by auto
  let ?mine = "\<lambda>t. t_parent_pid t = t_pid cur \<and> (pid = -1 \<or> t_pid t = pid)"
  have mine: "?mine t = awaited (t_pid cur) pid t" for t by (simp add: awaited_def)
  have all: "(\<forall>p\<in>set ts. \<not> task_test s P p) \<longleftrightarrow> (\<forall>p t. tasks s p = Some t \<longrightarrow> \<not> P t)" for P
  proof -
    have "p \<in> set ts \<longleftrightarrow> (\<exists>t. tasks s p = Some t)" for p using wf by (auto simp: sched_wf_def)
    then show ?thesis by (auto simp: task_test_def split: option.splits)
  qed
  from wf show thesis
  proof (cases rule: find_task_cases [where P = "\<lambda>t. ?mine t \<and> t_state t = TASK_ZOMBIE"])
    case (task z t)
    have zc: "z \<noteq> current_task s" using task(4,5) cur run by auto
    obtain s' where d: "task_destroy (t_id t) s = Some s'"
      "sched_wf s' (remove1 z ts)" "sched_own s'" "heap_live s' = heap_live s - set (owned z t)" "tasks s' z = None"
      "\<forall>q. q \<noteq> z \<longrightarrow> same_task s s' q" "current_task s' = current_task s" "next_tid s' = next_tid s"
      by (rule task_destroy_found [OF wf own task(4) zc])
    have "task_wait_pass pid s = Some (WaitReturn (t_pid t) (Some (t_exit_code t)), s')"
      using c0 cur task(1,3,4) d(1) by (simp add: task_wait_pass_def Let_def)
    then show thesis using reap [OF task(4)] task(5) mine zc d by blast
  next
    case no: none
    then have nz: "\<forall>p t. tasks s p = Some t \<and> awaited (t_pid cur) pid t \<longrightarrow> t_state t \<noteq> TASK_ZOMBIE"
      using mine unfolding all by blast
    from wf show thesis
    proof (cases rule: find_task_cases [where P = ?mine])
      case none
      then have "task_wait_pass pid s = Some (WaitReturn (-1) None, s)"
        using no(1) c0 cur by (simp add: task_wait_pass_def Let_def)
      moreover have "\<forall>p t. tasks s p = Some t \<longrightarrow> \<not> awaited (t_pid cur) pid t"
        using none(2) mine unfolding all by blast
      ultimately show thesis using that(2) by blast
    next
      case (task q u)
      let ?s = "s\<lparr>tasks := (tasks s)(current_task s \<mapsto> cur\<lparr>t_waiting_for := pid, t_state := TASK_BLOCKED\<rparr>)\<rparr>"
      have w: "sched_wf ?s ts" using sched_wf_upd [OF wf cur] by simp
      then obtain s' where s': "schedule ?s = Some s'" "sched_wf s' ts" using schedule_wf by blast
      have "keeps s ?s" by (rule keeps_upd [OF cur]) (simp add: identity_def)
      then have "sched_own s'" using keeps_own keeps_trans keeps_schedule [OF w s'(1)] own by blast
      moreover have "task_wait_pass pid s = Some (WaitBlocked, s')"
        using no(1) task(1,3) c0 cur s'(1) by (simp add: task_wait_pass_def upd_task_def Let_def)
      moreover have "\<exists>p t. tasks s p = Some t \<and> awaited (t_pid cur) pid t" using task(4,5) mine by blast
      ultimately show thesis using that(3) [OF nz] s' by blast
    qed
  qed
qed

end
