(* ===== verification/Sched_Runs.thy ===== *)
theory Sched_Runs
  imports Sched
begin

text \<open>
  Runs of the scheduler of \<^verbatim>\<open>kernel/sched/sched.c\<close>: the operations as steps of a machine, the invariant of
  the task table and of the ownership of heap memory over every run, and the properties of the
  scheduler.
\<close>

section \<open>Runs of the scheduler\<close>

datatype sched_op =
    Tick | Yield | Block | Unblock u32 | Create u32 u32 u8 bool | Destroy u32 | Exit u32 u32 | Fork | Wait u32

text \<open>
  What the callers must ensure: thread ids are not exhausted, a task is not destroyed while it is the
  current one, and the caller of \<^verbatim>\<open>task_wait\<close> has not exited.
\<close>

fun allowed :: "sched_op \<Rightarrow> 'a sched_state_scheme \<Rightarrow> bool" where
  "allowed (Create ue entry_addr pr kmode) s \<longleftrightarrow> next_tid s \<noteq> -1"
| "allowed Fork s \<longleftrightarrow> next_tid s \<noteq> -1"
| "allowed (Destroy tid) s \<longleftrightarrow> \<not> task_test s (\<lambda>t. t_id t = tid) (current_task s)"
| "allowed (Wait pid) s \<longleftrightarrow> \<not> task_test s (\<lambda>t. t_state t = TASK_ZOMBIE) (current_task s)"
| "allowed _ s \<longleftrightarrow> True"

fun exec_op :: "sched_op \<Rightarrow> 'a sched_state_scheme \<Rightarrow> 'a sched_state_scheme option" where
  "exec_op Tick s = sched_tick s"
| "exec_op Yield s = sched_yield s"
| "exec_op Block s = sched_block s"
| "exec_op (Unblock tid) s = sched_unblock tid s"
| "exec_op (Create ue entry_addr pr kmode) s = map_option snd (task_create ue entry_addr pr kmode s)"
| "exec_op (Destroy tid) s = task_destroy tid s"
| "exec_op (Exit tid code) s = task_exit tid code s"
| "exec_op Fork s = map_option snd (task_fork s)"
| "exec_op (Wait pid) s = map_option snd (task_wait_pass pid s)"

inductive sched_reach :: "'a sched_state_scheme \<Rightarrow> 'a sched_state_scheme \<Rightarrow> bool" for s0 where
  start: "sched_reach s0 s0"
| step: "sched_reach s0 s \<Longrightarrow> allowed op s \<Longrightarrow> exec_op op s = Some s' \<Longrightarrow> sched_reach s0 s'"

definition sched_inv :: "'a sched_state_scheme \<Rightarrow> bool" where
  "sched_inv s \<longleftrightarrow> (\<exists>ts. sched_wf s ts) \<and> sched_own s"

lemma exec_op_inv:
  assumes "sched_inv s" and "allowed op s"
  shows "\<exists>s'. exec_op op s = Some s' \<and> sched_inv s'"
proof -
  obtain ts where wf: "sched_wf s ts" and own: "sched_own s" using assms(1) by (auto simp: sched_inv_def)
  have inv: "sched_inv s'" if "sched_wf s' us \<and> sched_own s'" for s' :: "'a sched_state_scheme" and us
    using that by (auto simp: sched_inv_def)
  show ?thesis
  proof (cases op)
    case Tick
    then show ?thesis using sched_tick_wf [OF wf] sched_tick_inv [OF wf own] inv by fastforce
  next
    case Yield
    then show ?thesis
      using schedule_wf [OF wf] keeps_schedule [OF wf] keeps_own own inv by (fastforce simp: sched_yield_def)
  next
    case Block
    then show ?thesis using sched_block_wf [OF wf] sched_block_inv [OF wf own] inv by fastforce
  next
    case (Unblock tid)
    then show ?thesis using sched_unblock_wf [OF wf, of tid] sched_unblock_inv [OF wf own] inv by fastforce
  next
    case (Create ue entry_addr pr kmode)
    then have "next_tid s \<noteq> -1" using assms(2) by simp
    with wf own show ?thesis
      by (cases rule: task_create_cases [where ue = ue and entry_addr = entry_addr and pr = pr and kmode = kmode])
        (use Create inv in auto)
  next
    case (Destroy tid)
    show ?thesis
    proof (cases "\<exists>p t. tasks s p = Some t \<and> t_id t = tid")
      case True
      then obtain p t where p: "tasks s p = Some t" "t_id t = tid" by blast
      then have "p \<noteq> current_task s" using Destroy assms(2) by (auto simp: task_test_def)
      then obtain s' where "task_destroy (t_id t) s = Some s'" "sched_wf s' (remove1 p ts)" "sched_own s'"
        using task_destroy_found [OF wf own p(1)] by metis
      then show ?thesis using Destroy p(2) inv by auto
    next
      case False
      then have "\<forall>p\<in>set ts. \<not> task_test s (\<lambda>t. t_id t = tid) p" by (auto simp: task_test_def split: option.splits)
      then have "task_destroy tid s = Some s"
        using chain_find_prev_none [OF sched_wf_chain [OF wf]] by (simp add: task_destroy_def)
      then show ?thesis using Destroy assms(1) by simp
    qed
  next
    case (Exit tid code)
    then show ?thesis using task_exit_wf [OF wf, of tid code] task_exit_inv [OF wf own] inv by fastforce
  next
    case Fork
    show ?thesis
    proof (cases "current_task s = 0")
      case True
      then show ?thesis using Fork assms(1) by (simp add: task_fork_def)
    next
      case False
      then obtain c where "tasks s (current_task s) = Some c" using sched_wf_current [OF wf] by blast
      moreover have "next_tid s \<noteq> -1" using Fork assms(2) by simp
      ultimately show ?thesis using wf own False
        by (cases rule: task_fork_cases [OF wf own _ False]) (use Fork inv in auto)
    qed
  next
    case (Wait pid)
    show ?thesis
    proof (cases "current_task s = 0")
      case True
      then show ?thesis using Wait assms(1) by (simp add: task_wait_pass_def)
    next
      case False
      then obtain c where c: "tasks s (current_task s) = Some c" using sched_wf_current [OF wf] by blast
      then have "t_state c \<noteq> TASK_ZOMBIE" using Wait assms(2) by (simp add: task_test_def)
      with wf own c show ?thesis
        by (cases rule: task_wait_pass_cases [where pid = pid]) (use Wait inv assms(1) in auto)
    qed
  qed
qed

section \<open>Concrete task tables\<close>

text \<open>The state after \<open>heap_init\<close> and \<open>sched_init\<close>, and a queue of three tasks of equal priority.\<close>

definition sched_boot :: sched_state where
  "sched_boot = sched_init (snd (heap_init 0x100000 0x80000
     (heap_state.extend heap_demo (sched_state.fields Map.empty 0 0 0 0 0 []))))"

definition demo_task :: "u32 \<Rightarrow> task_status \<Rightarrow> u32 \<Rightarrow> task" where
  "demo_task tid st nx = zero_task\<lparr>t_id := tid, t_pid := tid, t_parent_pid := 1, t_state := st, t_priority := 5,
     t_time_slice := 10, t_kernel_mode := True, t_next := nx\<rparr>"

definition sched_demo :: sched_state where
  "sched_demo = sched_boot\<lparr>tasks := [0x300 \<mapsto> demo_task 3 TASK_RUNNING 0x200, 0x200 \<mapsto> demo_task 2 TASK_READY 0x100,
     0x100 \<mapsto> demo_task 1 TASK_READY 0], task_queue := 0x300, current_task := 0x300, next_tid := 4\<rparr>"

lemma sched_boot_wf: "sched_wf sched_boot []"
  by (simp add: sched_boot_def sched_init_def sched_wf_def sched_state.defs heap_state.defs heap_init_def)

lemma sched_boot_inv: "sched_inv sched_boot"
proof -
  have "heap_blocks sched_boot [(0x80000 - 12, False)]"
    using heap_init_ok [of "0x100000" "0x80000"
      "heap_state.extend heap_demo (sched_state.fields Map.empty 0 0 0 0 0 []) :: sched_state"]
    by (simp add: sched_boot_def sched_init_def heap_blocks_def)
  then have "heap_inv sched_boot" by (auto simp: heap_inv_def)
  moreover have "tasks sched_boot = Map.empty"
    by (simp add: sched_boot_def sched_init_def sched_state.defs heap_state.defs heap_init_def)
  ultimately have "sched_own sched_boot" by (simp add: sched_own_def)
  then show ?thesis using sched_boot_wf by (auto simp: sched_inv_def)
qed

lemmas demo_simps = sched_demo_def demo_task_def zero_task_def

lemma sched_demo_wf: "sched_wf sched_demo [0x300, 0x200, 0x100]"
  unfolding sched_wf_def by (auto simp: demo_simps task_next_def split: if_splits)

section \<open>The scheduling decision\<close>

text \<open>
  C2: \<open>schedule\<close> always returns on a well-formed task table. When no task is ready it changes nothing.
  Otherwise it runs the first task of highest priority among the ready ones, with a fresh quantum of
  ten ticks; the task that was running becomes ready, every other task is unchanged, the TSS gets the
  kernel stack of the new task, and the context is switched exactly when the task changes. The table
  stays well-formed.
\<close>

theorem schedule_correct:
  assumes "sched_wf s ts"
  shows "\<exists>s'. schedule s = Some s' \<and> sched_wf s' ts \<and>
    (if \<forall>q\<in>set ts. \<not> ready s q then s' = s
     else \<exists>p t. choice s ts p \<and> tasks s p = Some t \<and> current_task s' = p \<and>
       tasks s' p = Some (t\<lparr>t_state := TASK_RUNNING, t_time_slice := 10\<rparr>) \<and>
       (\<forall>q. q \<noteq> p \<longrightarrow> tasks s' q = map_option (\<lambda>u. if q = current_task s \<and> t_state u = TASK_RUNNING
          then u\<lparr>t_state := TASK_READY\<rparr> else u) (tasks s q)) \<and>
       tss_esp0 s' = (if t_kernel_stack t \<noteq> 0 then t_kernel_stack t + KERNEL_STACK_SIZE else tss_esp0 s) \<and>
       switches s' = (if current_task s \<noteq> p then switches s @ [(current_task s, p)] else switches s))"
proof (cases "\<forall>q\<in>set ts. \<not> ready s q")
  case True
  then show ?thesis using schedule_none [OF assms True] assms by simp
next
  case False
  then obtain p where p: "choice s ts p" "schedule s = Some (switch_to p s)"
    using schedule_switch [OF assms] by blast
  then obtain t where t: "tasks s p = Some t" using choice_in sched_wf_task [OF assms] by blast
  then have "tasks s p \<noteq> None" by simp
  note sw = switch_to_task [OF this] switch_to_current [OF this]
  have "tss_esp0 (switch_to p s) = (if t_kernel_stack t \<noteq> 0 then t_kernel_stack t + KERNEL_STACK_SIZE else tss_esp0 s)"
    "switches (switch_to p s) = (if current_task s \<noteq> p then switches s @ [(current_task s, p)] else switches s)"
    using t by (simp_all add: switch_to_def)
  moreover have "sched_wf (switch_to p s) ts" using sched_wf_switch [OF assms] p(1) choice_in by blast
  ultimately show ?thesis
    unfolding if_not_P [OF False] using p t sw
    by (intro exI [of _ "switch_to p s"] conjI exI [of _ p] exI [of _ t]) simp_all
qed

theorem schedule_correct_witness:
  "\<exists>s'. schedule sched_demo = Some s' \<and> current_task s' = 0x200 \<and> switches s' = [(0x300, 0x200)]"
proof -
  obtain s' p where s': "schedule sched_demo = Some s'" "choice sched_demo [0x300, 0x200, 0x100] p"
    "current_task s' = p"
    "switches s' = (if current_task sched_demo \<noteq> p then switches sched_demo @ [(current_task sched_demo, p)]
       else switches sched_demo)"
    using schedule_correct [OF sched_demo_wf]
    by (auto simp: ready_def task_test_def demo_simps split: if_splits)
  have "p = 0x200"
    using s'(2) unfolding choice_def ready_def task_test_def prio_def
    by (auto simp: demo_simps append_eq_Cons_conv Cons_eq_append_conv)
  moreover have "current_task sched_demo = 0x300" "switches sched_demo = []"
    by (simp_all add: sched_demo_def sched_boot_def sched_init_def sched_state.defs heap_state.defs heap_init_def)
  ultimately show ?thesis using s' by simp
qed

section \<open>Sequences of steps\<close>

fun run_ops :: "sched_op list \<Rightarrow> 'a sched_state_scheme \<Rightarrow> 'a sched_state_scheme option" where
  "run_ops [] s = Some s"
| "run_ops (op # ops) s = do { s \<leftarrow> exec_op op s; run_ops ops s }"

text \<open>
  A task \<open>c\<close> that waits behind two others that are runnable and of no lower priority: it is ready but
  not the current task, and one of the two is always ready too.
\<close>

definition runnable :: "task \<Rightarrow> bool" where
  "runnable t \<longleftrightarrow> t_state t = TASK_RUNNING \<or> t_state t = TASK_READY"

definition shadowed :: "'a sched_state_scheme \<Rightarrow> u32 list \<Rightarrow> u32 \<Rightarrow> u32 \<Rightarrow> u32 \<Rightarrow> bool" where
  "shadowed s ts a b c \<longleftrightarrow> sched_wf s ts \<and> a \<noteq> b \<and>
     (\<exists>pre suf. ts = pre @ c # suf \<and> a \<in> set pre \<and> b \<in> set pre) \<and>
     (\<forall>x\<in>{a, b}. task_test s runnable x \<and> prio s c \<le> prio s x) \<and>
     ready s c \<and> current_task s \<noteq> c"

lemma shadowed_ready:
  assumes "shadowed s ts a b c"
  shows "\<exists>x\<in>{a, b}. ready s x"
proof -
  have "x = current_task s" if "task_test s (\<lambda>t. t_state t = TASK_RUNNING) x" for x
    using that assms by (auto simp: shadowed_def sched_wf_def task_test_def split: option.splits)
  from this [of a] this [of b] show ?thesis
    using assms by (auto simp: shadowed_def ready_def task_test_def runnable_def split: option.splits)
qed

lemma shadowed_not_chosen:
  assumes "shadowed s ts a b c" and "choice s ts p"
  shows "p \<noteq> c"
proof
  assume pc: "p = c"
  obtain pre suf where ts: "ts = pre @ c # suf" "a \<in> set pre" "b \<in> set pre"
    and pr: "\<forall>x\<in>{a, b}. prio s c \<le> prio s x" and wf: "sched_wf s ts"
    using assms(1) by (auto simp: shadowed_def)
  obtain pre' suf' where ts': "ts = pre' @ c # suf'" "\<forall>q\<in>set pre'. ready s q \<longrightarrow> prio s q < prio s c"
    using assms(2) pc by (auto simp: choice_def)
  have "distinct ts" using chain_distinct [OF sched_wf_chain [OF wf]] .
  then have "c \<notin> set pre" "c \<notin> set suf" using ts(1) by auto
  then have "pre' = pre" using append_Cons_eq_iff [of c pre suf pre' suf'] ts(1) ts'(1) by simp
  then show False using shadowed_ready [OF assms(1)] ts(2,3) ts'(2) pr by fastforce
qed

text \<open>Steps that change the states only between running and ready, and leave \<open>c\<close> alone.\<close>

lemma shadowed_step:
  assumes "shadowed s ts a b c" and "sched_wf s' ts" and "current_task s' \<noteq> c" and "tasks s' c = tasks s c"
    and "\<And>q t. tasks s q = Some t \<Longrightarrow> \<exists>u. tasks s' q = Some u \<and> t_priority u = t_priority t \<and> (runnable t \<longrightarrow> runnable u)"
  shows "shadowed s' ts a b c"
proof -
  have pr: "prio s' x = prio s x \<and> task_test s' runnable x" if "task_test s runnable x" for x
    using that assms(5) [of x] by (auto simp: prio_def task_test_def split: option.splits)
  have "prio s' c = prio s c" "ready s' c = ready s c"
    using assms(4) by (simp_all add: prio_def ready_def task_test_def)
  then show ?thesis using assms(1-3) pr unfolding shadowed_def by metis
qed

lemma shadowed_schedule:
  assumes "shadowed s ts a b c"
  shows "\<exists>s'. schedule s = Some s' \<and> shadowed s' ts a b c"
proof -
  have wf: "sched_wf s ts" and cc: "current_task s \<noteq> c" and "ready s c" "c \<in> set ts" using assms by (auto simp: shadowed_def)
  then obtain p where p: "choice s ts p" "schedule s = Some (switch_to p s)" using schedule_switch [OF wf] by blast
  have pc: "p \<noteq> c" by (rule shadowed_not_chosen [OF assms p(1)])
  have "tasks s p \<noteq> None" using choice_in [OF p(1)] sched_wf_task [OF wf] by auto
  note sw = switch_to_task [OF this] switch_to_current [OF this]
  have "shadowed (switch_to p s) ts a b c"
  proof (rule shadowed_step [OF assms])
    show "sched_wf (switch_to p s) ts" using sched_wf_switch [OF wf] choice_in [OF p(1)] by blast
    show "current_task (switch_to p s) \<noteq> c" using sw(2) pc by simp
    show "tasks (switch_to p s) c = tasks s c" using sw(1) [of c] pc cc by (simp add: option.map_ident)
    show "\<exists>u. tasks (switch_to p s) q = Some u \<and> t_priority u = t_priority t \<and> (runnable t \<longrightarrow> runnable u)"
      if "tasks s q = Some t" for q t using sw(1) [of q] that by (simp add: runnable_def)
  qed
  then show ?thesis using p(2) by blast
qed

text \<open>The charge of one tick to the current task.\<close>

definition charge :: "task \<Rightarrow> task" where
  "charge t = t\<lparr>t_cpu_ticks := t_cpu_ticks t + 1,
     t_time_slice := (if t_time_slice t > 0 then t_time_slice t - 1 else t_time_slice t)\<rparr>"

definition charged :: "'a sched_state_scheme \<Rightarrow> 'a sched_state_scheme" where
  "charged s = s\<lparr>tick_count := tick_count s + 1,
     tasks := (tasks s)(current_task s := map_option charge (tasks s (current_task s)))\<rparr>"

lemma charged_wf: "sched_wf s ts \<Longrightarrow> sched_wf (charged s) ts"
proof -
  assume wf: "sched_wf s ts"
  have w: "sched_wf (s\<lparr>tick_count := n\<rparr>) ts" for n using wf sched_wf_frame [of "s\<lparr>tick_count := n\<rparr>" s ts] by simp
  show ?thesis
  proof (cases "tasks s (current_task s)")
    case None
    then show ?thesis using w by (simp add: charged_def fun_upd_idem)
  next
    case (Some t)
    then show ?thesis
      using sched_wf_upd [OF w [of "tick_count s + 1"], of "current_task s" t "charge t"]
      by (simp add: charged_def charge_def)
  qed
qed

lemma sched_tick_charge:
  assumes "sched_wf s ts"
  shows "sched_tick s = (if task_test (charged s) (\<lambda>t. t_time_slice t = 0) (current_task s)
    then schedule (charged s) else Some (charged s))"
proof (cases "current_task s = 0")
  case True
  then have "tasks s (current_task s) = None" using sched_wf_not_null [OF assms] by simp
  then show ?thesis using True
    by (simp add: sched_tick_def charged_def task_test_def fun_upd_idem Let_def)
next
  case False
  then obtain t where "tasks s (current_task s) = Some t" using sched_wf_current [OF assms] by blast
  then show ?thesis using False
    by (simp add: sched_tick_def charged_def charge_def task_test_def upd_task_def Let_def)
qed

lemma shadowed_tick:
  assumes "shadowed s ts a b c"
  shows "\<exists>s'. sched_tick s = Some s' \<and> shadowed s' ts a b c"
proof -
  have wf: "sched_wf s ts" and cc: "current_task s \<noteq> c" using assms by (auto simp: shadowed_def)
  have "\<exists>u. tasks (charged s) q = Some u \<and> t_priority u = t_priority t \<and> (runnable t \<longrightarrow> runnable u)"
    if "tasks s q = Some t" for q t
    using that by (cases "q = current_task s") (simp_all add: charged_def charge_def runnable_def)
  then have "shadowed (charged s) ts a b c"
    by (rule shadowed_step [OF assms charged_wf [OF wf], rotated 2]) (use cc in \<open>simp_all add: charged_def\<close>)
  then show ?thesis using shadowed_schedule sched_tick_charge [OF wf] by fastforce
qed

text \<open>
  C40: The scheduler is not fair among tasks of equal priority. A ready task that stands in the queue
  behind two runnable tasks of the same (or a higher) priority is never run, however many timer ticks
  and yields happen: the first two alternate for ever.
\<close>

theorem schedule_starves:
  assumes "shadowed s ts a b c" and "set ops \<subseteq> {Tick, Yield}"
  shows "\<exists>s'. run_ops ops s = Some s' \<and> ready s' c \<and> current_task s' \<noteq> c"
proof -
  have "\<exists>s'. run_ops ops s = Some s' \<and> shadowed s' ts a b c"
    using assms
  proof (induction ops arbitrary: s)
    case (Cons op ops)
    then obtain s' where "exec_op op s = Some s'" "shadowed s' ts a b c"
      using shadowed_tick [OF Cons.prems(1)] shadowed_schedule [OF Cons.prems(1)] by (auto simp: sched_yield_def)
    then show ?case using Cons by simp
  qed simp
  then show ?thesis by (auto simp: shadowed_def)
qed

theorem schedule_starves_witness:
  "\<exists>s'. run_ops (replicate 1000 Tick) sched_demo = Some s' \<and> ready s' 0x100 \<and> current_task s' \<noteq> 0x100"
proof -
  have "shadowed sched_demo [0x300, 0x200, 0x100] 0x300 0x200 0x100"
    unfolding shadowed_def
  proof (intro conjI)
    show "\<exists>pre suf. [0x300, 0x200, 0x100] = pre @ 0x100 # suf \<and> (0x300 :: u32) \<in> set pre \<and> 0x200 \<in> set pre"
      by (intro exI [of _ "[0x300, 0x200]"] exI [of _ "[]"]) simp
  qed (simp_all add: sched_demo_wf, simp_all add: task_test_def runnable_def ready_def prio_def demo_simps)
  then show ?thesis by (rule schedule_starves) simp
qed

text \<open>
  C1: In every state reached from a sound one by any interleaving of ticks, yields, blocks, unblocks,
  creations, forks, exits, waits and destructions that the callers are allowed to make, the task
  table is well-formed, every task owns its own live heap blocks, and every further step returns: no
  queue walk runs for ever and no freed or null task structure is read.
\<close>

theorem sched_runs_safe:
  assumes "sched_inv s0" and "sched_reach s0 s"
  shows "sched_inv s \<and> (\<forall>op. allowed op s \<longrightarrow> (\<exists>s'. exec_op op s = Some s' \<and> sched_inv s'))"
proof
  show "sched_inv s" using assms(2,1)
  proof (induction rule: sched_reach.induct)
    case (step s op s')
    then show ?case using exec_op_inv [of s op] by auto
  qed
  then show "\<forall>op. allowed op s \<longrightarrow> (\<exists>s'. exec_op op s = Some s' \<and> sched_inv s')" using exec_op_inv by blast
qed

theorem sched_runs_safe_witness:
  "\<exists>s. exec_op (Create 0x5000 0x6000 3 False) sched_boot = Some s \<and> sched_inv s \<and>
     (\<exists>s'. exec_op Tick s = Some s' \<and> sched_inv s')"
proof -
  have a: "allowed (Create 0x5000 0x6000 3 False) sched_boot"
    by (simp add: sched_boot_def sched_init_def)
  obtain s where s: "exec_op (Create 0x5000 0x6000 3 False) sched_boot = Some s" "sched_inv s"
    using sched_runs_safe [OF sched_boot_inv sched_reach.start] a by blast
  have "sched_reach sched_boot s" by (rule sched_reach.step [OF sched_reach.start a s(1)])
  from sched_runs_safe [OF sched_boot_inv this] have "\<exists>s'. exec_op Tick s = Some s' \<and> sched_inv s'"
    using allowed.simps(5) by blast
  then show ?thesis using s by blast
qed

section \<open>The quantum\<close>

lemma run_ops_append: "run_ops (xs @ ys) s = do { s \<leftarrow> run_ops xs s; run_ops ys s }"
proof (induction xs arbitrary: s)
  case (Cons op xs)
  then show ?case by (cases "exec_op op s") simp_all
qed simp

text \<open>The state after \<open>n\<close> ticks charged to the current task \<open>t\<close>.\<close>

definition ticked :: "nat \<Rightarrow> task \<Rightarrow> 'a sched_state_scheme \<Rightarrow> 'a sched_state_scheme" where
  "ticked n t s = s\<lparr>tick_count := tick_count s + of_nat n,
     tasks := (tasks s)(current_task s \<mapsto> t\<lparr>t_cpu_ticks := t_cpu_ticks t + of_nat n,
       t_time_slice := t_time_slice t - of_nat n\<rparr>)\<rparr>"

lemma unat_of_nat_le: "n \<le> unat w \<Longrightarrow> unat (of_nat n :: u32) = n" for w :: u32
proof -
  assume "n \<le> unat w"
  also have "unat w < 2 ^ LENGTH(32)" by (rule unsigned_less)
  finally show ?thesis by (rule unat_of_nat_small)
qed

lemma ticked_Suc:
  assumes "tasks s (current_task s) = Some t" and "n < unat (t_time_slice t)"
  shows "charged (ticked n t s) = ticked (Suc n) t s"
proof -
  have "of_nat n < t_time_slice t" using assms(2) unat_of_nat_le [of n "t_time_slice t"] by (simp add: word_less_nat_alt)
  then have "0 < t_time_slice t - of_nat n" by (simp add: word_gt_0)
  then show ?thesis by (simp add: ticked_def charged_def charge_def algebra_simps)
qed

lemma ticks_run:
  assumes "sched_wf s ts" and "tasks s (current_task s) = Some t" and "n < unat (t_time_slice t)"
  shows "run_ops (replicate n Tick) s = Some (ticked n t s) \<and> sched_wf (ticked n t s) ts"
  using assms(3)
proof (induction n)
  case 0
  have "ticked 0 t s = s" using assms(2) by (simp add: ticked_def fun_upd_idem)
  then show ?case using assms(1) by simp
next
  case (Suc n)
  then have n: "n < unat (t_time_slice t)" and wf: "sched_wf (ticked n t s) ts" by simp_all
  have c: "charged (ticked n t s) = ticked (Suc n) t s" by (rule ticked_Suc [OF assms(2) n])
  have "unat (of_nat (Suc n) :: u32) = Suc n" by (rule unat_of_nat_le [of _ "t_time_slice t"]) (use Suc.prems in simp)
  then have "t_time_slice t \<noteq> of_nat (Suc n)" using Suc.prems by (metis less_irrefl)
  then have "\<not> task_test (ticked (Suc n) t s) (\<lambda>t. t_time_slice t = 0) (current_task (ticked n t s))"
    by (simp add: task_test_def ticked_def)
  then have "sched_tick (ticked n t s) = Some (ticked (Suc n) t s)"
    using sched_tick_charge [OF wf] c by simp
  then show ?case
    using Suc.IH n charged_wf [OF wf] c run_ops_append [of "replicate n Tick" "[Tick]" s]
    by (simp add: replicate_append_same)
qed

text \<open>
  A running task keeps the processor for its whole quantum. After \<open>n\<close> ticks with \<open>n\<close> below its time
  slice it is still current, its slice is down by \<open>n\<close>, it was charged \<open>n\<close> ticks, and nothing else
  changed; the tick that uses up the slice calls \<open>schedule\<close>.
\<close>

theorem tick_quantum:
  assumes "sched_wf s ts" and "tasks s (current_task s) = Some t" and "n < unat (t_time_slice t)"
  shows "run_ops (replicate n Tick) s = Some (ticked n t s) \<and>
    run_ops (replicate (unat (t_time_slice t)) Tick) s = schedule (ticked (unat (t_time_slice t)) t s)"
proof -
  obtain m where m: "unat (t_time_slice t) = Suc m" using assms(3) by (cases "unat (t_time_slice t)") auto
  then have r: "run_ops (replicate m Tick) s = Some (ticked m t s)" "sched_wf (ticked m t s) ts"
    using ticks_run [OF assms(1,2), of m] by simp_all
  have c: "charged (ticked m t s) = ticked (Suc m) t s" using ticked_Suc [OF assms(2), of m] m by simp
  have "of_nat (Suc m) = t_time_slice t" by (metis m word_unat_eq_iff unat_of_nat_le order_refl)
  then have "task_test (ticked (Suc m) t s) (\<lambda>t. t_time_slice t = 0) (current_task (ticked m t s))"
    by (simp add: task_test_def ticked_def)
  then have "sched_tick (ticked m t s) = schedule (ticked (Suc m) t s)"
    using sched_tick_charge [OF r(2)] c by simp
  then have "run_ops (replicate (Suc m) Tick) s = schedule (ticked (Suc m) t s)"
    using r(1) run_ops_append [of "replicate m Tick" "[Tick]" s]
    by (cases "schedule (ticked (Suc m) t s)") (simp_all add: replicate_append_same)
  then show ?thesis using ticks_run [OF assms] m by simp
qed

theorem tick_quantum_witness:
  "\<exists>s'. run_ops (replicate 9 Tick) sched_demo = Some s' \<and> current_task s' = 0x300 \<and> tick_count s' = 9"
proof -
  have t: "tasks sched_demo (current_task sched_demo) = Some (demo_task 3 TASK_RUNNING 0x200)" "tick_count sched_demo = 0"
    "current_task sched_demo = 0x300"
    by (simp_all add: sched_demo_def sched_boot_def sched_init_def)
  have "9 < unat (t_time_slice (demo_task 3 TASK_RUNNING 0x200))" by (simp add: demo_task_def)
  from tick_quantum [OF sched_demo_wf t(1) this] show ?thesis by (simp add: ticked_def t(2,3))
qed

section \<open>A parent and its child\<close>

text \<open>Two task structures taken from the heap: the running task 1 and its ready child 2.\<close>

definition with_family :: "u32 \<Rightarrow> u32 \<Rightarrow> sched_state \<Rightarrow> sched_state" where
  "with_family p c s = s\<lparr>tasks := [c \<mapsto> demo_task 2 TASK_READY p, p \<mapsto> demo_task 1 TASK_RUNNING 0],
     task_queue := c, current_task := p, next_tid := 3\<rparr>"

definition sched_family :: sched_state where
  "sched_family = the (do { (p, s) \<leftarrow> kmalloc sizeof_task sched_boot; (c, s) \<leftarrow> kmalloc sizeof_task s; Some (with_family p c s) })"

lemma kmalloc_task_tail:
  assumes "heap_blocks s bs" and "bs = [] @ [(n, False)] \<or> bs = [(100, True), (n, False)]" and "128 \<le> n"
  obtains p s' where "kmalloc sizeof_task s = Some (p, s')" and "p \<noteq> 0" and "heap_blocks s' (butlast bs @ [(100, True), (n - 112, False)])"
proof -
  have f: "unat sizeof_task \<le> 0xFFFFFFFC" "sizeof_task \<noteq> 0" by (simp_all add: sizeof_task_def)
  have r: "unat (round_up4 sizeof_task) = 100" using round_up4(1) [OF f(1)] by (simp add: sizeof_task_def)
  have mb: "merge_blocks bs = bs" using assms(2) by auto
  from assms(1) f(2,1) show thesis
  proof (cases rule: kmalloc_ok)
    case (fail s')
    then show ?thesis using assms(2,3) r mb by auto
  next
    case (block p s' cs pre k suf)
    then have "pre @ (k, False) # suf = bs" using mb by auto
    then have "pre = butlast bs" "k = n" "suf = []" using assms(2) by (auto simp: append_eq_Cons_conv)
    then show ?thesis using block that r assms(3) by (simp add: split_blk_def)
  qed
qed

lemma sched_family:
  obtains p c where "sched_wf sched_family [c, p]" and "sched_own sched_family" and "current_task sched_family = p"
    and "tasks sched_family p = Some (demo_task 1 TASK_RUNNING 0)"
    and "tasks sched_family c = Some (demo_task 2 TASK_READY p)" and "c \<noteq> p"
proof -
  have b0: "heap_blocks sched_boot [(0x80000 - 12, False)]"
    using heap_init_ok [of "0x100000" "0x80000"
      "heap_state.extend heap_demo (sched_state.fields Map.empty 0 0 0 0 0 []) :: sched_state"]
    by (simp add: sched_boot_def sched_init_def heap_blocks_def)
  obtain p s1 where p: "kmalloc sizeof_task sched_boot = Some (p, s1)" "p \<noteq> 0" "heap_blocks s1 [(100, True), (0x80000 - 124, False)]"
    using kmalloc_task_tail [OF b0, of "0x80000 - 12"] by auto
  obtain c s2 where c: "kmalloc sizeof_task s1 = Some (c, s2)" "c \<noteq> 0"
    by (rule kmalloc_task_tail [OF p(3), of "0x80000 - 124"]) auto
  have i0: "heap_inv sched_boot" and i1: "heap_inv s1" using b0 p(3) by (auto simp: heap_inv_def)
  have fit: "heap_fits sizeof_task" by simp
  have l1: "heap_live s1 = insert p (heap_live sched_boot)"
    using heap.alloc_cases [OF i0 fit] p(1,2) by (metis Pair_inject option.inject)
  have l2: "heap_live s2 = insert c (heap_live s1)" "c \<notin> heap_live s1" "heap_inv s2"
    using heap.alloc_cases [OF i1 fit] c(1,2) by (metis Pair_inject option.inject)+
  have cp: "c \<noteq> p" using l1 l2(2) by auto
  have f: "sched_family = with_family p c s2" using p(1) c(1) by (simp add: sched_family_def)
  have "sched_wf sched_family [c, p]"
    unfolding f with_family_def sched_wf_def using cp p(2) c(2)
    by (auto simp: demo_task_def task_next_def split: if_splits)
  moreover have "sched_own sched_family"
    unfolding f with_family_def sched_own_def using cp l1 l2
    by (auto simp: owned_def demo_task_def zero_task_def split: if_splits)
  ultimately show thesis using cp by (intro that) (simp_all add: f with_family_def)
qed

section \<open>Creation, exit and wait\<close>

text \<open>
  C19: \<open>task_create\<close> either fails and leaves no allocation and no task behind, or puts a new ready task
  at the head of the queue: with the next thread id, ten ticks, the current task as its parent, its
  own kernel stack whose return slot holds the entry_addr point (\<^verbatim>\<open>user_task_entry\<close> for a user task), and a
  user stack exactly for a user task. The blocks it owns are the only new ones and belong to nobody else.
\<close>

theorem task_create_correct:
  assumes "sched_wf s ts" and "sched_own s" and "next_tid s \<noteq> -1"
  shows "\<exists>t s'. task_create ue entry_addr pr kmode s = Some (t, s') \<and> sched_own s' \<and>
    (if t = 0 then sched_wf s' ts \<and> tasks s' = tasks s \<and> heap_live s' = heap_live s
     else \<exists>ppid ks us. let tk = new_task s ppid entry_addr pr kmode ks us in
       sched_wf s' (t # ts) \<and> current_pid s = Some ppid \<and> tasks s' = (tasks s)(t \<mapsto> tk) \<and>
       heap_live s' = heap_live s \<union> set (owned t tk) \<and> set (owned t tk) \<inter> heap_live s = {} \<and>
       ks \<noteq> 0 \<and> (kmode \<longleftrightarrow> us = 0) \<and>
       load32 (kmem s') (ks + KERNEL_STACK_SIZE - 4) = (if kmode then entry_addr else ue))"
  using assms
proof (cases rule: task_create_cases [where ue = ue and entry_addr = entry_addr and pr = pr and kmode = kmode])
  case (fail s')
  then show ?thesis by auto
next
  case (task t s' ppid ks us)
  then show ?thesis unfolding Let_def
    by (intro exI [of _ t] exI [of _ s'] conjI, simp, simp)
      (simp, intro conjI impI exI [of _ ks] exI [of _ us], simp_all)
qed

theorem task_create_correct_witness:
  "\<exists>t s'. task_create 0x5000 0x6000 3 True sched_boot = Some (t, s') \<and> sched_own s' \<and>
     (t \<noteq> 0 \<longrightarrow> (\<exists>tk. tasks s' = [t \<mapsto> tk] \<and> t_id tk = 1 \<and> t_priority tk = 3))"
proof -
  have b: "next_tid sched_boot = 1" "tasks sched_boot = Map.empty"
    by (simp_all add: sched_boot_def sched_init_def sched_state.defs heap_state.defs heap_init_def)
  have own: "sched_own sched_boot" using sched_boot_inv by (simp add: sched_inv_def)
  have tid: "next_tid sched_boot \<noteq> -1" by (simp add: b)
  show ?thesis
    using task_create_correct [OF sched_boot_wf own tid, where ue = "0x5000" and entry_addr = "0x6000" and pr = 3 and kmode = True] b
    by (fastforce simp: Let_def new_task_def)
qed

text \<open>What an exit of \<open>t\<close> does to another task \<open>u\<close>: it wakes the parent that waits for it.\<close>

definition woken :: "task \<Rightarrow> task \<Rightarrow> task" where
  "woken t u = (if t_pid u = t_parent_pid t \<and> t_state u = TASK_BLOCKED \<and> (t_waiting_for u = t_pid t \<or> t_waiting_for u = -1)
     then u\<lparr>t_state := TASK_READY\<rparr> else u)"

lemma sched_wf_pid:
  "sched_wf s ts \<Longrightarrow> tasks s p = Some t \<Longrightarrow> tasks s q = Some u \<Longrightarrow> t_pid t = t_pid u \<Longrightarrow> p = q"
  unfolding sched_wf_def by metis

lemma task_exit_effect:
  assumes wf: "sched_wf s ts" and own: "sched_own s" and t: "tasks s p = Some t"
  shows "\<exists>s'. task_exit (t_id t) code s = Some s' \<and> sched_wf s' ts \<and> sched_own s' \<and> keeps s s' \<and>
    current_task s' = current_task s \<and>
    tasks s' p = Some (t\<lparr>t_state := TASK_ZOMBIE, t_exit_code := code\<rparr>) \<and>
    (\<forall>q. q \<noteq> p \<longrightarrow> tasks s' q = map_option (woken t) (tasks s q))"
  using wf
proof (cases rule: find_task_cases [where P = "\<lambda>u. t_id u = t_id t"])
  case none
  then show ?thesis using t wf by (auto simp: sched_wf_def task_test_def split: option.splits)
next
  case (task p' t')
  then have "p' = p" using wf t unfolding sched_wf_def by metis
  note p = task [unfolded this]
  let ?z = "t\<lparr>t_state := TASK_ZOMBIE, t_exit_code := code\<rparr>"
  let ?s = "s\<lparr>tasks := (tasks s)(p \<mapsto> ?z)\<rparr>"
  have w: "sched_wf ?s ts" using sched_wf_upd [OF wf t, of ?z] by simp
  have k: "keeps s ?s" by (rule keeps_upd [OF t]) (simp add: identity_def)
  have e: "task_exit (t_id t) code s = do {
      par \<leftarrow> task_find (t_parent_pid t) ?s;
      if par \<noteq> 0 \<and> task_test ?s (\<lambda>q. t_state q = TASK_BLOCKED \<and> (t_waiting_for q = t_pid t \<or> t_waiting_for q = -1)) par
      then upd_task par (\<lambda>q. q\<lparr>t_state := TASK_READY\<rparr>) ?s else Some ?s }"
    using p(1-3) t by (simp add: task_exit_def upd_task_def)
  have same: "?thesis" if "task_exit (t_id t) code s = Some ?s"
      and "\<And>q u. q \<noteq> p \<Longrightarrow> tasks s q = Some u \<Longrightarrow> woken t u = u"
  proof -
    have "tasks ?s q = map_option (woken t) (tasks s q)" if "q \<noteq> p" for q
      using that \<open>\<And>q u. q \<noteq> p \<Longrightarrow> tasks s q = Some u \<Longrightarrow> woken t u = u\<close> by (cases "tasks s q") auto
    then show ?thesis using that(1) w k keeps_own [OF k own] by (intro exI [of _ ?s]) simp
  qed
  from w show ?thesis
  proof (cases rule: find_task_cases [where P = "\<lambda>q. t_pid q = t_parent_pid t"])
    case none
    have "t_pid u \<noteq> t_parent_pid t" if "q \<noteq> p" "tasks s q = Some u" for q u
    proof -
      have "q \<in> set ts" using wf that(2) by (auto simp: sched_wf_def)
      then show ?thesis using none(2) that by (auto simp: task_test_def)
    qed
    then show ?thesis using none(1) e by (intro same) (auto simp: task_find_def woken_def)
  next
    case (task par v)
    have un: "q = par" if "tasks s q = Some u" "t_pid u = t_parent_pid t" "q \<noteq> p" for q u
      using sched_wf_pid [OF w, of q u par v] task(4,5) that by simp
    let ?wait = "t_state v = TASK_BLOCKED \<and> (t_waiting_for v = t_pid t \<or> t_waiting_for v = -1)"
    show ?thesis
    proof (cases ?wait)
      case False
      show ?thesis
      proof (rule same)
        show "task_exit (t_id t) code s = Some ?s" using False task(1,4) e by (auto simp: task_find_def task_test_def)
        show "woken t u = u" if "q \<noteq> p" "tasks s q = Some u" for q u
          using un [OF that(2) _ that(1)] task(4) that False by (auto simp: woken_def split: if_splits)
      qed
    next
      case True
      then have pp: "par \<noteq> p" using task(4) by auto
      let ?s' = "?s\<lparr>tasks := (tasks ?s)(par \<mapsto> v\<lparr>t_state := TASK_READY\<rparr>)\<rparr>"
      have k': "keeps s ?s'"
        by (rule keeps_trans [OF k keeps_upd [OF task(4)]]) (simp add: identity_def)
      have ex: "task_exit (t_id t) code s = Some ?s'"
        using True task(1,3,4) e by (simp add: task_find_def task_test_def upd_task_def)
      have w': "sched_wf ?s' ts" using sched_wf_upd [OF w task(4), of "v\<lparr>t_state := TASK_READY\<rparr>"] by simp
      have tv: "tasks s par = Some v" using task(4) pp by simp
      have "tasks ?s' q = map_option (woken t) (tasks s q)" if "q \<noteq> p" for q
        using un [of q] that task(5) True pp tv by (cases "tasks s q") (auto simp: woken_def)
      then show ?thesis using ex w' k' keeps_own [OF k' own] pp by (intro exI [of _ ?s']) simp
    qed
  qed
qed

text \<open>
  \<open>task_exit\<close> on an existing task turns exactly that task into a zombie with the exit code, and of
  the other tasks changes only the parent, which becomes ready when it is blocked in a wait for this
  child or for any child. The queue and the memory of all tasks stay as they are.
\<close>

theorem task_exit_correct:
  assumes "sched_wf s ts" and "sched_own s" and "tasks s p = Some t"
  shows "\<exists>s'. task_exit (t_id t) code s = Some s' \<and> sched_wf s' ts \<and> sched_own s' \<and> heap_live s' = heap_live s \<and>
    current_task s' = current_task s \<and>
    tasks s' p = Some (t\<lparr>t_state := TASK_ZOMBIE, t_exit_code := code\<rparr>) \<and>
    (\<forall>q. q \<noteq> p \<longrightarrow> tasks s' q = map_option (woken t) (tasks s q))"
  using task_exit_effect [OF assms] keeps_heap by metis

theorem task_exit_correct_witness:
  "\<exists>c s' u. task_exit 2 7 sched_family = Some s' \<and> tasks s' c = Some u \<and> t_state u = TASK_ZOMBIE \<and> t_exit_code u = 7"
proof (rule sched_family)
  fix p c
  assume a: "sched_wf sched_family [c, p]" "sched_own sched_family"
    "tasks sched_family c = Some (demo_task 2 TASK_READY p)"
  have "t_id (demo_task 2 TASK_READY p) = 2" by (simp add: demo_task_def)
  then obtain s' where "task_exit 2 7 sched_family = Some s'"
    "tasks s' c = Some ((demo_task 2 TASK_READY p)\<lparr>t_state := TASK_ZOMBIE, t_exit_code := 7\<rparr>)"
    using task_exit_correct [OF a, of 7] by auto
  then show ?thesis
    by (intro exI [of _ c] exI [of _ s'] exI [of _ "(demo_task 2 TASK_READY p)\<lparr>t_state := TASK_ZOMBIE, t_exit_code := 7\<rparr>"])
      simp
qed

text \<open>
  C20: The parent's side of the protocol. A wait for a child that has exited returns the child's pid and
  exit code, gives back every heap block the child owned, and removes the child from the table.
\<close>

theorem exit_wait_roundtrip:
  assumes "sched_wf s ts" and "sched_own s" and "tasks s (current_task s) = Some cur"
    and "tasks s p = Some t" and "p \<noteq> current_task s" and "t_parent_pid t = t_pid cur" and "t_state cur = TASK_RUNNING"
  shows "\<exists>s1 s2. task_exit (t_id t) code s = Some s1 \<and>
    task_wait_pass (t_pid t) s1 = Some (WaitReturn (t_pid t) (Some code), s2) \<and> sched_wf s2 (remove1 p ts) \<and>
    sched_own s2 \<and> tasks s2 p = None \<and> heap_live s2 = heap_live s - set (owned p t) \<and>
    (\<forall>q. q \<noteq> p \<longrightarrow> same_task s s2 q)"
proof -
  let ?t = "t\<lparr>t_state := TASK_ZOMBIE, t_exit_code := code\<rparr>"
  obtain s1 where s1: "task_exit (t_id t) code s = Some s1" "sched_wf s1 ts" "sched_own s1" "keeps s s1"
    "current_task s1 = current_task s" "tasks s1 p = Some ?t" "\<forall>q. q \<noteq> p \<longrightarrow> tasks s1 q = map_option (woken t) (tasks s q)"
    using task_exit_effect [OF assms(1,2,4)] by metis
  have "woken t u = u" if "tasks s q = Some u" for q u
  proof (cases "t_pid u = t_parent_pid t")
    case True
    then have "q = current_task s" using sched_wf_pid [OF assms(1) that assms(3)] assms(6) by simp
    then show ?thesis using that assms(3,7) by (simp add: woken_def)
  qed (simp add: woken_def)
  then have others: "tasks s1 q = tasks s q" if "q \<noteq> p" for q
    using s1(7) that by (cases "tasks s q") auto
  then have cur: "tasks s1 (current_task s1) = Some cur" using s1(5) assms(3,5) by simp
  have aw: "awaited (t_pid cur) (t_pid t) ?t" using assms(6) by (simp add: awaited_def)
  have run: "t_state cur \<noteq> TASK_ZOMBIE" using assms(7) by simp
  have "t_pid t \<noteq> -1"
  proof -
    have "t_pid t < next_tid s" using assms(1,4) by (auto simp: sched_wf_def)
    then show ?thesis by auto
  qed
  from s1(2,3) cur run show ?thesis
  proof (cases rule: task_wait_pass_cases [where pid = "t_pid t"])
    case (reap z u s')
    have "t_pid u = t_pid t" using reap(2) \<open>t_pid t \<noteq> -1\<close> by (simp add: awaited_def)
    then have zp: "z = p" using sched_wf_pid [OF s1(2) reap(1) s1(6)] by simp
    then have u: "u = ?t" using reap(1) s1(6) by simp
    have "heap_live s1 = heap_live s" by (rule keeps_heap [OF s1(4)])
    moreover have "owned p ?t = owned p t" by (simp add: owned_def)
    moreover have "same_task s s' q" if "q \<noteq> p" for q
      using reap(10) that zp others [OF that] by (simp add: same_task_def)
    ultimately show ?thesis using s1(1) reap(5-9) by (simp add: zp u)
  next
    case none
    then show ?thesis using s1(6) aw by blast
  next
    case (block s')
    then show ?thesis using s1(6) aw by fastforce
  qed
qed

theorem exit_wait_roundtrip_witness:
  "\<exists>s1 s2 p. task_exit 2 7 sched_family = Some s1 \<and> task_wait_pass 2 s1 = Some (WaitReturn 2 (Some 7), s2) \<and> sched_wf s2 [p]"
proof (rule sched_family)
  fix p c
  assume a: "sched_wf sched_family [c, p]" "sched_own sched_family" "current_task sched_family = p"
    "tasks sched_family p = Some (demo_task 1 TASK_RUNNING 0)"
    "tasks sched_family c = Some (demo_task 2 TASK_READY p)" "c \<noteq> p"
  have "t_parent_pid (demo_task 2 TASK_READY p) = t_pid (demo_task 1 TASK_RUNNING 0)"
    "t_state (demo_task 1 TASK_RUNNING 0) = TASK_RUNNING"
    "t_id (demo_task 2 TASK_READY p) = 2" "t_pid (demo_task 2 TASK_READY p) = 2" by (simp_all add: demo_task_def)
  then show ?thesis using exit_wait_roundtrip [OF a(1,2) _ a(5), of "demo_task 1 TASK_RUNNING 0" 7] a(3,4,6) by auto
qed

text \<open>
  Destroying the task that is running (as the shell's kill command can) returns, but the scheduler
  keeps a pointer to the freed structure: the next timer tick reads it.
\<close>

theorem destroy_current_dangles:
  assumes "sched_wf s ts" and "sched_own s" and "tasks s (current_task s) = Some t"
  shows "\<exists>s'. task_destroy (t_id t) s = Some s' \<and> current_task s' = current_task s \<and>
    current_task s' \<notin> heap_live s' \<and> sched_tick s' = None"
proof (rule task_destroy_any [OF assms])
  fix s'
  assume s': "task_destroy (t_id t) s = Some s'" "heap_live s' = heap_live s - set (owned (current_task s) t)"
    "tasks s' (current_task s) = None" "current_task s' = current_task s"
  have "current_task s \<noteq> 0" using assms(3) sched_wf_not_null [OF assms(1)] by auto
  then have "sched_tick s' = None" using s'(3,4) by (simp add: sched_tick_def upd_task_def Let_def)
  then show ?thesis using s' by (simp add: owned_def)
qed

theorem destroy_current_dangles_witness:
  "\<exists>s'. task_destroy 1 sched_family = Some s' \<and> sched_tick s' = None"
proof (rule sched_family)
  fix p c
  assume a: "sched_wf sched_family [c, p]" "sched_own sched_family" "current_task sched_family = p"
    "tasks sched_family p = Some (demo_task 1 TASK_RUNNING 0)"
  have "t_id (demo_task 1 TASK_RUNNING 0) = 1" by (simp add: demo_task_def)
  then show ?thesis using destroy_current_dangles [OF a(1,2)] a(3,4) by auto
qed

end
