(* ===== verification/Ipc.thy ===== *)
theory Ipc
  imports Sched_Runs
begin

text \<open>
  \<^verbatim>\<open>kernel/ipc/ipc.c\<close>: message ports. The static array \<^verbatim>\<open>ports\<close> is a list of 256 records. The message
  array that \<open>port_create\<close> allocates for a port is an object of the typed store \<open>queues\<close>, and the message
  structures of the callers are objects of the store \<open>messages\<close>; a read through a pointer that is in
  neither gives \<^term>\<open>None\<close>. The endless loops of \<open>msg_send\<close> and \<open>msg_receive\<close> are one pass each: a pass
  returns, raises the divide error of the processor, or blocks the caller inside \<open>sched_block\<close>, and
  the caller runs the next pass when it is scheduled again.
\<close>

record message =
  m_sender :: u32
  m_receiver :: u32
  m_type :: u32
  m_len :: u32
  m_data :: "u8 list"

record port =
  p_owner :: u32
  p_id :: u32
  p_flags :: u32
  p_queue :: u32
  p_queue_head :: u32
  p_queue_tail :: u32
  p_queue_size :: u32
  p_waiting_sender :: u32
  p_waiting_receiver :: u32

record ipc_state = sched_state +
  ports :: "port list"
  port_count :: u32
  queues :: "u32 \<rightharpoonup> message list"
  messages :: "u32 \<rightharpoonup> message"

datatype ipc_result = IpcReturn u32 | IpcBlocked | IpcDivideError

definition MAX_PORTS :: nat where "MAX_PORTS = 256"
definition MAX_MSG_SIZE :: nat where "MAX_MSG_SIZE = 256"
definition MSG_QUEUE_SIZE :: u32 where "MSG_QUEUE_SIZE = 16"
definition IPC_NONBLOCK :: u32 where "IPC_NONBLOCK = 2"
definition sizeof_message :: u32 where "sizeof_message = 16 + of_nat MAX_MSG_SIZE"

definition zero_message :: message where
  "zero_message = \<lparr>m_sender = 0, m_receiver = 0, m_type = 0, m_len = 0, m_data = replicate MAX_MSG_SIZE 0\<rparr>"

definition zero_port :: port where
  "zero_port = \<lparr>p_owner = 0, p_id = 0, p_flags = 0, p_queue = 0, p_queue_head = 0, p_queue_tail = 0,
     p_queue_size = 0, p_waiting_sender = 0, p_waiting_receiver = 0\<rparr>"

definition set_port :: "nat \<Rightarrow> (port \<Rightarrow> port) \<Rightarrow> 'a ipc_state_scheme \<Rightarrow> 'a ipc_state_scheme" where
  "set_port i f s = s\<lparr>ports := (ports s)[i := f (ports s ! i)]\<rparr>"

section \<open>Ports\<close>

definition ipc_init :: "'a ipc_state_scheme \<Rightarrow> 'a ipc_state_scheme" where
  "ipc_init s = s\<lparr>ports := replicate MAX_PORTS zero_port, port_count := 0\<rparr>"

text \<open>The first index whose port passes the test of the loop.\<close>

definition find_port :: "(port \<Rightarrow> bool) \<Rightarrow> 'a ipc_state_scheme \<Rightarrow> nat option" where
  "find_port P s = List.find (\<lambda>i. P (ports s ! i)) [0..<MAX_PORTS]"

definition port_create :: "u32 \<Rightarrow> 'a ipc_state_scheme \<Rightarrow> (u32 \<times> 'a ipc_state_scheme) option" where
  "port_create owner s =
     (if unat (port_count s) \<ge> MAX_PORTS then Some (-1, s)
      else case find_port (\<lambda>p. p_owner p = 0) s of
        None \<Rightarrow> Some (-1, s)
      | Some i \<Rightarrow>
          do {
            let s = set_port i (\<lambda>p. p\<lparr>p_owner := owner, p_id := of_nat i, p_flags := 0\<rparr>) s;
            (q, s) \<leftarrow> kmalloc (sizeof_message * MSG_QUEUE_SIZE) s;
            let s = set_port i (\<lambda>p. p\<lparr>p_queue := q\<rparr>) s;
            if q = 0 then Some (-1, s)
            else let s = s\<lparr>queues := (queues s)(q \<mapsto> replicate (unat MSG_QUEUE_SIZE) zero_message)\<rparr>;
                     s = set_port i (\<lambda>p. p\<lparr>p_queue_head := 0, p_queue_tail := 0, p_queue_size := MSG_QUEUE_SIZE,
                           p_waiting_sender := 0, p_waiting_receiver := 0\<rparr>) s
                 in Some (of_nat i, s\<lparr>port_count := port_count s + 1\<rparr>)
          })"

definition bad_port_id :: "u32 \<Rightarrow> bool" where
  "bad_port_id port_id \<longleftrightarrow> sint port_id < 0 \<or> unat port_id \<ge> MAX_PORTS"

definition port_destroy :: "u32 \<Rightarrow> 'a ipc_state_scheme \<Rightarrow> (u32 \<times> 'a ipc_state_scheme) option" where
  "port_destroy port_id s =
     (if bad_port_id port_id then Some (-1, s)
      else let i = unat port_id; p = ports s ! i in
      if p_owner p = 0 then Some (-1, s)
      else do {
        s \<leftarrow> (if p_waiting_sender p \<noteq> 0 then sched_unblock (p_waiting_sender p) s else Some s);
        s \<leftarrow> (if p_waiting_receiver p \<noteq> 0 then sched_unblock (p_waiting_receiver p) s else Some s);
        s \<leftarrow> (if p_queue p \<noteq> 0 then kfree (p_queue p) (s\<lparr>queues := (queues s)(p_queue p := None)\<rparr>) else Some s);
        Some (0, (set_port i (\<lambda>p. zero_port) s)\<lparr>port_count := port_count s - 1\<rparr>)
      })"

section \<open>Messages\<close>

text \<open>\<^verbatim>\<open>p->queue[k]\<close>, read and written.\<close>

definition queue_read :: "u32 \<Rightarrow> u32 \<Rightarrow> 'a ipc_state_scheme \<Rightarrow> message option" where
  "queue_read q k s = do { xs \<leftarrow> queues s q; if unat k < length xs then Some (xs ! unat k) else None }"

definition queue_write :: "u32 \<Rightarrow> u32 \<Rightarrow> message \<Rightarrow> 'a ipc_state_scheme \<Rightarrow> 'a ipc_state_scheme option" where
  "queue_write q k m s =
     do { xs \<leftarrow> queues s q;
          if unat k < length xs then Some (s\<lparr>queues := (queues s)(q \<mapsto> xs[unat k := m])\<rparr>) else None }"

text \<open>One pass of the loop of \<^verbatim>\<open>msg_send\<close>, for the port at index \<open>i\<close>.\<close>

definition msg_send_body ::
    "nat \<Rightarrow> u32 \<Rightarrow> u32 \<Rightarrow> 'a ipc_state_scheme \<Rightarrow> (ipc_result \<times> 'a ipc_state_scheme) option" where
  "msg_send_body i msg flags s =
     (let p = ports s ! i in
      if p_queue_size p = 0 then Some (IpcDivideError, s)
      else let next_tail = (p_queue_tail p + 1) mod p_queue_size p in
      if next_tail = p_queue_head p
      then if flags AND IPC_NONBLOCK \<noteq> 0 then Some (IpcReturn (-2), s)
           else if sched_get_current s \<noteq> 0
           then do {
             current \<leftarrow> tasks s (sched_get_current s);
             s \<leftarrow> sched_block (set_port i (\<lambda>p. p\<lparr>p_waiting_sender := t_id current\<rparr>) s);
             Some (IpcBlocked, s)
           }
           else Some (IpcReturn (-2), s)
      else do {
        m \<leftarrow> messages s msg;
        s \<leftarrow> queue_write (p_queue p) (p_queue_tail p) m s;
        let s = set_port i (\<lambda>p. p\<lparr>p_queue_tail := next_tail\<rparr>) s;
        if p_waiting_receiver p \<noteq> 0
        then do {
          s \<leftarrow> sched_unblock (p_waiting_receiver p) s;
          Some (IpcReturn 0, set_port i (\<lambda>p. p\<lparr>p_waiting_receiver := 0\<rparr>) s)
        }
        else Some (IpcReturn 0, s)
      })"

definition msg_send ::
    "u32 \<Rightarrow> u32 \<Rightarrow> u32 \<Rightarrow> 'a ipc_state_scheme \<Rightarrow> (ipc_result \<times> 'a ipc_state_scheme) option" where
  "msg_send port_id msg flags s =
     (if bad_port_id port_id then Some (IpcReturn (-1), s)
      else if p_owner (ports s ! unat port_id) = 0 then Some (IpcReturn (-1), s)
      else if msg = 0 then Some (IpcReturn (-1), s)
      else msg_send_body (unat port_id) msg flags s)"

definition msg_receive_body ::
    "nat \<Rightarrow> u32 \<Rightarrow> u32 \<Rightarrow> 'a ipc_state_scheme \<Rightarrow> (ipc_result \<times> 'a ipc_state_scheme) option" where
  "msg_receive_body i msg flags s =
     (let p = ports s ! i in
      if p_queue_head p = p_queue_tail p
      then if flags AND IPC_NONBLOCK \<noteq> 0 then Some (IpcReturn (-2), s)
           else if sched_get_current s \<noteq> 0
           then do {
             current \<leftarrow> tasks s (sched_get_current s);
             s \<leftarrow> sched_block (set_port i (\<lambda>p. p\<lparr>p_waiting_receiver := t_id current\<rparr>) s);
             Some (IpcBlocked, s)
           }
           else Some (IpcReturn (-2), s)
      else do {
        m \<leftarrow> queue_read (p_queue p) (p_queue_head p) s;
        s \<leftarrow> (if messages s msg = None then None else Some (s\<lparr>messages := (messages s)(msg \<mapsto> m)\<rparr>));
        if p_queue_size p = 0 then Some (IpcDivideError, s)
        else do {
          let s = set_port i (\<lambda>p. p\<lparr>p_queue_head := (p_queue_head p + 1) mod p_queue_size p\<rparr>) s;
          if p_waiting_sender p \<noteq> 0
          then do {
            s \<leftarrow> sched_unblock (p_waiting_sender p) s;
            Some (IpcReturn 0, set_port i (\<lambda>p. p\<lparr>p_waiting_sender := 0\<rparr>) s)
          }
          else Some (IpcReturn 0, s)
        }
      })"

definition msg_receive ::
    "u32 \<Rightarrow> u32 \<Rightarrow> u32 \<Rightarrow> 'a ipc_state_scheme \<Rightarrow> (ipc_result \<times> 'a ipc_state_scheme) option" where
  "msg_receive port_id msg flags s =
     (if bad_port_id port_id then Some (IpcReturn (-1), s)
      else if p_owner (ports s ! unat port_id) = 0 then Some (IpcReturn (-1), s)
      else if msg = 0 then Some (IpcReturn (-1), s)
      else msg_receive_body (unat port_id) msg flags s)"

definition msg_reply :: "u32 \<Rightarrow> u32 \<Rightarrow> 'a ipc_state_scheme \<Rightarrow> (ipc_result \<times> 'a ipc_state_scheme) option" where
  "msg_reply dest msg s =
     (case find_port (\<lambda>p. p_owner p = dest) s of
        None \<Rightarrow> Some (IpcReturn (-1), s)
      | Some i \<Rightarrow> msg_send (of_nat i) msg IPC_NONBLOCK s)"

section \<open>The queue of a port is a bounded FIFO\<close>

text \<open>The part of a port that the queue consists of: head, tail, size and the message array.\<close>

type_synonym ring = "u32 \<times> u32 \<times> u32 \<times> message list"

fun ring_ok :: "ring \<Rightarrow> bool" where
  "ring_ok (h, t, n, xs) \<longleftrightarrow> n = MSG_QUEUE_SIZE \<and> length xs = unat n \<and> h < n \<and> t < n"

fun ring_put :: "message \<Rightarrow> ring \<Rightarrow> ring option" where
  "ring_put m (h, t, n, xs) =
     (let t' = (t + 1) mod n in if t' = h then None else Some (h, t', n, xs[unat t := m]))"

fun ring_get :: "ring \<Rightarrow> (message \<times> ring) option" where
  "ring_get (h, t, n, xs) = (if h = t then None else Some (xs ! unat h, (h + 1) mod n, t, n, xs))"

fun ring_msgs :: "ring \<Rightarrow> message list" where
  "ring_msgs (h, t, n, xs) = ring_contents xs (unat h) (unat t)"

lemma unat_next_slot:
  assumes "k < MSG_QUEUE_SIZE"
  shows "unat ((k + 1) mod MSG_QUEUE_SIZE) = Suc (unat k) mod 16" "(k + 1) mod MSG_QUEUE_SIZE < MSG_QUEUE_SIZE"
proof -
  have "unat k < 16" using assms by (simp add: MSG_QUEUE_SIZE_def word_less_nat_alt)
  then have "unat (k + 1) = Suc (unat k)" by (simp add: unat_add_no_overflow)
  then show "unat ((k + 1) mod MSG_QUEUE_SIZE) = Suc (unat k) mod 16"
    by (simp add: MSG_QUEUE_SIZE_def unat_mod_distrib)
  then show "(k + 1) mod MSG_QUEUE_SIZE < MSG_QUEUE_SIZE" by (simp add: MSG_QUEUE_SIZE_def word_less_nat_alt)
qed

lemma ring_okD:
  assumes "ring_ok (h, t, n, xs)"
  shows "n = MSG_QUEUE_SIZE" "length xs = 16" "unat h < length xs" "unat t < length xs"
    "unat ((t + 1) mod n) = Suc (unat t) mod length xs" "unat ((h + 1) mod n) = Suc (unat h) mod length xs"
    "(t + 1) mod n < n" "(h + 1) mod n < n"
  using assms unat_next_slot [of h] unat_next_slot [of t]
  by (auto simp: MSG_QUEUE_SIZE_def word_less_nat_alt)

lemma ring_put_full: "ring_ok q \<Longrightarrow> ring_put m q = None \<longleftrightarrow> length (ring_msgs q) = 15"
proof (cases q)
  case (fields h t n xs)
  assume "ring_ok q"
  then have q: "ring_ok (h, t, n, xs)" using fields by blast
  note d = ring_okD [OF q]
  have "(t + 1) mod n = h \<longleftrightarrow> Suc (unat t) mod length xs = unat h" using d(5) by (metis unat_word_inj)
  then show ?thesis using ring_full_iff [OF d(3,4)] d(2) fields by (simp add: Let_def)
qed

lemma ring_put_ok: "ring_ok q \<Longrightarrow> ring_put m q = Some q' \<Longrightarrow> ring_ok q' \<and> ring_msgs q' = ring_msgs q @ [m]"
proof (cases q)
  case (fields h t n xs)
  assume a: "ring_ok q" "ring_put m q = Some q'"
  then have q: "ring_ok (h, t, n, xs)" using fields by blast
  note d = ring_okD [OF q]
  have ne: "(t + 1) mod n \<noteq> h" and q': "q' = (h, (t + 1) mod n, n, xs[unat t := m])"
    using a(2) fields by (auto simp: Let_def split: if_splits)
  then have "Suc (unat t) mod length xs \<noteq> unat h" using d(5) by (metis unat_word_inj)
  from ring_enqueue [OF d(3,4) this] show ?thesis
    using q q' d(5,7) fields by auto
qed

lemma ring_get_empty: "ring_ok q \<Longrightarrow> ring_get q = None \<longleftrightarrow> ring_msgs q = []"
proof (cases q)
  case (fields h t n xs)
  assume "ring_ok q"
  then have q: "ring_ok (h, t, n, xs)" using fields by blast
  note d = ring_okD [OF q]
  have "h = t \<longleftrightarrow> unat h = unat t" by (metis unat_word_inj)
  then show ?thesis using ring_empty_iff [OF d(3,4)] fields by simp
qed

lemma ring_get_ok: "ring_ok q \<Longrightarrow> ring_get q = Some (m, q') \<Longrightarrow> ring_ok q' \<and> ring_msgs q = m # ring_msgs q'"
proof (cases q)
  case (fields h t n xs)
  assume a: "ring_ok q" "ring_get q = Some (m, q')"
  then have q: "ring_ok (h, t, n, xs)" using fields by blast
  note d = ring_okD [OF q]
  have ne: "h \<noteq> t" and q': "m = xs ! unat h" "q' = ((h + 1) mod n, t, n, xs)"
    using a(2) fields by (auto split: if_splits)
  then have "unat h \<noteq> unat t" by (metis unat_word_inj)
  from ring_dequeue [OF d(3,4) this] show ?thesis
    using q q' d(6,8) fields by auto
qed

lemma ring_within: "ring_ok q \<Longrightarrow> length (ring_msgs q) \<le> 15"
proof (cases q)
  case (fields h t n xs)
  assume "ring_ok q"
  then have "length xs = 16" using fields ring_okD(2) by blast
  then show ?thesis using fields pos_mod_bound [of 16] by (simp add: ring_length)
qed

interpretation ring: bounded_fifo ring_put ring_get ring_msgs ring_ok 15
  by (unfold_locales; (rule ring_put_full ring_put_ok ring_get_empty ring_get_ok ring_within; assumption))

declare ring_ok.simps [simp del]

section \<open>Sending and receiving on a well-formed port\<close>

definition port_ring :: "'a ipc_state_scheme \<Rightarrow> nat \<Rightarrow> ring" where
  "port_ring s i = (let p = ports s ! i in
     (p_queue_head p, p_queue_tail p, p_queue_size p, the (queues s (p_queue p))))"

text \<open>Port \<open>i\<close> exists and its message array is an allocated object that no other port shares.\<close>

definition port_wf :: "'a ipc_state_scheme \<Rightarrow> nat \<Rightarrow> bool" where
  "port_wf s i \<longleftrightarrow> i < MAX_PORTS \<and> length (ports s) = MAX_PORTS \<and> p_owner (ports s ! i) \<noteq> 0 \<and>
     queues s (p_queue (ports s ! i)) \<noteq> None \<and> ring_ok (port_ring s i) \<and>
     (\<forall>j<MAX_PORTS. j \<noteq> i \<longrightarrow> p_queue (ports s ! j) \<noteq> p_queue (ports s ! i))"

abbreviation inbox :: "'a ipc_state_scheme \<Rightarrow> nat \<Rightarrow> message list" where
  "inbox s i \<equiv> ring_msgs (port_ring s i)"

lemma port_id_ok: "i < MAX_PORTS \<Longrightarrow> \<not> bad_port_id (of_nat i)" "i < MAX_PORTS \<Longrightarrow> unat (of_nat i :: u32) = i"
proof -
  assume i: "i < MAX_PORTS"
  then show u: "unat (of_nat i :: u32) = i" by (simp add: MAX_PORTS_def unat_of_nat_small)
  then have "sint (of_nat i :: u32) = int i"
    using i sint_small [of "of_nat i"] by (simp add: MAX_PORTS_def word_less_nat_alt uint_nat)
  then show "\<not> bad_port_id (of_nat i)" using i u by (simp add: bad_port_id_def)
qed

text \<open>What a wake-up does to the task table.\<close>

definition unblocked :: "u32 \<Rightarrow> (u32 \<rightharpoonup> task) \<Rightarrow> u32 \<rightharpoonup> task" where
  "unblocked tid T p = map_option (\<lambda>t. if t_id t = tid then t\<lparr>t_state := TASK_READY\<rparr> else t) (T p)"

lemma sched_unblock_eq:
  assumes "sched_wf s ts"
  shows "sched_unblock tid s = Some (s\<lparr>tasks := unblocked tid (tasks s)\<rparr>)"
    and "sched_wf (s\<lparr>tasks := unblocked tid (tasks s)\<rparr>) ts" and "keeps s (s\<lparr>tasks := unblocked tid (tasks s)\<rparr>)"
proof -
  show eq: "sched_unblock tid s = Some (s\<lparr>tasks := unblocked tid (tasks s)\<rparr>)"
    using assms
  proof (cases rule: find_task_cases [where P = "\<lambda>t. t_id t = tid"])
    case none
    have "unblocked tid (tasks s) = tasks s"
    proof
      fix p
      show "unblocked tid (tasks s) p = tasks s p"
      proof (cases "tasks s p")
        case (Some t)
        then have "p \<in> set ts" using assms by (auto simp: sched_wf_def)
        then show ?thesis using none(2) Some by (auto simp: unblocked_def task_test_def)
      qed (simp add: unblocked_def)
    qed
    then show ?thesis using none(1) by (simp add: sched_unblock_def)
  next
    case (task p t)
    have "t_id u \<noteq> tid" if "tasks s q = Some u" "q \<noteq> p" for q u
      using assms task(4,5) that unfolding sched_wf_def by metis
    then have "unblocked tid (tasks s) q = ((tasks s)(p \<mapsto> t\<lparr>t_state := TASK_READY\<rparr>)) q" for q
      using task(4,5) by (cases "tasks s q") (auto simp: unblocked_def)
    then have "unblocked tid (tasks s) = (tasks s)(p \<mapsto> t\<lparr>t_state := TASK_READY\<rparr>)" ..
    then show ?thesis using task(1,3,4) by (simp add: sched_unblock_def upd_task_def)
  qed
  show "sched_wf (s\<lparr>tasks := unblocked tid (tasks s)\<rparr>) ts" using sched_unblock_wf [OF assms, of tid] eq by auto
  show "keeps s (s\<lparr>tasks := unblocked tid (tasks s)\<rparr>)"
    by (auto simp: keeps_def unblocked_def identity_def option.map_comp comp_def intro!: option.map_cong)
qed

text \<open>Two ring states of the same ports up to the fields a wake-up resets.\<close>

lemma port_ring_cong:
  assumes "ports s' ! i = (ports s ! i)\<lparr>p_waiting_sender := a, p_waiting_receiver := b\<rparr>" and "queues s' = queues s"
  shows "port_ring s' i = port_ring s i"
  using assms by (simp add: port_ring_def Let_def)

definition only_port :: "'a ipc_state_scheme \<Rightarrow> 'a ipc_state_scheme \<Rightarrow> nat \<Rightarrow> bool" where
  "only_port s s' i \<longleftrightarrow> (\<forall>j. j < MAX_PORTS \<and> j \<noteq> i \<longrightarrow> ports s' ! j = ports s ! j \<and> port_ring s' j = port_ring s j)"

text \<open>A step that replaces the ring of port \<open>i\<close> and keeps its identity keeps all ports well-formed.\<close>

lemma port_wf_step:
  assumes wf: "port_wf s i"
    and p: "ports s' = (ports s)[i := p']" "p_owner p' = p_owner (ports s ! i)" "p_queue p' = p_queue (ports s ! i)"
    and q: "queues s' = (queues s)(p_queue (ports s ! i) \<mapsto> xs)"
    and r: "ring_ok (p_queue_head p', p_queue_tail p', p_queue_size p', xs)"
  shows "port_wf s' i" and "only_port s s' i"
    and "port_ring s' i = (p_queue_head p', p_queue_tail p', p_queue_size p', xs)"
proof -
  have i: "i < length (ports s)" "i < MAX_PORTS" using wf by (auto simp: port_wf_def)
  show ring: "port_ring s' i = (p_queue_head p', p_queue_tail p', p_queue_size p', xs)"
    using i p q by (simp add: port_ring_def Let_def)
  show "only_port s s' i"
    using wf p(1) q by (auto simp: only_port_def port_ring_def port_wf_def Let_def)
  have "ring_ok (port_ring s' i)" using r ring by simp
  moreover have "p_queue (ports s' ! j) \<noteq> p_queue (ports s' ! i)" if "j < MAX_PORTS" "j \<noteq> i" for j
    using wf that i p by (auto simp: port_wf_def)
  moreover have "length (ports s') = MAX_PORTS" "p_owner (ports s' ! i) \<noteq> 0" "queues s' (p_queue (ports s' ! i)) \<noteq> None"
    using wf i p q by (auto simp: port_wf_def)
  ultimately show "port_wf s' i" using i(2) unfolding port_wf_def by blast
qed

lemma msg_send_room:
  fixes s :: "'a ipc_state_scheme"
  assumes wf: "port_wf s i" and sw: "sched_wf s ts" and msg: "msg \<noteq> 0" "messages s msg = Some m"
    and room: "length (inbox s i) < 15"
  obtains s' where "msg_send (of_nat i) msg flags s = Some (IpcReturn 0, s')" and "ring_put m (port_ring s i) = Some (port_ring s' i)"
    and "port_wf s' i" and "only_port s s' i" and "sched_wf s' ts" and "keeps s s'" and "messages s' = messages s"
    and "tasks s' = (if p_waiting_receiver (ports s ! i) \<noteq> 0 then unblocked (p_waiting_receiver (ports s ! i)) (tasks s) else tasks s)"
    and "current_task s' = current_task s"
    and "p_waiting_sender (ports s' ! i) = p_waiting_sender (ports s ! i)" and "p_waiting_receiver (ports s' ! i) = 0"
proof -
  let ?p = "ports s ! i"
  let ?nt = "(p_queue_tail ?p + 1) mod p_queue_size ?p"
  obtain xs where xs: "queues s (p_queue ?p) = Some xs" using wf by (auto simp: port_wf_def)
  have r: "port_ring s i = (p_queue_head ?p, p_queue_tail ?p, p_queue_size ?p, xs)"
    using xs by (simp add: port_ring_def Let_def)
  then have ok: "ring_ok (p_queue_head ?p, p_queue_tail ?p, p_queue_size ?p, xs)" using wf by (simp add: port_wf_def)
  note d = ring_okD [OF ok]
  have i: "i < MAX_PORTS" "i < length (ports s)" and ow: "p_owner ?p \<noteq> 0" using wf by (auto simp: port_wf_def)
  have put: "ring_put m (port_ring s i) \<noteq> None"
    using ring_put_full [of "port_ring s i" m] ok r room by auto
  then have nf: "?nt \<noteq> p_queue_head ?p" and put': "ring_put m (port_ring s i) = Some (p_queue_head ?p, ?nt, p_queue_size ?p, xs[unat (p_queue_tail ?p) := m])"
    by (auto simp: r Let_def split: if_splits)
  have ok': "ring_ok (p_queue_head ?p, ?nt, p_queue_size ?p, xs[unat (p_queue_tail ?p) := m])"
    using ring_put_ok [of "port_ring s i"] put' ok r by simp
  have n0: "p_queue_size ?p \<noteq> 0" using d(1) by (simp add: MSG_QUEUE_SIZE_def)
  let ?s1 = "s\<lparr>queues := (queues s)(p_queue ?p \<mapsto> xs[unat (p_queue_tail ?p) := m]), ports := (ports s)[i := ?p\<lparr>p_queue_tail := ?nt\<rparr>]\<rparr>"
  have body: "msg_send (of_nat i) msg flags s =
      (if p_waiting_receiver ?p \<noteq> 0
       then do { s \<leftarrow> sched_unblock (p_waiting_receiver ?p) ?s1; Some (IpcReturn 0, set_port i (\<lambda>p. p\<lparr>p_waiting_receiver := 0\<rparr>) s) }
       else Some (IpcReturn 0, ?s1))"
    using port_id_ok [OF i(1)] ow msg n0 nf xs d(4)
    by (simp add: msg_send_def msg_send_body_def queue_write_def set_port_def Let_def)
  have w1: "sched_wf ?s1 ts" using sched_wf_frame [of ?s1 s ts] sw by simp
  have k1: "keeps s ?s1" by (simp add: keeps_def)
  show thesis
  proof (cases "p_waiting_receiver ?p = 0")
    case True
    have "port_wf ?s1 i \<and> only_port s ?s1 i \<and> port_ring ?s1 i = (p_queue_head ?p, ?nt, p_queue_size ?p, xs[unat (p_queue_tail ?p) := m])"
      using port_wf_step [OF wf, of ?s1 "?p\<lparr>p_queue_tail := ?nt\<rparr>" "xs[unat (p_queue_tail ?p) := m]"] ok' by simp
    then show thesis using that [of ?s1] body True put' w1 k1 i by simp
  next
    case False
    let ?T = "unblocked (p_waiting_receiver ?p) (tasks s)"
    have T: "sched_unblock (p_waiting_receiver ?p) ?s1 = Some (?s1\<lparr>tasks := ?T\<rparr>)" "sched_wf (?s1\<lparr>tasks := ?T\<rparr>) ts"
      "keeps ?s1 (?s1\<lparr>tasks := ?T\<rparr>)" using sched_unblock_eq [OF w1, of "p_waiting_receiver ?p"] by simp_all
    let ?s2 = "set_port i (\<lambda>p. p\<lparr>p_waiting_receiver := 0\<rparr>) (?s1\<lparr>tasks := ?T\<rparr>)"
    have "port_wf ?s2 i \<and> only_port s ?s2 i \<and> port_ring ?s2 i = (p_queue_head ?p, ?nt, p_queue_size ?p, xs[unat (p_queue_tail ?p) := m])"
      using port_wf_step [OF wf, of ?s2 "?p\<lparr>p_queue_tail := ?nt, p_waiting_receiver := 0\<rparr>" "xs[unat (p_queue_tail ?p) := m]"] ok' i
      by (simp add: set_port_def)
    moreover have "sched_wf ?s2 ts" using sched_wf_frame [of ?s2 "?s1\<lparr>tasks := ?T\<rparr>" ts] T(2) by (simp add: set_port_def)
    moreover have "keeps s ?s2" using keeps_trans [OF k1 T(3)] by (simp add: keeps_def set_port_def)
    ultimately show thesis using that [of ?s2] body False put' T(1) i by (simp add: set_port_def)
  qed
qed

lemma msg_receive_some:
  fixes s :: "'a ipc_state_scheme"
  assumes wf: "port_wf s i" and sw: "sched_wf s ts" and msg: "msg \<noteq> 0" "messages s msg \<noteq> None"
    and some: "inbox s i \<noteq> []"
  obtains m s' where "msg_receive (of_nat i) msg flags s = Some (IpcReturn 0, s')" and "ring_get (port_ring s i) = Some (m, port_ring s' i)"
    and "port_wf s' i" and "only_port s s' i" and "sched_wf s' ts" and "keeps s s'" and "messages s' = (messages s)(msg \<mapsto> m)"
    and "tasks s' = (if p_waiting_sender (ports s ! i) \<noteq> 0 then unblocked (p_waiting_sender (ports s ! i)) (tasks s) else tasks s)"
    and "current_task s' = current_task s"
    and "p_waiting_sender (ports s' ! i) = 0" and "p_waiting_receiver (ports s' ! i) = p_waiting_receiver (ports s ! i)"
proof -
  let ?p = "ports s ! i"
  let ?nh = "(p_queue_head ?p + 1) mod p_queue_size ?p"
  obtain xs where xs: "queues s (p_queue ?p) = Some xs" using wf by (auto simp: port_wf_def)
  have r: "port_ring s i = (p_queue_head ?p, p_queue_tail ?p, p_queue_size ?p, xs)"
    using xs by (simp add: port_ring_def Let_def)
  then have ok: "ring_ok (p_queue_head ?p, p_queue_tail ?p, p_queue_size ?p, xs)" using wf by (simp add: port_wf_def)
  note d = ring_okD [OF ok]
  have i: "i < MAX_PORTS" "i < length (ports s)" and ow: "p_owner ?p \<noteq> 0" using wf by (auto simp: port_wf_def)
  let ?m = "xs ! unat (p_queue_head ?p)"
  have "ring_get (port_ring s i) \<noteq> None" using ring_get_empty [of "port_ring s i"] ok r some by simp
  then have ne: "p_queue_head ?p \<noteq> p_queue_tail ?p" and get: "ring_get (port_ring s i) = Some (?m, ?nh, p_queue_tail ?p, p_queue_size ?p, xs)"
    by (auto simp: r split: if_splits)
  have ok': "ring_ok (?nh, p_queue_tail ?p, p_queue_size ?p, xs)"
    using ring_get_ok [of "port_ring s i"] get ok r by simp
  have n0: "p_queue_size ?p \<noteq> 0" using d(1) by (simp add: MSG_QUEUE_SIZE_def)
  have idem: "queues s = (queues s)(p_queue ?p \<mapsto> xs)" using xs by (simp add: fun_upd_idem)
  let ?s1 = "s\<lparr>messages := (messages s)(msg \<mapsto> ?m), ports := (ports s)[i := ?p\<lparr>p_queue_head := ?nh\<rparr>]\<rparr>"
  have body: "msg_receive (of_nat i) msg flags s =
      (if p_waiting_sender ?p \<noteq> 0
       then do { s \<leftarrow> sched_unblock (p_waiting_sender ?p) ?s1; Some (IpcReturn 0, set_port i (\<lambda>p. p\<lparr>p_waiting_sender := 0\<rparr>) s) }
       else Some (IpcReturn 0, ?s1))"
  proof -
    obtain m0 where "messages s msg = Some m0" using msg(2) by blast
    then show ?thesis
      using port_id_ok [OF i(1)] ow msg(1) n0 ne xs d(3)
      by (simp add: msg_receive_def msg_receive_body_def queue_read_def set_port_def Let_def)
  qed
  have w1: "sched_wf ?s1 ts" using sched_wf_frame [of ?s1 s ts] sw by simp
  have k1: "keeps s ?s1" by (simp add: keeps_def)
  show thesis
  proof (cases "p_waiting_sender ?p = 0")
    case True
    have "port_wf ?s1 i \<and> only_port s ?s1 i \<and> port_ring ?s1 i = (?nh, p_queue_tail ?p, p_queue_size ?p, xs)"
      using port_wf_step [OF wf, of ?s1 "?p\<lparr>p_queue_head := ?nh\<rparr>" xs] ok' idem by simp
    then show thesis using that [of ?s1 ?m] body True get w1 k1 i by simp
  next
    case False
    let ?T = "unblocked (p_waiting_sender ?p) (tasks s)"
    have T: "sched_unblock (p_waiting_sender ?p) ?s1 = Some (?s1\<lparr>tasks := ?T\<rparr>)" "sched_wf (?s1\<lparr>tasks := ?T\<rparr>) ts"
      "keeps ?s1 (?s1\<lparr>tasks := ?T\<rparr>)" using sched_unblock_eq [OF w1, of "p_waiting_sender ?p"] by simp_all
    let ?s2 = "set_port i (\<lambda>p. p\<lparr>p_waiting_sender := 0\<rparr>) (?s1\<lparr>tasks := ?T\<rparr>)"
    have "port_wf ?s2 i \<and> only_port s ?s2 i \<and> port_ring ?s2 i = (?nh, p_queue_tail ?p, p_queue_size ?p, xs)"
      using port_wf_step [OF wf, of ?s2 "?p\<lparr>p_queue_head := ?nh, p_waiting_sender := 0\<rparr>" xs] ok' idem i
      by (simp add: set_port_def)
    moreover have "sched_wf ?s2 ts" using sched_wf_frame [of ?s2 "?s1\<lparr>tasks := ?T\<rparr>" ts] T(2) by (simp add: set_port_def)
    moreover have "keeps s ?s2" using keeps_trans [OF k1 T(3)] by (simp add: keeps_def set_port_def)
    ultimately show thesis using that [of ?s2 ?m] body False get T(1) i by (simp add: set_port_def)
  qed
qed

text \<open>On a full or an empty queue the non-blocking calls change nothing.\<close>

lemma msg_send_full:
  assumes "port_wf s i" and "msg \<noteq> 0" and "length (inbox s i) = 15"
  shows "msg_send (of_nat i) msg flags s =
    (if flags AND IPC_NONBLOCK \<noteq> 0 \<or> current_task s = 0 then Some (IpcReturn (-2), s)
     else do { current \<leftarrow> tasks s (current_task s);
       s \<leftarrow> sched_block (set_port i (\<lambda>p. p\<lparr>p_waiting_sender := t_id current\<rparr>) s); Some (IpcBlocked, s) })"
proof -
  let ?p = "ports s ! i"
  have i: "i < MAX_PORTS" and ow: "p_owner ?p \<noteq> 0" and ok: "ring_ok (port_ring s i)" using assms(1) by (auto simp: port_wf_def)
  have "p_queue_size ?p \<noteq> 0" using ok by (simp add: port_ring_def Let_def ring_ok.simps MSG_QUEUE_SIZE_def)
  moreover have "(p_queue_tail ?p + 1) mod p_queue_size ?p = p_queue_head ?p"
    using ring_put_full [OF ok, of zero_message] assms(3) by (simp add: port_ring_def Let_def split: if_splits)
  ultimately show ?thesis
    using port_id_ok [OF i] ow assms(2) by (simp add: msg_send_def msg_send_body_def sched_get_current_def Let_def)
qed

lemma msg_receive_empty:
  assumes "port_wf s i" and "msg \<noteq> 0" and "inbox s i = []"
  shows "msg_receive (of_nat i) msg flags s =
    (if flags AND IPC_NONBLOCK \<noteq> 0 \<or> current_task s = 0 then Some (IpcReturn (-2), s)
     else do { current \<leftarrow> tasks s (current_task s);
       s \<leftarrow> sched_block (set_port i (\<lambda>p. p\<lparr>p_waiting_receiver := t_id current\<rparr>) s); Some (IpcBlocked, s) })"
proof -
  let ?p = "ports s ! i"
  have i: "i < MAX_PORTS" and ow: "p_owner ?p \<noteq> 0" and ok: "ring_ok (port_ring s i)" using assms(1) by (auto simp: port_wf_def)
  have "p_queue_head ?p = p_queue_tail ?p"
    using ring_get_empty [OF ok] assms(3) by (simp add: port_ring_def Let_def split: if_splits)
  then show ?thesis
    using port_id_ok [OF i] ow assms(2) by (simp add: msg_receive_def msg_receive_body_def sched_get_current_def Let_def)
qed

section \<open>Properties\<close>

datatype ipc_op = SendFrom u32 | ReceiveInto u32

text \<open>
  A run of non-blocking sends and receives on port \<open>i\<close>: the messages that were accepted, the messages
  that the receives put into their buffers, and the final state.
\<close>

fun ipc_run :: "nat \<Rightarrow> ipc_op list \<Rightarrow> 'a ipc_state_scheme \<Rightarrow> (message list \<times> message list \<times> 'a ipc_state_scheme) option" where
  "ipc_run i [] s = Some ([], [], s)"
| "ipc_run i (SendFrom a # ops) s = do {
     m \<leftarrow> messages s a;
     (r, s) \<leftarrow> msg_send (of_nat i) a IPC_NONBLOCK s;
     (ins, outs, s) \<leftarrow> ipc_run i ops s;
     Some (if r = IpcReturn 0 then m # ins else ins, outs, s) }"
| "ipc_run i (ReceiveInto a # ops) s = do {
     (r, s) \<leftarrow> msg_receive (of_nat i) a IPC_NONBLOCK s;
     m \<leftarrow> messages s a;
     (ins, outs, s) \<leftarrow> ipc_run i ops s;
     Some (ins, if r = IpcReturn 0 then m # outs else outs, s) }"

fun op_ptr :: "ipc_op \<Rightarrow> u32" where
  "op_ptr (SendFrom a) = a" | "op_ptr (ReceiveInto a) = a"

lemma ipc_run_fifo:
  fixes s :: "'a ipc_state_scheme"
  assumes "port_wf s i" and "sched_wf s ts" and "\<forall>op\<in>set ops. op_ptr op \<noteq> 0 \<and> messages s (op_ptr op) \<noteq> None"
  shows "\<exists>ins outs s' fops. ipc_run i ops s = Some (ins, outs, s') \<and> port_wf s' i \<and> sched_wf s' ts \<and>
    fifo_run ring_put ring_get (port_ring s i) fops = (ins, outs, port_ring s' i)"
  using assms
proof (induction ops arbitrary: s)
  case Nil
  then show ?case
    by (intro exI [of _ "[] :: message list"] exI [of _ s] exI [of _ "[] :: message fifo_op list"]) simp
next
  case (Cons op ops)
  have nb: "IPC_NONBLOCK AND IPC_NONBLOCK \<noteq> 0" by (simp add: IPC_NONBLOCK_def)
  have ptr: "op_ptr op \<noteq> 0" "messages s (op_ptr op) \<noteq> None" using Cons.prems(3) by auto
  show ?case
  proof (cases op)
    case (SendFrom a)
    then obtain m where m: "messages s a = Some m" using ptr by auto
    show ?thesis
    proof (cases "length (inbox s i) < 15")
      case True
      obtain s1 where s1: "msg_send (of_nat i) a IPC_NONBLOCK s = Some (IpcReturn 0, s1)" "ring_put m (port_ring s i) = Some (port_ring s1 i)"
        "port_wf s1 i" "sched_wf s1 ts" "messages s1 = messages s"
        using msg_send_room [OF Cons.prems(1,2) _ m True] ptr(1) SendFrom by (metis op_ptr.simps(1))
      obtain ins outs s' fops where r: "ipc_run i ops s1 = Some (ins, outs, s')" "port_wf s' i" "sched_wf s' ts"
        "fifo_run ring_put ring_get (port_ring s1 i) fops = (ins, outs, port_ring s' i)"
        using Cons.IH [OF s1(3,4)] Cons.prems(3) s1(5) by auto
      have "fifo_run ring_put ring_get (port_ring s i) (Enq m # fops) = (m # ins, outs, port_ring s' i)"
        using r(4) s1(2) by simp
      moreover have "ipc_run i (op # ops) s = Some (m # ins, outs, s')" using SendFrom m s1(1) r(1) by simp
      ultimately show ?thesis using r(2,3) by blast
    next
      case False
      then have full: "length (inbox s i) = 15"
        using ring.within_cap [of "port_ring s i"] Cons.prems(1) by (simp add: port_wf_def)
      have "msg_send (of_nat i) a IPC_NONBLOCK s = Some (IpcReturn (-2), s)"
        using msg_send_full [OF Cons.prems(1) _ full] ptr(1) SendFrom nb by simp
      then have "ipc_run i (op # ops) s = ipc_run i ops s"
        using SendFrom m by (cases "ipc_run i ops s") auto
      then show ?thesis using Cons.IH [OF Cons.prems(1,2)] Cons.prems(3) by simp
    qed
  next
    case (ReceiveInto a)
    show ?thesis
    proof (cases "inbox s i = []")
      case False
      obtain m s1 where s1: "msg_receive (of_nat i) a IPC_NONBLOCK s = Some (IpcReturn 0, s1)" "ring_get (port_ring s i) = Some (m, port_ring s1 i)"
        "port_wf s1 i" "sched_wf s1 ts" "messages s1 = (messages s)(a \<mapsto> m)"
        using msg_receive_some [OF Cons.prems(1,2) _ _ False] ptr ReceiveInto by (metis op_ptr.simps(2))
      obtain ins outs s' fops where r: "ipc_run i ops s1 = Some (ins, outs, s')" "port_wf s' i" "sched_wf s' ts"
        "fifo_run ring_put ring_get (port_ring s1 i) fops = (ins, outs, port_ring s' i)"
      proof -
        have "\<forall>op\<in>set ops. op_ptr op \<noteq> 0 \<and> messages s1 (op_ptr op) \<noteq> None" using Cons.prems(3) s1(5) by simp
        from Cons.IH [OF s1(3,4) this] show thesis using that by blast
      qed
      have "fifo_run ring_put ring_get (port_ring s i) (Deq # fops) = (ins, m # outs, port_ring s' i)"
        using r(4) s1(2) by simp
      moreover have "ipc_run i (op # ops) s = Some (ins, m # outs, s')" using ReceiveInto s1(1,5) r(1) by simp
      ultimately show ?thesis using r(2,3) by blast
    next
      case True
      have "msg_receive (of_nat i) a IPC_NONBLOCK s = Some (IpcReturn (-2), s)"
        using msg_receive_empty [OF Cons.prems(1) _ True] ptr(1) ReceiveInto nb by simp
      then have "ipc_run i (op # ops) s = ipc_run i ops s"
        using ReceiveInto ptr(2) by (cases "ipc_run i ops s") auto
      then show ?thesis using Cons.IH [OF Cons.prems(1,2)] Cons.prems(3) by simp
    qed
  qed
qed

text \<open>
  C3: A port is a first-in first-out channel. In every interleaving of non-blocking sends and receives
  on a port, all calls return, and the messages delivered are, in order, the ones that were waiting
  followed by the ones accepted, up to those still in the queue, which never holds more than fifteen.
\<close>

theorem ipc_fifo:
  fixes s :: "'a ipc_state_scheme"
  assumes "port_wf s i" and "sched_wf s ts" and "\<forall>op\<in>set ops. op_ptr op \<noteq> 0 \<and> messages s (op_ptr op) \<noteq> None"
  shows "\<exists>ins outs s'. ipc_run i ops s = Some (ins, outs, s') \<and> inbox s i @ ins = outs @ inbox s' i \<and>
    length (inbox s' i) \<le> 15 \<and> port_wf s' i \<and> sched_wf s' ts"
proof -
  obtain ins outs s' fops where r: "ipc_run i ops s = Some (ins, outs, s')" "port_wf s' i" "sched_wf s' ts"
    "fifo_run ring_put ring_get (port_ring s i) fops = (ins, outs, port_ring s' i)"
    using ipc_run_fifo [OF assms] by blast
  have ok: "ring_ok (port_ring s i)" "ring_ok (port_ring s' i)" using assms(1) r(2) by (auto simp: port_wf_def)
  from ring.fifo_order [OF ok(1) r(4)] ring.within_cap [OF ok(2)] show ?thesis using r(1-3) by blast
qed

text \<open>A demonstration port over the three-task table, with one message structure at \<open>0x900\<close>.\<close>

definition ipc_demo :: ipc_state where
  "ipc_demo = sched_state.extend sched_demo (ipc_state.fields
     ((replicate MAX_PORTS zero_port)[3 := zero_port\<lparr>p_owner := 1, p_id := 3, p_queue := 0x700, p_queue_size := MSG_QUEUE_SIZE\<rparr>])
     1 [0x700 \<mapsto> replicate 16 zero_message] [0x900 \<mapsto> zero_message\<lparr>m_type := 7\<rparr>])"

lemma ipc_demo_sched: "sched_wf ipc_demo [0x300, 0x200, 0x100]"
proof -
  have "tasks ipc_demo = tasks sched_demo" "task_queue ipc_demo = task_queue sched_demo"
    "current_task ipc_demo = current_task sched_demo" "next_tid ipc_demo = next_tid sched_demo"
    by (simp_all add: ipc_demo_def sched_state.defs)
  then show ?thesis using sched_demo_wf by (auto simp: sched_wf_def task_next_def)
qed

lemma ipc_demo_port: "port_wf ipc_demo 3"
  by (auto simp: port_wf_def port_ring_def ipc_demo_def sched_state.defs ipc_state.defs MAX_PORTS_def ring_ok.simps
    MSG_QUEUE_SIZE_def zero_port_def nth_list_update)

theorem ipc_fifo_witness:
  "\<exists>ins outs s'. ipc_run 3 [SendFrom 0x900, ReceiveInto 0x900] ipc_demo = Some (ins, outs, s') \<and> ins = outs @ inbox s' 3"
proof -
  have "\<forall>op\<in>set [SendFrom 0x900, ReceiveInto 0x900]. op_ptr op \<noteq> 0 \<and> messages ipc_demo (op_ptr op) \<noteq> None"
    by (simp add: ipc_demo_def ipc_state.defs sched_state.defs)
  moreover have "inbox ipc_demo 3 = []"
    by (simp add: port_ring_def ipc_demo_def sched_state.defs ipc_state.defs MAX_PORTS_def zero_port_def ring_contents_def Let_def)
  ultimately show ?thesis using ipc_fifo [OF ipc_demo_port ipc_demo_sched] by fastforce
qed

section \<open>Blocking and waking\<close>

lemma schedule_ipc_frame:
  fixes s :: "'a ipc_state_scheme"
  assumes "sched_wf s ts" and "schedule s = Some s'"
  shows "ports s' = ports s" "queues s' = queues s" "messages s' = messages s"
proof -
  have "s' = s \<or> (\<exists>p. s' = switch_to p s)"
    using assms schedule_none schedule_switch by (metis option.inject)
  then show "ports s' = ports s" "queues s' = queues s" "messages s' = messages s"
    by (auto simp: switch_to_def split: option.splits)
qed

text \<open>The task that blocks itself stays blocked through the switch, and no other blocked task changes.\<close>

lemma sched_block_effect:
  fixes s :: "'a ipc_state_scheme"
  assumes wf: "sched_wf s ts" and c: "tasks s (current_task s) = Some t"
  obtains s' where "sched_block s = Some s'" and "sched_wf s' ts" and "ports s' = ports s" and "queues s' = queues s"
    and "messages s' = messages s" and "tasks s' (current_task s) = Some (t\<lparr>t_state := TASK_BLOCKED\<rparr>)"
    and "\<forall>q u. tasks s q = Some u \<and> t_state u = TASK_BLOCKED \<and> q \<noteq> current_task s \<longrightarrow> tasks s' q = Some u"
proof -
  let ?b = "t\<lparr>t_state := TASK_BLOCKED\<rparr>"
  let ?s = "s\<lparr>tasks := (tasks s)(current_task s \<mapsto> ?b)\<rparr>"
  have c0: "current_task s \<noteq> 0" using c sched_wf_not_null [OF wf] by auto
  have w: "sched_wf ?s ts" using sched_wf_upd [OF wf c, of ?b] by simp
  obtain s' where s': "schedule ?s = Some s'" "sched_wf s' ts" using schedule_wf [OF w] by blast
  have eq: "sched_block s = Some s'" using c0 c s'(1) by (simp add: sched_block_def upd_task_def)
  have kept: "tasks s' q = Some u" if "tasks ?s q = Some u" "t_state u = TASK_BLOCKED" for q u
  proof (cases "\<exists>p\<in>set ts. ready ?s p")
    case True
    then obtain p where p: "choice ?s ts p" "schedule ?s = Some (switch_to p ?s)" using schedule_switch [OF w] by blast
    have rp: "ready ?s p" and pin: "p \<in> set ts" using choice_in [OF p(1)] by auto
    then have "q \<noteq> p" using that by (auto simp: ready_def task_test_def)
    moreover have "tasks ?s p \<noteq> None" using sched_wf_task [OF w pin] by auto
    ultimately show ?thesis using switch_to_task [of ?s p q] that p(2) s'(1) by auto
  next
    case False
    then show ?thesis using schedule_none [OF w] s'(1) that by auto
  qed
  show thesis
  proof (rule that [OF eq s'(2)])
    show "tasks s' (current_task s) = Some ?b" by (rule kept) simp_all
    show "\<forall>q u. tasks s q = Some u \<and> t_state u = TASK_BLOCKED \<and> q \<noteq> current_task s \<longrightarrow> tasks s' q = Some u"
      using kept by simp
  qed (use schedule_ipc_frame [OF w s'(1)] in simp_all)
qed

lemma sched_wf_tid: "sched_wf s ts \<Longrightarrow> tasks s p = Some t \<Longrightarrow> 0 < t_id t"
  unfolding sched_wf_def by blast

lemma sched_wf_id: "sched_wf s ts \<Longrightarrow> tasks s p = Some t \<Longrightarrow> tasks s q = Some u \<Longrightarrow> t_id t = t_id u \<Longrightarrow> p = q"
  unfolding sched_wf_def by blast

lemma msg_send_blocks:
  fixes s :: "'a ipc_state_scheme"
  assumes wf: "port_wf s i" and sw: "sched_wf s ts" and c: "tasks s (current_task s) = Some t"
    and msg: "msg \<noteq> 0" and full: "length (inbox s i) = 15" and fl: "flags AND IPC_NONBLOCK = 0"
  obtains s' where "msg_send (of_nat i) msg flags s = Some (IpcBlocked, s')" and "sched_wf s' ts" and "port_wf s' i"
    and "port_ring s' i = port_ring s i" and "messages s' = messages s"
    and "tasks s' (current_task s) = Some (t\<lparr>t_state := TASK_BLOCKED\<rparr>)"
    and "p_waiting_sender (ports s' ! i) = t_id t" and "p_waiting_receiver (ports s' ! i) = p_waiting_receiver (ports s ! i)"
    and "\<forall>q u. tasks s q = Some u \<and> t_state u = TASK_BLOCKED \<and> q \<noteq> current_task s \<longrightarrow> tasks s' q = Some u"
proof -
  let ?s = "set_port i (\<lambda>p. p\<lparr>p_waiting_sender := t_id t\<rparr>) s"
  have i: "i < MAX_PORTS" "i < length (ports s)" using wf by (auto simp: port_wf_def)
  have c0: "current_task s \<noteq> 0" using c sched_wf_not_null [OF sw] by auto
  have w: "sched_wf ?s ts" using sched_wf_frame [of ?s s ts] sw by (simp add: set_port_def)
  obtain xs where xs: "queues s (p_queue (ports s ! i)) = Some xs" using wf by (auto simp: port_wf_def)
  then have idem: "queues s = (queues s)(p_queue (ports s ! i) \<mapsto> xs)" by (simp add: fun_upd_idem)
  have "ring_ok (p_queue_head (ports s ! i), p_queue_tail (ports s ! i), p_queue_size (ports s ! i), xs)"
    using wf xs by (simp add: port_wf_def port_ring_def Let_def)
  then have pw: "port_wf ?s i" "port_ring ?s i = port_ring s i"
    using port_wf_step [OF wf, of ?s "(ports s ! i)\<lparr>p_waiting_sender := t_id t\<rparr>" xs] idem xs
    by (simp_all add: set_port_def port_ring_def Let_def)
  have c1: "tasks ?s (current_task ?s) = Some t" using c by (simp add: set_port_def)
  obtain s' where s': "sched_block ?s = Some s'" "sched_wf s' ts" "ports s' = ports ?s" "queues s' = queues ?s"
    "messages s' = messages ?s" "tasks s' (current_task ?s) = Some (t\<lparr>t_state := TASK_BLOCKED\<rparr>)"
    "\<forall>q u. tasks ?s q = Some u \<and> t_state u = TASK_BLOCKED \<and> q \<noteq> current_task ?s \<longrightarrow> tasks s' q = Some u"
    by (rule sched_block_effect [OF w c1])
  have "port_wf s' i" using pw(1) s'(3,4) by (simp add: port_wf_def port_ring_def)
  moreover have "port_ring s' i = port_ring s i" using pw(2) s'(3,4) by (simp add: port_ring_def)
  ultimately show thesis
    using that [of s'] s' msg_send_full [OF wf msg full, of flags] fl c0 c i by (simp add: set_port_def)
qed

text \<open>
  A sender that finds the queue full blocks itself and loses nothing: the queue keeps its fifteen
  messages. The next receive on the port, by whatever task, makes that sender ready again, and there
  is then room for its message.
\<close>

theorem ipc_sender_wakes:
  fixes s :: "'a ipc_state_scheme"
  assumes "port_wf s i" and "sched_wf s ts" and "tasks s (current_task s) = Some t"
    and "msg \<noteq> 0" and "length (inbox s i) = 15" and "flags AND IPC_NONBLOCK = 0"
  shows "\<exists>s1. msg_send (of_nat i) msg flags s = Some (IpcBlocked, s1) \<and> inbox s1 i = inbox s i \<and>
    tasks s1 (current_task s) = Some (t\<lparr>t_state := TASK_BLOCKED\<rparr>) \<and>
    (\<forall>buf flags'. buf \<noteq> 0 \<and> messages s buf \<noteq> None \<longrightarrow>
      (\<exists>s2. msg_receive (of_nat i) buf flags' s1 = Some (IpcReturn 0, s2) \<and>
        messages s2 buf = Some (hd (inbox s i)) \<and> inbox s2 i = tl (inbox s i) \<and>
        tasks s2 (current_task s) = Some (t\<lparr>t_state := TASK_READY\<rparr>)))"
proof (rule msg_send_blocks [OF assms])
  fix s1
  assume s1: "msg_send (of_nat i) msg flags s = Some (IpcBlocked, s1)" "sched_wf s1 ts" "port_wf s1 i"
    "port_ring s1 i = port_ring s i" "messages s1 = messages s" "tasks s1 (current_task s) = Some (t\<lparr>t_state := TASK_BLOCKED\<rparr>)"
    "p_waiting_sender (ports s1 ! i) = t_id t"
  have tid: "t_id t \<noteq> 0" using sched_wf_tid [OF assms(2,3)] by simp
  have "\<exists>s2. msg_receive (of_nat i) buf flags' s1 = Some (IpcReturn 0, s2) \<and>
        messages s2 buf = Some (hd (inbox s i)) \<and> inbox s2 i = tl (inbox s i) \<and>
        tasks s2 (current_task s) = Some (t\<lparr>t_state := TASK_READY\<rparr>)"
    if b: "buf \<noteq> 0" "messages s buf \<noteq> None" for buf flags'
  proof -
    have ne: "inbox s1 i \<noteq> []" using s1(4) assms(5) by auto
    have b1: "messages s1 buf \<noteq> None" using b s1(5) by simp
    show ?thesis
    proof (rule msg_receive_some [OF s1(3,2) b(1) b1 ne, where flags = flags'])
      fix m s2
      assume s2: "msg_receive (of_nat i) buf flags' s1 = Some (IpcReturn 0, s2)" "ring_get (port_ring s1 i) = Some (m, port_ring s2 i)"
        "messages s2 = (messages s1)(buf \<mapsto> m)"
        "tasks s2 = (if p_waiting_sender (ports s1 ! i) \<noteq> 0 then unblocked (p_waiting_sender (ports s1 ! i)) (tasks s1) else tasks s1)"
      have "inbox s i = m # inbox s2 i"
        using ring.deq_ok [OF _ s2(2)] s1(3,4) by (simp add: port_wf_def)
      moreover have "tasks s2 (current_task s) = Some (t\<lparr>t_state := TASK_READY\<rparr>)"
        using s2(4) s1(6,7) tid by (simp add: unblocked_def)
      ultimately show ?thesis using s2(1,3) by simp
    qed
  qed
  moreover have "inbox s1 i = inbox s i" using s1(4) by simp
  ultimately show ?thesis using s1(1,6) by blast
qed

text \<open>The demonstration port with its fifteen slots taken.\<close>

definition ipc_full :: ipc_state where
  "ipc_full = set_port 3 (\<lambda>p. p\<lparr>p_queue_tail := 15\<rparr>) ipc_demo"

lemma ipc_full_port: "port_wf ipc_full 3" "length (inbox ipc_full 3) = 15"
  by (auto simp: ipc_full_def set_port_def port_wf_def port_ring_def ipc_demo_def sched_state.defs ipc_state.defs MAX_PORTS_def
    ring_ok.simps MSG_QUEUE_SIZE_def zero_port_def nth_list_update ring_length)

lemma ipc_full_sched:
  "sched_wf ipc_full [0x300, 0x200, 0x100]" "tasks ipc_full (current_task ipc_full) = Some (demo_task 3 TASK_RUNNING 0x200)"
  "messages ipc_full = messages ipc_demo" "current_task ipc_full = 0x300"
  using ipc_demo_sched sched_wf_frame [of ipc_full ipc_demo]
  by (auto simp: ipc_full_def set_port_def ipc_demo_def sched_state.defs sched_demo_def)

theorem ipc_sender_wakes_witness:
  "\<exists>s1 s2. msg_send 3 0x900 1 ipc_full = Some (IpcBlocked, s1) \<and> msg_receive 3 0x900 1 s1 = Some (IpcReturn 0, s2) \<and>
     tasks s2 0x300 = Some (demo_task 3 TASK_READY 0x200)"
proof -
  have m: "(0x900 :: u32) \<noteq> 0 \<and> messages ipc_full 0x900 \<noteq> None"
    by (simp add: ipc_full_sched(3) ipc_demo_def ipc_state.defs sched_state.defs)
  have t: "(demo_task 3 TASK_RUNNING 0x200)\<lparr>t_state := TASK_READY\<rparr> = demo_task 3 TASK_READY 0x200"
    by (simp add: demo_task_def zero_task_def)
  have fl: "(1 :: u32) AND IPC_NONBLOCK = 0" by (simp add: IPC_NONBLOCK_def)
  have three: "of_nat 3 = (3 :: u32)" by simp
  show ?thesis
    using ipc_sender_wakes [OF ipc_full_port(1) ipc_full_sched(1,2) conjunct1 [OF m] ipc_full_port(2) fl] m
    unfolding three t ipc_full_sched(4) by blast
qed

text \<open>A blocked task whose id no field of the port holds is not woken by any traffic on the port.\<close>

definition forgotten :: "'a ipc_state_scheme \<Rightarrow> nat \<Rightarrow> u32 \<Rightarrow> task \<Rightarrow> bool" where
  "forgotten s i a u \<longleftrightarrow> tasks s a = Some u \<and> t_state u = TASK_BLOCKED \<and>
     p_waiting_sender (ports s ! i) \<noteq> t_id u \<and> p_waiting_receiver (ports s ! i) \<noteq> t_id u \<and> t_id u \<noteq> 0"

lemma forgotten_unblocked: "tasks s a = Some u \<Longrightarrow> tid \<noteq> t_id u \<Longrightarrow> unblocked tid (tasks s) a = Some u"
  by (auto simp: unblocked_def)

lemma forgotten_run:
  fixes s :: "'a ipc_state_scheme"
  assumes "port_wf s i" and "sched_wf s ts" and "\<forall>op\<in>set ops. op_ptr op \<noteq> 0 \<and> messages s (op_ptr op) \<noteq> None"
    and "forgotten s i a u" and "ipc_run i ops s = Some (ins, outs, s')"
  shows "forgotten s' i a u"
  using assms
proof (induction ops arbitrary: s ins outs)
  case (Cons op ops)
  have nb: "IPC_NONBLOCK AND IPC_NONBLOCK \<noteq> 0" by (simp add: IPC_NONBLOCK_def)
  have ptr: "op_ptr op \<noteq> 0" "messages s (op_ptr op) \<noteq> None" using Cons.prems(3) by auto
  have u: "tasks s a = Some u" "t_state u = TASK_BLOCKED" "t_id u \<noteq> 0" "p_waiting_sender (ports s ! i) \<noteq> t_id u"
    "p_waiting_receiver (ports s ! i) \<noteq> t_id u" using Cons.prems(4) by (auto simp: forgotten_def)
  show ?case
  proof (cases op)
    case (SendFrom b)
    then obtain m where m: "messages s b = Some m" using ptr by auto
    show ?thesis
    proof (cases "length (inbox s i) < 15")
      case True
      have b0: "b \<noteq> 0" using ptr(1) SendFrom by simp
      show ?thesis
      proof (rule msg_send_room [OF Cons.prems(1,2) b0 m True, where flags = IPC_NONBLOCK])
        fix s1
        assume s1: "msg_send (of_nat i) b IPC_NONBLOCK s = Some (IpcReturn 0, s1)" "port_wf s1 i" "sched_wf s1 ts" "messages s1 = messages s"
          "tasks s1 = (if p_waiting_receiver (ports s ! i) \<noteq> 0 then unblocked (p_waiting_receiver (ports s ! i)) (tasks s) else tasks s)"
          "p_waiting_sender (ports s1 ! i) = p_waiting_sender (ports s ! i)" "p_waiting_receiver (ports s1 ! i) = 0"
        have "forgotten s1 i a u" unfolding forgotten_def using u s1(5-7) forgotten_unblocked [of s a u] by simp
        then show ?thesis
          using Cons.IH [OF s1(2,3)] Cons.prems(3,5) s1(1,4) SendFrom m by (auto simp: bind_eq_Some_conv)
      qed
    next
      case False
      then have "length (inbox s i) = 15"
        using ring.within_cap [of "port_ring s i"] Cons.prems(1) by (simp add: port_wf_def)
      then have "msg_send (of_nat i) b IPC_NONBLOCK s = Some (IpcReturn (-2), s)"
        using msg_send_full [OF Cons.prems(1)] ptr(1) SendFrom nb by simp
      then show ?thesis
        using Cons.IH [OF Cons.prems(1,2) _ Cons.prems(4)] Cons.prems(3,5) SendFrom m by (auto simp: bind_eq_Some_conv)
    qed
  next
    case (ReceiveInto b)
    have b0: "b \<noteq> 0" "messages s b \<noteq> None" using ptr ReceiveInto by simp_all
    show ?thesis
    proof (cases "inbox s i = []")
      case False
      show ?thesis
      proof (rule msg_receive_some [OF Cons.prems(1,2) b0 False, where flags = IPC_NONBLOCK])
        fix m s1
        assume s1: "msg_receive (of_nat i) b IPC_NONBLOCK s = Some (IpcReturn 0, s1)" "port_wf s1 i" "sched_wf s1 ts"
          "messages s1 = (messages s)(b \<mapsto> m)"
          "tasks s1 = (if p_waiting_sender (ports s ! i) \<noteq> 0 then unblocked (p_waiting_sender (ports s ! i)) (tasks s) else tasks s)"
          "p_waiting_sender (ports s1 ! i) = 0" "p_waiting_receiver (ports s1 ! i) = p_waiting_receiver (ports s ! i)"
        have "forgotten s1 i a u" unfolding forgotten_def using u s1(5-7) forgotten_unblocked [of s a u] by simp
        moreover have "\<forall>op\<in>set ops. op_ptr op \<noteq> 0 \<and> messages s1 (op_ptr op) \<noteq> None" using Cons.prems(3) s1(4) by simp
        ultimately show ?thesis
          using Cons.IH [OF s1(2,3)] Cons.prems(5) s1(1) ReceiveInto by (auto simp: bind_eq_Some_conv)
      qed
    next
      case True
      then have "msg_receive (of_nat i) b IPC_NONBLOCK s = Some (IpcReturn (-2), s)"
        using msg_receive_empty [OF Cons.prems(1)] b0 nb by simp
      then show ?thesis
        using Cons.IH [OF Cons.prems(1,2) _ Cons.prems(4)] Cons.prems(3,5) ReceiveInto by (auto simp: bind_eq_Some_conv)
    qed
  qed
qed simp



section \<open>Creating a port\<close>

lemma find_port_Some:
  assumes "find_port P s = Some i"
  shows "i < MAX_PORTS" "P (ports s ! i)" "\<forall>j<i. \<not> P (ports s ! j)"
proof -
  obtain k where "k < MAX_PORTS" "P (ports s ! ([0..<MAX_PORTS] ! k))" "i = [0..<MAX_PORTS] ! k"
    "\<forall>j<k. \<not> P (ports s ! ([0..<MAX_PORTS] ! j))"
    using assms by (auto simp: find_port_def find_Some_iff)
  then show "i < MAX_PORTS" "P (ports s ! i)" "\<forall>j<i. \<not> P (ports s ! j)" by (simp_all del: upt_Suc)
qed

lemma heap_frame_ports [simp]:
  "heap_inv (set_port i f s) = heap_inv s" "heap_live (set_port i f s) = heap_live s"
  "port_count (set_port i f s) = port_count s"
  "heap_inv (s\<lparr>ports := x1\<rparr>) = heap_inv s" "heap_live (s\<lparr>ports := x1\<rparr>) = heap_live s"
  "heap_inv (s\<lparr>queues := x2\<rparr>) = heap_inv s" "heap_live (s\<lparr>queues := x2\<rparr>) = heap_live s"
  "heap_inv (s\<lparr>port_count := x3\<rparr>) = heap_inv s" "heap_live (s\<lparr>port_count := x3\<rparr>) = heap_live s"
  by (simp_all add: set_port_def heap_inv_def heap_live_def heap_blocks_def)

lemma heap_frame_ipc:
  fixes s s' :: "'a ipc_state_scheme"
  assumes "kmalloc n s = Some (p, s')"
  shows "ports s' = ports s" "port_count s' = port_count s" "queues s' = queues s" "messages s' = messages s"
  using arg_cong [OF kmalloc_frame [OF assms], of ports] arg_cong [OF kmalloc_frame [OF assms], of port_count]
    arg_cong [OF kmalloc_frame [OF assms], of queues] arg_cong [OF kmalloc_frame [OF assms], of messages] by simp_all

lemma queue_fits: "heap_fits (sizeof_message * MSG_QUEUE_SIZE)"
  by (simp add: heap_fits_def sizeof_message_def MSG_QUEUE_SIZE_def MAX_MSG_SIZE_def)

text \<open>
  \<open>port_create\<close> with a free slot takes the first one. When the heap has room, the port it returns is
  well-formed, empty, owned by the caller, and its message array is a fresh heap block; no other port
  changes. When the heap is exhausted it returns \<open>-1\<close>, but the slot keeps its new owner with a queue of
  size zero: the slot is lost, and any later send to that port number divides by zero.
\<close>

theorem port_create_cases:
  fixes s :: "'a ipc_state_scheme"
  assumes "heap_inv s" and "length (ports s) = MAX_PORTS" and "unat (port_count s) < MAX_PORTS" and "owner \<noteq> 0"
    and "find_port (\<lambda>p. p_owner p = 0) s = Some i" and "ports s ! i = zero_port"
    and "\<forall>j<MAX_PORTS. p_queue (ports s ! j) \<in> insert 0 (heap_live s)"
  shows "\<exists>r s'. port_create owner s = Some (r, s') \<and> heap_inv s' \<and> p_owner (ports s' ! i) = owner \<and>
    (if r = -1
     then heap_live s' = heap_live s \<and> port_count s' = port_count s \<and>
       (\<forall>msg flags. msg \<noteq> 0 \<longrightarrow> msg_send (of_nat i) msg flags s' = Some (IpcDivideError, s'))
     else r = of_nat i \<and> port_wf s' i \<and> only_port s s' i \<and> inbox s' i = [] \<and> port_count s' = port_count s + 1 \<and>
       p_queue (ports s' ! i) \<notin> heap_live s \<and> heap_live s' = insert (p_queue (ports s' ! i)) (heap_live s))"
proof -
  have i: "i < MAX_PORTS" using find_port_Some [OF assms(5)] by simp
  then have il: "i < length (ports s)" using assms(2) by simp
  let ?s = "set_port i (\<lambda>p. p\<lparr>p_owner := owner, p_id := of_nat i, p_flags := 0\<rparr>) s"
  have hi: "heap_inv ?s" using assms(1) by simp
  from hi queue_fits show ?thesis
  proof (cases rule: heap.alloc_cases)
    case (null s1)
    let ?s' = "set_port i (\<lambda>p. p\<lparr>p_queue := 0\<rparr>) s1"
    note fr = heap_frame_ipc [OF null(1)]
    have c: "port_create owner s = Some (-1, ?s')"
      using assms(3,5) null(1) by (simp add: port_create_def Let_def)
    have p: "ports ?s' ! i = zero_port\<lparr>p_owner := owner, p_id := of_nat i\<rparr>"
      using fr(1) il assms(6) by (simp add: set_port_def zero_port_def)
    have "msg_send (of_nat i) msg flags ?s' = Some (IpcDivideError, ?s')" if "msg \<noteq> 0" for msg flags
      using that port_id_ok [OF i] assms(4) by (simp add: msg_send_def msg_send_body_def p) (simp add: zero_port_def)
    moreover have "heap_live ?s' = heap_live s" "heap_inv ?s'" "port_count ?s' = port_count s"
      using null(2,3) fr(2) by simp_all
    ultimately show ?thesis using c p by (intro exI [of _ "-1"] exI [of _ ?s']) simp
  next
    case (pointer q s1)
    note fr = heap_frame_ipc [OF pointer(1)]
    define p' where "p' = \<lparr>p_owner = owner, p_id = of_nat i, p_flags = 0, p_queue = q, p_queue_head = 0, p_queue_tail = 0,
      p_queue_size = MSG_QUEUE_SIZE, p_waiting_sender = 0, p_waiting_receiver = 0\<rparr>"
    define s' where "s' = s1\<lparr>queues := (queues s)(q \<mapsto> replicate (unat MSG_QUEUE_SIZE) zero_message),
      ports := (ports s)[i := p'], port_count := port_count s + 1\<rparr>"
    have c: "port_create owner s = Some (of_nat i, s')"
      using assms(3,5,6) pointer(1,2) fr il
      by (simp add: port_create_def Let_def set_port_def s'_def p'_def zero_port_def)
    have r: "of_nat i \<noteq> (-1 :: u32)"
    proof
      assume "of_nat i = (-1 :: u32)"
      then have "unat (of_nat i :: u32) = unat (-1 :: u32)" by simp
      moreover have "unat (-1 :: u32) = 2 ^ 32 - 1" by (simp add: unsigned_minus_1_eq_mask mask_eq_exp_minus_1)
      ultimately show False using port_id_ok(2) [OF i] i by (simp add: MAX_PORTS_def)
    qed
    have ql: "q \<notin> heap_live s" using pointer(4) by simp
    have others: "p_queue (ports s ! j) \<noteq> q" if "j < MAX_PORTS" for j
      using assms(7) that ql pointer(2) by fastforce
    have p: "ports s' ! i = p'" using il by (simp add: s'_def)
    have ring: "port_ring s' i = (0, 0, MSG_QUEUE_SIZE, replicate (unat MSG_QUEUE_SIZE) zero_message)"
      using p by (simp add: port_ring_def Let_def p'_def s'_def)
    have "only_port s s' i"
      using others by (auto simp: only_port_def s'_def port_ring_def Let_def)
    moreover have "port_wf s' i"
      using i assms(2,4) others ring p
      by (auto simp: port_wf_def ring_ok.simps s'_def p'_def MSG_QUEUE_SIZE_def)
    moreover have "inbox s' i = []" using ring by (simp add: ring_contents_def MSG_QUEUE_SIZE_def)
    moreover have "heap_live s' = insert q (heap_live s)" "heap_inv s'"
      using pointer(3,5) by (simp_all add: s'_def)
    ultimately show ?thesis
      using c r p ql by (intro exI [of _ "of_nat i"] exI [of _ s']) (simp add: p'_def s'_def)
  qed
qed

definition ipc_boot :: ipc_state where
  "ipc_boot = ipc_init (sched_state.extend sched_boot (ipc_state.fields [] 0 Map.empty Map.empty))"

theorem port_create_cases_witness:
  "\<exists>r s'. port_create 7 ipc_boot = Some (r, s') \<and> heap_inv s' \<and> p_owner (ports s' ! 0) = 7"
proof -
  have hb: "heap_inv ipc_boot"
    using sched_boot_inv by (auto simp: sched_inv_def sched_own_def heap_inv_def heap_blocks_def ipc_boot_def ipc_init_def sched_state.defs)
  have p: "ports ipc_boot = replicate MAX_PORTS zero_port" "port_count ipc_boot = 0"
    by (simp_all add: ipc_boot_def ipc_init_def)
  have f: "find_port (\<lambda>p. p_owner p = 0) ipc_boot = Some 0"
    unfolding find_port_def p MAX_PORTS_def by (simp add: upt_rec [of 0] zero_port_def)
  show ?thesis
    using port_create_cases [OF hb _ _ _ f, of 7] by (auto simp: p zero_port_def MAX_PORTS_def)
qed

end
