(* ===== verification/Mmu.thy ===== *)
theory Mmu
  imports Vmm
begin

text \<open>
  The memory as the processor sees it while kernel code runs with paging enabled: every access is translated
  by the two levels of tables behind the register CR3, and an access to a page that is not present is a page
  fault, which in kernel mode ends in a panic (\<^verbatim>\<open>kernel/arch/i686/idt.c\<close>); it is the result \<^term>\<open>None\<close>. The kernel
  does not set the write-protect bit of CR0, so its own accesses ignore the access bits of a page. The memory
  managers use this translation through their own pages, which are mapped to themselves; the code that
  follows pointers given by user programs uses it for all its accesses.
\<close>

section \<open>Translation\<close>

definition paging :: "'a vmm_state_scheme \<Rightarrow> bool" where
  "paging s \<longleftrightarrow> cr0 s AND 0x80000000 \<noteq> 0"

definition virt :: "'a vmm_state_scheme \<Rightarrow> u32 \<Rightarrow> u32 option" where
  "virt s va =
     (if \<not> paging s then Some va
      else let e = entry s (page_of (cr3 s)) (page_directory_index va) in
        if \<not> present e then None
        else let t = entry s (page_of e) (page_table_index va) in
          if \<not> present t then None else Some (page_of t OR (va AND 0xFFF)))"

definition vload8 :: "u32 \<Rightarrow> 'a vmm_state_scheme \<Rightarrow> u8 option" where
  "vload8 a s = map_option (kmem s) (virt s a)"

definition vstore8 :: "u32 \<Rightarrow> u8 \<Rightarrow> 'a vmm_state_scheme \<Rightarrow> 'a vmm_state_scheme option" where
  "vstore8 a v s = map_option (\<lambda>p. s\<lparr>kmem := (kmem s)(p := v)\<rparr>) (virt s a)"

primrec vload_bytes :: "u32 \<Rightarrow> nat \<Rightarrow> 'a vmm_state_scheme \<Rightarrow> u8 list option" where
  "vload_bytes a 0 s = Some []"
| "vload_bytes a (Suc n) s = do { b \<leftarrow> vload8 a s; bs \<leftarrow> vload_bytes (a + 1) n s; Some (b # bs) }"

primrec vstore_bytes :: "u32 \<Rightarrow> u8 list \<Rightarrow> 'a vmm_state_scheme \<Rightarrow> 'a vmm_state_scheme option" where
  "vstore_bytes a [] s = Some s"
| "vstore_bytes a (b # bs) s = do { s \<leftarrow> vstore8 a b s; vstore_bytes (a + 1) bs s }"

text \<open>Little-endian words of memory.\<close>

definition vload16 :: "u32 \<Rightarrow> 'a vmm_state_scheme \<Rightarrow> u16 option" where
  "vload16 a s = do { b0 \<leftarrow> vload8 a s; b1 \<leftarrow> vload8 (a + 1) s; Some (ucast b0 OR push_bit 8 (ucast b1)) }"

definition vload32 :: "u32 \<Rightarrow> 'a vmm_state_scheme \<Rightarrow> u32 option" where
  "vload32 a s =
     do { b0 \<leftarrow> vload8 a s; b1 \<leftarrow> vload8 (a + 1) s; b2 \<leftarrow> vload8 (a + 2) s; b3 \<leftarrow> vload8 (a + 3) s;
          Some (ucast b0 OR push_bit 8 (ucast b1) OR push_bit 16 (ucast b2) OR push_bit 24 (ucast b3)) }"

definition vstore32 :: "u32 \<Rightarrow> u32 \<Rightarrow> 'a vmm_state_scheme \<Rightarrow> 'a vmm_state_scheme option" where
  "vstore32 a v s =
     vstore_bytes a [ucast v, ucast (drop_bit 8 v), ucast (drop_bit 16 v), ucast (drop_bit 24 v)] s"

text \<open>\<^verbatim>\<open>memcpy\<close> and \<^verbatim>\<open>memset\<close> of \<^verbatim>\<open>kernel/lib/string.c\<close> on such addresses, byte by byte.\<close>

primrec vmemcpy :: "u32 \<Rightarrow> u32 \<Rightarrow> nat \<Rightarrow> 'a vmm_state_scheme \<Rightarrow> 'a vmm_state_scheme option" where
  "vmemcpy dst src 0 s = Some s"
| "vmemcpy dst src (Suc n) s = do { b \<leftarrow> vload8 src s; s \<leftarrow> vstore8 dst b s; vmemcpy (dst + 1) (src + 1) n s }"

definition vmemset :: "u32 \<Rightarrow> u8 \<Rightarrow> nat \<Rightarrow> 'a vmm_state_scheme \<Rightarrow> 'a vmm_state_scheme option" where
  "vmemset dst v n s = vstore_bytes dst (replicate n v) s"

section \<open>Writes that keep the translation\<close>

text \<open>The pages that a translation reads.\<close>

definition walk_pages :: "'a vmm_state_scheme \<Rightarrow> nat set" where
  "walk_pages s = (if \<not> paging s then {} else insert (page_no (cr3 s))
     {page_no (entry s (page_of (cr3 s)) i) | i. unat i < 1024 \<and> present (entry s (page_of (cr3 s)) i)})"

lemma virt_keeps:
  assumes same: "\<forall>n \<in> walk_pages s. same_page n (kmem s) (kmem s')" and "cr0 s' = cr0 s" and "cr3 s' = cr3 s"
  shows "virt s' va = virt s va" and "walk_pages s' = walk_pages s"
proof -
  have pg: "paging s' = paging s" using assms(2) by (simp add: paging_def)
  have e: "entry s' (page_of (cr3 s)) i = entry s (page_of (cr3 s)) i" if "paging s" "unat i < 1024" for i
    by (rule entry_same_page) (use same that in \<open>auto simp: walk_pages_def\<close>)
  have t: "entry s' (page_of x) i = entry s (page_of x) i"
    if "paging s" "x = entry s (page_of (cr3 s)) j" "unat j < 1024" "present x" "unat i < 1024" for x i j
    by (rule entry_same_page) (use same that in \<open>auto simp: walk_pages_def\<close>)
  show "virt s' va = virt s va"
  proof (cases "paging s \<and> present (entry s (page_of (cr3 s)) (page_directory_index va))")
    case True
    then show ?thesis
      using e [of "page_directory_index va"] t [OF _ refl, of "page_directory_index va" "page_table_index va"]
        index_unat(3,4) [of va] pg assms(3) by (simp add: virt_def Let_def)
  next
    case False
    then show ?thesis using e [of "page_directory_index va"] index_unat(3) [of va] pg assms(3) by (auto simp: virt_def Let_def)
  qed
  show "walk_pages s' = walk_pages s"
  proof (cases "paging s")
    case True
    have "{page_no (entry s' (page_of (cr3 s)) i) | i. unat i < 1024 \<and> present (entry s' (page_of (cr3 s)) i)} =
        {page_no (entry s (page_of (cr3 s)) i) | i. unat i < 1024 \<and> present (entry s (page_of (cr3 s)) i)}"
      using e [OF True] by metis
    then show ?thesis using True pg assms(3) by (simp add: walk_pages_def)
  qed (simp add: walk_pages_def pg)
qed

lemma vstore8_keeps:
  assumes "vstore8 a v s = Some s'" and "\<And>p. virt s a = Some p \<Longrightarrow> page_no p \<notin> walk_pages s"
  shows "virt s' va = virt s va" and "walk_pages s' = walk_pages s"
proof -
  obtain p where p: "virt s a = Some p" "s' = s\<lparr>kmem := (kmem s)(p := v)\<rparr>" using assms(1) by (auto simp: vstore8_def)
  have "\<forall>n \<in> walk_pages s. same_page n (kmem s) (kmem s')" using assms(2) [OF p(1)] by (auto simp: p(2) same_page_def)
  then show "virt s' va = virt s va" "walk_pages s' = walk_pages s"
    using virt_keeps [of s s'] by (simp_all add: p(2))
qed

text \<open>
  A range of \<open>n\<close> addresses from \<open>a\<close> on that is mapped, to different places and none of them in a table.
\<close>

definition writable_range :: "'a vmm_state_scheme \<Rightarrow> u32 \<Rightarrow> nat \<Rightarrow> bool" where
  "writable_range s a n \<longleftrightarrow>
     (\<forall>i < n. \<exists>p. virt s (a + of_nat i) = Some p \<and> page_no p \<notin> walk_pages s) \<and>
     inj_on (\<lambda>i. virt s (a + of_nat i)) {..<n}"

lemma writable_range_step:
  assumes "writable_range s a (Suc n)" and "vstore8 a v s = Some s'"
  shows "writable_range s' (a + 1) n" and "virt s' = virt s" and "walk_pages s' = walk_pages s"
proof -
  have k: "virt s' va = virt s va" "walk_pages s' = walk_pages s" for va
    using vstore8_keeps [OF assms(2)] assms(1) by (auto simp: writable_range_def)
  then show v: "virt s' = virt s" and w: "walk_pages s' = walk_pages s" by auto
  have shift: "a + 1 + of_nat i = a + of_nat (Suc i)" for i by simp
  have "inj_on (\<lambda>i. virt s (a + of_nat (Suc i))) {..<n}"
    using assms(1) unfolding writable_range_def inj_on_def by (metis Suc_inject Suc_less_eq lessThan_iff)
  then show "writable_range s' (a + 1) n"
    using assms(1) unfolding writable_range_def v w shift by (metis Suc_less_eq)
qed

lemma vstore8_ok:
  assumes "writable_range s a (Suc n)"
  obtains p where "virt s a = Some p" and "vstore8 a v s = Some (s\<lparr>kmem := (kmem s)(p := v)\<rparr>)"
  using assms that unfolding writable_range_def vstore8_def by fastforce

text \<open>Storing bytes: they can be read back, and all other bytes of the physical memory stay.\<close>

definition stores :: "'a vmm_state_scheme \<Rightarrow> 'a vmm_state_scheme \<Rightarrow> u32 \<Rightarrow> u8 list \<Rightarrow> bool" where
  "stores s s' a bs \<longleftrightarrow> virt s' = virt s \<and> s' = s\<lparr>kmem := kmem s'\<rparr> \<and>
     (\<forall>i < length bs. vload8 (a + of_nat i) s' = Some (bs ! i)) \<and>
     (\<forall>p. (\<forall>i < length bs. virt s (a + of_nat i) \<noteq> Some p) \<longrightarrow> kmem s' p = kmem s p)"

lemma stores_Cons:
  assumes "writable_range s a (Suc (length bs))" and "virt s a = Some p" and "stores (s\<lparr>kmem := (kmem s)(p := b)\<rparr>) s' (a + 1) bs"
  shows "stores s s' a (b # bs)"
proof -
  let ?s1 = "s\<lparr>kmem := (kmem s)(p := b)\<rparr>"
  have st: "vstore8 a b s = Some ?s1" using assms(2) by (simp add: vstore8_def)
  have v1: "virt ?s1 = virt s" using writable_range_step(2) [OF assms(1) st] .
  have v: "virt s' = virt s" using assms(3) v1 by (simp add: stores_def)
  have rec: "s' = s\<lparr>kmem := kmem s'\<rparr>" using assms(3) unfolding stores_def
    by (metis (no_types, lifting) machine.fold_congs(1) machine.surjective machine.update_convs(1))
  have shift: "a + 1 + of_nat i = a + of_nat (Suc i)" for i by simp
  have other: "virt s (a + of_nat (Suc i)) \<noteq> Some p" if "i < length bs" for i
  proof
    assume "virt s (a + of_nat (Suc i)) = Some p"
    then have "virt s (a + of_nat (Suc i)) = virt s (a + of_nat 0)" using assms(2) by simp
    then have "Suc i = 0" using assms(1) that unfolding writable_range_def inj_on_def by (meson Suc_less_eq lessThan_iff zero_less_Suc)
    then show False by simp
  qed
  have "kmem s' p = b" using assms(3) other v1 unfolding stores_def shift by simp
  then have first: "vload8 a s' = Some b" using v assms(2) by (simp add: vload8_def)
  have nth: "vload8 (a + of_nat i) s' = Some ((b # bs) ! i)" if "i < length (b # bs)" for i
    using that first assms(3) unfolding stores_def shift by (cases i) simp_all
  have "kmem s' q = kmem s q" if "\<forall>i < length (b # bs). virt s (a + of_nat i) \<noteq> Some q" for q
  proof -
    have "q \<noteq> p" using that assms(2) by force
    moreover have "\<forall>i < length bs. virt ?s1 (a + 1 + of_nat i) \<noteq> Some q" unfolding v1 shift using that by auto
    then have "kmem s' q = kmem ?s1 q" using assms(3) by (simp only: stores_def)
    ultimately show ?thesis by simp
  qed
  then show ?thesis using v rec nth by (simp add: stores_def)
qed

lemma vstore_bytes_stores:
  assumes "writable_range s a (length bs)"
  shows "\<exists>s'. vstore_bytes a bs s = Some s' \<and> stores s s' a bs"
  using assms
proof (induction bs arbitrary: a s)
  case Nil
  then show ?case by (simp add: stores_def)
next
  case (Cons b bs)
  obtain p where p: "virt s a = Some p" "vstore8 a b s = Some (s\<lparr>kmem := (kmem s)(p := b)\<rparr>)"
    using vstore8_ok Cons.prems by (metis length_Cons)
  have "writable_range (s\<lparr>kmem := (kmem s)(p := b)\<rparr>) (a + 1) (length bs)"
    using writable_range_step(1) [OF _ p(2)] Cons.prems by simp
  from Cons.IH [OF this] obtain s'
    where "vstore_bytes (a + 1) bs (s\<lparr>kmem := (kmem s)(p := b)\<rparr>) = Some s'" "stores (s\<lparr>kmem := (kmem s)(p := b)\<rparr>) s' (a + 1) bs" by blast
  then show ?case using p stores_Cons [OF _ p(1)] Cons.prems by auto
qed

text \<open>The translation of the processor is the one the memory manager computes.\<close>

lemma virt_mapped:
  assumes "space_wf s pd" and "paging s" and "cr3 s = pd"
  shows "virt s va = (if vmm_is_mapped pd va s then Some (vmm_get_physical_address pd va s) else None)"
proof -
  have "paged pd" "identity_mode s" using assms(1) by (simp_all add: space_wf_def frame_def)
  then have pd: "page_of (cr3 s) = pd" using assms(3) by (simp add: paged_def)
  have "page_of (entry s pd (page_directory_index va)) \<noteq> 0" if "present (entry s pd (page_directory_index va))"
    using that assms(1) index_unat(3) [of va] by (auto simp: space_wf_def frame_def)
  then show ?thesis
    using \<open>identity_mode s\<close> assms(2) pd
    by (auto simp: virt_def vmm_is_mapped_def vmm_get_physical_address_def get_page_table_read Let_def)
qed

end
