(* ===== verification/Spaces.thy ===== *)
theory Spaces
  imports Mmu
begin

text \<open>
  Isolation of address spaces: giving a page to one address space (\<^verbatim>\<open>vmm_alloc_page\<close> of \<^verbatim>\<open>kernel/mm/vmm.c\<close>) leaves
  the translation of every other one alone, and the contents of all frames that belong to neither its directory
  nor its tables. The spaces may share the tables of the kernel half, from entry 768 on.
\<close>

section \<open>Frames that do not belong to an address space\<close>

definition foreign :: "'a vmm_state_scheme \<Rightarrow> u32 \<Rightarrow> u32 \<Rightarrow> bool" where
  "foreign s pd q \<longleftrightarrow> frame s q \<and> q \<noteq> pd \<and> (\<forall>i. unat i < 768 \<and> present (entry s pd i) \<longrightarrow> page_of (entry s pd i) \<noteq> q)"

lemma user_index: "va < KERNEL_VIRTUAL_BASE \<Longrightarrow> unat (page_directory_index va) < 768"
proof -
  assume "va < KERNEL_VIRTUAL_BASE"
  then have "unat va < 0xC0000000" by (simp add: KERNEL_VIRTUAL_BASE_def word_less_nat_alt)
  then show ?thesis unfolding index_unat(1) page_no_def by (simp add: less_mult_imp_div_less)
qed

lemma alloc_zero:
  assumes "pmm_wf s" and "pmm_alloc_block s = (0, s1)"
  shows "s1 = s"
  using assms(1)
proof (cases rule: pmm_alloc_block_cases)
  case (frame f)
  then show ?thesis using assms frame_address(2) [of f] frame_no_small [OF frame(2) assms(1)] by simp
qed (use assms in simp)

lemma isolated_alloc_step:
  assumes wf: "space_wf s pd" and al: "pmm_alloc_block s = (p, s1)" and nz: "p \<noteq> 0"
  shows "frame s q \<Longrightarrow> frame s1 q \<and> same_page (page_no q) (kmem s) (kmem s1)"
    and "cr0 s1 = cr0 s" and "cr3 s1 = cr3 s" and "pmm_free_block p s1 = s"
proof -
  have pw: "pmm_wf s" using wf by (simp add: space_wf_def)
  obtain f where f: "0 < f" "f < unat (pmm_max_blocks s)" "\<not> bitmap_test s (of_nat f)" "p = of_nat (4096 * f)"
      "s1 = (bitmap_set (of_nat f) s)\<lparr>pmm_used_blocks := pmm_used_blocks s + 1\<rparr>"
    using pw
  proof (cases rule: pmm_alloc_block_cases)
    case full
    then show thesis using al nz by simp
  next
    case (frame f)
    then show thesis using al that by simp
  qed
  have small: "f < 2 ^ 20" using frame_no_small [OF f(2) pw] .
  have m32: "unat (pmm_max_blocks s) mod 32 = 0" using pw by (simp add: pmm_wf_def)
  show "frame s1 q \<and> same_page (page_no q) (kmem s) (kmem s1)" if "frame s q"
    using space_wf_alloc(5) [OF wf al nz that] bitmap_set_same_page(1) [of s "page_no q" f] that f(2) m32 small
    by (simp add: f(5) frame_def)
  show "cr0 s1 = cr0 s" "cr3 s1 = cr3 s" by (simp_all add: f(5) bitmap_set_def)
  have "unat p = 4096 * f" unfolding f(4) by (rule unat_of_nat_small) (use small in simp)
  then have "unat (p div 4096) = f" by (simp add: unat_div_distrib)
  then have "of_nat (unat (p div 4096)) = (of_nat f :: u32)" by simp
  then have d: "p div 4096 = of_nat f" by simp
  have "bitmap_unset (of_nat f) (bitmap_set (of_nat f) s) = s" by (rule bitmap_unset_set) (rule f(3))
  moreover have "bitmap_unset (of_nat f) (x\<lparr>pmm_used_blocks := u\<rparr>) = (bitmap_unset (of_nat f) x)\<lparr>pmm_used_blocks := u\<rparr>"
    for x :: "'a vmm_state_scheme" and u by (simp add: bitmap_unset_def bitmap_word_def)
  ultimately show "pmm_free_block p s1 = s" unfolding pmm_free_block_def d f(5) by simp
qed

text \<open>A table for an address, present or new.\<close>

lemma get_table_foreign:
  assumes wf: "space_wf s pd" and va: "va < KERNEL_VIRTUAL_BASE" and t: "get_page_table pd va True s = (t, s1)" and nz: "t \<noteq> 0"
  shows "space_wf s1 pd" and "t = page_of (entry s1 pd (page_directory_index va))" and "present (entry s1 pd (page_directory_index va))"
    and "cr0 s1 = cr0 s" and "cr3 s1 = cr3 s"
    and "foreign s pd q \<Longrightarrow> foreign s1 pd q \<and> same_page (page_no q) (kmem s) (kmem s1)"
proof -
  let ?i = "page_directory_index va"
  have mode: "identity_mode s" and pd: "paged pd" "frame s pd" using wf by (auto simp: space_wf_def frame_def)
  have i: "unat ?i < 768" "unat ?i < 1024" using user_index [OF va] by simp_all
  consider (old) "present (entry s pd ?i)" "s1 = s" "t = page_of (entry s pd ?i)"
    | (new) "\<not> present (entry s pd ?i)"
    using t mode by (fastforce simp: get_page_table_def Let_def)
  then have "space_wf s1 pd \<and> t = page_of (entry s1 pd ?i) \<and> present (entry s1 pd ?i) \<and> cr0 s1 = cr0 s \<and> cr3 s1 = cr3 s \<and>
    (foreign s pd q \<longrightarrow> foreign s1 pd q \<and> same_page (page_no q) (kmem s) (kmem s1))"
  proof cases
    case old
    then show ?thesis using wf by simp
  next
    case new
    obtain p s0 where al: "pmm_alloc_block s = (p, s0)" by fastforce
    have p0: "p \<noteq> 0" using t nz new mode al by (auto simp: get_page_table_def Let_def)
    let ?fl = "(PAGE_PRESENT OR PAGE_WRITE) OR (if va < KERNEL_VIRTUAL_BASE then PAGE_USER else 0)"
    note a = space_wf_alloc [OF wf al p0] and b = isolated_alloc_step [OF wf al p0]
    have pp: "paged p" using a(2) by (simp add: frame_def)
    then have pe: "page_of (p OR ?fl) = p" "present (p OR ?fl)" using page_of_or present_or table_flags by blast+
    have mode0: "identity_mode s0" using a(1) by (simp add: space_wf_def)
    have s1: "t = p" "s1 = set_entry pd ?i (p OR ?fl) (s0\<lparr>kmem := memset p 0 4096 (kmem s0)\<rparr>)"
      using t new mode al p0 mode0 by (auto simp: get_page_table_def Let_def)
    note nt = new_table [OF wf al p0 i(2) new pe s1(2)]
    let ?s2 = "s0\<lparr>kmem := memset p 0 4096 (kmem s0)\<rparr>"
    have w2: "writes_page s0 ?s2 p" by (rule writes_page_memset [OF pp])
    have w1: "writes_page ?s2 s1 pd" unfolding s1(2) by (rule writes_page_set_entry [OF pd(1) i(2)])
    have f2: "frame ?s2 q = frame s0 q" for q using writes_page_bitmap(3) [OF w2 a(2)] a(1) by (simp add: space_wf_def)
    have wf2: "space_wf ?s2 pd" using space_wf_write(1) [OF a(1) w2 a(2,4)] .
    have f1: "frame s1 q = frame ?s2 q" for q
      by (rule writes_page_bitmap(3) [OF w1]) (use wf2 in \<open>simp_all add: space_wf_def\<close>)
    have e1: "entry s1 pd k = (if k = ?i then p OR ?fl else entry s pd k)" if "unat k < 1024" for k
    proof -
      have "entry s1 pd k = (if k = ?i then p OR ?fl else entry ?s2 pd k)"
        unfolding s1(2) by (simp add: entry_set_entry [OF pd(1,1) i(2) that] eq_commute)
      moreover have "entry ?s2 pd k = entry s0 pd k" using space_wf_write(2) [OF a(1) w2 a(2,4) that] .
      moreover have "entry s0 pd k = entry s pd k" using a(5) [OF pd(2)] that by simp
      ultimately show ?thesis by simp
    qed
    have "foreign s1 pd q \<and> same_page (page_no q) (kmem s) (kmem s1)" if fq: "foreign s pd q"
    proof -
      have q: "frame s q" "q \<noteq> pd" using fq by (simp_all add: foreign_def)
      have qp: "q \<noteq> p" "paged q" using q(1) a(3) by (auto simp: frame_def)
      have ne: "page_no q \<noteq> page_no p" "page_no q \<noteq> page_no pd" using paged_eq qp pp pd(1) q(2) by auto
      have "same_page (page_no q) (kmem s) (kmem s0)" using b(1) [OF q(1)] by simp
      moreover have "same_page (page_no q) (kmem s0) (kmem ?s2)" "same_page (page_no q) (kmem ?s2) (kmem s1)"
        using w2 w1 ne by (simp_all add: writes_page_def)
      ultimately have "same_page (page_no q) (kmem s) (kmem s1)" using same_page_trans by blast
      moreover have "frame s1 q" using f1 f2 b(1) [OF q(1)] by simp
      moreover have "page_of (entry s1 pd k) \<noteq> q" if "unat k < 768" "present (entry s1 pd k)" for k
        using that fq e1 [of k] pe(1) qp(1) by (auto simp: foreign_def split: if_splits)
      ultimately show ?thesis using q(2) by (simp add: foreign_def)
    qed
    moreover have "cr0 s1 = cr0 s" "cr3 s1 = cr3 s" using b(2,3) by (simp_all add: s1(2) set_entry_def)
    ultimately show ?thesis using nt e1 [OF i(2)] pe s1(1) by simp
  qed
  then show "space_wf s1 pd" "t = page_of (entry s1 pd ?i)" "present (entry s1 pd ?i)" "cr0 s1 = cr0 s" "cr3 s1 = cr3 s"
    "foreign s pd q \<Longrightarrow> foreign s1 pd q \<and> same_page (page_no q) (kmem s) (kmem s1)" by blast+
qed

lemma set_table_foreign:
  assumes wf: "space_wf s pd" and va: "va < KERNEL_VIRTUAL_BASE" and pr: "present (entry s pd (page_directory_index va))"
    and t: "t = page_of (entry s pd (page_directory_index va))"
  shows "space_wf (set_entry t (page_table_index va) v s) pd"
    and "foreign s pd q \<Longrightarrow> foreign (set_entry t (page_table_index va) v s) pd q \<and>
      same_page (page_no q) (kmem s) (kmem (set_entry t (page_table_index va) v s))"
proof -
  let ?s = "set_entry t (page_table_index va) v s"
  have ft: "frame s t" "t \<noteq> pd" using wf pr index_unat(3) [of va] unfolding t space_wf_def by auto
  then have pt: "paged t" by (simp add: frame_def)
  have w: "writes_page s ?s t" by (rule writes_page_set_entry [OF pt index_unat(4)])
  note sp = space_wf_write [OF wf w ft]
  show "space_wf ?s pd" by (rule sp(1))
  show "foreign ?s pd q \<and> same_page (page_no q) (kmem s) (kmem ?s)" if fq: "foreign s pd q"
  proof -
    have q: "frame s q" "q \<noteq> pd" "paged q" "q \<noteq> t"
      using fq user_index [OF va] pr t by (auto simp: foreign_def frame_def)
    then have "page_no q \<noteq> page_no t" using paged_eq pt by auto
    then have "same_page (page_no q) (kmem s) (kmem ?s)" using w by (simp add: writes_page_def)
    moreover have "frame ?s q" using writes_page_bitmap(3) [OF w ft(1)] wf q(1) by (simp add: space_wf_def)
    moreover have "entry ?s pd k = entry s pd k" if "unat k < 768" for k by (rule sp(2)) (use that in simp)
    ultimately show ?thesis using fq unfolding foreign_def by auto
  qed
qed

lemma invlpg_foreign [simp]: "foreign (invlpg x s) pd q = foreign s pd q" "kmem (invlpg x s) = kmem s"
  "cr0 (invlpg x s) = cr0 s" "cr3 (invlpg x s) = cr3 s"
  by (simp_all add: foreign_def frame_def invlpg_def bitmap_test_def bitmap_word_def bitmap_clear_def entry_def)

text \<open>What \<open>vmm_alloc_page\<close> keeps, whether it succeeds or not.\<close>

lemma alloc_page_foreign:
  assumes wf: "space_wf s pd" and va: "va < KERNEL_VIRTUAL_BASE" and r: "vmm_alloc_page pd va flags s = (r, s')"
  shows "space_wf s' pd" and "cr0 s' = cr0 s" and "cr3 s' = cr3 s"
    and "foreign s pd q \<Longrightarrow> foreign s' pd q \<and> same_page (page_no q) (kmem s) (kmem s')"
proof -
  have pw: "pmm_wf s" using wf by (simp add: space_wf_def)
  obtain p s1 where al: "pmm_alloc_block s = (p, s1)" by fastforce
  have va': "page_of va < KERNEL_VIRTUAL_BASE"
  proof -
    have "page_of va \<le> va" by (simp add: word_le_nat_alt unat_page_of)
    then show ?thesis using va by simp
  qed
  have "space_wf s' pd \<and> cr0 s' = cr0 s \<and> cr3 s' = cr3 s \<and>
    (foreign s pd q \<longrightarrow> foreign s' pd q \<and> same_page (page_no q) (kmem s) (kmem s'))"
  proof (cases "p = 0")
    case True
    then have "s' = s" using r al alloc_zero [OF pw] by (simp add: vmm_alloc_page_def)
    then show ?thesis using wf by simp
  next
    case nz: False
    note a = space_wf_alloc [OF wf al nz] and b = isolated_alloc_step [OF wf al nz]
    have f1: "foreign s1 pd q" if "foreign s pd q"
    proof -
      have "frame s pd" using wf by (simp add: space_wf_def)
      then have "entry s1 pd k = entry s pd k" if "unat k < 768" for k using a(5) that by simp
      then show ?thesis using that b(1) [of q] by (auto simp: foreign_def)
    qed
    obtain t s2 where gt: "get_page_table pd (page_of va) True s1 = (t, s2)" by fastforce
    show ?thesis
    proof (cases "t = 0")
      case True
      have "s2 = s1"
        using a(1)
      proof (cases rule: get_page_table_create [where va = "page_of va"])
        case (table t' s'')
        then show ?thesis using gt True by (simp add: frame_def)
      qed (use gt in simp)
      then have "s' = s" using r al nz gt True b(4) by (simp add: vmm_alloc_page_def vmm_map_page_def Let_def)
      then show ?thesis using wf by simp
    next
      case False
      note g = get_table_foreign [OF a(1) va' gt False]
      let ?v = "page_of p OR (flags OR PAGE_PRESENT)"
      let ?s3 = "set_entry t (page_table_index (page_of va)) ?v s2"
      note st = set_table_foreign [OF g(1) va' g(3) g(2), where v = ?v]
      have s': "s' = ?s3 \<or> s' = invlpg (page_of va) ?s3"
        using r al nz gt False by (auto simp: vmm_alloc_page_def vmm_map_page_def Let_def split: if_splits)
      have "space_wf s' pd" using s' st(1) by auto
      moreover have "cr0 s' = cr0 s" "cr3 s' = cr3 s" using s' g(4,5) b(2,3) by (auto simp: set_entry_def)
      moreover have "foreign s' pd q \<and> same_page (page_no q) (kmem s) (kmem s')" if fq: "foreign s pd q"
      proof -
        have "frame s q" using fq by (simp add: foreign_def)
        then have "same_page (page_no q) (kmem s) (kmem s1)" using b(1) by blast
        moreover have "same_page (page_no q) (kmem s1) (kmem s2)" "foreign s2 pd q" using g(6) f1 [OF fq] by blast+
        moreover have "same_page (page_no q) (kmem s2) (kmem ?s3)" "foreign ?s3 pd q" using st(2) calculation(3) by blast+
        ultimately show ?thesis using s' same_page_trans by (metis invlpg_foreign(1,2))
      qed
      ultimately show ?thesis by blast
    qed
  qed
  then show "space_wf s' pd" "cr0 s' = cr0 s" "cr3 s' = cr3 s"
    "foreign s pd q \<Longrightarrow> foreign s' pd q \<and> same_page (page_no q) (kmem s) (kmem s')" by blast+
qed

section \<open>Isolation\<close>

text \<open>Contents and translation of foreign memory stay: what a step on the space \<open>pd\<close> must satisfy.\<close>

definition foreign_kept :: "u32 \<Rightarrow> 'a vmm_state_scheme \<Rightarrow> 'a vmm_state_scheme \<Rightarrow> bool" where
  "foreign_kept pd s s' \<longleftrightarrow> cr0 s' = cr0 s \<and> cr3 s' = cr3 s \<and>
     (\<forall>q. foreign s pd q \<longrightarrow> foreign s' pd q \<and> same_page (page_no q) (kmem s) (kmem s'))"

lemma foreign_kept_refl [simp]: "foreign_kept pd s s"
  by (simp add: foreign_kept_def)

lemma foreign_kept_trans: "foreign_kept pd s s' \<Longrightarrow> foreign_kept pd s' s'' \<Longrightarrow> foreign_kept pd s s''"
  unfolding foreign_kept_def using same_page_trans by metis

lemma alloc_page_kept:
  "space_wf s pd \<Longrightarrow> va < KERNEL_VIRTUAL_BASE \<Longrightarrow> vmm_alloc_page pd va flags s = (r, s') \<Longrightarrow> space_wf s' pd \<and> foreign_kept pd s s'"
  using alloc_page_foreign by (metis foreign_kept_def)

text \<open>The directory of \<open>other\<close> and all its tables are foreign to \<open>pd\<close>.\<close>

definition apart :: "'a vmm_state_scheme \<Rightarrow> u32 \<Rightarrow> u32 \<Rightarrow> bool" where
  "apart s pd other \<longleftrightarrow> foreign s pd other \<and>
     (\<forall>i. unat i < 1024 \<and> present (entry s other i) \<longrightarrow> foreign s pd (page_of (entry s other i)))"

lemma apart_entries:
  assumes ap: "apart s pd other" and same: "\<And>q. foreign s pd q \<Longrightarrow> foreign s' pd q \<and> same_page (page_no q) (kmem s) (kmem s')"
  shows "unat i < 1024 \<Longrightarrow> entry s' other i = entry s other i"
    and "unat i < 1024 \<Longrightarrow> unat j < 1024 \<Longrightarrow> present (entry s other i) \<Longrightarrow>
      entry s' (page_of (entry s other i)) j = entry s (page_of (entry s other i)) j"
    and "apart s' pd other"
proof -
  have keep: "entry s' q i = entry s q i" if "foreign s pd q" "unat i < 1024" for q i
    using entry_same_page [of q s s' i] same [OF that(1)] that by (simp add: foreign_def frame_def)
  show e: "entry s' other i = entry s other i" if "unat i < 1024" for i using keep ap that by (simp add: apart_def)
  show "entry s' (page_of (entry s other i)) j = entry s (page_of (entry s other i)) j"
    if "unat i < 1024" "unat j < 1024" "present (entry s other i)" using keep ap that by (simp add: apart_def)
  show "apart s' pd other" using ap same e unfolding apart_def by metis
qed

lemma apart_translate:
  assumes "apart s pd other" and "\<And>q. foreign s pd q \<Longrightarrow> foreign s' pd q \<and> same_page (page_no q) (kmem s) (kmem s')"
    and "identity_mode s" and "identity_mode s'"
  shows "vmm_get_physical_address other va s' = vmm_get_physical_address other va s"
  using apart_entries(1,2) [OF assms(1,2), of "page_directory_index va"] index_unat(3,4) [of va] assms(3,4)
  by (auto simp: vmm_get_physical_address_def get_page_table_read Let_def)

text \<open>
  C10: Giving a page below the kernel to one address space does not change the translation of any address in
  another one, nor a byte of any frame that is not a table of the first; it succeeds or fails with both spaces
  still apart.
\<close>

theorem vmm_alloc_page_isolated:
  assumes "space_wf s pd" and "apart s pd other" and "va < KERNEL_VIRTUAL_BASE"
  shows "case vmm_alloc_page pd va flags s of (r, s') \<Rightarrow>
    vmm_get_physical_address other va' s' = vmm_get_physical_address other va' s \<and> space_wf s' pd \<and> apart s' pd other \<and>
    (\<forall>q. foreign s pd q \<longrightarrow> same_page (page_no q) (kmem s) (kmem s'))"
proof -
  obtain r s' where r: "vmm_alloc_page pd va flags s = (r, s')" by fastforce
  note f = alloc_page_foreign [OF assms(1,3) r]
  have "identity_mode s" "identity_mode s'" using assms(1) f(1) by (simp_all add: space_wf_def)
  then show ?thesis
    using apart_translate [OF assms(2) f(4)] apart_entries(3) [OF assms(2) f(4)] f(1,4) by (auto simp: r)
qed

text \<open>While the processor uses another space, such steps change neither its translation nor what it reads.\<close>

lemma kept_virt:
  assumes "apart s pd other" and "paging s" and "cr3 s = other" and kept: "foreign_kept pd s s'"
  shows "virt s' = virt s"
    and "virt s a = Some p \<Longrightarrow> foreign s pd (page_of p) \<Longrightarrow> vload8 a s' = vload8 a s"
proof -
  have fo: "foreign s pd other" and po: "page_of other = other"
    using assms(1) by (auto simp: apart_def foreign_def frame_def paged_def)
  have "same_page (page_no other) (kmem s) (kmem s')" using fo kept by (simp add: foreign_kept_def)
  moreover have "same_page (page_no (entry s other i)) (kmem s) (kmem s')" if "unat i < 1024" "present (entry s other i)" for i
    using that assms(1) kept unfolding apart_def foreign_kept_def by (metis page_no_page_of)
  ultimately have "\<forall>n \<in> walk_pages s. same_page n (kmem s) (kmem s')"
    using assms(2,3) po by (auto simp: walk_pages_def)
  then show v: "virt s' = virt s" using virt_keeps(1) [of s s'] kept by (auto simp: foreign_kept_def)
  show "vload8 a s' = vload8 a s" if "virt s a = Some p" "foreign s pd (page_of p)"
  proof -
    have "same_page (page_no p) (kmem s) (kmem s')" using that(2) kept unfolding foreign_kept_def by (metis page_no_page_of)
    then show ?thesis using that(1) by (simp add: vload8_def v same_page_def)
  qed
qed

section \<open>Example\<close>

lemma demo_zero:
  assumes "paged p" and "page_no p \<noteq> 1" and "unat i < 1024"
  shows "entry vmm_demo p i = 0"
proof -
  have "page_no (p + 4 * i) \<noteq> 1" using slot_page(1) [OF assms(1,3)] assms(2) by simp
  then have "span32 (p + 4 * i) \<inter> span32 0x1000 = {}"
    using span32_page [OF slot_page(2) [OF assms(1,3)]] span32_page [of "0x1000"] by (force simp: page_no_def)
  then show ?thesis
    unfolding entry_def vmm_demo_pmm pmm_demo_def pmm_state.simps machine.simps
    by (subst load32_store32_other) (simp_all add: load32_def)
qed

lemma demo_apart: "apart vmm_demo 0x2000 0x3000"
proof -
  have p: "paged 0x3000" "page_no 0x3000 = 3" "page_of 0x3000 = 0x3000" by (simp_all add: paged_def page_of_def page_no_def)
  have z: "entry vmm_demo 0x3000 i = 0" if "unat i < 1024" for i by (rule demo_zero) (use p that in simp_all)
  have "frame vmm_demo 0x3000"
    using pmm_demo_test [of 3] p by (simp add: frame_def vmm_demo_clear vmm_demo_pmm vmm_demo_test)
  then have "foreign vmm_demo 0x2000 0x3000" by (simp add: foreign_def vmm_demo_entry page_of_def)
  then show ?thesis unfolding apart_def using z by (metis not_present_0)
qed

theorem vmm_alloc_page_isolated_witness:
  "case vmm_alloc_page 0x2000 0x8048000 7 vmm_demo of (r, s') \<Rightarrow> vmm_get_physical_address 0x3000 0x8048000 s' = 0"
proof -
  have "vmm_get_physical_address 0x3000 0x8048000 vmm_demo = 0"
    using demo_zero [of "0x3000" "page_directory_index 0x8048000"] index_unat(3) [of "0x8048000"]
    by (simp add: vmm_get_physical_address_def get_page_table_read identity_mode_def vmm_demo_pmm paged_def page_of_def page_no_def)
  then show ?thesis
    using vmm_alloc_page_isolated [OF vmm_demo_wf demo_apart, of "0x8048000" "0x8048000" 7]
    by (simp add: KERNEL_VIRTUAL_BASE_def split_beta)
qed

end
