(* ===== verification/Diskfs.thy ===== *)
theory Diskfs
  imports Interfaces
begin

text \<open>
  \<^verbatim>\<open>kernel/fs/diskfs.c\<close>: the on-disk filesystem. Superblock, inodes and directory entries are packed C
  structures; here they are the lists of their bytes, with the fields at their offsets. The drives are
  the sectors the ATA driver reaches, with its sector transfers given by their contract: a sector that
  cannot be read or written makes the driver return an error. \<open>Ata\<close> shows that the driver refines it. \<^term>\<open>None\<close> stands for an access outside a C array. Local variables that the code reads
  before writing them have the arbitrary contents \<open>junk\<close>.
\<close>

section \<open>Packed structures\<close>

definition le32 :: "u32 \<Rightarrow> u8 list" where
  "le32 v = [ucast v, ucast (drop_bit 8 v), ucast (drop_bit 16 v), ucast (drop_bit 24 v)]"

definition get32 :: "nat \<Rightarrow> u8 list \<Rightarrow> u32" where
  "get32 off bs = ucast (bs ! off) OR push_bit 8 (ucast (bs ! (off + 1))) OR push_bit 16 (ucast (bs ! (off + 2)))
     OR push_bit 24 (ucast (bs ! (off + 3)))"

text \<open>\<^verbatim>\<open>memcpy(buf + off, src, sizeof(src))\<close> inside the array \<open>buf\<close>.\<close>

definition splice :: "nat \<Rightarrow> u8 list \<Rightarrow> u8 list \<Rightarrow> u8 list" where
  "splice off src buf = take off buf @ src @ drop (off + length src) buf"

definition put32 :: "nat \<Rightarrow> u32 \<Rightarrow> u8 list \<Rightarrow> u8 list" where
  "put32 off v bs = splice off (le32 v) bs"

type_synonym inode = "u8 list"
type_synonym dirent = "u8 list"

definition DISKFS_MAGIC :: u32 where "DISKFS_MAGIC = 0x6D786673"
definition DISKFS_VERSION :: u32 where "DISKFS_VERSION = 1"
definition DISKFS_SECTOR_SIZE :: nat where "DISKFS_SECTOR_SIZE = 512"
definition DISKFS_BLOCK_SIZE :: u32 where "DISKFS_BLOCK_SIZE = 512"
definition DISKFS_SUPERBLOCK_SECTOR :: u32 where "DISKFS_SUPERBLOCK_SECTOR = 0"
definition DISKFS_INODE_BITMAP_START :: u32 where "DISKFS_INODE_BITMAP_START = 1"
definition DISKFS_INODE_BITMAP_SECTORS :: nat where "DISKFS_INODE_BITMAP_SECTORS = 16"
definition DISKFS_BLOCK_BITMAP_START :: u32 where "DISKFS_BLOCK_BITMAP_START = 17"
definition DISKFS_BLOCK_BITMAP_SECTORS :: nat where "DISKFS_BLOCK_BITMAP_SECTORS = 16"
definition DISKFS_INODE_TABLE_START :: u32 where "DISKFS_INODE_TABLE_START = 33"
definition DISKFS_DATA_START :: u32 where "DISKFS_DATA_START = 545"
definition DISKFS_MAX_INODES :: u32 where "DISKFS_MAX_INODES = 512"
definition DISKFS_MAX_BLOCKS :: u32 where "DISKFS_MAX_BLOCKS = 65536"
definition DISKFS_MAX_FILENAME :: nat where "DISKFS_MAX_FILENAME = 28"
definition DISKFS_DIRECT_BLOCKS :: u32 where "DISKFS_DIRECT_BLOCKS = 12"
definition DISKFS_MAX_FILE_SIZE :: u32 where "DISKFS_MAX_FILE_SIZE = DISKFS_DIRECT_BLOCKS * DISKFS_BLOCK_SIZE"
definition DISKFS_TYPE_FILE :: u32 where "DISKFS_TYPE_FILE = 1"
definition DISKFS_TYPE_DIR :: u32 where "DISKFS_TYPE_DIR = 2"

text \<open>
  \<^verbatim>\<open>struct diskfs_inode\<close>: type, size, twelve block numbers, ctime, mtime, parent, and 68 bytes of padding.
\<close>

definition sizeof_inode :: nat where "sizeof_inode = 4 + 4 + 12 * 4 + 4 + 4 + 4 + 68"
definition sizeof_dirent :: u32 where "sizeof_dirent = 32"

definition i_type :: "inode \<Rightarrow> u32" where "i_type = get32 0"
definition i_size :: "inode \<Rightarrow> u32" where "i_size = get32 4"
definition i_block :: "inode \<Rightarrow> u32 \<Rightarrow> u32" where "i_block n k = get32 (8 + 4 * unat k) n"
definition set_i_block :: "u32 \<Rightarrow> u32 \<Rightarrow> inode \<Rightarrow> inode" where "set_i_block k v = put32 (8 + 4 * unat k) v"

definition zero_inode :: inode where "zero_inode = replicate sizeof_inode 0"

definition new_inode :: "u32 \<Rightarrow> u32 \<Rightarrow> u32 \<Rightarrow> inode" where
  "new_inode typ parent ticks = put32 60 ticks (put32 56 ticks (put32 64 parent (put32 4 0 (put32 0 typ zero_inode))))"

text \<open>\<^verbatim>\<open>struct diskfs_superblock\<close>, 512 bytes.\<close>

definition sb_magic :: "u8 list \<Rightarrow> u32" where "sb_magic = get32 0"
definition sb_total_inodes :: "u8 list \<Rightarrow> u32" where "sb_total_inodes = get32 8"
definition sb_total_blocks :: "u8 list \<Rightarrow> u32" where "sb_total_blocks = get32 12"
definition sb_free_inodes :: "u8 list \<Rightarrow> u32" where "sb_free_inodes = get32 16"
definition sb_free_blocks :: "u8 list \<Rightarrow> u32" where "sb_free_blocks = get32 20"

text \<open>A directory entry: inode number and a name of at most 27 characters, padded with zeros by \<open>strncpy\<close>.\<close>

definition name_bytes :: "string \<Rightarrow> u8 list" where
  "name_bytes nm = map of_char nm @ replicate (DISKFS_MAX_FILENAME - length nm) 0"

definition mk_dirent :: "u32 \<Rightarrow> string \<Rightarrow> dirent" where
  "mk_dirent ino nm = le32 ino @ name_bytes nm"

definition de_inode :: "dirent \<Rightarrow> u32" where "de_inode = get32 0"

text \<open>\<^verbatim>\<open>strcmp(entry.name, name) == 0\<close>, for a name shorter than the field.\<close>

definition de_named :: "dirent \<Rightarrow> string \<Rightarrow> bool" where
  "de_named e nm \<longleftrightarrow> take (Suc (length nm)) (drop 4 e) = map of_char nm @ [0]"

section \<open>State\<close>

record diskfs_state =
  drives :: "u8 \<Rightarrow> (u32 \<Rightarrow> u8 list) option"
  bad_sector :: "u8 \<Rightarrow> u32 \<Rightarrow> bool"
  mounted_drive :: u8
  superblock :: "u8 list"
  inode_bitmap :: "u8 list"
  block_bitmap :: "u8 list"
  cache_valid :: "bool list"
  cache_num :: "u32 list"
  inode_cache :: "inode list"
  cache_idx :: nat
  ticks :: u32

definition disk_drive_exists :: "u8 \<Rightarrow> 'a diskfs_state_scheme \<Rightarrow> bool" where
  "disk_drive_exists drive s \<longleftrightarrow> drive < 4 \<and> drives s drive \<noteq> None"

definition disk_read_sector :: "u8 \<Rightarrow> u32 \<Rightarrow> 'a diskfs_state_scheme \<Rightarrow> u8 list option" where
  "disk_read_sector drive lba s =
     (if \<not> disk_drive_exists drive s \<or> bad_sector s drive lba then None else Some (the (drives s drive) lba))"

definition disk_write_sector :: "u8 \<Rightarrow> u32 \<Rightarrow> u8 list \<Rightarrow> 'a diskfs_state_scheme \<Rightarrow> 'a diskfs_state_scheme option" where
  "disk_write_sector drive lba bs s =
     (if \<not> disk_drive_exists drive s \<or> bad_sector s drive lba then None
      else Some (s\<lparr>drives := (drives s)(drive \<mapsto> (the (drives s drive))(lba := bs))\<rparr>))"

text \<open>Several sectors in a row; the first failure stops the transfer, what was written before stays.\<close>

primrec disk_read_sectors :: "u8 \<Rightarrow> u32 \<Rightarrow> nat \<Rightarrow> 'a diskfs_state_scheme \<Rightarrow> u8 list option" where
  "disk_read_sectors drive lba 0 s = Some []"
| "disk_read_sectors drive lba (Suc n) s =
     do { x \<leftarrow> disk_read_sector drive lba s; xs \<leftarrow> disk_read_sectors drive (lba + 1) n s; Some (x @ xs) }"

primrec disk_write_sectors :: "u8 \<Rightarrow> u32 \<Rightarrow> nat \<Rightarrow> u8 list \<Rightarrow> 'a diskfs_state_scheme \<Rightarrow> int \<times> 'a diskfs_state_scheme" where
  "disk_write_sectors drive lba 0 bs s = (0, s)"
| "disk_write_sectors drive lba (Suc n) bs s =
     (case disk_write_sector drive lba (take 512 bs) s of
        None \<Rightarrow> (-1, s)
      | Some s \<Rightarrow> disk_write_sectors drive (lba + 1) n (drop 512 bs) s)"

section \<open>Bitmaps\<close>

definition byte_mask :: "u32 \<Rightarrow> u8" where "byte_mask b = push_bit (unat (b mod 8)) 1"

definition dbitmap_valid :: "u8 list \<Rightarrow> u32 \<Rightarrow> bool" where
  "dbitmap_valid bm b \<longleftrightarrow> unat (b div 8) < length bm"

definition dbitmap_set :: "u32 \<Rightarrow> u8 list \<Rightarrow> u8 list" where
  "dbitmap_set b bm = bm[unat (b div 8) := bm ! unat (b div 8) OR byte_mask b]"

definition dbitmap_clear :: "u32 \<Rightarrow> u8 list \<Rightarrow> u8 list" where
  "dbitmap_clear b bm = bm[unat (b div 8) := bm ! unat (b div 8) AND NOT (byte_mask b)]"

definition dbitmap_test :: "u8 list \<Rightarrow> u32 \<Rightarrow> bool" where
  "dbitmap_test bm b \<longleftrightarrow> bm ! unat (b div 8) AND byte_mask b \<noteq> 0"

text \<open>The scan; reading past the array is \<^term>\<open>None\<close>, a full bitmap is \<open>-1\<close>.\<close>

function find_free_from :: "u8 list \<Rightarrow> nat \<Rightarrow> nat \<Rightarrow> int option" where
  "find_free_from bm i n =
     (if n \<le> i then Some (-1)
      else if \<not> dbitmap_valid bm (of_nat i) then None
      else if \<not> dbitmap_test bm (of_nat i) then Some (int i)
      else find_free_from bm (Suc i) n)"
  by pat_completeness auto
termination by (relation "measure (\<lambda>(bm, i, n). n - i)") auto

declare find_free_from.simps [simp del]

definition dbitmap_find_free :: "u8 list \<Rightarrow> u32 \<Rightarrow> int option" where
  "dbitmap_find_free bm max_bits = find_free_from bm 0 (unat max_bits)"

section \<open>Superblock and bitmaps on disk\<close>

definition read_superblock :: "u8 \<Rightarrow> 'a diskfs_state_scheme \<Rightarrow> int \<times> 'a diskfs_state_scheme" where
  "read_superblock drive s =
     (case disk_read_sector drive DISKFS_SUPERBLOCK_SECTOR s of
        None \<Rightarrow> (-1, s) | Some bs \<Rightarrow> (0, s\<lparr>superblock := bs\<rparr>))"

definition write_superblock :: "u8 \<Rightarrow> 'a diskfs_state_scheme \<Rightarrow> int \<times> 'a diskfs_state_scheme" where
  "write_superblock drive s = disk_write_sectors drive DISKFS_SUPERBLOCK_SECTOR 1 (superblock s) s"

definition read_bitmaps :: "u8 \<Rightarrow> 'a diskfs_state_scheme \<Rightarrow> int \<times> 'a diskfs_state_scheme" where
  "read_bitmaps drive s =
     (case disk_read_sectors drive DISKFS_INODE_BITMAP_START DISKFS_INODE_BITMAP_SECTORS s of
        None \<Rightarrow> (-1, s)
      | Some ib \<Rightarrow>
          let s = s\<lparr>inode_bitmap := ib\<rparr> in
          case disk_read_sectors drive DISKFS_BLOCK_BITMAP_START DISKFS_BLOCK_BITMAP_SECTORS s of
            None \<Rightarrow> (-1, s) | Some bb \<Rightarrow> (0, s\<lparr>block_bitmap := bb\<rparr>))"

definition write_bitmaps :: "u8 \<Rightarrow> 'a diskfs_state_scheme \<Rightarrow> int \<times> 'a diskfs_state_scheme" where
  "write_bitmaps drive s =
     (let (r, s) = disk_write_sectors drive DISKFS_INODE_BITMAP_START DISKFS_INODE_BITMAP_SECTORS (inode_bitmap s) s in
      if r \<noteq> 0 then (r, s)
      else disk_write_sectors drive DISKFS_BLOCK_BITMAP_START DISKFS_BLOCK_BITMAP_SECTORS (block_bitmap s) s)"

section \<open>Inodes on disk\<close>

text \<open>The index of the cache entry for \<open>ino\<close>, in the order of the loop.\<close>

definition cache_find :: "u32 \<Rightarrow> 'a diskfs_state_scheme \<Rightarrow> nat option" where
  "cache_find ino s = List.find (\<lambda>i. cache_valid s ! i \<and> cache_num s ! i = ino) [0..<8]"

definition inode_sector :: "u32 \<Rightarrow> u32" where "inode_sector ino = DISKFS_INODE_TABLE_START + ino div 4"
definition inode_offset :: "u32 \<Rightarrow> nat" where "inode_offset ino = unat (ino mod 4) * 128"

text \<open>The result is an error code or the inode; \<^term>\<open>None\<close> when the copy leaves the sector buffer.\<close>

definition read_inode :: "u8 \<Rightarrow> u32 \<Rightarrow> 'a diskfs_state_scheme \<Rightarrow> ((int + inode) \<times> 'a diskfs_state_scheme) option" where
  "read_inode drive ino s =
     (if ino \<ge> DISKFS_MAX_INODES then Some (Inl (-1), s)
      else case cache_find ino s of
        Some i \<Rightarrow> Some (Inr (inode_cache s ! i), s)
      | None \<Rightarrow>
          (case disk_read_sector drive (inode_sector ino) s of
             None \<Rightarrow> Some (Inl (-1), s)
           | Some buf \<Rightarrow>
               if inode_offset ino + sizeof_inode > length buf then None
               else let n = take sizeof_inode (drop (inode_offset ino) buf); i = cache_idx s in
                 Some (Inr n, s\<lparr>cache_num := (cache_num s)[i := ino], inode_cache := (inode_cache s)[i := n],
                   cache_valid := (cache_valid s)[i := True], cache_idx := (i + 1) mod 8\<rparr>)))"

definition write_inode :: "u8 \<Rightarrow> u32 \<Rightarrow> inode \<Rightarrow> 'a diskfs_state_scheme \<Rightarrow> (int \<times> 'a diskfs_state_scheme) option" where
  "write_inode drive ino n s =
     (if ino \<ge> DISKFS_MAX_INODES then Some (-1, s)
      else case disk_read_sector drive (inode_sector ino) s of
        None \<Rightarrow> Some (-1, s)
      | Some buf \<Rightarrow>
          if inode_offset ino + length n > length buf then None
          else case disk_write_sector drive (inode_sector ino) (splice (inode_offset ino) n buf) s of
            None \<Rightarrow> Some (-1, s)
          | Some s \<Rightarrow>
              Some (0, case cache_find ino s of None \<Rightarrow> s | Some i \<Rightarrow> s\<lparr>inode_cache := (inode_cache s)[i := n]\<rparr>))"

section \<open>Allocation\<close>

definition alloc_block :: "'a diskfs_state_scheme \<Rightarrow> (int \<times> 'a diskfs_state_scheme) option" where
  "alloc_block s =
     do {
       b \<leftarrow> dbitmap_find_free (block_bitmap s) (sb_total_blocks (superblock s));
       if b < 0 then Some (-1, s)
       else Some (b, s\<lparr>block_bitmap := dbitmap_set (of_int b) (block_bitmap s),
              superblock := put32 20 (sb_free_blocks (superblock s) - 1) (superblock s)\<rparr>)
     }"

definition free_block :: "u32 \<Rightarrow> 'a diskfs_state_scheme \<Rightarrow> 'a diskfs_state_scheme option" where
  "free_block b s =
     (if b \<ge> sb_total_blocks (superblock s) then Some s
      else if \<not> dbitmap_valid (block_bitmap s) b then None
      else Some (s\<lparr>block_bitmap := dbitmap_clear b (block_bitmap s),
             superblock := put32 20 (sb_free_blocks (superblock s) + 1) (superblock s)\<rparr>))"

definition alloc_inode :: "'a diskfs_state_scheme \<Rightarrow> (int \<times> 'a diskfs_state_scheme) option" where
  "alloc_inode s =
     do {
       i \<leftarrow> dbitmap_find_free (inode_bitmap s) (sb_total_inodes (superblock s));
       if i < 0 then Some (-1, s)
       else Some (i, s\<lparr>inode_bitmap := dbitmap_set (of_int i) (inode_bitmap s),
              superblock := put32 16 (sb_free_inodes (superblock s) - 1) (superblock s)\<rparr>)
     }"

definition free_inode :: "u32 \<Rightarrow> 'a diskfs_state_scheme \<Rightarrow> 'a diskfs_state_scheme option" where
  "free_inode i s =
     (if i \<ge> sb_total_inodes (superblock s) then Some s
      else if \<not> dbitmap_valid (inode_bitmap s) i then None
      else Some (s\<lparr>inode_bitmap := dbitmap_clear i (inode_bitmap s),
             superblock := put32 16 (sb_free_inodes (superblock s) + 1) (superblock s)\<rparr>))"

section \<open>Formatting and mounting\<close>

definition diskfs_format :: "u8 \<Rightarrow> 'a diskfs_state_scheme \<Rightarrow> (int \<times> 'a diskfs_state_scheme) option" where
  "diskfs_format drive s =
     (if \<not> disk_drive_exists drive s then Some (-1, s)
      else let sb = put32 28 DISKFS_BLOCK_SIZE (put32 24 0 (put32 20 DISKFS_MAX_BLOCKS (put32 16 (DISKFS_MAX_INODES - 1)
                     (put32 12 DISKFS_MAX_BLOCKS (put32 8 DISKFS_MAX_INODES (put32 4 DISKFS_VERSION
                       (put32 0 DISKFS_MAGIC (replicate 512 0))))))));
               s = s\<lparr>superblock := sb, inode_bitmap := dbitmap_set 0 (replicate 8192 0), block_bitmap := replicate 8192 0\<rparr>;
               (r, s) = write_superblock drive s
           in if r \<noteq> 0 then Some (-1, s)
              else let (r, s) = write_bitmaps drive s in
                if r \<noteq> 0 then Some (-1, s)
                else do {
                  (r, s) \<leftarrow> write_inode drive 0 (new_inode DISKFS_TYPE_DIR 0 (ticks s)) s;
                  Some (if r \<noteq> 0 then -1 else 0, s)
                })"

definition diskfs_mount :: "u8 \<Rightarrow> 'a diskfs_state_scheme \<Rightarrow> int \<times> 'a diskfs_state_scheme" where
  "diskfs_mount drive s =
     (if \<not> disk_drive_exists drive s then (-1, s)
      else let (r, s) = read_superblock drive s in
        if r \<noteq> 0 then (-1, s)
        else if sb_magic (superblock s) \<noteq> DISKFS_MAGIC then (-1, s)
        else let (r, s) = read_bitmaps drive s in
          if r \<noteq> 0 then (-1, s)
          else (0, s\<lparr>cache_valid := replicate 8 False, mounted_drive := drive\<rparr>))"

definition diskfs_sync :: "'a diskfs_state_scheme \<Rightarrow> int \<times> 'a diskfs_state_scheme" where
  "diskfs_sync s =
     (if mounted_drive s = 0xFF then (-1, s)
      else (0, snd (write_bitmaps (mounted_drive s) (snd (write_superblock (mounted_drive s) s)))))"

definition diskfs_unmount :: "'a diskfs_state_scheme \<Rightarrow> int \<times> 'a diskfs_state_scheme" where
  "diskfs_unmount s =
     (if mounted_drive s = 0xFF then (0, s) else (0, (snd (diskfs_sync s))\<lparr>mounted_drive := 0xFF\<rparr>))"

definition diskfs_init :: "u8 \<Rightarrow> 'a diskfs_state_scheme \<Rightarrow> (int \<times> 'a diskfs_state_scheme) option" where
  "diskfs_init drive s =
     (let (r, s) = diskfs_mount drive s in
      if r = 0 then Some (0, s)
      else do { (r, s) \<leftarrow> diskfs_format drive s; if r \<noteq> 0 then Some (-1, s) else Some (diskfs_mount drive s) })"

section \<open>Reading and writing files\<close>

text \<open>The length of one transfer: to the end of the block or of the request.\<close>

definition chunk :: "u32 \<Rightarrow> u32 \<Rightarrow> u32 \<Rightarrow> u32" where
  "chunk offset sz k =
     (let block_offset = (offset + k) mod DISKFS_BLOCK_SIZE in
      if sz - k < DISKFS_BLOCK_SIZE - block_offset then sz - k else DISKFS_BLOCK_SIZE - block_offset)"

lemma chunk_progress:
  assumes "k < sz"
  shows "0 < chunk offset sz k" and "unat (sz - (k + chunk offset sz k)) < unat (sz - k)"
    and "chunk offset sz k \<le> sz - k"
proof -
  have "(offset + k) mod DISKFS_BLOCK_SIZE < DISKFS_BLOCK_SIZE"
    by (rule word_mod_less_divisor) (simp add: DISKFS_BLOCK_SIZE_def)
  then have b: "0 < DISKFS_BLOCK_SIZE - (offset + k) mod DISKFS_BLOCK_SIZE" by (simp add: word_gt_0)
  have d: "0 < sz - k" using assms by (simp add: word_gt_0)
  show c: "0 < chunk offset sz k" using b d by (simp add: chunk_def Let_def)
  show le: "chunk offset sz k \<le> sz - k" by (simp add: chunk_def Let_def not_less)
  have "unat (sz - k - chunk offset sz k) = unat (sz - k) - unat (chunk offset sz k)"
    by (rule unat_sub_le [OF le])
  moreover have "0 < unat (chunk offset sz k)" using c by (simp add: word_less_nat_alt)
  moreover have "0 < unat (sz - k)" using d by (simp add: word_less_nat_alt)
  ultimately show "unat (sz - (k + chunk offset sz k)) < unat (sz - k)"
    by (simp add: diff_diff_eq)
qed

text \<open>
  The loop of \<^verbatim>\<open>diskfs_read\<close>: the bytes put into the caller's buffer so far are \<open>acc\<close>; \<open>Inl\<close> when the drive
  fails.
\<close>

function read_loop :: "'a diskfs_state_scheme \<Rightarrow> inode \<Rightarrow> u32 \<Rightarrow> u32 \<Rightarrow> u32 \<Rightarrow> u8 list \<Rightarrow> u8 list option" where
  "read_loop s n offset sz k acc =
     (if \<not> k < sz then Some acc
      else let block_idx = (offset + k) div DISKFS_BLOCK_SIZE;
               block_offset = (offset + k) mod DISKFS_BLOCK_SIZE;
               to_read = chunk offset sz k
           in if block_idx \<ge> DISKFS_DIRECT_BLOCKS then Some acc
              else if i_block n block_idx = 0 then Some acc
              else case disk_read_sector (mounted_drive s) (DISKFS_DATA_START + i_block n block_idx) s of
                None \<Rightarrow> None
              | Some buf \<Rightarrow> read_loop s n offset sz (k + to_read)
                  (acc @ take (unat to_read) (drop (unat block_offset) buf)))"
  by pat_completeness auto
termination
  by (relation "measure (\<lambda>(s, n, offset, sz, k, acc). unat (sz - k))") (simp_all add: chunk_progress)

declare read_loop.simps [simp del]

text \<open>The return value, the bytes stored at the start of the buffer, and the state (the inode cache).\<close>

definition diskfs_read ::
    "u32 \<Rightarrow> u32 \<Rightarrow> u32 \<Rightarrow> 'a diskfs_state_scheme \<Rightarrow> (int \<times> u8 list \<times> 'a diskfs_state_scheme) option" where
  "diskfs_read ino offset sz s =
     (if mounted_drive s = 0xFF then Some (-1, [], s)
      else do {
        (r, s) \<leftarrow> read_inode (mounted_drive s) ino s;
        case r of
          Inl _ \<Rightarrow> Some (-1, [], s)
        | Inr n \<Rightarrow>
            if offset \<ge> i_size n then Some (0, [], s)
            else let sz = (if offset + sz > i_size n then i_size n - offset else sz) in
              case read_loop s n offset sz 0 [] of
                None \<Rightarrow> Some (-1, [], s)
              | Some bs \<Rightarrow> Some (int (length bs), bs, s)
      })"

text \<open>
  The loop of \<^verbatim>\<open>diskfs_write\<close>. The result: whether the drive failed, the number of bytes written, the
  updated inode and the state; \<^term>\<open>None\<close> when the bitmap scan leaves its array.
\<close>

function write_loop ::
    "u8 list \<Rightarrow> u32 \<Rightarrow> u32 \<Rightarrow> u32 \<Rightarrow> inode \<Rightarrow> 'a diskfs_state_scheme \<Rightarrow> (bool \<times> u32 \<times> inode \<times> 'a diskfs_state_scheme) option" where
  "write_loop bytes offset sz k n s =
     (if \<not> k < sz then Some (True, k, n, s)
      else let block_idx = (offset + k) div DISKFS_BLOCK_SIZE;
               block_offset = (offset + k) mod DISKFS_BLOCK_SIZE;
               to_write = chunk offset sz k
           in if block_idx \<ge> DISKFS_DIRECT_BLOCKS then Some (True, k, n, s)
              else case (if i_block n block_idx = 0 then alloc_block s else Some (0, s)) of
                None \<Rightarrow> None
              | Some (b, s) \<Rightarrow>
                  if b < 0 then Some (True, k, n, s)
                  else let n = (if i_block n block_idx = 0 then set_i_block block_idx (of_int b) n else n);
                           sector = DISKFS_DATA_START + i_block n block_idx;
                           piece = take (unat to_write) (drop (unat k) bytes)
                       in case (if block_offset \<noteq> 0 \<or> to_write < DISKFS_BLOCK_SIZE
                                then disk_read_sector (mounted_drive s) sector s else Some (replicate 512 0)) of
                            None \<Rightarrow> Some (False, k, n, s)
                          | Some buf \<Rightarrow>
                              (case disk_write_sector (mounted_drive s) sector (splice (unat block_offset) piece buf) s of
                                 None \<Rightarrow> Some (False, k, n, s)
                               | Some s \<Rightarrow> write_loop bytes offset sz (k + to_write) n s))"
  by pat_completeness auto
termination
  by (relation "measure (\<lambda>(bytes, offset, sz, k, n, s). unat (sz - k))") (simp_all add: chunk_progress)

declare write_loop.simps [simp del]

definition diskfs_write ::
    "u32 \<Rightarrow> u8 list \<Rightarrow> u32 \<Rightarrow> u32 \<Rightarrow> 'a diskfs_state_scheme \<Rightarrow> (int \<times> 'a diskfs_state_scheme) option" where
  "diskfs_write ino bytes offset sz s =
     (if mounted_drive s = 0xFF then Some (-1, s)
      else do {
        (r, s) \<leftarrow> read_inode (mounted_drive s) ino s;
        case r of
          Inl _ \<Rightarrow> Some (-1, s)
        | Inr n \<Rightarrow>
            do {
              let sz = (if offset + sz > DISKFS_MAX_FILE_SIZE then DISKFS_MAX_FILE_SIZE - offset else sz);
              (ok, k, n, s) \<leftarrow> write_loop bytes offset sz 0 n s;
              if \<not> ok then Some (-1, s)
              else do {
                let n = (if offset + k > i_size n then put32 4 (offset + k) n else n);
                (_, s) \<leftarrow> write_inode (mounted_drive s) ino (put32 60 (ticks s) n) s;
                Some (uint k, s)
              }
            }
      })"

section \<open>Directories\<close>

text \<open>
  A read into the local \<^verbatim>\<open>entry\<close>: what the drive did not deliver keeps the old contents of the variable.
\<close>

definition fill :: "u8 list \<Rightarrow> dirent \<Rightarrow> dirent" where
  "fill bs junk = bs @ drop (length bs) junk"

primrec lookup_loop ::
    "(u32 \<Rightarrow> dirent) \<Rightarrow> u32 \<Rightarrow> string \<Rightarrow> nat list \<Rightarrow> 'a diskfs_state_scheme \<Rightarrow> (int \<times> 'a diskfs_state_scheme) option" where
  "lookup_loop junk dir_ino nm [] s = Some (-1, s)"
| "lookup_loop junk dir_ino nm (i # is) s =
     do {
       (ret, bs, s) \<leftarrow> diskfs_read dir_ino (of_nat i * sizeof_dirent) sizeof_dirent s;
       if ret < 0 then Some (-1, s)
       else let e = fill bs (junk (of_nat i)) in
         if de_inode e \<noteq> 0 \<and> de_named e nm then Some (sint (de_inode e), s)
         else lookup_loop junk dir_ino nm is s
     }"

definition diskfs_lookup ::
    "(u32 \<Rightarrow> dirent) \<Rightarrow> u32 \<Rightarrow> string \<Rightarrow> 'a diskfs_state_scheme \<Rightarrow> (int \<times> 'a diskfs_state_scheme) option" where
  "diskfs_lookup junk dir_ino nm s =
     (if mounted_drive s = 0xFF then Some (-1, s)
      else do {
        (r, s) \<leftarrow> read_inode (mounted_drive s) dir_ino s;
        case r of
          Inl _ \<Rightarrow> Some (-1, s)
        | Inr dir \<Rightarrow>
            if i_type dir \<noteq> DISKFS_TYPE_DIR then Some (-1, s)
            else lookup_loop junk dir_ino nm [0..<unat (i_size dir div sizeof_dirent)] s
      })"

definition diskfs_create ::
    "(u32 \<Rightarrow> dirent) \<Rightarrow> u32 \<Rightarrow> string \<Rightarrow> u32 \<Rightarrow> 'a diskfs_state_scheme \<Rightarrow> (int \<times> 'a diskfs_state_scheme) option" where
  "diskfs_create junk parent_ino nm typ s =
     (if mounted_drive s = 0xFF then Some (-1, s)
      else if length nm \<ge> DISKFS_MAX_FILENAME then Some (-1, s)
      else do {
        (r, s) \<leftarrow> read_inode (mounted_drive s) parent_ino s;
        case r of
          Inl _ \<Rightarrow> Some (-1, s)
        | Inr parent \<Rightarrow>
            if i_type parent \<noteq> DISKFS_TYPE_DIR then Some (-1, s)
            else do {
              (found, s) \<leftarrow> diskfs_lookup junk parent_ino nm s;
              if found \<ge> 0 then Some (-2, s)
              else do {
                (ino, s) \<leftarrow> alloc_inode s;
                if ino < 0 then Some (-3, s)
                else do {
                  (r, s) \<leftarrow> write_inode (mounted_drive s) (of_int ino) (new_inode typ parent_ino (ticks s)) s;
                  if r \<noteq> 0 then do { s \<leftarrow> free_inode (of_int ino) s; Some (-1, s) }
                  else do {
                    (ret, s) \<leftarrow> diskfs_write parent_ino (mk_dirent (of_int ino) nm) (i_size parent) sizeof_dirent s;
                    if ret < 0 then do { s \<leftarrow> free_inode (of_int ino) s; Some (-1, s) }
                    else Some (ino, snd (diskfs_sync s))
                  }
                }
              }
            }
      })"

primrec readdir_loop ::
    "(u32 \<Rightarrow> dirent) \<Rightarrow> u32 \<Rightarrow> nat list \<Rightarrow> 'a diskfs_state_scheme \<Rightarrow> (dirent list option \<times> 'a diskfs_state_scheme) option" where
  "readdir_loop old dir_ino [] s = Some (Some [], s)"
| "readdir_loop old dir_ino (i # is) s =
     do {
       (ret, bs, s) \<leftarrow> diskfs_read dir_ino (of_nat i * sizeof_dirent) sizeof_dirent s;
       if ret < 0 then Some (None, s)
       else do {
         (es, s) \<leftarrow> readdir_loop old dir_ino is s;
         Some (map_option (Cons (fill bs (old (of_nat i)))) es, s)
       }
     }"

text \<open>\<open>old\<close> is the previous contents of the caller's array.\<close>

definition diskfs_readdir ::
    "(u32 \<Rightarrow> dirent) \<Rightarrow> u32 \<Rightarrow> u32 \<Rightarrow> 'a diskfs_state_scheme \<Rightarrow> ((int \<times> dirent list) \<times> 'a diskfs_state_scheme) option" where
  "diskfs_readdir old dir_ino max_entries s =
     (if mounted_drive s = 0xFF then Some ((-1, []), s)
      else do {
        (r, s) \<leftarrow> read_inode (mounted_drive s) dir_ino s;
        case r of
          Inl _ \<Rightarrow> Some ((-1, []), s)
        | Inr dir \<Rightarrow>
            if i_type dir \<noteq> DISKFS_TYPE_DIR then Some ((-1, []), s)
            else let num = i_size dir div sizeof_dirent; to_read = (if num < max_entries then num else max_entries) in
              do {
                (es, s) \<leftarrow> readdir_loop old dir_ino [0..<unat to_read] s;
                Some (case es of None \<Rightarrow> (-1, []) | Some es \<Rightarrow> (uint to_read, es), s)
              }
      })"

definition diskfs_stat :: "u32 \<Rightarrow> 'a diskfs_state_scheme \<Rightarrow> ((int + inode) \<times> 'a diskfs_state_scheme) option" where
  "diskfs_stat ino s = (if mounted_drive s = 0xFF then Some (Inl (-1), s) else read_inode (mounted_drive s) ino s)"

primrec free_blocks :: "u32 list \<Rightarrow> 'a diskfs_state_scheme \<Rightarrow> 'a diskfs_state_scheme option" where
  "free_blocks [] s = Some s"
| "free_blocks (b # bs) s = do { s \<leftarrow> (if b \<noteq> 0 then free_block b s else Some s); free_blocks bs s }"

primrec unlink_loop ::
    "(u32 \<Rightarrow> dirent) \<Rightarrow> u32 \<Rightarrow> u32 \<Rightarrow> nat list \<Rightarrow> 'a diskfs_state_scheme \<Rightarrow> 'a diskfs_state_scheme option" where
  "unlink_loop junk parent_ino ino [] s = Some s"
| "unlink_loop junk parent_ino ino (i # is) s =
     do {
       (_, bs, s) \<leftarrow> diskfs_read parent_ino (of_nat i * sizeof_dirent) sizeof_dirent s;
       let e = fill bs (junk (of_nat i));
       if de_inode e = ino
       then do { (_, s) \<leftarrow> diskfs_write parent_ino (put32 0 0 e) (of_nat i * sizeof_dirent) sizeof_dirent s; Some s }
       else unlink_loop junk parent_ino ino is s
     }"

definition diskfs_delete ::
    "(u32 \<Rightarrow> dirent) \<Rightarrow> u32 \<Rightarrow> string \<Rightarrow> 'a diskfs_state_scheme \<Rightarrow> (int \<times> 'a diskfs_state_scheme) option" where
  "diskfs_delete junk parent_ino nm s =
     (if mounted_drive s = 0xFF then Some (-1, s)
      else do {
        (ino, s) \<leftarrow> diskfs_lookup junk parent_ino nm s;
        if ino < 0 then Some (-1, s)
        else do {
          (r, s) \<leftarrow> read_inode (mounted_drive s) (of_int ino) s;
          case r of
            Inl _ \<Rightarrow> Some (-1, s)
          | Inr n \<Rightarrow>
              if i_type n = DISKFS_TYPE_DIR \<and> i_size n > 0 then Some (-2, s)
              else do {
                s \<leftarrow> free_blocks (map (\<lambda>k. i_block n (of_nat k)) [0..<unat DISKFS_DIRECT_BLOCKS]) s;
                s \<leftarrow> free_inode (of_int ino) s;
                (r, s) \<leftarrow> read_inode (mounted_drive s) parent_ino s;
                case r of
                  Inl _ \<Rightarrow> Some (-1, s)
                | Inr parent \<Rightarrow>
                    do {
                      s \<leftarrow> unlink_loop junk parent_ino (of_int ino) [0..<unat (i_size parent div sizeof_dirent)] s;
                      Some (0, snd (diskfs_sync s))
                    }
              }
        }
      })"

definition diskfs_is_mounted :: "'a diskfs_state_scheme \<Rightarrow> bool" where
  "diskfs_is_mounted s \<longleftrightarrow> mounted_drive s \<noteq> 0xFF"

section \<open>Fields of packed structures\<close>

lemma length_splice [simp]: "off + length src \<le> length buf \<Longrightarrow> length (splice off src buf) = length buf"
  by (simp add: splice_def)

lemma nth_splice:
  assumes "off + length src \<le> length buf" and "i < length buf"
  shows "splice off src buf ! i = (if off \<le> i \<and> i < off + length src then src ! (i - off) else buf ! i)"
proof -
  have "length (take off buf) = off" using assms by simp
  then show ?thesis using assms by (auto simp: splice_def nth_append)
qed

lemma length_le32 [simp]: "length (le32 v) = 4"
  by (simp add: le32_def)

lemma length_put32 [simp]: "off + 4 \<le> length bs \<Longrightarrow> length (put32 off v bs) = length bs"
  by (simp add: put32_def)

lemma get32_cong:
  assumes "\<And>k. k < 4 \<Longrightarrow> bs ! (off + k) = cs ! (off' + k)"
  shows "get32 off bs = get32 off' cs"
  using assms [of 0] assms [of 1] assms [of 2] assms [of 3] by (simp add: get32_def)

lemma get32_le32: "get32 0 (le32 v) = v"
proof -
  have "get32 0 (le32 v) = load32 (store32 0 v (\<lambda>_. 0)) 0" by (simp add: get32_def le32_def load32_def store32_def)
  then show ?thesis by simp
qed

lemma get32_put32_same [simp]:
  assumes "off + 4 \<le> length bs"
  shows "get32 off (put32 off v bs) = v"
proof -
  have "get32 off (put32 off v bs) = get32 0 (le32 v)"
    by (rule get32_cong) (use assms in \<open>simp add: put32_def nth_splice\<close>)
  then show ?thesis by (simp add: get32_le32)
qed

lemma get32_put32_other:
  assumes "off + 4 \<le> length bs" and "off' + 4 \<le> length bs" and "off + 4 \<le> off' \<or> off' + 4 \<le> off"
  shows "get32 off (put32 off' v bs) = get32 off bs"
  by (rule get32_cong) (use assms in \<open>auto simp: put32_def nth_splice\<close>)

lemma get32_splice:
  assumes "off + length src \<le> length buf" and "k + 4 \<le> length src"
  shows "get32 (off + k) (splice off src buf) = get32 k src"
  by (rule get32_cong) (use assms in \<open>auto simp: nth_splice\<close>)

section \<open>The bitmaps are bit sets\<close>

lemma bit_byte_mask: "bit (byte_mask b) j \<longleftrightarrow> j = unat (b mod 8)"
proof -
  have "unat (b mod 8) < 8" by (simp add: unat_mod_distrib)
  then show ?thesis by (auto simp: byte_mask_def bit_simps)
qed

lemma dbitmap_test_bit: "dbitmap_test bm b \<longleftrightarrow> bit (bm ! unat (b div 8)) (unat (b mod 8))"
proof -
  have "unat (b mod 8) < 8" by (simp add: unat_mod_distrib)
  then have "w AND byte_mask b \<noteq> 0 \<longleftrightarrow> bit w (unat (b mod 8))" for w :: u8
    using bit_eq_iff [of "w AND byte_mask b" 0] by (auto simp: bit_and_iff bit_byte_mask)
  then show ?thesis by (simp add: dbitmap_test_def)
qed

lemma same_dbit: "unat (c div 8) = unat (b div 8) \<and> unat (c mod 8) = unat (b mod 8) \<longleftrightarrow> c = b" for b c :: u32
proof -
  have "unat x = unat (x div 8) * 8 + unat (x mod 8)" for x :: u32
    by (simp add: unat_div_distrib unat_mod_distrib)
  then show ?thesis by (metis unat_word_inj)
qed

interpretation dbits: bitset dbitmap_set dbitmap_clear dbitmap_test dbitmap_valid
proof
  fix i j :: u32 and b :: "u8 list"
  show "dbitmap_valid (dbitmap_set i b) j = dbitmap_valid b j" "dbitmap_valid (dbitmap_clear i b) j = dbitmap_valid b j"
    by (simp_all add: dbitmap_valid_def dbitmap_set_def dbitmap_clear_def)
  assume v: "dbitmap_valid b i" "dbitmap_valid b j"
  show "dbitmap_test (dbitmap_set i b) j \<longleftrightarrow> j = i \<or> dbitmap_test b j"
    using v same_dbit [of j i]
    by (auto simp: dbitmap_test_bit dbitmap_set_def dbitmap_valid_def nth_list_update bit_or_iff bit_byte_mask)
  have "unat (j mod 8) < 8" by (simp add: unat_mod_distrib)
  then show "dbitmap_test (dbitmap_clear i b) j \<longleftrightarrow> j \<noteq> i \<and> dbitmap_test b j"
    using v same_dbit [of j i]
    by (auto simp: dbitmap_test_bit dbitmap_clear_def dbitmap_valid_def nth_list_update bit_and_iff bit_not_iff bit_byte_mask)
qed

lemma dbitmap_valid_of_nat: "k < 8 * length bm \<Longrightarrow> k < 2 ^ 32 \<Longrightarrow> dbitmap_valid bm (of_nat k)"
  by (simp add: dbitmap_valid_def unat_div_distrib unat_of_nat_small less_mult_imp_div_less mult.commute)

lemma find_free_from_ok:
  assumes "n \<le> 8 * length bm" and "n \<le> 2 ^ 32" and "i \<le> n" and "\<forall>k<i. dbitmap_test bm (of_nat k)"
  shows "(\<exists>k<n. find_free_from bm i n = Some (int k) \<and> \<not> dbitmap_test bm (of_nat k) \<and> (\<forall>j<k. dbitmap_test bm (of_nat j))) \<or>
    find_free_from bm i n = Some (-1) \<and> (\<forall>k<n. dbitmap_test bm (of_nat k))"
  using assms
proof (induction "n - i" arbitrary: i)
  case 0
  then show ?case by (subst (1 2) find_free_from.simps) auto
next
  case (Suc d)
  then have i: "i < n" by simp
  have v: "dbitmap_valid bm (of_nat i)" by (rule dbitmap_valid_of_nat) (use i Suc.prems in simp_all)
  show ?case
  proof (cases "dbitmap_test bm (of_nat i)")
    case True
    then have "find_free_from bm i n = find_free_from bm (Suc i) n" using v i by (subst find_free_from.simps) simp
    moreover have "\<forall>k<Suc i. dbitmap_test bm (of_nat k)" using True Suc.prems(4) less_Suc_eq by auto
    ultimately show ?thesis using Suc.hyps(1) [of "Suc i"] Suc.hyps(2) Suc.prems i by simp
  next
    case False
    then have "find_free_from bm i n = Some (int i)" using v i by (subst find_free_from.simps) simp
    then show ?thesis using False i Suc.prems(4) by blast
  qed
qed

section \<open>Properties\<close>

text \<open>
  The mounted drive works: it exists, its sectors have 512 bytes and none is bad, and the bitmap in
  memory covers the blocks the superblock announces.
\<close>

definition drive_ok :: "'a diskfs_state_scheme \<Rightarrow> bool" where
  "drive_ok s \<longleftrightarrow> mounted_drive s < 4 \<and> drives s (mounted_drive s) \<noteq> None \<and>
     (\<forall>l. \<not> bad_sector s (mounted_drive s) l \<and> length (the (drives s (mounted_drive s)) l) = 512) \<and>
     unat (sb_total_blocks (superblock s)) \<le> 8 * length (block_bitmap s) \<and>
     length (block_bitmap s) = 8192 \<and> length (superblock s) = 512"

text \<open>The state with one sector of the mounted drive replaced.\<close>

definition put_sector :: "u32 \<Rightarrow> u8 list \<Rightarrow> 'a diskfs_state_scheme \<Rightarrow> 'a diskfs_state_scheme" where
  "put_sector l bs s = s\<lparr>drives := (drives s)(mounted_drive s \<mapsto> (the (drives s (mounted_drive s)))(l := bs))\<rparr>"

definition sector :: "'a diskfs_state_scheme \<Rightarrow> u32 \<Rightarrow> u8 list" where
  "sector s l = the (drives s (mounted_drive s)) l"

lemma put_sector_fields [simp]:
  "mounted_drive (put_sector l bs s) = mounted_drive s" "bad_sector (put_sector l bs s) = bad_sector s"
  "superblock (put_sector l bs s) = superblock s" "inode_bitmap (put_sector l bs s) = inode_bitmap s"
  "block_bitmap (put_sector l bs s) = block_bitmap s" "cache_valid (put_sector l bs s) = cache_valid s"
  "cache_num (put_sector l bs s) = cache_num s" "inode_cache (put_sector l bs s) = inode_cache s"
  "cache_idx (put_sector l bs s) = cache_idx s" "ticks (put_sector l bs s) = ticks s"
  by (simp_all add: put_sector_def)

lemma sector_put_sector [simp]: "sector (put_sector l bs s) l' = (if l' = l then bs else sector s l')"
  by (simp add: sector_def put_sector_def)

lemma sector_cong: "drives s' = drives s \<Longrightarrow> mounted_drive s' = mounted_drive s \<Longrightarrow> sector s' = sector s"
  by (simp add: sector_def fun_eq_iff)

lemma drive_ok_read: "drive_ok s \<Longrightarrow> disk_read_sector (mounted_drive s) l s = Some (sector s l)"
  by (simp add: drive_ok_def disk_read_sector_def disk_drive_exists_def sector_def)

lemma drive_ok_len: "drive_ok s \<Longrightarrow> length (sector s l) = 512"
  by (simp add: drive_ok_def sector_def)

lemma drive_ok_write:
  assumes "drive_ok s" and "length bs = 512"
  shows "disk_write_sector (mounted_drive s) l bs s = Some (put_sector l bs s)" and "drive_ok (put_sector l bs s)"
  using assms by (auto simp: drive_ok_def disk_write_sector_def disk_drive_exists_def put_sector_def)

lemma drive_ok_cong:
  "drive_ok s \<Longrightarrow> drives s' = drives s \<Longrightarrow> mounted_drive s' = mounted_drive s \<Longrightarrow> bad_sector s' = bad_sector s \<Longrightarrow>
   superblock s' = superblock s \<Longrightarrow> block_bitmap s' = block_bitmap s \<Longrightarrow> drive_ok s'"
  by (simp add: drive_ok_def)

text \<open>The effect of \<open>write_inode\<close> on the cache.\<close>

definition cache_put :: "u32 \<Rightarrow> inode \<Rightarrow> 'a diskfs_state_scheme \<Rightarrow> 'a diskfs_state_scheme" where
  "cache_put ino n s = (case cache_find ino s of None \<Rightarrow> s | Some i \<Rightarrow> s\<lparr>inode_cache := (inode_cache s)[i := n]\<rparr>)"

lemma cache_put_fields [simp]:
  "drives (cache_put ino n s) = drives s" "mounted_drive (cache_put ino n s) = mounted_drive s"
  "bad_sector (cache_put ino n s) = bad_sector s" "superblock (cache_put ino n s) = superblock s"
  "block_bitmap (cache_put ino n s) = block_bitmap s" "cache_valid (cache_put ino n s) = cache_valid s"
  "cache_num (cache_put ino n s) = cache_num s"
  by (simp_all add: cache_put_def split: option.split)

lemma sector_cache_put [simp]: "sector (cache_put ino n s) = sector s"
  by (rule sector_cong) simp_all

lemma drive_ok_cache_put: "drive_ok s \<Longrightarrow> drive_ok (cache_put ino n s)"
  by (erule drive_ok_cong) simp_all

lemma write_inode_effect:
  assumes "drive_ok s" and "ino < DISKFS_MAX_INODES" and "length n = sizeof_inode" and "inode_offset ino \<le> 256"
  shows "write_inode (mounted_drive s) ino n s =
    Some (0, cache_put ino n (put_sector (inode_sector ino) (splice (inode_offset ino) n (sector s (inode_sector ino))) s))"
proof -
  have l: "length (splice (inode_offset ino) n (sector s (inode_sector ino))) = 512"
    using assms by (simp add: drive_ok_len sizeof_inode_def)
  show ?thesis
    using assms drive_ok_write(1) [OF assms(1) l, of "inode_sector ino"] drive_ok_len [OF assms(1), of "inode_sector ino"]
    by (simp add: write_inode_def drive_ok_read cache_put_def sizeof_inode_def not_le)
qed

lemma inode_offset_small:
  assumes "ino mod 4 \<noteq> 3"
  shows "inode_offset ino \<le> 256" and "unat ino mod 4 < 3"
proof -
  have m: "unat (ino mod 4) = unat ino mod 4" by (simp add: unat_mod_distrib)
  then have "unat ino mod 4 \<noteq> 3" using assms unat_word_inj [of "ino mod 4" 3] by auto
  then show m3: "unat ino mod 4 < 3" using mod_less_divisor [of 4 "unat ino"] by linarith
  then show "inode_offset ino \<le> 256" using m by (simp add: inode_offset_def)
qed

lemma mounted_small: "drive_ok s \<Longrightarrow> mounted_drive s \<noteq> 0xFF"
  by (auto simp: drive_ok_def word_less_nat_alt)

lemma alloc_block_effect:
  assumes "drive_ok s"
  shows "(\<exists>k < unat (sb_total_blocks (superblock s)). alloc_block s =
      Some (int k, s\<lparr>block_bitmap := dbitmap_set (of_nat k) (block_bitmap s),
        superblock := put32 20 (sb_free_blocks (superblock s) - 1) (superblock s)\<rparr>) \<and>
      \<not> dbitmap_test (block_bitmap s) (of_nat k) \<and> (\<forall>j<k. dbitmap_test (block_bitmap s) (of_nat j))) \<or>
    alloc_block s = Some (-1, s) \<and> (\<forall>k < unat (sb_total_blocks (superblock s)). dbitmap_test (block_bitmap s) (of_nat k))"
proof -
  have n: "unat (sb_total_blocks (superblock s)) \<le> 8 * length (block_bitmap s)" "unat (sb_total_blocks (superblock s)) \<le> 2 ^ 32"
    using assms unsigned_less [of "sb_total_blocks (superblock s)", where 'a = nat] by (simp_all add: drive_ok_def)
  show ?thesis
    using find_free_from_ok [OF n, of 0] by (auto simp: alloc_block_def dbitmap_find_free_def)
qed

text \<open>
  \<open>alloc_block\<close> on a mounted drive returns the lowest free block, marks it and no other, and counts it
  in the superblock; it returns \<open>-1\<close> and changes nothing exactly when no block is free.
\<close>

theorem alloc_block_correct:
  assumes "drive_ok s"
  shows "\<exists>b s'. alloc_block s = Some (b, s') \<and>
    (if \<forall>k < unat (sb_total_blocks (superblock s)). dbitmap_test (block_bitmap s) (of_nat k)
     then b = -1 \<and> s' = s
     else \<exists>k < unat (sb_total_blocks (superblock s)). b = int k \<and> \<not> dbitmap_test (block_bitmap s) (of_nat k) \<and>
       (\<forall>j<k. dbitmap_test (block_bitmap s) (of_nat j)) \<and>
       (\<forall>j < unat (sb_total_blocks (superblock s)). dbitmap_test (block_bitmap s') (of_nat j) \<longleftrightarrow>
          j = k \<or> dbitmap_test (block_bitmap s) (of_nat j)) \<and>
       sb_free_blocks (superblock s') = sb_free_blocks (superblock s) - 1 \<and> drives s' = drives s)"
proof -
  have n: "unat (sb_total_blocks (superblock s)) \<le> 8 * length (block_bitmap s)" "unat (sb_total_blocks (superblock s)) < 2 ^ 32"
    and sb: "length (superblock s) = 512"
    using assms unsigned_less [of "sb_total_blocks (superblock s)", where 'a = nat] by (simp_all add: drive_ok_def)
  have v: "dbitmap_valid (block_bitmap s) (of_nat j)" if "j < unat (sb_total_blocks (superblock s))" for j
    by (rule dbitmap_valid_of_nat) (use that n in simp_all)
  have inj: "(of_nat j :: u32) = of_nat k \<longleftrightarrow> j = k"
    if "j < unat (sb_total_blocks (superblock s))" "k < unat (sb_total_blocks (superblock s))" for j k
    by (rule of_nat_word_inj) (use that n in simp_all)
  from alloc_block_effect [OF assms] show ?thesis
  proof (elim disjE exE conjE)
    fix k
    assume k: "k < unat (sb_total_blocks (superblock s))" "\<not> dbitmap_test (block_bitmap s) (of_nat k)"
      "\<forall>j<k. dbitmap_test (block_bitmap s) (of_nat j)"
      and al: "alloc_block s = Some (int k, s\<lparr>block_bitmap := dbitmap_set (of_nat k) (block_bitmap s),
        superblock := put32 20 (sb_free_blocks (superblock s) - 1) (superblock s)\<rparr>)"
    have "dbitmap_test (dbitmap_set (of_nat k) (block_bitmap s)) (of_nat j) \<longleftrightarrow> j = k \<or> dbitmap_test (block_bitmap s) (of_nat j)"
      if "j < unat (sb_total_blocks (superblock s))" for j
      using dbits.test_set [OF v [OF k(1)] v [OF that]] inj [OF that k(1)] by simp
    then show ?thesis using al k sb by (auto simp: sb_free_blocks_def)
  qed (auto)
qed

text \<open>A small disk of sixteen blocks with the root inode in the cache, for examples.\<close>

definition diskfs_demo :: "u8 list \<Rightarrow> diskfs_state" where
  "diskfs_demo bm = \<lparr>drives = [0 \<mapsto> (\<lambda>_. replicate 512 0)], bad_sector = (\<lambda>_ _. False), mounted_drive = 0,
     superblock = put32 12 16 (replicate 512 0), inode_bitmap = dbitmap_set 0 (replicate 8192 0), block_bitmap = bm,
     cache_valid = True # replicate 7 False, cache_num = replicate 8 0, inode_cache = replicate 8 zero_inode,
     cache_idx = 1, ticks = 0\<rparr>"

lemma diskfs_demo_total: "sb_total_blocks (superblock (diskfs_demo bm)) = 16"
  by (simp add: diskfs_demo_def sb_total_blocks_def)

lemma diskfs_demo_ok: "length bm = 8192 \<Longrightarrow> drive_ok (diskfs_demo bm)"
  using diskfs_demo_total [of bm] by (simp add: drive_ok_def) (simp add: diskfs_demo_def)

lemma empty_bitmap: "\<not> dbitmap_test (replicate 8192 0) 0"
  by (simp add: dbitmap_test_def)

theorem alloc_block_correct_witness:
  "drive_ok (diskfs_demo (replicate 8192 0)) \<and> (\<exists>b s'. alloc_block (diskfs_demo (replicate 8192 0)) = Some (b, s') \<and> 0 \<le> b)"
proof -
  let ?s = "diskfs_demo (replicate 8192 0)"
  have dk: "drive_ok ?s" by (simp add: diskfs_demo_ok)
  have bm: "block_bitmap ?s = replicate 8192 0" by (simp add: diskfs_demo_def)
  have free: "\<not> (\<forall>k < unat (sb_total_blocks (superblock ?s)). dbitmap_test (block_bitmap ?s) (of_nat k))"
    using empty_bitmap by (auto simp: bm diskfs_demo_total intro!: exI [of _ 0])
  obtain b s' k where "alloc_block ?s = Some (b, s')" "b = int k"
    using alloc_block_correct [OF dk] unfolding if_not_P [OF free] by blast
  then show ?thesis using dk by auto
qed

text \<open>
  C36: An inode structure has 136 bytes but the table gives it 128. Writing an inode also overwrites the
  type and the size of the next inode in the sector with the last eight padding bytes of this one;
  for the fourth inode of a sector the copy runs past the sector buffer.
\<close>

theorem write_inode_overlap:
  assumes "drive_ok s" and "ino < DISKFS_MAX_INODES" and "length n = sizeof_inode"
  shows "if ino mod 4 = 3 then write_inode (mounted_drive s) ino n s = None
    else \<exists>s' sector. write_inode (mounted_drive s) ino n s = Some (0, s') \<and>
      disk_read_sector (mounted_drive s) (inode_sector (ino + 1)) s' = Some sector \<and>
      take sizeof_inode (drop (inode_offset ino) sector) = n \<and>
      get32 (inode_offset (ino + 1)) sector = get32 128 n \<and> get32 (inode_offset (ino + 1) + 4) sector = get32 132 n"
proof (cases "ino mod 4 = 3")
  case True
  then have "inode_offset ino = 384" by (simp add: inode_offset_def)
  then show ?thesis using True assms
    by (simp add: write_inode_def drive_ok_read drive_ok_len sizeof_inode_def)
next
  case False
  note small = inode_offset_small [OF False]
  have su: "unat (ino + 1) = unat ino + 1"
    using assms(2) by (simp add: unat_add_no_overflow DISKFS_MAX_INODES_def word_less_nat_alt)
  have next_off: "inode_offset (ino + 1) = inode_offset ino + 128"
    using small(2) su by (simp add: inode_offset_def unat_mod_distrib mod_Suc)
  have "(ino + 1) div 4 = ino div 4"
    by (rule unat_word_inj) (use small(2) su in \<open>simp add: unat_div_distrib div_Suc mod_Suc\<close>)
  then have same: "inode_sector (ino + 1) = inode_sector ino" by (simp add: inode_sector_def)
  let ?b = "splice (inode_offset ino) n (sector s (inode_sector ino))"
  let ?s' = "cache_put ino n (put_sector (inode_sector ino) ?b s)"
  have fits: "inode_offset ino + length n \<le> length (sector s (inode_sector ino))"
    using small(1) assms by (simp add: drive_ok_len sizeof_inode_def)
  have "length ?b = 512" using fits assms(1) by (simp add: drive_ok_len)
  then have "drive_ok ?s'" by (intro drive_ok_cache_put drive_ok_write(2) assms(1))
  then have rd: "disk_read_sector (mounted_drive s) (inode_sector ino) ?s' = Some ?b"
    using drive_ok_read [of ?s' "inode_sector ino"] by simp
  have "take sizeof_inode (drop (inode_offset ino) ?b) = n" using fits assms(3) by (simp add: splice_def)
  moreover have "get32 (inode_offset ino + 128) ?b = get32 128 n" "get32 (inode_offset ino + 132) ?b = get32 132 n"
    using get32_splice [OF fits] assms(3) by (simp_all add: sizeof_inode_def)
  ultimately have "write_inode (mounted_drive s) ino n s = Some (0, ?s') \<and>
      disk_read_sector (mounted_drive s) (inode_sector (ino + 1)) ?s' = Some ?b \<and>
      take sizeof_inode (drop (inode_offset ino) ?b) = n \<and>
      get32 (inode_offset (ino + 1)) ?b = get32 128 n \<and> get32 (inode_offset (ino + 1) + 4) ?b = get32 132 n"
    using write_inode_effect [OF assms small(1)] rd by (simp only: same next_off add.assoc) simp
  then show ?thesis using False by (simp only: if_False) blast
qed

theorem write_inode_overlap_witness:
  "drive_ok (diskfs_demo (replicate 8192 0)) \<and> write_inode 0 3 zero_inode (diskfs_demo (replicate 8192 0)) = None"
proof -
  let ?s = "diskfs_demo (replicate 8192 0)"
  have dk: "drive_ok ?s" by (simp add: diskfs_demo_ok)
  have "mounted_drive ?s = 0" by (simp add: diskfs_demo_def)
  then show ?thesis
    using write_inode_overlap [OF dk, of 3 zero_inode] dk by (simp add: DISKFS_MAX_INODES_def zero_inode_def)
qed

end
