(* ===== verification/Fs.thy ===== *)
theory Fs
  imports Diskfs
begin

text \<open>
  \<^verbatim>\<open>kernel/fs/fs.c\<close>: the filesystem interface of the kernel, a table of 64 nodes in memory with an
  optional disk behind some of the operations. A C string is the list of its characters before the
  terminating zero. Where an operation looks at its path, a null path is treated as the empty one, so
  both are the empty string here. \<^term>\<open>None\<close> stands for a write past the end of a C array; a parameter
  \<open>junk\<close> is the contents of uninitialised memory that \<^verbatim>\<open>diskfs.c\<close> may read.
\<close>

section \<open>Data\<close>

definition FS_MAX_NAME :: nat where "FS_MAX_NAME = 32"
definition FS_MAX_PATH :: nat where "FS_MAX_PATH = 128"
definition FS_MAX_FILES :: nat where "FS_MAX_FILES = 64"
definition FS_MAX_FILE_SIZE :: u32 where "FS_MAX_FILE_SIZE = 4096"
definition FS_MAX_PATH_DEPTH :: nat where "FS_MAX_PATH_DEPTH = 8"

definition FS_TYPE_FILE :: u8 where "FS_TYPE_FILE = 0"
definition FS_TYPE_DIR :: u8 where "FS_TYPE_DIR = 1"

definition FS_ERR_OK :: int where "FS_ERR_OK = 0"
definition FS_ERR_NOT_FOUND :: int where "FS_ERR_NOT_FOUND = -1"
definition FS_ERR_EXISTS :: int where "FS_ERR_EXISTS = -2"
definition FS_ERR_FULL :: int where "FS_ERR_FULL = -3"
definition FS_ERR_INVALID :: int where "FS_ERR_INVALID = -4"
definition FS_ERR_NOT_EMPTY :: int where "FS_ERR_NOT_EMPTY = -5"
definition FS_ERR_IS_DIR :: int where "FS_ERR_IS_DIR = -6"
definition FS_ERR_NOT_DIR :: int where "FS_ERR_NOT_DIR = -7"

record fs_node =
  fname :: string
  ftype :: u8
  fused :: bool
  fsize :: u32
  parent_idx :: u32
  fdata :: "u8 list"

definition zero_node :: fs_node where
  "zero_node = \<lparr>fname = [], ftype = 0, fused = False, fsize = 0, parent_idx = 0, fdata = replicate 4096 0\<rparr>"

record fs_state = diskfs_state +
  fs_nodes :: "fs_node list"
  disk_enabled :: bool
  cwd :: string
  cwd_idx :: u32

section \<open>Names and paths\<close>

text \<open>The first index of the table with a property, or \<open>-1\<close>.\<close>

definition first_node :: "(fs_node \<Rightarrow> bool) \<Rightarrow> fs_node list \<Rightarrow> int" where
  "first_node P nodes = (case List.find (\<lambda>i. P (nodes ! i)) [0..<FS_MAX_FILES] of None \<Rightarrow> -1 | Some i \<Rightarrow> int i)"

definition find_free_node :: "fs_node list \<Rightarrow> int" where
  "find_free_node = first_node (\<lambda>n. \<not> fused n)"

definition find_node_in_dir :: "fs_node list \<Rightarrow> u32 \<Rightarrow> string \<Rightarrow> int" where
  "find_node_in_dir nodes dir_idx nm = first_node (\<lambda>n. fused n \<and> parent_idx n = dir_idx \<and> fname n = nm) nodes"

text \<open>
  One component of a path, cut to the size of the buffer it is copied to, and the rest of the path
  after the slash.
\<close>

definition next_component :: "nat \<Rightarrow> string \<Rightarrow> string \<times> string" where
  "next_component n token =
     (if CHR ''/'' \<in> set token
      then (take (n - 1) (takeWhile (\<lambda>c. c \<noteq> CHR ''/'') token), tl (dropWhile (\<lambda>c. c \<noteq> CHR ''/'') token))
      else (take (n - 1) token, []))"

lemma next_component_shorter: "token \<noteq> [] \<Longrightarrow> length (snd (next_component n token)) < length token"
  using length_dropWhile_le [of "\<lambda>c. c \<noteq> CHR ''/''" token] by (cases token) (auto simp: next_component_def)

text \<open>The loop of \<^verbatim>\<open>resolve_path\<close> over the directories of a path.\<close>

function walk :: "fs_node list \<Rightarrow> u32 \<Rightarrow> string \<Rightarrow> u32 option" where
  "walk nodes current token =
     (if token = [] then Some current
      else let component = fst (next_component FS_MAX_NAME token); rest = snd (next_component FS_MAX_NAME token) in
        if component = [] then walk nodes current rest
        else if component = ''.'' then walk nodes current rest
        else if component = ''..'' then
          walk nodes (if current \<noteq> 0 then parent_idx (nodes ! unat current) else current) rest
        else let idx = find_node_in_dir nodes current component in
          if idx < 0 \<or> ftype (nodes ! nat idx) \<noteq> FS_TYPE_DIR then None
          else walk nodes (of_int idx) rest)"
  by pat_completeness auto
termination
  by (relation "measure (\<lambda>(nodes, current, token). length token)") (simp_all add: next_component_shorter)

declare walk.simps [simp del]

text \<open>A string before and after its last slash.\<close>

definition dir_part :: "string \<Rightarrow> string" where
  "dir_part p = rev (tl (dropWhile (\<lambda>c. c \<noteq> CHR ''/'') (rev p)))"

definition name_part :: "string \<Rightarrow> string" where
  "name_part p = rev (takeWhile (\<lambda>c. c \<noteq> CHR ''/'') (rev p))"

definition strip_slash :: "string \<Rightarrow> string" where
  "strip_slash p = (case p of c # cs \<Rightarrow> if c = CHR ''/'' then cs else p | [] \<Rightarrow> [])"

definition resolve_path :: "string \<Rightarrow> 'a fs_state_scheme \<Rightarrow> int + (u32 \<times> string)" where
  "resolve_path path s =
     (if path = [] then Inl FS_ERR_INVALID
      else let buf = take (FS_MAX_PATH - 1) path;
               current = (if hd buf = CHR ''/'' then 0 else cwd_idx s);
               p = strip_slash buf
           in if CHR ''/'' \<notin> set p then Inr (current, take (FS_MAX_NAME - 1) p)
              else case walk (fs_nodes s) current (dir_part p) of
                None \<Rightarrow> Inl FS_ERR_NOT_FOUND
              | Some parent \<Rightarrow> Inr (parent, take (FS_MAX_NAME - 1) (name_part p)))"

definition resolve_full_path :: "string \<Rightarrow> 'a fs_state_scheme \<Rightarrow> int" where
  "resolve_full_path path s =
     (if path = [] then FS_ERR_INVALID
      else if path = ''/'' then 0
      else case resolve_path path s of
        Inl e \<Rightarrow> e
      | Inr (parent, basename) \<Rightarrow>
          if basename = [] then uint parent
          else if basename = ''.'' then uint parent
          else if basename = ''..'' then if parent = 0 then 0 else uint (parent_idx (fs_nodes s ! unat parent))
          else find_node_in_dir (fs_nodes s) parent basename)"

function disk_walk ::
    "(u32 \<Rightarrow> dirent) \<Rightarrow> int \<Rightarrow> string \<Rightarrow> 'a fs_state_scheme \<Rightarrow> (int \<times> 'a fs_state_scheme) option" where
  "disk_walk junk ino p s =
     (if p = [] then Some (ino, s)
      else let component = fst (next_component DISKFS_MAX_FILENAME p); rest = snd (next_component DISKFS_MAX_FILENAME p) in
        if component = [] then disk_walk junk ino rest s
        else case diskfs_lookup junk (of_int ino) component s of
          None \<Rightarrow> None
        | Some (ino, s) \<Rightarrow> if ino < 0 then Some (-1, s) else disk_walk junk ino rest s)"
  by pat_completeness auto
termination
  by (relation "measure (\<lambda>(junk, ino, p, s). length p)") (simp_all add: next_component_shorter)

declare disk_walk.simps [simp del]

definition resolve_to_diskfs_inode ::
    "(u32 \<Rightarrow> dirent) \<Rightarrow> string \<Rightarrow> 'a fs_state_scheme \<Rightarrow> (int \<times> 'a fs_state_scheme) option" where
  "resolve_to_diskfs_inode junk path s =
     (if \<not> disk_enabled s then Some (-1, s)
      else if path = ''/'' then Some (0, s)
      else let buf = take (FS_MAX_PATH - 1) path in
        if buf = [] \<or> hd buf \<noteq> CHR ''/'' then Some (-1, s) else disk_walk junk 0 (strip_slash buf) s)"

section \<open>Operations\<close>

definition fs_init :: "'a fs_state_scheme \<Rightarrow> 'a fs_state_scheme" where
  "fs_init s = s\<lparr>fs_nodes := (zero_node\<lparr>fused := True, ftype := FS_TYPE_DIR, fname := ''/''\<rparr>) # replicate (FS_MAX_FILES - 1) zero_node,
     cwd_idx := 0, cwd := ''/'', disk_enabled := False\<rparr>"

text \<open>The in-memory part that creating files and directories share; a file's data is cleared.\<close>

definition add_node :: "u8 \<Rightarrow> string \<Rightarrow> 'a fs_state_scheme \<Rightarrow> int \<times> 'a fs_state_scheme" where
  "add_node typ path s =
     (case resolve_path path s of
        Inl e \<Rightarrow> (e, s)
      | Inr (parent, basename) \<Rightarrow>
          if basename = [] then (FS_ERR_INVALID, s)
          else if find_node_in_dir (fs_nodes s) parent basename \<ge> 0 then (FS_ERR_EXISTS, s)
          else let idx = find_free_node (fs_nodes s) in
            if idx < 0 then (FS_ERR_FULL, s)
            else let n = fs_nodes s ! nat idx;
                     n' = n\<lparr>fused := True, ftype := typ, fname := take (FS_MAX_NAME - 1) basename, parent_idx := parent, fsize := 0,
                            fdata := (if typ = FS_TYPE_FILE then replicate 4096 0 else fdata n)\<rparr>
                 in (FS_ERR_OK, s\<lparr>fs_nodes := (fs_nodes s)[nat idx := n']\<rparr>))"

definition fs_create_file ::
    "(u32 \<Rightarrow> dirent) \<Rightarrow> string \<Rightarrow> 'a fs_state_scheme \<Rightarrow> (int \<times> 'a fs_state_scheme) option" where
  "fs_create_file junk path s =
     (if disk_enabled s then
        let parent_path = (if CHR ''/'' \<notin> set path \<or> dir_part path = [] then ''/'' else dir_part path);
            basename = take (DISKFS_MAX_FILENAME - 1) (name_part path)
        in if length parent_path \<ge> FS_MAX_PATH then None
           else do {
             (parent_ino, s) \<leftarrow> resolve_to_diskfs_inode junk parent_path s;
             if parent_ino < 0 then Some (FS_ERR_NOT_FOUND, s)
             else do {
               (ino, s) \<leftarrow> diskfs_create junk (of_int parent_ino) basename DISKFS_TYPE_FILE s;
               Some (if ino \<ge> 0 then FS_ERR_OK else FS_ERR_FULL, s)
             }
           }
      else Some (add_node FS_TYPE_FILE path s))"

definition fs_create_dir :: "string \<Rightarrow> 'a fs_state_scheme \<Rightarrow> int \<times> 'a fs_state_scheme" where
  "fs_create_dir path s = add_node FS_TYPE_DIR path s"

definition fs_remove :: "string \<Rightarrow> 'a fs_state_scheme \<Rightarrow> int \<times> 'a fs_state_scheme" where
  "fs_remove path s =
     (let idx = resolve_full_path path s in
      if idx < 0 then (FS_ERR_NOT_FOUND, s)
      else if idx = 0 then (FS_ERR_INVALID, s)
      else if ftype (fs_nodes s ! nat idx) = FS_TYPE_DIR \<and> first_node (\<lambda>n. fused n \<and> parent_idx n = of_int idx) (fs_nodes s) \<ge> 0
      then (FS_ERR_NOT_EMPTY, s)
      else (FS_ERR_OK, s\<lparr>fs_nodes := (fs_nodes s)[nat idx := zero_node]\<rparr>))"

text \<open>Reading returns the result and the bytes stored in the caller's buffer.\<close>

definition fs_read ::
    "(u32 \<Rightarrow> dirent) \<Rightarrow> string \<Rightarrow> u32 \<Rightarrow> 'a fs_state_scheme \<Rightarrow> (int \<times> u8 list \<times> 'a fs_state_scheme) option" where
  "fs_read junk path sz s =
     (if disk_enabled s then do {
        (ino, s) \<leftarrow> resolve_to_diskfs_inode junk path s;
        if ino < 0 then Some (FS_ERR_NOT_FOUND, [], s) else diskfs_read (of_int ino) 0 sz s
      }
      else let idx = resolve_full_path path s in
        if idx < 0 then Some (FS_ERR_NOT_FOUND, [], s)
        else let n = fs_nodes s ! nat idx in
          if ftype n \<noteq> FS_TYPE_FILE then Some (FS_ERR_IS_DIR, [], s)
          else let to_read = (if sz < fsize n then sz else fsize n) in
            Some (sint to_read, take (unat to_read) (fdata n), s))"

definition fs_write ::
    "(u32 \<Rightarrow> dirent) \<Rightarrow> string \<Rightarrow> u8 list \<Rightarrow> u32 \<Rightarrow> 'a fs_state_scheme \<Rightarrow> (int \<times> 'a fs_state_scheme) option" where
  "fs_write junk path bytes sz s =
     (if disk_enabled s then do {
        (ino, s) \<leftarrow> resolve_to_diskfs_inode junk path s;
        if ino < 0 then Some (FS_ERR_NOT_FOUND, s)
        else do { (ret, s) \<leftarrow> diskfs_write (of_int ino) bytes 0 sz s; Some (ret, snd (diskfs_sync s)) }
      }
      else let idx = resolve_full_path path s in
        if idx < 0 then Some (FS_ERR_NOT_FOUND, s)
        else let n = fs_nodes s ! nat idx in
          if ftype n \<noteq> FS_TYPE_FILE then Some (FS_ERR_IS_DIR, s)
          else let sz = (if sz > FS_MAX_FILE_SIZE then FS_MAX_FILE_SIZE else sz);
                   n' = n\<lparr>fdata := splice 0 (take (unat sz) bytes) (fdata n), fsize := sz\<rparr>
               in Some (sint sz, s\<lparr>fs_nodes := (fs_nodes s)[nat idx := n']\<rparr>))"

definition fs_append :: "string \<Rightarrow> u8 list \<Rightarrow> u32 \<Rightarrow> 'a fs_state_scheme \<Rightarrow> int \<times> 'a fs_state_scheme" where
  "fs_append path bytes sz s =
     (let idx = resolve_full_path path s in
      if idx < 0 then (FS_ERR_NOT_FOUND, s)
      else let n = fs_nodes s ! nat idx in
        if ftype n \<noteq> FS_TYPE_FILE then (FS_ERR_IS_DIR, s)
        else let available = FS_MAX_FILE_SIZE - fsize n;
                 sz = (if sz > available then available else sz);
                 n' = n\<lparr>fdata := splice (unat (fsize n)) (take (unat sz) bytes) (fdata n), fsize := fsize n + sz\<rparr>
             in (sint sz, s\<lparr>fs_nodes := (fs_nodes s)[nat idx := n']\<rparr>))"

text \<open>
  The listing of a directory: the text in the buffer so far is \<open>out\<close>. Every store to an index outside
  the buffer of \<open>sz\<close> bytes is \<^term>\<open>None\<close>; the last store of an entry is the terminating zero.
\<close>

definition entry_text :: "fs_node \<Rightarrow> string" where
  "entry_text n = (if ftype n = FS_TYPE_DIR then ''['' @ fname n @ '']'' else fname n) @ [CHR 0x0A]"

primrec list_loop :: "int \<Rightarrow> u32 \<Rightarrow> fs_node list \<Rightarrow> nat list \<Rightarrow> string \<Rightarrow> string option" where
  "list_loop idx sz nodes [] out = Some out"
| "list_loop idx sz nodes (i # is) out =
     (let n = nodes ! i in
      if fused n \<and> parent_idx n = of_int idx \<and> int i \<noteq> idx then
        let entry_len = of_nat (length (fname n)) + 2 in
        if of_nat (length out) + entry_len \<ge> sz then Some out
        else let out' = out @ entry_text n in
          if length out' \<ge> unat sz then None else list_loop idx sz nodes is out'
      else list_loop idx sz nodes is out)"

definition fs_list_dir :: "string \<Rightarrow> u32 \<Rightarrow> 'a fs_state_scheme \<Rightarrow> (int \<times> string) option" where
  "fs_list_dir path sz s =
     (let idx = (if path = [] \<or> path = ''.'' then uint (cwd_idx s) else resolve_full_path path s) in
      if idx < 0 then Some (FS_ERR_NOT_FOUND, [])
      else if ftype (fs_nodes s ! nat idx) \<noteq> FS_TYPE_DIR then Some (FS_ERR_NOT_DIR, [])
      else if sz = 0 then None
      else do { out \<leftarrow> list_loop idx sz (fs_nodes s) [0..<FS_MAX_FILES] []; Some (int (length out), out) })"

text \<open>The names from a node up to the root, at most eight of them.\<close>

primrec up_parts :: "nat \<Rightarrow> fs_node list \<Rightarrow> u32 \<Rightarrow> string list" where
  "up_parts 0 nodes current = []"
| "up_parts (Suc d) nodes current =
     (if current = 0 then []
      else take (FS_MAX_NAME - 1) (fname (nodes ! unat current)) # up_parts d nodes (parent_idx (nodes ! unat current)))"

definition cwd_text :: "string list \<Rightarrow> string" where
  "cwd_text parts = concat (map (\<lambda>p. CHR ''/'' # p) (rev parts))"

definition fs_change_dir :: "string \<Rightarrow> 'a fs_state_scheme \<Rightarrow> (int \<times> 'a fs_state_scheme) option" where
  "fs_change_dir path s =
     (if path = [] then Some (FS_ERR_OK, s\<lparr>cwd_idx := 0, cwd := ''/''\<rparr>)
      else let idx = resolve_full_path path s in
        if idx < 0 then Some (FS_ERR_NOT_FOUND, s)
        else if ftype (fs_nodes s ! nat idx) \<noteq> FS_TYPE_DIR then Some (FS_ERR_NOT_DIR, s)
        else if idx = 0 then Some (FS_ERR_OK, s\<lparr>cwd_idx := 0, cwd := ''/''\<rparr>)
        else let new = cwd_text (up_parts FS_MAX_PATH_DEPTH (fs_nodes s) (of_int idx)) in
          if length new \<ge> FS_MAX_PATH then None
          else Some (FS_ERR_OK, s\<lparr>cwd_idx := of_int idx, cwd := new\<rparr>))"

definition fs_get_cwd :: "'a fs_state_scheme \<Rightarrow> string" where
  "fs_get_cwd s = cwd s"

definition fs_exists :: "string \<Rightarrow> 'a fs_state_scheme \<Rightarrow> bool" where
  "fs_exists path s \<longleftrightarrow> resolve_full_path path s \<ge> 0"

definition fs_is_dir :: "string \<Rightarrow> 'a fs_state_scheme \<Rightarrow> bool" where
  "fs_is_dir path s =
     (let idx = resolve_full_path path s in if idx < 0 then False else ftype (fs_nodes s ! nat idx) = FS_TYPE_DIR)"

definition fs_get_size :: "string \<Rightarrow> 'a fs_state_scheme \<Rightarrow> u32" where
  "fs_get_size path s =
     (let idx = resolve_full_path path s in if idx < 0 then 0 else fsize (fs_nodes s ! nat idx))"

definition fs_clear_cache :: "'a fs_state_scheme \<Rightarrow> 'a fs_state_scheme" where
  "fs_clear_cache s = s\<lparr>fs_nodes := fs_nodes s ! 0 # replicate (FS_MAX_FILES - 1) zero_node, cwd_idx := 0, cwd := ''/''\<rparr>"

text \<open>Copying the nodes in memory to the root directory of the disk.\<close>

primrec copy_nodes ::
    "(u32 \<Rightarrow> dirent) \<Rightarrow> nat list \<Rightarrow> 'a fs_state_scheme \<Rightarrow> 'a fs_state_scheme option" where
  "copy_nodes junk [] s = Some s"
| "copy_nodes junk (i # is) s =
     (let n = fs_nodes s ! i in
      if \<not> fused n then copy_nodes junk is s
      else do {
        (ino, s) \<leftarrow> diskfs_create junk 0 (fname n) (if ftype n = FS_TYPE_FILE then DISKFS_TYPE_FILE else DISKFS_TYPE_DIR) s;
        s \<leftarrow> (if ino \<ge> 0 \<and> ftype n = FS_TYPE_FILE
              then map_option snd (diskfs_write (of_int ino) (fdata n) 0 (fsize n) s) else Some s);
        copy_nodes junk is s
      })"

definition fs_enable_disk ::
    "(u32 \<Rightarrow> dirent) \<Rightarrow> u8 \<Rightarrow> 'a fs_state_scheme \<Rightarrow> (int \<times> 'a fs_state_scheme) option" where
  "fs_enable_disk junk drive s =
     do {
       (ret, s) \<leftarrow> diskfs_init drive s;
       if ret = 0
       then do { s \<leftarrow> copy_nodes junk [1..<FS_MAX_FILES] (s\<lparr>disk_enabled := True\<rparr>); Some (ret, snd (diskfs_sync s)) }
       else Some (ret, s)
     }"

definition fs_sync :: "'a fs_state_scheme \<Rightarrow> int \<times> 'a fs_state_scheme" where
  "fs_sync s = (if disk_enabled s then diskfs_sync s else (0, s))"

definition fs_is_disk_enabled :: "'a fs_state_scheme \<Rightarrow> bool" where
  "fs_is_disk_enabled s = disk_enabled s"

end
