(* ===== verification/Elf.thy ===== *)
theory Elf
  imports Spaces Fs
begin

text \<open>
  \<^verbatim>\<open>kernel/core/elf.c\<close>: the loader of 32-bit ELF executables. The file lies in memory at the address \<open>data\<close>, and all
  its headers are read there, field by field, through the memory as the processor sees it; the segments are
  copied to their virtual addresses in the same way. \<^term>\<open>None\<close> is a page fault in kernel mode. The
  structure for the results is a value that is passed along. Log calls are left out.
\<close>

section \<open>Headers\<close>

definition ELF_MAGIC0 :: u8 where "ELF_MAGIC0 = 0x7F"
definition ELF_MAGIC1 :: u8 where "ELF_MAGIC1 = 0x45"
definition ELF_MAGIC2 :: u8 where "ELF_MAGIC2 = 0x4C"
definition ELF_MAGIC3 :: u8 where "ELF_MAGIC3 = 0x46"
definition ELFCLASS32 :: u8 where "ELFCLASS32 = 1"
definition ELFDATA2LSB :: u8 where "ELFDATA2LSB = 1"
definition ET_EXEC :: u16 where "ET_EXEC = 2"
definition EM_386 :: u16 where "EM_386 = 3"
definition PT_LOAD :: u32 where "PT_LOAD = 1"
definition PF_W :: u32 where "PF_W = 2"

text \<open>The fields of \<^verbatim>\<open>struct elf32_header\<close> and of \<^verbatim>\<open>struct elf32_phdr\<close> that the loader reads, and the sizes of both.\<close>

definition e_ident :: "u32 \<Rightarrow> u32 \<Rightarrow> 'a vmm_state_scheme \<Rightarrow> u8 option" where "e_ident h i s = vload8 (h + i) s"
definition e_type :: "u32 \<Rightarrow> 'a vmm_state_scheme \<Rightarrow> u16 option" where "e_type h s = vload16 (h + 16) s"
definition e_machine :: "u32 \<Rightarrow> 'a vmm_state_scheme \<Rightarrow> u16 option" where "e_machine h s = vload16 (h + 18) s"
definition e_entry :: "u32 \<Rightarrow> 'a vmm_state_scheme \<Rightarrow> u32 option" where "e_entry h s = vload32 (h + 24) s"
definition e_phoff :: "u32 \<Rightarrow> 'a vmm_state_scheme \<Rightarrow> u32 option" where "e_phoff h s = vload32 (h + 28) s"
definition e_phnum :: "u32 \<Rightarrow> 'a vmm_state_scheme \<Rightarrow> u16 option" where "e_phnum h s = vload16 (h + 44) s"
definition sizeof_header :: u32 where "sizeof_header = 52"

definition p_type :: "u32 \<Rightarrow> 'a vmm_state_scheme \<Rightarrow> u32 option" where "p_type ph s = vload32 ph s"
definition p_offset :: "u32 \<Rightarrow> 'a vmm_state_scheme \<Rightarrow> u32 option" where "p_offset ph s = vload32 (ph + 4) s"
definition p_vaddr :: "u32 \<Rightarrow> 'a vmm_state_scheme \<Rightarrow> u32 option" where "p_vaddr ph s = vload32 (ph + 8) s"
definition p_filesz :: "u32 \<Rightarrow> 'a vmm_state_scheme \<Rightarrow> u32 option" where "p_filesz ph s = vload32 (ph + 16) s"
definition p_memsz :: "u32 \<Rightarrow> 'a vmm_state_scheme \<Rightarrow> u32 option" where "p_memsz ph s = vload32 (ph + 20) s"
definition p_flags :: "u32 \<Rightarrow> 'a vmm_state_scheme \<Rightarrow> u32 option" where "p_flags ph s = vload32 (ph + 24) s"
definition sizeof_phdr :: u32 where "sizeof_phdr = 32"

record elf_load_result =
  entry_point :: u32
  brk :: u32

definition elf_validate :: "u32 \<Rightarrow> 'a vmm_state_scheme \<Rightarrow> int option" where
  "elf_validate header s =
     (if header = 0 then Some (-1)
      else do {
        m0 \<leftarrow> e_ident header 0 s;
        if m0 \<noteq> ELF_MAGIC0 then Some (-1) else do {
        m1 \<leftarrow> e_ident header 1 s;
        if m1 \<noteq> ELF_MAGIC1 then Some (-1) else do {
        m2 \<leftarrow> e_ident header 2 s;
        if m2 \<noteq> ELF_MAGIC2 then Some (-1) else do {
        m3 \<leftarrow> e_ident header 3 s;
        if m3 \<noteq> ELF_MAGIC3 then Some (-1) else do {
        cl \<leftarrow> e_ident header 4 s;
        if cl \<noteq> ELFCLASS32 then Some (-1) else do {
        en \<leftarrow> e_ident header 5 s;
        if en \<noteq> ELFDATA2LSB then Some (-1) else do {
        ty \<leftarrow> e_type header s;
        if ty \<noteq> ET_EXEC then Some (-1) else do {
        mc \<leftarrow> e_machine header s;
        if mc \<noteq> EM_386 then Some (-1) else Some 0 } } } } } } } })"

section \<open>Segments\<close>

text \<open>The addresses that the loop over the pages of a segment runs through.\<close>

definition segment_pages :: "u32 \<Rightarrow> u32 \<Rightarrow> u32 list" where
  "segment_pages vaddr vaddr_end = map (\<lambda>i. vaddr + of_nat i * PAGE_SIZE) [0..<(unat vaddr_end - unat vaddr + 4095) div 4096]"

primrec map_pages :: "u32 \<Rightarrow> u32 \<Rightarrow> u32 list \<Rightarrow> 'a vmm_state_scheme \<Rightarrow> bool \<times> 'a vmm_state_scheme" where
  "map_pages page_dir flags [] s = (True, s)"
| "map_pages page_dir flags (page # pages) s =
     (if \<not> vmm_is_mapped page_dir page s
      then let (r, s) = vmm_alloc_page page_dir page flags s in
           if r \<noteq> 0 then (False, s) else map_pages page_dir flags pages s
      else map_pages page_dir flags pages s)"

text \<open>\<open>False\<close>: the segment does not lie inside the file.\<close>

definition copy_segment :: "u32 \<Rightarrow> u32 \<Rightarrow> u32 \<Rightarrow> 'a vmm_state_scheme \<Rightarrow> (bool \<times> 'a vmm_state_scheme) option" where
  "copy_segment data dsize ph s =
     do {
       fsz \<leftarrow> p_filesz ph s;
       if fsz > 0
       then do {
         off \<leftarrow> p_offset ph s;
         if off + fsz > dsize then Some (False, s)
         else do { va \<leftarrow> p_vaddr ph s; s \<leftarrow> vmemcpy va (data + off) (unat fsz) s; Some (True, s) }
       }
       else Some (True, s)
     }"

definition clear_bss :: "u32 \<Rightarrow> 'a vmm_state_scheme \<Rightarrow> 'a vmm_state_scheme option" where
  "clear_bss ph s =
     do {
       msz \<leftarrow> p_memsz ph s; fsz \<leftarrow> p_filesz ph s;
       if msz > fsz then do { va \<leftarrow> p_vaddr ph s; vmemset (va + fsz) 0 (unat (msz - fsz)) s } else Some s
     }"

text \<open>The body of the loop over the program headers; \<open>False\<close> when it returns from the loader with an error.\<close>

definition load_segment ::
    "u32 \<Rightarrow> u32 \<Rightarrow> u32 \<Rightarrow> u32 \<Rightarrow> elf_load_result \<Rightarrow> 'a vmm_state_scheme \<Rightarrow> (bool \<times> elf_load_result \<times> 'a vmm_state_scheme) option" where
  "load_segment data dsize page_dir ph res s =
     do {
       ty \<leftarrow> p_type ph s;
       if ty \<noteq> PT_LOAD then Some (True, res, s) else do {
       msz \<leftarrow> p_memsz ph s;
       if msz = 0 then Some (True, res, s) else do {
       va \<leftarrow> p_vaddr ph s;
       if va \<ge> KERNEL_VIRTUAL_BASE then Some (False, res, s) else do {
       fl \<leftarrow> p_flags ph s;
       let flags = (PAGE_PRESENT OR PAGE_USER) OR (if fl AND PF_W \<noteq> 0 then PAGE_WRITE else 0);
       let (ok, s) = map_pages page_dir flags (segment_pages (page_of va) (page_of (va + msz + 0xFFF))) s;
       if \<not> ok then Some (False, res, s) else do {
       (ok, s) \<leftarrow> copy_segment data dsize ph s;
       if \<not> ok then Some (False, res, s) else do {
       s \<leftarrow> clear_bss ph s;
       va \<leftarrow> p_vaddr ph s; msz \<leftarrow> p_memsz ph s;
       let segment_end = va + msz;
       Some (True, if segment_end > brk res then res\<lparr>brk := segment_end\<rparr> else res, s) } } } } }
     }"

function segment_loop ::
    "u32 \<Rightarrow> u32 \<Rightarrow> u32 \<Rightarrow> u32 \<Rightarrow> nat \<Rightarrow> elf_load_result \<Rightarrow> 'a vmm_state_scheme \<Rightarrow> (bool \<times> elf_load_result \<times> 'a vmm_state_scheme) option" where
  "segment_loop data dsize page_dir phdrs i res s =
     (case e_phnum data s of
        None \<Rightarrow> None
      | Some n \<Rightarrow>
          if i < unat n
          then case load_segment data dsize page_dir (phdrs + of_nat i * sizeof_phdr) res s of
                 None \<Rightarrow> None
               | Some (ok, res, s) \<Rightarrow> if ok then segment_loop data dsize page_dir phdrs (Suc i) res s else Some (False, res, s)
          else Some (True, res, s))"
  by pat_completeness auto
termination
proof (relation "measure (\<lambda>(_, _, _, _, i, _, _). 65536 - i)")
  fix i n assume "i < unat (n :: u16)"
  moreover have "unat n < 65536" using unsigned_less [of n, where 'a = nat] by simp
  ultimately show "((data, dsize, page_dir, phdrs, Suc i, res, s), data, dsize, page_dir, phdrs, i, res', s')
      \<in> measure (\<lambda>(_, _, _, _, i, _, _). 65536 - i)"
    for data dsize page_dir phdrs :: u32 and res res' :: elf_load_result and s s' :: "'a vmm_state_scheme" by simp
qed simp

declare segment_loop.simps [simp del]

definition elf_load ::
    "u32 \<Rightarrow> u32 \<Rightarrow> u32 \<Rightarrow> elf_load_result \<Rightarrow> 'a vmm_state_scheme \<Rightarrow> (int \<times> elf_load_result \<times> 'a vmm_state_scheme) option" where
  "elf_load data dsize page_dir res s =
     (if data = 0 \<or> page_dir = 0 then Some (-1, res, s)
      else if dsize < sizeof_header then Some (-1, res, s)
      else do {
        r \<leftarrow> elf_validate data s;
        if r \<noteq> 0 then Some (-1, res, s)
        else do {
          off \<leftarrow> e_phoff data s; n \<leftarrow> e_phnum data s;
          if off = 0 \<or> n = 0 then Some (-1, res, s)
          else if off + ucast n * sizeof_phdr > dsize then Some (-1, res, s)
          else do {
            ent \<leftarrow> e_entry data s;
            (ok, res, s) \<leftarrow> segment_loop data dsize page_dir (data + off) 0 \<lparr>entry_point = ent, brk = 0\<rparr> s;
            if \<not> ok then Some (-1, res, s)
            else Some (0, res\<lparr>brk := page_of (brk res + 0xFFF)\<rparr>, s)
          }
        }
      })"

text \<open>
  \<open>file_buffer\<close> is the address of the static buffer; \<open>files\<close> the filesystem. What \<open>fs_read\<close> delivers is put into the
  buffer.
\<close>

definition elf_load_file ::
    "(u32 \<Rightarrow> dirent) \<Rightarrow> u32 \<Rightarrow> string option \<Rightarrow> u32 \<Rightarrow> elf_load_result \<Rightarrow> 'b fs_state_scheme \<Rightarrow> 'a vmm_state_scheme \<Rightarrow>
     (int \<times> elf_load_result \<times> 'b fs_state_scheme \<times> 'a vmm_state_scheme) option" where
  "elf_load_file junk file_buffer path page_dir res fs s =
     (case path of
        None \<Rightarrow> Some (-1, res, fs, s)
      | Some path \<Rightarrow>
          if page_dir = 0 then Some (-1, res, fs, s)
          else do {
            (bytes_read, bytes, fs) \<leftarrow> fs_read junk path (FS_MAX_FILE_SIZE) fs;
            s \<leftarrow> vstore_bytes file_buffer bytes s;
            if bytes_read < 0 then Some (-1, res, fs, s)
            else do { (r, res, s) \<leftarrow> elf_load file_buffer (of_int bytes_read) page_dir res s; Some (r, res, fs, s) }
          })"

section \<open>Rejected files\<close>

text \<open>What makes a file an executable that the loader accepts, in terms of its bytes.\<close>

definition valid_header :: "u32 \<Rightarrow> 'a vmm_state_scheme \<Rightarrow> bool" where
  "valid_header data s \<longleftrightarrow> vload_bytes data 6 s = Some [0x7F, 0x45, 0x4C, 0x46, 1, 1] \<and>
     e_type data s = Some ET_EXEC \<and> e_machine data s = Some EM_386"

lemmas elf_consts = ELF_MAGIC0_def ELF_MAGIC1_def ELF_MAGIC2_def ELF_MAGIC3_def ELFCLASS32_def ELFDATA2LSB_def

lemma elf_validate_iff: "elf_validate data s = Some 0 \<longleftrightarrow> data \<noteq> 0 \<and> valid_header data s"
proof -
  have six: "(6 :: nat) = Suc (Suc (Suc (Suc (Suc (Suc 0)))))" by simp
  show ?thesis
    unfolding elf_validate_def valid_header_def six elf_consts e_ident_def
    by (auto simp: bind_eq_Some_conv add.assoc split: if_splits)
qed


section \<open>Loading into another address space\<close>

lemma map_pages_kept:
  "space_wf s pd \<Longrightarrow> \<forall>p \<in> set pages. p < KERNEL_VIRTUAL_BASE \<Longrightarrow> map_pages pd flags pages s = (ok, s') \<Longrightarrow>
     space_wf s' pd \<and> foreign_kept pd s s'"
proof (induction pages arbitrary: s)
  case (Cons p pages)
  show ?case
  proof (cases "vmm_is_mapped pd p s")
    case True
    then show ?thesis using Cons by simp
  next
    case False
    obtain r s1 where a: "vmm_alloc_page pd p flags s = (r, s1)" by fastforce
    have k: "space_wf s1 pd \<and> foreign_kept pd s s1" by (rule alloc_page_kept [OF Cons.prems(1) _ a]) (use Cons.prems(2) in simp)
    show ?thesis
    proof (cases "r = 0")
      case True
      then have "map_pages pd flags pages s1 = (ok, s')" using Cons.prems(3) False a by simp
      then show ?thesis using Cons.IH [of s1] k Cons.prems(2) foreign_kept_trans [of pd s s1 s'] by auto
    next
      case r0: False
      then have "s' = s1" using Cons.prems(3) False a by simp
      then show ?thesis using k by simp
    qed
  qed
qed simp

text \<open>The pages of a segment that ends below the kernel.\<close>

lemma segment_pages_user:
  assumes "unat va + unat msz \<le> 0xC0000000" and "p \<in> set (segment_pages (page_of va) (page_of (va + msz + 0xFFF)))"
  shows "p < KERNEL_VIRTUAL_BASE"
proof -
  let ?e = "va + msz + 0xFFF"
  define a e where "a = page_no va" and "e = page_no ?e"
  have "unat (va + msz) = unat va + unat msz" using assms(1) by (simp add: unat_add_no_overflow)
  then have "unat ?e = unat va + unat msz + 4095" using assms(1) by (simp add: unat_add_no_overflow)
  then have eb: "e \<le> 0xC0000" using assms(1) by (simp add: e_def page_no_def)
  have u: "unat (page_of va) = 4096 * a" "unat (page_of ?e) = 4096 * e"
    using paged_unat [OF paged_page_of, of va] paged_unat [OF paged_page_of, of ?e] by (simp_all add: a_def e_def)
  have "4096 * e - 4096 * a + 4095 = 4096 * (e - a) + 4095" by (simp add: diff_mult_distrib2)
  then have cnt: "(unat (page_of ?e) - unat (page_of va) + 4095) div 4096 = e - a" unfolding u by simp
  obtain i where i: "i < e - a" "p = page_of va + of_nat i * PAGE_SIZE"
    using assms(2) unfolding segment_pages_def cnt by auto
  have ui: "unat (of_nat i * PAGE_SIZE :: u32) = 4096 * i"
  proof -
    have "(of_nat i * PAGE_SIZE :: u32) = of_nat (4096 * i)" by (simp add: PAGE_SIZE_def mult.commute)
    moreover have "unat (of_nat (4096 * i) :: u32) = 4096 * i" by (rule unat_of_nat_small) (use i eb in simp)
    ultimately show ?thesis by simp
  qed
  have "a + i < 0xC0000" using i(1) eb by linarith
  moreover have "unat p = 4096 * a + 4096 * i"
    unfolding i(2) by (subst unat_add_no_overflow) (use u ui \<open>a + i < 0xC0000\<close> in simp_all)
  ultimately show ?thesis by (simp add: KERNEL_VIRTUAL_BASE_def word_less_nat_alt)
qed

text \<open>The file lies in memory that the loader does not give away.\<close>

definition file_at :: "'a vmm_state_scheme \<Rightarrow> u32 \<Rightarrow> u32 \<Rightarrow> u32 \<Rightarrow> bool" where
  "file_at s pd data dsize \<longleftrightarrow> (\<forall>i < unat dsize. \<exists>p. virt s (data + of_nat i) = Some p \<and> foreign s pd (page_of p))"

lemma file_kept:
  assumes "apart s pd other" and "paging s" and "cr3 s = other" and "foreign_kept pd s s'" and "file_at s pd data dsize"
    and "i + 4 \<le> unat dsize"
  shows "vload32 (data + of_nat i) s' = vload32 (data + of_nat i) s"
proof -
  have b: "vload8 (data + of_nat k) s' = vload8 (data + of_nat k) s" if "k < unat dsize" for k
    using kept_virt(2) [OF assms(1-4)] assms(5) that unfolding file_at_def by blast
  have "data + of_nat i + 1 = data + of_nat (i + 1)" "data + of_nat i + 2 = data + of_nat (i + 2)"
    "data + of_nat i + 3 = data + of_nat (i + 3)" by simp_all
  then show ?thesis using b [of i] b [of "i + 1"] b [of "i + 2"] b [of "i + 3"] assms(6) by (simp only: vload32_def)
qed

text \<open>
  The loadable segment that a program header describes: inside the file, and below the kernel.
\<close>

definition segment_ok :: "'a vmm_state_scheme \<Rightarrow> u32 \<Rightarrow> u32 \<Rightarrow> u32 \<Rightarrow> u32 \<Rightarrow> u32 \<Rightarrow> u32 \<Rightarrow> u32 \<Rightarrow> bool" where
  "segment_ok s ph dsize va off fsz msz fl \<longleftrightarrow>
     p_type ph s = Some PT_LOAD \<and> p_vaddr ph s = Some va \<and> p_offset ph s = Some off \<and> p_filesz ph s = Some fsz \<and>
     p_memsz ph s = Some msz \<and> p_flags ph s = Some fl \<and> 0 < fsz \<and> fsz \<le> msz \<and> off + fsz \<le> dsize \<and>
     unat va + unat msz \<le> 0xC0000000"

definition segment_flags :: "u32 \<Rightarrow> u32" where
  "segment_flags fl = (PAGE_PRESENT OR PAGE_USER) OR (if fl AND PF_W \<noteq> 0 then PAGE_WRITE else 0)"

text \<open>
  C31: The segments are not copied into the address space they are loaded into but into the one in use: when a new
  space is filled while the processor uses another one, in which the address of the first segment is not
  mapped, the loader gives pages to the new space (or returns -1 when there are none left) and then causes
  a page fault in the kernel.
\<close>

theorem elf_load_faults:
  assumes wf: "space_wf s pd" and ap: "apart s pd other" and pg: "paging s" "cr3 s = other" and fa: "file_at s pd data dsize"
    and hd: "data \<noteq> 0" "sizeof_header \<le> dsize" "valid_header data s" "e_entry data s = Some ent"
    and ph: "e_phoff data s = Some off" "e_phnum data s = Some n" "off \<noteq> 0" "n \<noteq> 0" "unat off + 32 * unat n \<le> unat dsize"
    and seg: "segment_ok s (data + off) dsize va po fsz msz fl" and hole: "virt s va = None"
  shows "elf_load data dsize pd res s =
    (case map_pages pd (segment_flags fl) (segment_pages (page_of va) (page_of (va + msz + 0xFFF))) s of
       (ok, s') \<Rightarrow> if ok then None else Some (-1, \<lparr>entry_point = ent, brk = 0\<rparr>, s'))"
proof -
  let ?pages = "segment_pages (page_of va) (page_of (va + msz + 0xFFF))" and ?ph = "data + off"
  obtain ok s1 where mp: "map_pages pd (segment_flags fl) ?pages s = (ok, s1)" by fastforce
  have user: "\<forall>p \<in> set ?pages. p < KERNEL_VIRTUAL_BASE" using segment_pages_user seg by (auto simp: segment_ok_def)
  have k: "space_wf s1 pd" "foreign_kept pd s s1" using map_pages_kept [OF wf user mp] by simp_all
  have v1: "virt s1 va = None" using kept_virt(1) [OF ap pg k(2)] hole by simp
  have n1: "32 \<le> 32 * unat n" using ph(4) by (simp add: Suc_le_eq unat_gt_0)
  have field: "vload32 (?ph + of_nat j) s1 = vload32 (?ph + of_nat j) s" if "j + 4 \<le> 32" for j
    using file_kept [OF ap pg k(2) fa, of "unat off + j"] that ph(5) n1 by (simp add: add.assoc)
  have "p_filesz ?ph s1 = Some fsz" "p_offset ?ph s1 = Some po" "p_vaddr ?ph s1 = Some va"
    using seg field [of 16] field [of 4] field [of 8] by (simp_all add: segment_ok_def p_filesz_def p_offset_def p_vaddr_def)
  moreover obtain m where m: "unat fsz = Suc m"
  proof -
    have "0 < unat fsz" using seg by (simp add: segment_ok_def word_less_nat_alt)
    then show thesis using that gr0_implies_Suc by blast
  qed
  have "vmemcpy va (data + po) (unat fsz) s1 = None"
    unfolding m by (cases "vload8 (data + po) s1") (simp_all add: vstore8_def v1)
  ultimately have cp: "copy_segment data dsize ?ph s1 = None"
    using seg by (simp add: copy_segment_def segment_ok_def not_less)
  have va: "\<not> va \<ge> KERNEL_VIRTUAL_BASE"
  proof -
    have "0 < unat msz" using seg by (auto simp: segment_ok_def word_less_nat_alt word_le_nat_alt)
    then show ?thesis using seg by (auto simp: segment_ok_def KERNEL_VIRTUAL_BASE_def word_le_nat_alt)
  qed
  have msz: "msz \<noteq> 0" using seg by (auto simp: segment_ok_def)
  have ls: "load_segment data dsize pd ?ph \<lparr>entry_point = ent, brk = 0\<rparr> s =
      (if ok then None else Some (False, \<lparr>entry_point = ent, brk = 0\<rparr>, s1))"
    using seg va msz mp cp by (simp add: load_segment_def segment_ok_def segment_flags_def [symmetric])
  have lp: "segment_loop data dsize pd ?ph 0 \<lparr>entry_point = ent, brk = 0\<rparr> s =
      (if ok then None else Some (False, \<lparr>entry_point = ent, brk = 0\<rparr>, s1))"
    using ph(2,4) ls by (subst segment_loop.simps) (simp add: unat_gt_0)
  have small: "unat off + 32 * unat n < 2 ^ 32" using ph(5) unsigned_less [of dsize, where 'a = nat] by simp
  have "unat (ucast n * sizeof_phdr :: u32) = 32 * unat n"
    using small by (simp add: sizeof_phdr_def unat_word_ariths unsigned_ucast_eq take_bit_eq_mod)
  then have "unat (off + ucast n * sizeof_phdr) = unat off + 32 * unat n" using small by (simp add: unat_add_no_overflow)
  then have tab: "\<not> off + ucast n * sizeof_phdr > dsize" using ph(5) by (simp add: word_less_nat_alt)
  have "pd \<noteq> 0" using wf by (simp add: space_wf_def frame_def)
  moreover have "elf_validate data s = Some 0" using elf_validate_iff hd by blast
  ultimately show ?thesis
    using hd(1,2,4) ph tab lp mp by (auto simp: elf_load_def not_less)
qed

section \<open>Example\<close>

text \<open>
  A file of 84 bytes with one segment at \<open>0x08048000\<close>, the address at which user programs are linked, in the page at
  \<open>0x6000\<close>; the space in use maps that page to itself and nothing else.
\<close>

definition elf_image :: "u8 list" where
  "elf_image =
    [0x7F, 0x45, 0x4C, 0x46, 1, 1, 0, 0, 0, 0, 0, 0, 0, 0, 0, 0,  2, 0,  3, 0,  1, 0, 0, 0,  0, 0x80, 4, 8,
     52, 0, 0, 0,  0, 0, 0, 0,  0, 0, 0, 0,  52, 0,  32, 0,  1, 0,  0, 0,  0, 0,  0, 0,
     1, 0, 0, 0,  0, 0, 0, 0,  0, 0x80, 4, 8,  0, 0, 0, 0,  84, 0, 0, 0,  84, 0, 0, 0,  5, 0, 0, 0,  0, 0x10, 0, 0]"

definition elf_space :: vmm_state where
  "elf_space = set_entry 0x4000 6 0x6003 (set_entry 0x3000 0 0x4003 vmm_demo)"

definition elf_demo :: vmm_state where
  "elf_demo = elf_space\<lparr>kmem := (\<lambda>x. if page_no x = 6 then (elf_image @ replicate 4012 0) ! (unat x - 0x6000) else kmem elf_space x),
     cr0 := 0x80000000, cr3 := 0x3000\<rparr>"

lemma demo_pages: "paged 0x2000" "paged 0x3000" "paged 0x4000" "paged 0x6000"
  "page_no 0x2000 = 2" "page_no 0x3000 = 3" "page_no 0x4000 = 4" "page_no 0x6000 = 6"
  "page_of 0x4003 = 0x4000" "page_of 0x6003 = 0x6000" "page_of 0x2000 = 0x2000" "page_of 0x3000 = 0x3000"
  by (simp_all add: paged_def page_of_def page_no_def)

lemma demo_frame: "frame vmm_demo 0x3000" "frame vmm_demo 0x4000" "frame vmm_demo 0x6000"
  using pmm_demo_test [of 3] pmm_demo_test [of 4] pmm_demo_test [of 6] demo_pages
  by (simp_all add: frame_def vmm_demo_clear vmm_demo_pmm vmm_demo_test)

lemma elf_space_wf: "space_wf elf_space 0x2000" "frame elf_space q = frame vmm_demo q"
proof -
  let ?s1 = "set_entry 0x3000 0 0x4003 vmm_demo"
  have w1: "writes_page vmm_demo ?s1 0x3000" by (rule writes_page_set_entry) (simp_all add: demo_pages)
  have w2: "writes_page ?s1 elf_space 0x4000" unfolding elf_space_def by (rule writes_page_set_entry) (simp_all add: demo_pages)
  have wf1: "space_wf ?s1 0x2000" by (rule space_wf_write(1) [OF vmm_demo_wf w1 demo_frame(1)]) simp
  have f1: "frame ?s1 q = frame vmm_demo q" for q
    using writes_page_bitmap(3) [OF w1 demo_frame(1)] vmm_demo_wf by (simp add: space_wf_def)
  then have f4: "frame ?s1 0x4000" using demo_frame by simp
  show "space_wf elf_space 0x2000" by (rule space_wf_write(1) [OF wf1 w2 f4]) simp
  show "frame elf_space q = frame vmm_demo q" using writes_page_bitmap(3) [OF w2 f4] wf1 f1 by (simp add: space_wf_def)
qed

lemma elf_demo_writes: "writes_page elf_space (elf_space\<lparr>kmem := kmem elf_demo\<rparr>) 0x6000"
  by (simp add: writes_page_def elf_demo_def same_page_def demo_pages)

lemma elf_demo_entry:
  assumes "paged p" and "page_no p \<noteq> 6" and "unat i < 1024"
  shows "entry elf_demo p i = entry elf_space p i"
  by (rule entry_same_page) (use assms in \<open>simp_all add: elf_demo_def same_page_def\<close>)

lemma elf_space_entry:
  assumes "paged p" and "page_no p \<noteq> 1" and "unat i < 1024"
  shows "entry elf_space p i = (if p = 0x4000 \<and> i = 6 then 0x6003 else if p = 0x3000 \<and> i = 0 then 0x4003 else 0)"
  unfolding elf_space_def
  using assms by (auto simp: entry_set_entry demo_pages demo_zero)

lemma elf_demo_wf: "space_wf elf_demo 0x2000" "frame elf_demo q = frame vmm_demo q"
proof -
  let ?s = "elf_space\<lparr>kmem := kmem elf_demo\<rparr>"
  have f6: "frame elf_space 0x6000" using elf_space_wf(2) demo_frame by simp
  have "space_wf ?s 0x2000" by (rule space_wf_write(1) [OF elf_space_wf(1) elf_demo_writes f6]) simp
  then show "space_wf elf_demo 0x2000" using space_fields(2) [of elf_demo ?s "0x2000"] by (simp add: elf_demo_def)
  have "frame ?s q = frame elf_space q" using writes_page_bitmap(3) [OF elf_demo_writes f6] elf_space_wf(1) by (simp add: space_wf_def)
  then show "frame elf_demo q = frame vmm_demo q"
    using elf_space_wf(2) by (simp add: frame_def bitmap_test_def bitmap_word_def bitmap_clear_def elf_demo_def)
qed

lemma and_not_or: "(a AND NOT m) OR (a AND m) = a" for a m :: u32
  by (rule bit_word_eqI) (auto simp: bit_simps)

lemma elf_demo_virt: "page_no a = 6 \<Longrightarrow> virt elf_demo a = Some a" "virt elf_demo 0x8048000 = None"
proof -
  have pg: "paging elf_demo" "page_of (cr3 elf_demo) = 0x3000" by (simp_all add: paging_def elf_demo_def demo_pages)
  have e: "entry elf_demo 0x3000 i = (if i = 0 then 0x4003 else 0)" if "unat i < 1024" for i
    using that by (simp add: elf_demo_entry elf_space_entry demo_pages)
  have t: "entry elf_demo 0x4000 6 = 0x6003" by (simp add: elf_demo_entry elf_space_entry demo_pages)
  have pr: "present 0x4003" "present 0x6003" by (simp_all add: present_def PAGE_PRESENT_def)
  show "virt elf_demo a = Some a" if a: "page_no a = 6"
  proof -
    have "unat (page_directory_index a) = unat (0 :: u32)" "unat (page_table_index a) = unat (6 :: u32)"
      using index_unat(1,2) [of a] a by simp_all
    then have "page_directory_index a = 0" "page_table_index a = 6" using unat_word_inj by blast+
    moreover have "page_of a = 0x6000" using paged_eq [of "page_of a" "0x6000"] a demo_pages by simp
    then have "0x6000 OR (a AND 0xFFF) = a" using and_not_or [of a "0xFFF"] by (simp add: page_of_def)
    ultimately show ?thesis using pg e [of 0] t pr demo_pages by (simp add: virt_def Let_def)
  qed
  have "page_directory_index 0x8048000 \<noteq> 0" by (simp add: page_directory_index_def)
  then show "virt elf_demo 0x8048000 = None"
    using pg e [OF index_unat(3), of "0x8048000"] by (simp add: virt_def Let_def)
qed

lemma elf_demo_foreign: "frame vmm_demo q \<Longrightarrow> q \<noteq> 0x2000 \<Longrightarrow> foreign elf_demo 0x2000 q"
  unfolding foreign_def elf_demo_wf(2) by (auto simp: elf_demo_entry elf_space_entry demo_pages)

lemma elf_demo_apart: "apart elf_demo 0x2000 0x3000"
  using elf_demo_foreign [of "0x3000"] elf_demo_foreign [of "0x4000"] demo_frame
  by (auto simp: apart_def elf_demo_entry elf_space_entry demo_pages)

lemma elf_demo_addr: "i < 84 \<Longrightarrow> unat (0x6000 + of_nat i :: u32) = 0x6000 + i"
  by (simp add: unat_add_no_overflow unat_of_nat_small)

lemma elf_demo_byte: "i < 84 \<Longrightarrow> vload8 (0x6000 + of_nat i) elf_demo = Some (elf_image ! i)"
proof -
  assume i: "i < 84"
  have len: "length elf_image = 84" by (simp add: elf_image_def)
  have pn: "page_no (0x6000 + of_nat i) = 6" using elf_demo_addr [OF i] i by (simp add: page_no_def)
  have "kmem elf_demo (0x6000 + of_nat i) = (elf_image @ replicate 4012 0) ! i"
    using pn elf_demo_addr [OF i] by (simp add: elf_demo_def)
  then show ?thesis using elf_demo_virt(1) [OF pn] i len by (simp add: vload8_def nth_append)
qed

lemma elf_demo_file: "file_at elf_demo 0x2000 0x6000 84"
proof -
  have "page_no (0x6000 + of_nat i) = 6" if "i < 84" for i using elf_demo_addr [OF that] that by (simp add: page_no_def)
  moreover have "page_of x = 0x6000" if "page_no x = 6" for x using paged_eq [of "page_of x" "0x6000"] that demo_pages by simp
  ultimately show ?thesis
    using elf_demo_virt(1) elf_demo_foreign [of "0x6000"] demo_frame(3) by (simp add: file_at_def)
qed

lemma elf_demo_at: "0x6000 \<le> a \<Longrightarrow> a < 0x6054 \<Longrightarrow> vload8 a elf_demo = Some (elf_image ! (unat a - 0x6000))"
proof -
  assume a: "0x6000 \<le> a" "a < 0x6054"
  then have u: "0x6000 \<le> unat a" "unat a < 0x6054" by (simp_all add: word_le_nat_alt word_less_nat_alt)
  then have "unat (0x6000 + of_nat (unat a - 0x6000) :: u32) = unat a" using elf_demo_addr [of "unat a - 0x6000"] by simp
  then have "0x6000 + of_nat (unat a - 0x6000) = a" by (rule unat_word_inj)
  then show ?thesis using elf_demo_byte [of "unat a - 0x6000"] u by simp
qed

lemma elf_demo_header: "valid_header 0x6000 elf_demo" "e_entry 0x6000 elf_demo = Some 0x8048000"
  "e_phoff 0x6000 elf_demo = Some 52" "e_phnum 0x6000 elf_demo = Some 1"
proof -
  have six: "(6 :: nat) = Suc (Suc (Suc (Suc (Suc (Suc 0)))))" by simp
  have "vload_bytes 0x6000 6 elf_demo = Some [0x7F, 0x45, 0x4C, 0x46, 1, 1]"
    unfolding six vload_bytes.simps by (simp add: elf_demo_at elf_image_def)
  moreover have "e_type 0x6000 elf_demo = Some ET_EXEC" "e_machine 0x6000 elf_demo = Some EM_386"
    by (simp_all add: e_type_def e_machine_def vload16_def elf_demo_at elf_image_def ET_EXEC_def EM_386_def)
  ultimately show "valid_header 0x6000 elf_demo" by (simp add: valid_header_def)
  show "e_entry 0x6000 elf_demo = Some 0x8048000" "e_phoff 0x6000 elf_demo = Some 52" "e_phnum 0x6000 elf_demo = Some 1"
    by (simp_all add: e_entry_def e_phoff_def e_phnum_def vload32_def vload16_def elf_demo_at elf_image_def)
qed

lemma elf_demo_segment: "segment_ok elf_demo (0x6000 + 52) 84 0x8048000 0 84 84 5"
  by (simp add: segment_ok_def p_type_def p_vaddr_def p_offset_def p_filesz_def p_memsz_def p_flags_def PT_LOAD_def
      vload32_def elf_demo_at elf_image_def)

theorem elf_load_faults_witness:
  "\<forall>res s. elf_load 0x6000 84 0x2000 \<lparr>entry_point = 0, brk = 0\<rparr> elf_demo \<noteq> Some (0, res, s)"
proof -
  have pg: "paging elf_demo" "cr3 elf_demo = 0x3000" by (simp_all add: paging_def elf_demo_def)
  have h: "(0x6000 :: u32) \<noteq> 0" "sizeof_header \<le> 84" "(52 :: u32) \<noteq> 0" "(1 :: u16) \<noteq> 0"
    "unat (52 :: u32) + 32 * unat (1 :: u16) \<le> unat (84 :: u32)" by (simp_all add: sizeof_header_def)
  show ?thesis
    using elf_load_faults [OF elf_demo_wf(1) elf_demo_apart pg elf_demo_file h(1,2) elf_demo_header h(3-5) elf_demo_segment elf_demo_virt(2),
        of "\<lparr>entry_point = 0, brk = 0\<rparr>"] by (auto split: prod.splits if_splits)
qed


end
