(* ===== verification/Vesa.thy ===== *)
theory Vesa
  imports Mmu
begin

text \<open>
  \<^verbatim>\<open>kernel/drivers/video/vesa.c\<close>: the linear frame buffer that the boot loader set up. The description of the boot
  loader and the frame buffer are read and written through the memory as the processor sees it; \<^term>\<open>None\<close> is a page
  fault, or a loop that does not end. Log calls are left out.
\<close>

definition PAGE_CACHE_DISABLE :: u32 where "PAGE_CACHE_DISABLE = 0x10"

record vesa_mode_info =
  vm_width :: u32
  vm_height :: u32
  vm_pitch :: u32
  vm_bpp :: u8
  vm_type :: u8
  vm_framebuffer :: u32
  vm_framebuffer_size :: u32
  vm_red_pos :: u8
  vm_red_size :: u8
  vm_green_pos :: u8
  vm_green_size :: u8
  vm_blue_pos :: u8
  vm_blue_size :: u8

record vesa_state =
  current_mode :: vesa_mode_info
  vesa_available :: bool
  framebuffer_ptr :: u32

text \<open>
  The offsets are those of \<^verbatim>\<open>struct multiboot_framebuffer\<close>, which starts at the 22nd word of the description.
\<close>

definition vesa_init :: "u32 \<Rightarrow> vesa_state \<times> 'a vmm_state_scheme \<Rightarrow> (vesa_state \<times> 'a vmm_state_scheme) option" where
  "vesa_init mboot_info vs =
     (case vs of (v, s) \<Rightarrow>
      if mboot_info = 0 then Some (v, s)
      else do {
        flags \<leftarrow> vload32 mboot_info s;
        if flags AND 0x1000 = 0 then Some (v, s)
        else do {
          let fb = mboot_info + 88;
          ty \<leftarrow> vload8 (fb + 21) s;
          if ty \<noteq> 1 then Some (v, s)
          else do {
            w \<leftarrow> vload32 (fb + 12) s; h \<leftarrow> vload32 (fb + 16) s; pitch \<leftarrow> vload32 (fb + 8) s;
            bpp \<leftarrow> vload8 (fb + 20) s; addr \<leftarrow> vload32 fb s;
            rp \<leftarrow> vload8 (fb + 22) s; rs \<leftarrow> vload8 (fb + 23) s; gp \<leftarrow> vload8 (fb + 24) s;
            gs \<leftarrow> vload8 (fb + 25) s; bp \<leftarrow> vload8 (fb + 26) s; bs \<leftarrow> vload8 (fb + 27) s;
            let m = \<lparr>vm_width = w, vm_height = h, vm_pitch = pitch, vm_bpp = bpp, vm_type = ty, vm_framebuffer = addr,
                     vm_framebuffer_size = pitch * h, vm_red_pos = rp, vm_red_size = rs, vm_green_pos = gp,
                     vm_green_size = gs, vm_blue_pos = bp, vm_blue_size = bs\<rparr>;
            let page_dir = vmm_get_current_directory s;
            let fb_pages = (vm_framebuffer_size m + 0xFFF) div 0x1000;
            let s = fold (\<lambda>i s. snd (vmm_map_page page_dir (addr + of_nat i * 0x1000) (addr + of_nat i * 0x1000)
                      ((PAGE_PRESENT OR PAGE_WRITE) OR PAGE_CACHE_DISABLE) s)) [0..<unat fb_pages] s;
            Some (\<lparr>current_mode = m, vesa_available = True, framebuffer_ptr = addr\<rparr>, s)
          }
        }
      })"

definition vesa_is_available :: "vesa_state \<Rightarrow> bool" where
  "vesa_is_available v = vesa_available v"

text \<open>The bytes of a \<^verbatim>\<open>struct vesa_mode_info\<close>; its padding is zero in the static variable.\<close>

definition le32 :: "u32 \<Rightarrow> u8 list" where
  "le32 w = [ucast w, ucast (drop_bit 8 w), ucast (drop_bit 16 w), ucast (drop_bit 24 w)]"

definition mode_bytes :: "vesa_mode_info \<Rightarrow> u8 list" where
  "mode_bytes m = le32 (vm_width m) @ le32 (vm_height m) @ le32 (vm_pitch m) @ [vm_bpp m, vm_type m, 0, 0] @
     le32 (vm_framebuffer m) @ le32 (vm_framebuffer_size m) @
     [vm_red_pos m, vm_red_size m, vm_green_pos m, vm_green_size m, vm_blue_pos m, vm_blue_size m, 0, 0]"

definition sizeof_mode_info :: u32 where "sizeof_mode_info = 32"

definition vesa_get_mode_info :: "vesa_state \<Rightarrow> u32 \<Rightarrow> 'a vmm_state_scheme \<Rightarrow> (bool \<times> 'a vmm_state_scheme) option" where
  "vesa_get_mode_info v info s =
     (if \<not> vesa_available v \<or> info = 0 then Some (False, s)
      else do { s \<leftarrow> vstore_bytes info (mode_bytes (current_mode v)) s; Some (True, s) })"

definition vesa_get_framebuffer :: "vesa_state \<Rightarrow> u32" where
  "vesa_get_framebuffer v = vm_framebuffer (current_mode v)"

definition vesa_get_framebuffer_size :: "vesa_state \<Rightarrow> u32" where
  "vesa_get_framebuffer_size v = vm_framebuffer_size (current_mode v)"

section \<open>Drawing\<close>

definition vesa_plot_pixel :: "vesa_state \<Rightarrow> u32 \<Rightarrow> u32 \<Rightarrow> u32 \<Rightarrow> 'a vmm_state_scheme \<Rightarrow> 'a vmm_state_scheme option" where
  "vesa_plot_pixel v x y col s =
     (let m = current_mode v in
      if \<not> vesa_available v \<or> x \<ge> vm_width m \<or> y \<ge> vm_height m then Some s
      else let offset = y * vm_pitch m + x * (ucast (vm_bpp m) div 8) in
        if vm_bpp m = 32 then vstore_bytes (framebuffer_ptr v + offset) (le32 col) s
        else if vm_bpp m = 24
        then vstore_bytes (framebuffer_ptr v + offset) [ucast col, ucast (drop_bit 8 col), ucast (drop_bit 16 col)] s
        else Some s)"

text \<open>The loop of a line, over the changing coordinate; \<open>plot\<close> draws the pixel at it.\<close>

partial_function (option) line_loop ::
    "(u32 \<Rightarrow> 'a vmm_state_scheme \<Rightarrow> 'a vmm_state_scheme option) \<Rightarrow> u32 \<Rightarrow> u32 \<Rightarrow> 'a vmm_state_scheme \<Rightarrow> 'a vmm_state_scheme option" where
  "line_loop plot x x2 s =
     (if x \<le> x2 then (case plot x s of None \<Rightarrow> None | Some s' \<Rightarrow> line_loop plot (x + 1) x2 s') else Some s)"

definition vesa_draw_hline :: "vesa_state \<Rightarrow> u32 \<Rightarrow> u32 \<Rightarrow> u32 \<Rightarrow> u32 \<Rightarrow> 'a vmm_state_scheme \<Rightarrow> 'a vmm_state_scheme option" where
  "vesa_draw_hline v x1 x2 y col s =
     (let (x1, x2) = (if x1 > x2 then (x2, x1) else (x1, x2)) in line_loop (\<lambda>x. vesa_plot_pixel v x y col) x1 x2 s)"

definition vesa_draw_vline :: "vesa_state \<Rightarrow> u32 \<Rightarrow> u32 \<Rightarrow> u32 \<Rightarrow> u32 \<Rightarrow> 'a vmm_state_scheme \<Rightarrow> 'a vmm_state_scheme option" where
  "vesa_draw_vline v x y1 y2 col s =
     (let (y1, y2) = (if y1 > y2 then (y2, y1) else (y1, y2)) in line_loop (\<lambda>y. vesa_plot_pixel v x y col) y1 y2 s)"

text \<open>A list of pixels, drawn in order.\<close>

primrec plot_all :: "vesa_state \<Rightarrow> (u32 \<times> u32) list \<Rightarrow> u32 \<Rightarrow> 'a vmm_state_scheme \<Rightarrow> 'a vmm_state_scheme option" where
  "plot_all v [] col s = Some s"
| "plot_all v (p # ps) col s =
     (case vesa_plot_pixel v (fst p) (snd p) col s of None \<Rightarrow> None | Some s' \<Rightarrow> plot_all v ps col s')"

definition vesa_draw_rect :: "vesa_state \<Rightarrow> u32 \<Rightarrow> u32 \<Rightarrow> u32 \<Rightarrow> u32 \<Rightarrow> u32 \<Rightarrow> 'a vmm_state_scheme \<Rightarrow> 'a vmm_state_scheme option" where
  "vesa_draw_rect v x y w h col s =
     plot_all v (concat (map (\<lambda>row. map (\<lambda>c. (x + of_nat c, y + of_nat row)) [0..<unat w]) [0..<unat h])) col s"

primrec fill_words :: "u32 \<Rightarrow> nat \<Rightarrow> u32 \<Rightarrow> 'a vmm_state_scheme \<Rightarrow> 'a vmm_state_scheme option" where
  "fill_words a 0 col s = Some s"
| "fill_words a (Suc n) col s = (case vstore_bytes a (le32 col) s of None \<Rightarrow> None | Some s' \<Rightarrow> fill_words (a + 4) n col s')"

definition vesa_clear_screen :: "vesa_state \<Rightarrow> u32 \<Rightarrow> 'a vmm_state_scheme \<Rightarrow> 'a vmm_state_scheme option" where
  "vesa_clear_screen v col s =
     (let m = current_mode v in
      if \<not> vesa_available v then Some s
      else if vm_bpp m = 32 then fill_words (framebuffer_ptr v) (unat ((vm_pitch m * vm_height m) div 4)) col s
      else plot_all v (concat (map (\<lambda>y. map (\<lambda>x. (of_nat x, of_nat y)) [0..<unat (vm_width m)]) [0..<unat (vm_height m)])) col s)"

text \<open>For positions below 32; a shift by more is undefined in C.\<close>

definition vesa_rgb :: "vesa_state \<Rightarrow> u8 \<Rightarrow> u8 \<Rightarrow> u8 \<Rightarrow> u32" where
  "vesa_rgb v r g b =
     (push_bit (unat (vm_red_pos (current_mode v))) (ucast r) OR push_bit (unat (vm_green_pos (current_mode v))) (ucast g))
       OR push_bit (unat (vm_blue_pos (current_mode v))) (ucast b)"

definition vesa_get_width :: "vesa_state \<Rightarrow> u32" where "vesa_get_width v = vm_width (current_mode v)"
definition vesa_get_height :: "vesa_state \<Rightarrow> u32" where "vesa_get_height v = vm_height (current_mode v)"
definition vesa_get_bpp :: "vesa_state \<Rightarrow> u8" where "vesa_get_bpp v = vm_bpp (current_mode v)"

section \<open>Drawing stays inside the frame buffer\<close>

text \<open>A mode with rows that have room for their pixels, and a frame buffer that fits the address space.\<close>

definition mode_ok :: "vesa_mode_info \<Rightarrow> bool" where
  "mode_ok m \<longleftrightarrow> vm_bpp m \<in> {24, 32} \<and> unat (vm_width m) * (unat (vm_bpp m) div 8) \<le> unat (vm_pitch m) \<and>
     unat (vm_pitch m) * unat (vm_height m) < 2 ^ 32"

definition screen_bytes :: "vesa_mode_info \<Rightarrow> nat" where
  "screen_bytes m = unat (vm_pitch m) * unat (vm_height m)"

text \<open>The bytes of a pixel, and where they are.\<close>

definition pixel_bytes :: "vesa_mode_info \<Rightarrow> u32 \<Rightarrow> u8 list" where
  "pixel_bytes m col = take (unat (vm_bpp m) div 8) (le32 col)"

definition pixel_offset :: "vesa_mode_info \<Rightarrow> nat \<Rightarrow> nat \<Rightarrow> nat" where
  "pixel_offset m x y = y * unat (vm_pitch m) + x * (unat (vm_bpp m) div 8)"

lemma pixel_in_screen:
  assumes "mode_ok m" and "x < unat (vm_width m)" and "y < unat (vm_height m)"
  shows "pixel_offset m x y + unat (vm_bpp m) div 8 \<le> screen_bytes m"
proof -
  let ?b = "unat (vm_bpp m) div 8" and ?p = "unat (vm_pitch m)"
  have "x * ?b + ?b = Suc x * ?b" by simp
  also have "\<dots> \<le> unat (vm_width m) * ?b" using assms(2) by (intro mult_right_mono) simp_all
  also have "\<dots> \<le> ?p" using assms(1) by (simp add: mode_ok_def)
  finally have "pixel_offset m x y + ?b \<le> Suc y * ?p" by (simp add: pixel_offset_def)
  also have "\<dots> \<le> unat (vm_height m) * ?p" using assms(3) by (intro mult_right_mono) simp_all
  finally show ?thesis by (simp add: screen_bytes_def mult.commute)
qed

lemma writable_range_part:
  assumes "writable_range s a n" and "k + j \<le> n"
  shows "writable_range s (a + of_nat k) j"
proof -
  have shift: "a + of_nat k + of_nat i = a + of_nat (k + i)" for i by simp
  have "inj_on (\<lambda>i. virt s (a + of_nat (k + i))) {..<j}"
  proof (rule inj_onI)
    fix i i' assume i: "i \<in> {..<j}" "i' \<in> {..<j}" "virt s (a + of_nat (k + i)) = virt s (a + of_nat (k + i'))"
    then have "k + i = k + i'" using assms unfolding writable_range_def inj_on_def
      by (metis add_less_mono1 add.commute lessThan_iff order_less_le_trans)
    then show "i = i'" by simp
  qed
  moreover have "\<exists>p. virt s (a + of_nat (k + i)) = Some p \<and> page_no p \<notin> walk_pages s" if "i < j" for i
  proof -
    have "k + i < n" using that assms(2) by simp
    then show ?thesis using assms(1) unfolding writable_range_def by blast
  qed
  ultimately show ?thesis unfolding writable_range_def shift by blast
qed

text \<open>
  C33: In a consistent mode whose frame buffer is mapped, \<^verbatim>\<open>vesa_plot_pixel\<close> returns; inside the screen it stores
  the bytes of the colour at the place of the pixel, which lies inside the frame buffer, and changes no
  other byte of memory; outside the screen it does nothing.
\<close>

theorem vesa_plot_pixel_correct:
  assumes ok: "mode_ok (current_mode v)" and av: "vesa_available v"
    and fb: "writable_range s (framebuffer_ptr v) (screen_bytes (current_mode v))"
  shows "\<exists>s'. vesa_plot_pixel v x y col s = Some s' \<and>
    (if x < vm_width (current_mode v) \<and> y < vm_height (current_mode v)
     then let k = pixel_offset (current_mode v) (unat x) (unat y); bs = pixel_bytes (current_mode v) col
          in k + length bs \<le> screen_bytes (current_mode v) \<and> stores s s' (framebuffer_ptr v + of_nat k) bs
     else s' = s)"
proof (cases "x < vm_width (current_mode v) \<and> y < vm_height (current_mode v)")
  case False
  then show ?thesis by (auto simp: vesa_plot_pixel_def Let_def not_less)
next
  case True
  let ?m = "current_mode v"
  define k where "k = pixel_offset ?m (unat x) (unat y)"
  have bpp: "vm_bpp ?m = 24 \<or> vm_bpp ?m = 32" using ok by (simp add: mode_ok_def)
  have len: "length (pixel_bytes ?m col) = unat (vm_bpp ?m) div 8" using bpp by (auto simp: pixel_bytes_def le32_def)
  have "k + unat (vm_bpp ?m) div 8 \<le> screen_bytes ?m"
    unfolding k_def by (rule pixel_in_screen [OF ok]) (use True in \<open>simp_all add: word_less_nat_alt\<close>)
  then have fits: "k + length (pixel_bytes ?m col) \<le> screen_bytes ?m" by (simp add: len)
  have off: "y * vm_pitch ?m + x * (ucast (vm_bpp ?m) div 8) = of_nat k"
    using bpp by (auto simp: k_def pixel_offset_def)
  have pb: "pixel_bytes ?m col = (if vm_bpp ?m = 32 then le32 col else [ucast col, ucast (drop_bit 8 col), ucast (drop_bit 16 col)])"
    using bpp by (auto simp: pixel_bytes_def le32_def)
  have "vesa_plot_pixel v x y col s = vstore_bytes (framebuffer_ptr v + of_nat k) (pixel_bytes ?m col) s"
    using True av bpp unfolding vesa_plot_pixel_def Let_def off pb by (auto simp: not_less [symmetric])
  moreover obtain s' where "vstore_bytes (framebuffer_ptr v + of_nat k) (pixel_bytes ?m col) s = Some s'"
      "stores s s' (framebuffer_ptr v + of_nat k) (pixel_bytes ?m col)"
    using vstore_bytes_stores [OF writable_range_part [OF fb fits]] by blast
  ultimately show ?thesis using True fits by (simp add: Let_def k_def)
qed

text \<open>
  \<^verbatim>\<open>vesa_draw_hline\<close> up to the last coordinate never returns, whether there is a screen or not: no 32-bit counter
  exceeds \<open>0xFFFFFFFF\<close>.
\<close>

theorem vesa_draw_hline_endless: "vesa_draw_hline v x1 0xFFFFFFFF y col s = None"
proof (rule ccontr)
  assume "\<not> ?thesis"
  have last: "x \<le> 0xFFFFFFFF" for x :: u32
    using unsigned_less [of x, where 'a = nat] by (simp add: word_le_nat_alt)
  from \<open>\<not> ?thesis\<close> obtain r where "line_loop (\<lambda>x. vesa_plot_pixel v x y col) x1 0xFFFFFFFF s = Some r"
    using last [of x1] by (auto simp: vesa_draw_hline_def Let_def not_less [symmetric])
  then have "(0xFFFFFFFF :: u32) \<noteq> 0xFFFFFFFF"
    by (rule line_loop.raw_induct [where P = "\<lambda>plot x x2 s r. x2 \<noteq> 0xFFFFFFFF" and
          xa = "(((\<lambda>x. vesa_plot_pixel v x y col, x1), 0xFFFFFFFF), s)", unfolded prod.case, rotated])
      (use last in \<open>auto split: if_splits option.splits\<close>)
  then show False by simp
qed

section \<open>Example\<close>

text \<open>A screen of 2 by 2 pixels with 32 bits, in rows of 8 bytes, while paging is off.\<close>

definition screen_demo :: vesa_state where
  "screen_demo = \<lparr>current_mode = \<lparr>vm_width = 2, vm_height = 2, vm_pitch = 8, vm_bpp = 32, vm_type = 1, vm_framebuffer = 0x5000,
     vm_framebuffer_size = 16, vm_red_pos = 16, vm_red_size = 8, vm_green_pos = 8, vm_green_size = 8, vm_blue_pos = 0,
     vm_blue_size = 8\<rparr>, vesa_available = True, framebuffer_ptr = 0x5000\<rparr>"

lemma unpaged_range:
  assumes "\<not> paging s" and "n \<le> 2 ^ 32"
  shows "writable_range s a n"
proof -
  have "inj_on (\<lambda>i. Some (a + of_nat i :: u32)) {..<n}"
  proof (rule inj_onI)
    fix i j assume "i \<in> {..<n}" "j \<in> {..<n}" "Some (a + of_nat i :: u32) = Some (a + of_nat j)"
    then have e: "(of_nat i :: u32) = of_nat j" and b: "i < 2 ^ 32" "j < 2 ^ 32" using assms(2) by auto
    have "unat (of_nat i :: u32) = i" "unat (of_nat j :: u32) = j" using b by (simp_all add: unat_of_nat_small)
    then show "i = j" unfolding e by simp
  qed
  then show ?thesis using assms(1) by (simp add: writable_range_def virt_def walk_pages_def)
qed

theorem vesa_plot_pixel_correct_witness:
  "\<exists>s'. vesa_plot_pixel screen_demo 1 1 0xAABBCC (vmm_demo\<lparr>cr0 := 0\<rparr>) = Some s' \<and>
     stores (vmm_demo\<lparr>cr0 := 0\<rparr>) s' 0x500C (le32 0xAABBCC)"
proof -
  have "writable_range (vmm_demo\<lparr>cr0 := 0\<rparr>) (framebuffer_ptr screen_demo) (screen_bytes (current_mode screen_demo))"
    by (rule unpaged_range) (simp_all add: paging_def screen_demo_def screen_bytes_def)
  moreover have "mode_ok (current_mode screen_demo)" "vesa_available screen_demo" by (simp_all add: mode_ok_def screen_demo_def)
  ultimately show ?thesis
    using vesa_plot_pixel_correct [of screen_demo "vmm_demo\<lparr>cr0 := 0\<rparr>" 1 1 "0xAABBCC"]
    by (auto simp: screen_demo_def pixel_offset_def pixel_bytes_def le32_def Let_def)
qed

end
