(* ===== verification/Vterm.thy ===== *)
theory Vterm
  imports Prelude
begin

text \<open>
  \<^verbatim>\<open>kernel/ui/vterm.c\<close>: four virtual terminals with a scrollback of 200 lines, one of them shown on the VGA
  screen. A terminal pointer is the index of the terminal, \<^term>\<open>None\<close> the null pointer. The VGA memory, the
  cursor register and the characters sent to the serial port are parts of the state; log calls are
  left out. A result \<^term>\<open>None\<close> is an access outside a terminal's buffer.
\<close>

section \<open>Data\<close>

definition VTERM_MAX_COUNT :: nat where "VTERM_MAX_COUNT = 4"
definition VTERM_WIDTH :: u32 where "VTERM_WIDTH = 80"
definition VTERM_HEIGHT :: u32 where "VTERM_HEIGHT = 25"
definition VTERM_SCROLLBACK :: u32 where "VTERM_SCROLLBACK = 200"
definition VTERM_BUFFER_SIZE :: nat where "VTERM_BUFFER_SIZE = 80 * 200"
definition VTERM_VISIBLE_SIZE :: nat where "VTERM_VISIBLE_SIZE = 80 * 25"

record vterm =
  cells :: "u16 list"
  cursor_row :: u32
  cursor_col :: u32
  scroll_offset :: u32
  total_lines :: u32
  color :: u8
  owner_pid :: int
  active :: bool
  vname :: string

record vterm_state =
  terminals :: "vterm list"
  active_terminal :: u8
  vga :: "u16 list"
  vga_cursor :: u16
  alt_pressed :: bool
  serial_out :: "u8 list"

definition terminal_names :: "string list" where
  "terminal_names = [''console'', ''init'', ''user1'', ''user2'']"

definition vga_entry_color :: "u8 \<Rightarrow> u8 \<Rightarrow> u8" where
  "vga_entry_color fg bg = fg OR push_bit 4 bg"

definition vga_entry :: "u8 \<Rightarrow> u8 \<Rightarrow> u16" where
  "vga_entry c col = ucast c OR push_bit 8 (ucast col)"

definition blank :: "u8 \<Rightarrow> u16" where
  "blank col = vga_entry 0x20 col"

section \<open>Refreshing the screen\<close>

text \<open>The line the view ends before, at least a screen, and the furthest the view can be scrolled back.\<close>

definition view_end :: "vterm \<Rightarrow> u32" where
  "view_end vt = (if cursor_row vt + 1 < VTERM_HEIGHT then VTERM_HEIGHT else cursor_row vt + 1)"

definition max_offset :: "vterm \<Rightarrow> u32" where
  "max_offset vt = (if view_end vt > VTERM_HEIGHT then view_end vt - VTERM_HEIGHT else 0)"

definition clamp_offset :: "vterm \<Rightarrow> vterm" where
  "clamp_offset vt = (if scroll_offset vt > max_offset vt then vt\<lparr>scroll_offset := max_offset vt\<rparr> else vt)"

definition view_start :: "vterm \<Rightarrow> u32" where
  "view_start vt =
     (if scroll_offset vt = 0 then
        if cursor_row vt \<ge> VTERM_HEIGHT then (cursor_row vt - VTERM_HEIGHT + 1) * VTERM_WIDTH else 0
      else (view_end vt - VTERM_HEIGHT - scroll_offset vt) * VTERM_WIDTH)"

definition cursor_pos :: "vterm \<Rightarrow> u16" where
  "cursor_pos vt =
     (let visible_row = (if cursor_row vt \<ge> VTERM_HEIGHT then VTERM_HEIGHT - 1 else cursor_row vt) in
      ucast (visible_row * VTERM_WIDTH + cursor_col vt))"

text \<open>
  The offset of a scrolled view is clamped first. The branch of the code that computes the start of the
  view is chosen by the offset before clamping; both give the same start when the clamped offset is 0.
\<close>

definition vterm_refresh :: "'a vterm_state_scheme \<Rightarrow> 'a vterm_state_scheme option" where
  "vterm_refresh s =
     (let a = unat (active_terminal s); old = terminals s ! a;
          vt = (if scroll_offset old = 0 then old else clamp_offset old);
          start = (if scroll_offset old = 0 then view_start old
                   else (view_end vt - VTERM_HEIGHT - scroll_offset vt) * VTERM_WIDTH)
      in if unat start + VTERM_VISIBLE_SIZE > length (cells vt) then None
         else Some (s\<lparr>terminals := (terminals s)[a := vt],
                vga := take VTERM_VISIBLE_SIZE (drop (unat start) (cells vt)),
                vga_cursor := (if scroll_offset vt = 0 then cursor_pos vt else 0xFFFF)\<rparr>))"

section \<open>Operations\<close>

definition init_vterm :: "nat \<Rightarrow> vterm" where
  "init_vterm i = \<lparr>cells = replicate VTERM_BUFFER_SIZE (blank (vga_entry_color 7 0)), cursor_row = 0, cursor_col = 0,
     scroll_offset = 0, total_lines = 0, color = vga_entry_color 7 0, owner_pid = -1, active = (i = 0),
     vname = take 15 (terminal_names ! i)\<rparr>"

definition vterm_init :: "'a vterm_state_scheme \<Rightarrow> 'a vterm_state_scheme option" where
  "vterm_init s = vterm_refresh (s\<lparr>terminals := map init_vterm [0..<VTERM_MAX_COUNT], active_terminal := 0\<rparr>)"

definition vterm_get :: "u8 \<Rightarrow> nat option" where
  "vterm_get i = (if unat i \<ge> VTERM_MAX_COUNT then None else Some (unat i))"

definition vterm_get_active :: "'a vterm_state_scheme \<Rightarrow> nat option" where
  "vterm_get_active s = Some (unat (active_terminal s))"

definition vterm_get_active_id :: "'a vterm_state_scheme \<Rightarrow> u8" where
  "vterm_get_active_id s = active_terminal s"

definition upd_vterm :: "nat \<Rightarrow> (vterm \<Rightarrow> vterm) \<Rightarrow> 'a vterm_state_scheme \<Rightarrow> 'a vterm_state_scheme" where
  "upd_vterm i f s = s\<lparr>terminals := (terminals s)[i := f (terminals s ! i)]\<rparr>"

definition vterm_switch :: "u8 \<Rightarrow> 'a vterm_state_scheme \<Rightarrow> (int \<times> 'a vterm_state_scheme) option" where
  "vterm_switch i s =
     (if unat i \<ge> VTERM_MAX_COUNT then Some (-1, s)
      else if i = active_terminal s then Some (0, s)
      else let s = upd_vterm (unat (active_terminal s)) (\<lambda>vt. vt\<lparr>active := False\<rparr>) s;
               s = upd_vterm (unat i) (\<lambda>vt. vt\<lparr>active := True\<rparr>) (s\<lparr>active_terminal := i\<rparr>)
           in map_option (Pair 0) (vterm_refresh s))"

text \<open>Moving every line up by one, cell by cell, and clearing the last line.\<close>

definition scroll_cells :: "u16 \<Rightarrow> u16 list \<Rightarrow> u16 list" where
  "scroll_cells b cs =
     (let cs = fold (\<lambda>y. fold (\<lambda>x cs. cs[y * 80 + x := cs ! ((y + 1) * 80 + x)]) [0..<80]) [0..<199] cs
      in fold (\<lambda>x cs. cs[199 * 80 + x := b]) [0..<80] cs)"

definition vterm_scroll :: "vterm \<Rightarrow> vterm" where
  "vterm_scroll vt = vt\<lparr>cells := scroll_cells (blank (color vt)) (cells vt),
     total_lines := (if total_lines vt < VTERM_SCROLLBACK then total_lines vt + 1 else total_lines vt),
     cursor_row := VTERM_SCROLLBACK - 1, scroll_offset := 0\<rparr>"

definition next_row :: "vterm \<Rightarrow> vterm" where
  "next_row vt =
     (let vt = vt\<lparr>cursor_row := cursor_row vt + 1\<rparr> in if cursor_row vt \<ge> VTERM_SCROLLBACK then vterm_scroll vt else vt)"

definition count_lines :: "vterm \<Rightarrow> vterm" where
  "count_lines vt = (if total_lines vt < cursor_row vt + 1 then vt\<lparr>total_lines := cursor_row vt + 1\<rparr> else vt)"

definition put_cell :: "u16 \<Rightarrow> vterm \<Rightarrow> vterm option" where
  "put_cell v vt =
     (let i = unat (cursor_row vt * VTERM_WIDTH + cursor_col vt) in
      if i < length (cells vt) then Some (vt\<lparr>cells := (cells vt)[i := v]\<rparr>) else None)"

definition put_char :: "u8 \<Rightarrow> vterm \<Rightarrow> vterm option" where
  "put_char c vt0 =
     (let vt = vt0\<lparr>scroll_offset := 0\<rparr> in
      if c = 0x0A then Some (count_lines (next_row (vt\<lparr>cursor_col := 0\<rparr>)))
      else if c = 0x0D then Some (vt\<lparr>cursor_col := 0\<rparr>)
      else if c = 0x08 then
        if cursor_col vt > 0 then let vt = vt\<lparr>cursor_col := cursor_col vt - 1\<rparr> in put_cell (blank (color vt)) vt
        else Some vt
      else if c = 0x09 then
        let vt = vt\<lparr>cursor_col := (cursor_col vt + 8) AND NOT 7\<rparr> in
        Some (if cursor_col vt \<ge> VTERM_WIDTH then next_row (vt\<lparr>cursor_col := 0\<rparr>) else vt)
      else if 0x20 \<le> c \<and> c < 0x7F then
        map_option (\<lambda>vt.
            let vt = vt\<lparr>cursor_col := cursor_col vt + 1\<rparr>;
                vt = (if cursor_col vt \<ge> VTERM_WIDTH then next_row (vt\<lparr>cursor_col := 0\<rparr>) else vt)
            in count_lines vt)
          (put_cell (vga_entry c (color vt)) vt)
      else Some vt)"

definition refresh_if_active :: "nat \<Rightarrow> 'a vterm_state_scheme \<Rightarrow> 'a vterm_state_scheme option" where
  "refresh_if_active i s = (if active (terminals s ! i) then vterm_refresh s else Some s)"

definition vterm_putchar_internal :: "nat option \<Rightarrow> u8 \<Rightarrow> bool \<Rightarrow> 'a vterm_state_scheme \<Rightarrow> 'a vterm_state_scheme option" where
  "vterm_putchar_internal t c do_refresh s =
     (case t of
        None \<Rightarrow> Some s
      | Some i \<Rightarrow>
          (case put_char c (terminals s ! i) of
             None \<Rightarrow> None
           | Some vt \<Rightarrow>
               let s = s\<lparr>terminals := (terminals s)[i := vt]\<rparr> in
               if do_refresh then refresh_if_active i s else Some s))"

definition serial_write :: "u8 \<Rightarrow> 'a vterm_state_scheme \<Rightarrow> 'a vterm_state_scheme" where
  "serial_write c s = s\<lparr>serial_out := serial_out s @ [c]\<rparr>"

definition vterm_putchar :: "nat option \<Rightarrow> u8 \<Rightarrow> 'a vterm_state_scheme \<Rightarrow> 'a vterm_state_scheme option" where
  "vterm_putchar t c s = vterm_putchar_internal t c True (serial_write c s)"

primrec vterm_write_loop :: "nat option \<Rightarrow> u8 list \<Rightarrow> 'a vterm_state_scheme \<Rightarrow> 'a vterm_state_scheme option" where
  "vterm_write_loop t [] s = Some s"
| "vterm_write_loop t (c # cs) s =
     (case vterm_putchar_internal t c False (serial_write c s) of None \<Rightarrow> None | Some s \<Rightarrow> vterm_write_loop t cs s)"

definition vterm_write :: "nat option \<Rightarrow> u8 list \<Rightarrow> 'a vterm_state_scheme \<Rightarrow> 'a vterm_state_scheme option" where
  "vterm_write t str s =
     (case t of None \<Rightarrow> Some s
      | Some i \<Rightarrow> (case vterm_write_loop t str s of None \<Rightarrow> None | Some s \<Rightarrow> refresh_if_active i s))"

text \<open>The decimal digits, written from the end of the buffer.\<close>

function dec_digits :: "u32 \<Rightarrow> u8 list \<Rightarrow> u8 list" where
  "dec_digits v acc = (if v > 0 then dec_digits (v div 10) ((0x30 + ucast (v mod 10)) # acc) else acc)"
  by pat_completeness auto
termination
proof (relation "measure (\<lambda>(v, acc). unat v)")
  fix v :: u32
  assume "v > 0"
  then have "0 < unat v" by (simp add: word_less_nat_alt)
  then have "unat (v div 10) < unat v" by (simp add: unat_div_distrib)
  then show "((v div 10, acc'), v, acc) \<in> measure (\<lambda>(v, acc). unat v)" for acc acc' by simp
qed simp

declare dec_digits.simps [simp del]

definition vterm_write_dec :: "nat option \<Rightarrow> u32 \<Rightarrow> 'a vterm_state_scheme \<Rightarrow> 'a vterm_state_scheme option" where
  "vterm_write_dec t v s =
     (if t = None then Some s
      else if v = 0 then vterm_putchar t 0x30 s
      else vterm_write t (dec_digits v []) s)"

definition vterm_clear :: "nat option \<Rightarrow> 'a vterm_state_scheme \<Rightarrow> 'a vterm_state_scheme option" where
  "vterm_clear t s =
     (case t of None \<Rightarrow> Some s
      | Some i \<Rightarrow> refresh_if_active i (upd_vterm i (\<lambda>vt. vt\<lparr>cells := replicate VTERM_BUFFER_SIZE (blank (color vt)),
          cursor_row := 0, cursor_col := 0, scroll_offset := 0, total_lines := 0\<rparr>) s))"

definition vterm_set_color :: "nat option \<Rightarrow> u8 \<Rightarrow> u8 \<Rightarrow> 'a vterm_state_scheme \<Rightarrow> 'a vterm_state_scheme" where
  "vterm_set_color t fg bg s =
     (case t of None \<Rightarrow> s | Some i \<Rightarrow> upd_vterm i (\<lambda>vt. vt\<lparr>color := vga_entry_color fg bg\<rparr>) s)"

definition vterm_set_owner :: "u8 \<Rightarrow> int \<Rightarrow> 'a vterm_state_scheme \<Rightarrow> 'a vterm_state_scheme" where
  "vterm_set_owner i pid s =
     (if unat i \<ge> VTERM_MAX_COUNT then s else upd_vterm (unat i) (\<lambda>vt. vt\<lparr>owner_pid := pid\<rparr>) s)"

definition vterm_get_by_pid :: "int \<Rightarrow> 'a vterm_state_scheme \<Rightarrow> int" where
  "vterm_get_by_pid pid s =
     (case List.find (\<lambda>i. owner_pid (terminals s ! i) = pid) [0..<VTERM_MAX_COUNT] of None \<Rightarrow> -1 | Some i \<Rightarrow> int i)"

definition vterm_scroll_up :: "nat option \<Rightarrow> u32 \<Rightarrow> 'a vterm_state_scheme \<Rightarrow> 'a vterm_state_scheme option" where
  "vterm_scroll_up t lines s =
     (case t of None \<Rightarrow> Some s
      | Some i \<Rightarrow> refresh_if_active i (upd_vterm i (\<lambda>vt. clamp_offset (vt\<lparr>scroll_offset := scroll_offset vt + lines\<rparr>)) s))"

definition vterm_scroll_down :: "nat option \<Rightarrow> u32 \<Rightarrow> 'a vterm_state_scheme \<Rightarrow> 'a vterm_state_scheme option" where
  "vterm_scroll_down t lines s =
     (case t of None \<Rightarrow> Some s
      | Some i \<Rightarrow> refresh_if_active i (upd_vterm i (\<lambda>vt. vt\<lparr>scroll_offset :=
          (if scroll_offset vt \<ge> lines then scroll_offset vt - lines else 0)\<rparr>) s))"

definition vterm_scroll_reset :: "nat option \<Rightarrow> 'a vterm_state_scheme \<Rightarrow> 'a vterm_state_scheme option" where
  "vterm_scroll_reset t s =
     (case t of None \<Rightarrow> Some s | Some i \<Rightarrow> refresh_if_active i (upd_vterm i (\<lambda>vt. vt\<lparr>scroll_offset := 0\<rparr>) s))"

text \<open>Function keys with Alt switch terminals, page keys scroll. The result says whether the key was used.\<close>

definition vterm_handle_switch :: "u8 \<Rightarrow> 'a vterm_state_scheme \<Rightarrow> (bool \<times> 'a vterm_state_scheme) option" where
  "vterm_handle_switch scancode s =
     (if scancode = 0x38 then Some (False, s\<lparr>alt_pressed := True\<rparr>)
      else if scancode = 0xB8 then Some (False, s\<lparr>alt_pressed := False\<rparr>)
      else let t = vterm_get_active s in
        if scancode = 0x49 then map_option (Pair True) (vterm_scroll_up t (VTERM_HEIGHT - 1) s)
        else if scancode = 0x51 then map_option (Pair True) (vterm_scroll_down t (VTERM_HEIGHT - 1) s)
        else if scancode = 0x47 \<and> alt_pressed s then
          map_option (Pair True) (vterm_refresh
            (upd_vterm (unat (active_terminal s)) (\<lambda>vt. vt\<lparr>scroll_offset := max_offset vt\<rparr>) s))
        else if scancode = 0x4F \<and> alt_pressed s then map_option (Pair True) (vterm_scroll_reset t s)
        else if \<not> alt_pressed s then Some (False, s)
        else if scancode < 0x3B \<or> scancode > 0x3E then Some (False, s)
        else let new_term = scancode - 0x3B in
          if unat new_term < VTERM_MAX_COUNT \<and> new_term \<noteq> active_terminal s
          then map_option (\<lambda>(_, s). (True, s)) (vterm_switch new_term s)
          else Some (False, s))"

section \<open>Scrolling\<close>

lemma fold_move:
  assumes "n + d \<le> length cs"
  shows "length (fold (\<lambda>i cs. cs[i := cs ! (i + d)]) [0..<n] cs) = length cs"
    and "\<And>i. i < length cs \<Longrightarrow> fold (\<lambda>i cs. cs[i := cs ! (i + d)]) [0..<n] cs ! i = (if i < n then cs ! (i + d) else cs ! i)"
proof -
  let ?f = "fold (\<lambda>i cs. cs[i := cs ! (i + d)])"
  have "length (?f [0..<n] cs) = length cs \<and>
      (\<forall>i < length cs. ?f [0..<n] cs ! i = (if i < n then cs ! (i + d) else cs ! i))"
    using assms
  proof (induction n)
    case (Suc n)
    then show ?case by (auto simp: nth_list_update less_Suc_eq)
  qed simp
  then show "length (?f [0..<n] cs) = length cs"
    and "\<And>i. i < length cs \<Longrightarrow> ?f [0..<n] cs ! i = (if i < n then cs ! (i + d) else cs ! i)" by auto
qed

lemma fold_rows:
  "fold (\<lambda>y. fold (\<lambda>x cs. cs[y * w + x := cs ! ((y + 1) * w + x)]) [0..<w]) [0..<h] cs =
   fold (\<lambda>i cs. cs[i := cs ! (i + w)]) [0..<h * w] cs"
proof (induction h)
  case (Suc h)
  have shift: "[h * w..<Suc h * w] = map (\<lambda>x. h * w + x) [0..<w]" by (simp add: map_add_upt add.commute)
  have split: "[0..<Suc h * w] = [0..<h * w] @ [h * w..<Suc h * w]"
    using upt_add_eq_append [of 0 "h * w" w] by (simp add: add.commute)
  let ?m = "fold (\<lambda>i cs. cs[i := cs ! (i + w)])"
  have row: "?m [h * w..<Suc h * w] c = fold (\<lambda>x cs. cs[h * w + x := cs ! ((h + 1) * w + x)]) [0..<w] c" for c
    unfolding shift fold_map by (simp add: comp_def algebra_simps)
  have "?m [0..<Suc h * w] cs = ?m [h * w..<Suc h * w] (?m [0..<h * w] cs)" by (simp only: split fold_append comp_apply)
  also have "\<dots> = fold (\<lambda>x cs. cs[h * w + x := cs ! ((h + 1) * w + x)]) [0..<w] (?m [0..<h * w] cs)" by (rule row)
  finally show ?case using Suc by simp
qed simp

lemma fold_clear:
  assumes "k + n \<le> length cs"
  shows "fold (\<lambda>x cs. cs[k + x := b]) [0..<n] cs = take k cs @ replicate n b @ drop (k + n) cs"
  using assms
proof (induction n)
  case (Suc n)
  have "drop (k + n) cs = cs ! (k + n) # drop (k + Suc n) cs" using Suc.prems by (simp add: Cons_nth_drop_Suc)
  then show ?case using Suc by (simp add: list_update_append replicate_append_same)
qed simp

lemma scroll_lines:
  assumes "length (cells vt) = VTERM_BUFFER_SIZE"
  shows "cells (vterm_scroll vt) = drop 80 (cells vt) @ replicate 80 (blank (color vt))"
proof -
  let ?m = "fold (\<lambda>i cs. cs[i := cs ! (i + 80)]) [0..<199 * 80] (cells vt)"
  have len: "length (cells vt) = 16000" using assms by (simp add: VTERM_BUFFER_SIZE_def)
  note m = fold_move [of "199 * 80" 80 "cells vt"]
  have "take (199 * 80) ?m = drop 80 (cells vt)"
    by (rule nth_equalityI) (use m len in \<open>simp_all add: add.commute\<close>)
  moreover have "length ?m = 16000" using m(1) len by simp
  ultimately show ?thesis
    using fold_clear [of "199 * 80" 80 ?m "blank (color vt)"]
    by (simp add: vterm_scroll_def scroll_cells_def fold_rows [of 80 199, simplified])
qed

text \<open>
  C23: The cell-by-cell scrolling of a terminal is the removal of its first line and the addition of a blank
  last line.
\<close>

theorem vterm_scroll_lines:
  assumes "length (cells vt) = VTERM_BUFFER_SIZE"
  shows "cells (vterm_scroll vt) = drop 80 (cells vt) @ replicate 80 (blank (color vt))"
  by (rule scroll_lines [OF assms])

section \<open>What the terminals keep\<close>

definition vt_ok :: "vterm \<Rightarrow> bool" where
  "vt_ok vt \<longleftrightarrow> length (cells vt) = 16000 \<and> unat (cursor_row vt) < 200 \<and> unat (cursor_col vt) < 80"

definition vt_inv :: "'a vterm_state_scheme \<Rightarrow> bool" where
  "vt_inv s \<longleftrightarrow> length (terminals s) = 4 \<and> unat (active_terminal s) < 4 \<and>
     (\<forall>i<4. vt_ok (terminals s ! i) \<and> (active (terminals s ! i) \<longleftrightarrow> i = unat (active_terminal s)))"

text \<open>The part of a terminal that belongs on the screen.\<close>

definition view :: "vterm \<Rightarrow> u16 list" where
  "view vt = take 2000 (drop (unat (view_start vt)) (cells vt))"

definition shown :: "'a vterm_state_scheme \<Rightarrow> bool" where
  "shown s \<longleftrightarrow> vga s = view (terminals s ! unat (active_terminal s))"

lemma unat_row:
  assumes "vt_ok vt"
  shows "unat (cursor_row vt + 1) = unat (cursor_row vt) + 1"
  using assms by (simp add: vt_ok_def unat_add_no_overflow)

lemma unat_view_end:
  assumes "vt_ok vt"
  shows "unat (view_end vt) = max 25 (unat (cursor_row vt) + 1)" and "unat (max_offset vt) = unat (view_end vt) - 25"
proof -
  show e: "unat (view_end vt) = max 25 (unat (cursor_row vt) + 1)"
    using unat_row [OF assms] by (auto simp: view_end_def VTERM_HEIGHT_def word_less_nat_alt max_def)
  have "unat (view_end vt - 25) = unat (view_end vt) - 25" if "25 < view_end vt"
    using that by (simp add: unat_sub_le word_less_nat_alt word_le_nat_alt)
  then show "unat (max_offset vt) = unat (view_end vt) - 25"
    using e by (auto simp: max_offset_def VTERM_HEIGHT_def word_less_nat_alt)
qed

lemma unat_lines:
  assumes "unat a \<le> 175"
  shows "unat (a * VTERM_WIDTH) = unat a * 80"
proof -
  have "unat a * unat (80 :: u32) < 2 ^ 32" using assms by simp
  then show ?thesis by (simp add: VTERM_WIDTH_def unat_word_ariths)
qed

lemma view_start_bound:
  assumes "vt_ok vt" and "scroll_offset vt \<le> max_offset vt"
  shows "unat (view_start vt) \<le> 14000"
proof -
  have row: "unat (cursor_row vt) < 200" using assms(1) by (simp add: vt_ok_def)
  note e = unat_view_end [OF assms(1)]
  show ?thesis
  proof (cases "scroll_offset vt = 0")
    case True
    have "unat (cursor_row vt - VTERM_HEIGHT + 1) = unat (cursor_row vt) - 24" if "cursor_row vt \<ge> VTERM_HEIGHT"
    proof -
      have "unat (cursor_row vt - VTERM_HEIGHT) = unat (cursor_row vt) - 25"
        using that unat_sub_le [OF that] by (simp add: VTERM_HEIGHT_def)
      moreover have "25 \<le> unat (cursor_row vt)" using that by (simp add: VTERM_HEIGHT_def word_le_nat_alt)
      ultimately show ?thesis using row by (simp add: unat_add_no_overflow)
    qed
    then show ?thesis using True row unat_lines [of "cursor_row vt - VTERM_HEIGHT + 1"] by (auto simp: view_start_def)
  next
    case False
    have le: "VTERM_HEIGHT \<le> view_end vt" "scroll_offset vt \<le> view_end vt - VTERM_HEIGHT"
      using e assms(2) by (auto simp: VTERM_HEIGHT_def word_le_nat_alt unat_sub_le)
    have "unat (view_end vt - VTERM_HEIGHT - scroll_offset vt) \<le> 175"
      using unat_sub_le [OF le(2)] unat_sub_le [OF le(1)] e(1) row by (simp add: VTERM_HEIGHT_def)
    then show ?thesis using False unat_lines by (simp add: view_start_def)
  qed
qed

lemma clamp_ok:
  assumes "vt_ok vt"
  shows "vt_ok (clamp_offset vt)" and "active (clamp_offset vt) = active vt" and "scroll_offset (clamp_offset vt) \<le> max_offset (clamp_offset vt)"
    and "max_offset (clamp_offset vt) = max_offset vt"
proof -
  show m: "max_offset (clamp_offset vt) = max_offset vt" by (simp add: clamp_offset_def max_offset_def view_end_def)
  have "scroll_offset (clamp_offset vt) \<le> max_offset vt" by (simp add: clamp_offset_def not_less)
  then show "scroll_offset (clamp_offset vt) \<le> max_offset (clamp_offset vt)" using m by simp
  show "vt_ok (clamp_offset vt)" "active (clamp_offset vt) = active vt" using assms by (simp_all add: clamp_offset_def vt_ok_def)
qed

text \<open>The start of a scrolled view after clamping is the start of the clamped terminal's view.\<close>

lemma clamped_start:
  assumes "vt_ok vt" and "scroll_offset vt = 0" and "max_offset vt = 0"
  shows "(view_end vt - VTERM_HEIGHT - scroll_offset vt) * VTERM_WIDTH = view_start vt"
proof -
  note e = unat_view_end [OF assms(1)]
  have ve: "view_end vt = VTERM_HEIGHT"
    by (rule unat_word_inj) (use e assms(3) in \<open>simp add: VTERM_HEIGHT_def\<close>)
  then have "unat (cursor_row vt) < 25" using e(1) by (simp add: VTERM_HEIGHT_def)
  then have "\<not> cursor_row vt \<ge> VTERM_HEIGHT" by (simp add: VTERM_HEIGHT_def word_le_nat_alt)
  then show ?thesis using assms(2) ve by (simp add: view_start_def)
qed

lemma refresh_ok:
  assumes inv: "vt_inv s"
  obtains s' where "vterm_refresh s = Some s'" and "vt_inv s'" and "shown s'" and "active_terminal s' = active_terminal s"
    and "alt_pressed s' = alt_pressed s"
proof -
  let ?a = "unat (active_terminal s)"
  let ?old = "terminals s ! ?a"
  let ?vt = "if scroll_offset ?old = 0 then ?old else clamp_offset ?old"
  have a: "?a < 4" "length (terminals s) = 4" and ok: "vt_ok ?old" using inv by (simp_all add: vt_inv_def)
  have vt: "vt_ok ?vt" "active ?vt = active ?old" "scroll_offset ?vt \<le> max_offset ?vt" using ok clamp_ok [OF ok] by simp_all
  have start: "(if scroll_offset ?old = 0 then view_start ?old
      else (view_end ?vt - VTERM_HEIGHT - scroll_offset ?vt) * VTERM_WIDTH) = view_start ?vt"
  proof (cases "scroll_offset ?old = 0")
    case old: False
    let ?c = "clamp_offset ?old"
    have "(view_end ?c - VTERM_HEIGHT - scroll_offset ?c) * VTERM_WIDTH = view_start ?c"
    proof (cases "scroll_offset ?c = 0")
      case True
      have "max_offset ?c = 0" using old True clamp_ok(4) [OF ok] by (auto simp: clamp_offset_def split: if_splits)
      then show ?thesis by (rule clamped_start [OF clamp_ok(1) [OF ok] True])
    qed (simp add: view_start_def)
    then show ?thesis using old by simp
  qed simp
  have fit: "unat (view_start ?vt) + VTERM_VISIBLE_SIZE \<le> length (cells ?vt)"
    using view_start_bound [OF vt(1,3)] vt(1) by (simp add: vt_ok_def VTERM_VISIBLE_SIZE_def)
  let ?s = "s\<lparr>terminals := (terminals s)[?a := ?vt], vga := take VTERM_VISIBLE_SIZE (drop (unat (view_start ?vt)) (cells ?vt)),
    vga_cursor := (if scroll_offset ?vt = 0 then cursor_pos ?vt else 0xFFFF)\<rparr>"
  have "vterm_refresh s = Some ?s" using fit unfolding vterm_refresh_def Let_def start by simp
  moreover have "vt_inv ?s" using inv vt(1,2) a by (auto simp: vt_inv_def nth_list_update)
  moreover have "shown ?s" using a by (simp add: shown_def view_def VTERM_VISIBLE_SIZE_def)
  ultimately show ?thesis using that by simp
qed

lemma put_cell_ok:
  assumes "vt_ok vt"
  obtains vt' where "put_cell v vt = Some vt'" and "vt_ok vt'" and "active vt' = active vt"
    and "cursor_row vt' = cursor_row vt" and "cursor_col vt' = cursor_col vt"
proof -
  have r: "unat (cursor_row vt) < 200" "unat (cursor_col vt) < 80" "length (cells vt) = 16000" using assms by (simp_all add: vt_ok_def)
  have w: "unat (cursor_row vt * VTERM_WIDTH) = unat (cursor_row vt) * 80"
  proof -
    have "unat (cursor_row vt) * unat (80 :: u32) < 2 ^ 32" using r(1) by simp
    then show ?thesis by (simp add: VTERM_WIDTH_def unat_word_ariths)
  qed
  then have "unat (cursor_row vt * VTERM_WIDTH + cursor_col vt) = unat (cursor_row vt) * 80 + unat (cursor_col vt)"
    using r by (simp add: unat_add_no_overflow)
  then have "unat (cursor_row vt * VTERM_WIDTH + cursor_col vt) < 16000" using r by simp
  then show ?thesis using that r by (simp add: put_cell_def Let_def vt_ok_def)
qed

lemma next_row_ok:
  assumes "vt_ok vt"
  shows "vt_ok (next_row vt)" and "active (next_row vt) = active vt"
proof -
  have "cells (vterm_scroll (vt\<lparr>cursor_row := r\<rparr>)) = drop 80 (cells vt) @ replicate 80 (blank (color vt))" for r
    using assms scroll_lines [of "vt\<lparr>cursor_row := r\<rparr>"] by (simp add: vt_ok_def VTERM_BUFFER_SIZE_def)
  then show "vt_ok (next_row vt)"
    using assms unat_row [OF assms]
    by (auto simp: next_row_def vt_ok_def Let_def VTERM_SCROLLBACK_def word_le_nat_alt) (simp add: vterm_scroll_def VTERM_SCROLLBACK_def)+
  show "active (next_row vt) = active vt" by (simp add: next_row_def Let_def vterm_scroll_def)
qed

lemma count_lines_ok: "vt_ok (count_lines vt) = vt_ok vt" "active (count_lines vt) = active vt"
  by (simp_all add: count_lines_def vt_ok_def)

lemma put_char_ok:
  assumes "vt_ok vt"
  obtains vt' where "put_char c vt = Some vt'" and "vt_ok vt'" and "active vt' = active vt"
proof -
  let ?v = "vt\<lparr>scroll_offset := 0\<rparr>"
  have v: "vt_ok ?v" and col: "unat (cursor_col vt) < 80" using assms by (simp_all add: vt_ok_def)
  have set0: "vt_ok (vt'\<lparr>cursor_col := 0\<rparr>)" if "vt_ok (vt'\<lparr>cursor_col := x\<rparr>) \<or> vt_ok vt'" for vt' x
    using that by (auto simp: vt_ok_def)
  have low: "vt_ok (vt'\<lparr>cursor_col := x\<rparr>)" if "vt_ok vt'" "\<not> x \<ge> VTERM_WIDTH" for vt' x
    using that by (simp add: vt_ok_def VTERM_WIDTH_def word_le_nat_alt)
  have wrap: "vt_ok (if x \<ge> VTERM_WIDTH then next_row (vt'\<lparr>cursor_col := 0\<rparr>) else vt'\<lparr>cursor_col := x\<rparr>) \<and>
      active (if x \<ge> VTERM_WIDTH then next_row (vt'\<lparr>cursor_col := 0\<rparr>) else vt'\<lparr>cursor_col := x\<rparr>) = active vt'"
    if "vt_ok vt'" for vt' x
    using next_row_ok [of "vt'\<lparr>cursor_col := 0\<rparr>"] set0 low that by auto
  have "\<exists>vt'. put_char c vt = Some vt' \<and> vt_ok vt' \<and> active vt' = active vt"
  proof (cases "c = 0x08 \<and> cursor_col vt > 0")
    case True
    have "unat (cursor_col vt - 1) < 80" using True col by (simp add: unat_minus_one word_gt_0)
    then have "vt_ok (?v\<lparr>cursor_col := cursor_col vt - 1\<rparr>)" using v by (simp add: vt_ok_def)
    then show ?thesis
      by (rule put_cell_ok [of _ "blank (color vt)"]) (use True in \<open>simp add: put_char_def Let_def\<close>)
  next
    case nb: False
    show ?thesis
    proof (cases "0x20 \<le> c \<and> c < 0x7F")
      case True
      then have "c \<noteq> 0x0A" "c \<noteq> 0x0D" "c \<noteq> 0x08" "c \<noteq> 0x09" by auto
      obtain w where w: "put_cell (vga_entry c (color vt)) ?v = Some w" "vt_ok w" "active w = active ?v"
          "cursor_row w = cursor_row ?v" "cursor_col w = cursor_col ?v"
        by (rule put_cell_ok [OF v])
      have "put_char c vt = Some (count_lines (if cursor_col w + 1 \<ge> VTERM_WIDTH then next_row (w\<lparr>cursor_col := 0\<rparr>)
          else w\<lparr>cursor_col := cursor_col w + 1\<rparr>))"
        using True \<open>c \<noteq> 0x0A\<close> \<open>c \<noteq> 0x0D\<close> \<open>c \<noteq> 0x08\<close> \<open>c \<noteq> 0x09\<close> w(1)
        by (simp add: put_char_def Let_def)
      then show ?thesis using wrap [OF w(2)] w(3) by (simp add: count_lines_ok)
    next
      case False
      then show ?thesis
        using nb v next_row_ok [of "?v\<lparr>cursor_col := 0\<rparr>"] set0 [where vt' = ?v] wrap [OF v, of "(cursor_col vt + 8) AND NOT 7"]
        by (auto simp: put_char_def Let_def count_lines_ok)
    qed
  qed
  then show ?thesis using that by blast
qed

lemma vt_inv_upd:
  assumes "vt_inv s" and "i < 4" and "vt_ok vt" and "active vt = active (terminals s ! i)"
  shows "vt_inv (s\<lparr>terminals := (terminals s)[i := vt]\<rparr>)"
  using assms by (auto simp: vt_inv_def nth_list_update)

lemma shown_other: "shown s \<Longrightarrow> i \<noteq> unat (active_terminal s) \<Longrightarrow> shown (s\<lparr>terminals := (terminals s)[i := vt]\<rparr>)"
  by (simp add: shown_def)

text \<open>The result of an operation: it returns, the terminals are well-formed, the screen is up to date.\<close>

definition good :: "'a vterm_state_scheme option \<Rightarrow> bool" where
  "good r \<longleftrightarrow> (\<exists>s'. r = Some s' \<and> vt_inv s' \<and> shown s')"

lemma refresh_good: "vt_inv s \<Longrightarrow> good (vterm_refresh s)"
  by (rule refresh_ok) (auto simp: good_def)

lemma refresh_if_active_good:
  assumes "vt_inv s" and "i < 4" and "i \<noteq> unat (active_terminal s) \<Longrightarrow> shown s"
  shows "good (refresh_if_active i s)"
proof (cases "i = unat (active_terminal s)")
  case True
  then have "active (terminals s ! i)" using assms(1,2) by (simp add: vt_inv_def)
  then show ?thesis using refresh_good [OF assms(1)] by (simp add: refresh_if_active_def)
next
  case False
  then have "\<not> active (terminals s ! i)" using assms(1,2) by (simp add: vt_inv_def)
  then show ?thesis using assms False by (simp add: refresh_if_active_def good_def)
qed

lemma upd_good:
  assumes "vt_inv s" and "shown s" and "i < 4" and "\<And>vt. vt_ok vt \<Longrightarrow> vt_ok (f vt) \<and> active (f vt) = active vt"
  shows "good (refresh_if_active i (upd_vterm i f s))"
proof (rule refresh_if_active_good [OF _ assms(3)])
  have "vt_ok (terminals s ! i)" using assms(1,3) by (simp add: vt_inv_def)
  then show "vt_inv (upd_vterm i f s)" unfolding upd_vterm_def using assms by (intro vt_inv_upd) auto
  show "shown (upd_vterm i f s)" if "i \<noteq> unat (active_terminal (upd_vterm i f s))"
    using that shown_other [OF assms(2), of i] by (simp add: upd_vterm_def)
qed

section \<open>What the operations leave alone\<close>

text \<open>State that extends the terminals, and the Alt flag, are only touched by the Alt key itself.\<close>

lemma refresh_more: "vterm_refresh s = Some s' \<Longrightarrow> vterm_state.more s' = vterm_state.more s \<and> alt_pressed s' = alt_pressed s"
  by (auto simp: vterm_refresh_def Let_def split: if_splits)

lemma refresh_if_active_more:
  "refresh_if_active i s = Some s' \<Longrightarrow> vterm_state.more s' = vterm_state.more s \<and> alt_pressed s' = alt_pressed s"
  using refresh_more by (auto simp: refresh_if_active_def split: if_splits)

lemma upd_vterm_more [simp]:
  "vterm_state.more (upd_vterm i f s) = vterm_state.more s" "alt_pressed (upd_vterm i f s) = alt_pressed s"
  by (simp_all add: upd_vterm_def)

lemma vterm_switch_more:
  assumes "vterm_switch i s = Some (r, s')"
  shows "vterm_state.more s' = vterm_state.more s \<and> alt_pressed s' = alt_pressed s"
  using assms refresh_more by (fastforce simp: vterm_switch_def Let_def split: if_splits)

lemma vterm_handle_switch_more:
  assumes "vterm_handle_switch scancode s = Some (used, s')"
  shows "vterm_state.more s' = vterm_state.more s" and "scancode \<noteq> 0xB8 \<Longrightarrow> alt_pressed s \<Longrightarrow> alt_pressed s'"
proof -
  have "vterm_state.more s' = vterm_state.more s \<and> (scancode \<noteq> 0xB8 \<longrightarrow> alt_pressed s \<longrightarrow> alt_pressed s')"
    using assms unfolding vterm_handle_switch_def Let_def vterm_get_active_def vterm_scroll_up_def vterm_scroll_down_def
      vterm_scroll_reset_def option.case
    by (auto split: if_split_asm dest!: refresh_more refresh_if_active_more vterm_switch_more)
  then show "vterm_state.more s' = vterm_state.more s" "scancode \<noteq> 0xB8 \<Longrightarrow> alt_pressed s \<Longrightarrow> alt_pressed s'" by auto
qed

section \<open>Runs of operations\<close>

datatype vt_op = PutChar u8 u8 | WriteStr u8 "u8 list" | WriteDec u8 u32 | Clear u8 | SetColor u8 u8 u8 | SetOwner u8 int
  | Switch u8 | ScrollUp u8 u32 | ScrollDown u8 u32 | ScrollReset u8 | Key u8

fun vt_exec :: "vt_op \<Rightarrow> 'a vterm_state_scheme \<Rightarrow> 'a vterm_state_scheme option" where
  "vt_exec (PutChar i c) s = vterm_putchar (vterm_get i) c s"
| "vt_exec (WriteStr i str) s = vterm_write (vterm_get i) str s"
| "vt_exec (WriteDec i n) s = vterm_write_dec (vterm_get i) n s"
| "vt_exec (Clear i) s = vterm_clear (vterm_get i) s"
| "vt_exec (SetColor i fg bg) s = Some (vterm_set_color (vterm_get i) fg bg s)"
| "vt_exec (SetOwner i pid) s = Some (vterm_set_owner i pid s)"
| "vt_exec (Switch i) s = map_option snd (vterm_switch i s)"
| "vt_exec (ScrollUp i n) s = vterm_scroll_up (vterm_get i) n s"
| "vt_exec (ScrollDown i n) s = vterm_scroll_down (vterm_get i) n s"
| "vt_exec (ScrollReset i) s = vterm_scroll_reset (vterm_get i) s"
| "vt_exec (Key scancode) s = map_option snd (vterm_handle_switch scancode s)"

primrec vt_run :: "vt_op list \<Rightarrow> 'a vterm_state_scheme \<Rightarrow> 'a vterm_state_scheme option" where
  "vt_run [] s = Some s"
| "vt_run (op # ops) s = (case vt_exec op s of None \<Rightarrow> None | Some s \<Rightarrow> vt_run ops s)"

lemma vterm_get_Some: "vterm_get i = Some k \<Longrightarrow> k < 4"
  by (simp add: vterm_get_def VTERM_MAX_COUNT_def split: if_splits)

lemma serial_inv [simp]: "vt_inv (serial_write c s) = vt_inv s" "shown (serial_write c s) = shown s"
  "active_terminal (serial_write c s) = active_terminal s"
  by (simp_all add: serial_write_def vt_inv_def shown_def)

lemma good_same: "vt_inv s \<Longrightarrow> shown s \<Longrightarrow> good (Some s)"
  by (simp add: good_def)

lemma putchar_internal_ok:
  assumes "vt_inv s" and "i < 4"
  obtains vt where "put_char c (terminals s ! i) = Some vt" and "vt_inv (s\<lparr>terminals := (terminals s)[i := vt]\<rparr>)"
proof -
  have ok: "vt_ok (terminals s ! i)" using assms by (simp add: vt_inv_def)
  show ?thesis by (rule put_char_ok [OF ok, of c]) (use that vt_inv_upd [OF assms] in blast)
qed

lemma vterm_putchar_good:
  assumes "vt_inv s" and "shown s" and "\<And>i. t = Some i \<Longrightarrow> i < 4"
  shows "good (vterm_putchar t c s)"
proof (cases t)
  case None
  then show ?thesis using assms by (simp add: vterm_putchar_def vterm_putchar_internal_def good_same)
next
  case (Some i)
  let ?s = "serial_write c s"
  have inv: "vt_inv ?s" "shown ?s" "i < 4" using assms Some by simp_all
  obtain vt where vt: "put_char c (terminals ?s ! i) = Some vt" "vt_inv (?s\<lparr>terminals := (terminals ?s)[i := vt]\<rparr>)"
    by (rule putchar_internal_ok [OF inv(1,3)])
  have "good (refresh_if_active i (?s\<lparr>terminals := (terminals ?s)[i := vt]\<rparr>))"
    by (rule refresh_if_active_good [OF vt(2) inv(3)]) (use shown_other [OF inv(2)] in simp)
  then show ?thesis using Some vt(1) by (simp add: vterm_putchar_def vterm_putchar_internal_def Let_def)
qed

lemma vterm_write_loop_ok:
  assumes "vt_inv s" and "i < 4" and "i \<noteq> unat (active_terminal s) \<Longrightarrow> shown s"
  shows "\<exists>s'. vterm_write_loop (Some i) str s = Some s' \<and> vt_inv s' \<and> (i \<noteq> unat (active_terminal s') \<longrightarrow> shown s')"
  using assms(1,3)
proof (induction str arbitrary: s)
  case (Cons c str)
  let ?s = "serial_write c s"
  obtain vt where vt: "put_char c (terminals ?s ! i) = Some vt" "vt_inv (?s\<lparr>terminals := (terminals ?s)[i := vt]\<rparr>)"
    by (rule putchar_internal_ok [of ?s i]) (use Cons.prems assms(2) in simp_all)
  have "shown (?s\<lparr>terminals := (terminals ?s)[i := vt]\<rparr>)" if "i \<noteq> unat (active_terminal s)"
    by (rule shown_other) (use that Cons.prems(2) in simp_all)
  then show ?case
    using Cons.IH [OF vt(2)] vt(1) by (simp add: vterm_putchar_internal_def Let_def)
qed simp

lemma vterm_write_good:
  assumes "vt_inv s" and "shown s" and "\<And>i. t = Some i \<Longrightarrow> i < 4"
  shows "good (vterm_write t str s)"
proof (cases t)
  case None
  then show ?thesis using assms by (simp add: vterm_write_def good_same)
next
  case (Some i)
  then have i: "i < 4" using assms(3) by simp
  obtain s' where s': "vterm_write_loop t str s = Some s'" "vt_inv s'" "i \<noteq> unat (active_terminal s') \<longrightarrow> shown s'"
    using vterm_write_loop_ok [OF assms(1) i, of str] assms(2) Some by blast
  then show ?thesis using refresh_if_active_good [OF s'(2) i] Some by (simp add: vterm_write_def)
qed

lemma vterm_switch_good:
  assumes "vt_inv s" and "shown s"
  shows "good (map_option snd (vterm_switch i s))"
proof -
  let ?a = "unat (active_terminal s)"
  let ?s = "upd_vterm (unat i) (\<lambda>vt. vt\<lparr>active := True\<rparr>) ((upd_vterm ?a (\<lambda>vt. vt\<lparr>active := False\<rparr>) s)\<lparr>active_terminal := i\<rparr>)"
  have "vt_inv ?s" if "unat i < 4" "i \<noteq> active_terminal s"
  proof -
    have "unat i \<noteq> ?a" using that(2) unat_word_inj by blast
    then show ?thesis using assms(1) that(1) by (auto simp: vt_inv_def upd_vterm_def nth_list_update vt_ok_def)
  qed
  then have "good (vterm_refresh ?s)" if "unat i < 4" "i \<noteq> active_terminal s" using that by (intro refresh_good) blast
  then show ?thesis
    using assms by (auto simp: vterm_switch_def VTERM_MAX_COUNT_def Let_def good_same option.map_comp comp_def option.map_ident)
qed

lemma vterm_handle_switch_good:
  assumes "vt_inv s" and "shown s"
  shows "good (map_option snd (vterm_handle_switch scancode s))"
proof -
  let ?a = "unat (active_terminal s)"
  have a: "?a < 4" using assms(1) by (simp add: vt_inv_def)
  have alt: "vt_inv (s\<lparr>alt_pressed := b\<rparr>) \<and> shown (s\<lparr>alt_pressed := b\<rparr>)" for b
    using assms by (simp add: vt_inv_def shown_def)
  have pair: "map_option snd (map_option (Pair b) r) = r" for b :: bool and r :: "'a vterm_state_scheme option" by (cases r) simp_all
  have up: "good (vterm_scroll_up (Some ?a) n s)" for n
    unfolding vterm_scroll_up_def option.case
    by (rule upd_good [OF assms a]) (use clamp_ok in \<open>auto simp: vt_ok_def\<close>)
  have down: "good (vterm_scroll_down (Some ?a) n s)" for n
    unfolding vterm_scroll_down_def option.case by (rule upd_good [OF assms a]) (auto simp: vt_ok_def)
  have reset: "good (vterm_scroll_reset (Some ?a) s)"
    unfolding vterm_scroll_reset_def option.case by (rule upd_good [OF assms a]) (auto simp: vt_ok_def)
  have "vt_inv (upd_vterm ?a (\<lambda>vt. vt\<lparr>scroll_offset := max_offset vt\<rparr>) s)"
    unfolding upd_vterm_def by (rule vt_inv_upd [OF assms(1) a]) (use assms(1) a in \<open>auto simp: vt_inv_def vt_ok_def\<close>)
  then have home: "good (vterm_refresh (upd_vterm ?a (\<lambda>vt. vt\<lparr>scroll_offset := max_offset vt\<rparr>) s))" by (rule refresh_good)
  have sw: "good (map_option snd (map_option (\<lambda>(_, s). (True, s)) (vterm_switch n s)))" for n
  proof -
    have "map_option snd (map_option (\<lambda>(_, s). (True, s)) r) = map_option snd r" for r :: "(int \<times> 'a vterm_state_scheme) option"
      by (cases r) auto
    then show ?thesis using vterm_switch_good [OF assms] by simp
  qed
  show ?thesis
    using up down reset home sw good_same [OF assms] alt
    by (simp add: vterm_handle_switch_def vterm_get_active_def Let_def pair good_same)
qed

lemma vt_exec_good:
  assumes "vt_inv s" and "shown s"
  shows "good (vt_exec op s)"
proof -
  have get: "k < 4" if "vterm_get i = Some k" for i k by (rule vterm_get_Some [OF that])
  have set: "good (Some (upd_vterm i f s))" if "i < 4" "\<And>vt. vt_ok vt \<Longrightarrow> vt_ok (f vt)"
    "\<And>vt. active (f vt) = active vt \<and> cells (f vt) = cells vt \<and> view_start (f vt) = view_start vt" for i f
  proof (rule good_same)
    have "vt_ok (terminals s ! i)" using assms(1) that(1) by (simp add: vt_inv_def)
    then show "vt_inv (upd_vterm i f s)" unfolding upd_vterm_def using that by (intro vt_inv_upd [OF assms(1)]) auto
    show "shown (upd_vterm i f s)"
      using assms that(1,3) by (cases "i = unat (active_terminal s)") (simp_all add: shown_def upd_vterm_def view_def vt_inv_def)
  qed
  show ?thesis
  proof (cases op)
    case (PutChar i c)
    then show ?thesis using vterm_putchar_good [OF assms] get by simp
  next
    case (WriteStr i str)
    then show ?thesis using vterm_write_good [OF assms] get by simp
  next
    case (WriteDec i n)
    then show ?thesis
      using vterm_write_good [OF assms, of "vterm_get i"] vterm_putchar_good [OF assms, of "vterm_get i"] get good_same [OF assms]
      by (auto simp: vterm_write_dec_def)
  next
    case (Clear i)
    then show ?thesis
      using get [of i] good_same [OF assms]
      by (auto simp: vterm_clear_def vt_ok_def VTERM_BUFFER_SIZE_def intro!: upd_good [OF assms] split: option.split)
  next
    case (SetColor i fg bg)
    then show ?thesis using get [of i] good_same [OF assms]
      by (auto simp: vterm_set_color_def vt_ok_def view_start_def view_end_def intro!: set split: option.split)
  next
    case (SetOwner i pid)
    then show ?thesis using good_same [OF assms]
      by (auto simp: vterm_set_owner_def VTERM_MAX_COUNT_def vt_ok_def view_start_def view_end_def intro!: set)
  next
    case (Switch i)
    then show ?thesis using vterm_switch_good [OF assms] by simp
  next
    case (ScrollUp i n)
    then show ?thesis
      using get [of i] good_same [OF assms] clamp_ok
      by (auto simp: vterm_scroll_up_def vt_ok_def intro!: upd_good [OF assms] split: option.split)
  next
    case (ScrollDown i n)
    then show ?thesis
      using get [of i] good_same [OF assms]
      by (auto simp: vterm_scroll_down_def vt_ok_def intro!: upd_good [OF assms] split: option.split)
  next
    case (ScrollReset i)
    then show ?thesis
      using get [of i] good_same [OF assms]
      by (auto simp: vterm_scroll_reset_def vt_ok_def intro!: upd_good [OF assms] split: option.split)
  next
    case (Key scancode)
    then show ?thesis using vterm_handle_switch_good [OF assms] by simp
  qed
qed

text \<open>
  C22: After \<open>vterm_init\<close>, every sequence of terminal operations and switch keys returns without leaving a buffer;
  every cursor stays inside its terminal, exactly the shown terminal is marked active, and the VGA
  memory holds the 25 lines of the active terminal that its cursor and scroll position select.
\<close>

theorem vterm_runs_safe:
  "\<exists>s1. vterm_init s = Some s1 \<and> (\<forall>ops. \<exists>s'. vt_run ops s1 = Some s' \<and> vt_inv s' \<and>
     vga s' = view (terminals s' ! unat (active_terminal s')))"
proof -
  let ?s0 = "s\<lparr>terminals := map init_vterm [0..<VTERM_MAX_COUNT], active_terminal := 0\<rparr>"
  have "vt_inv ?s0" by (simp add: vt_inv_def VTERM_MAX_COUNT_def init_vterm_def vt_ok_def VTERM_BUFFER_SIZE_def)
  then obtain s1 where s1: "vterm_init s = Some s1" "vt_inv s1" "shown s1"
    using refresh_good [of ?s0] by (auto simp: vterm_init_def good_def)
  have "\<exists>s'. vt_run ops t = Some s' \<and> vt_inv s' \<and> shown s'" if "vt_inv t" "shown t" for ops and t :: "'a vterm_state_scheme"
    using that
  proof (induction ops arbitrary: t)
    case (Cons op ops)
    obtain t' where t': "vt_exec op t = Some t'" "vt_inv t'" "shown t'"
      using vt_exec_good [OF Cons.prems, of op] by (auto simp: good_def)
    then show ?case using Cons.IH [OF t'(2,3)] by simp
  qed simp
  then show ?thesis using s1 unfolding shown_def by blast
qed

theorem vterm_scroll_lines_witness:
  "cells (vterm_scroll (init_vterm 1)) = replicate 16000 (blank 7)"
proof -
  have "length (cells (init_vterm 1)) = VTERM_BUFFER_SIZE" by (simp add: init_vterm_def)
  from vterm_scroll_lines [OF this] show ?thesis
    by (simp add: init_vterm_def vga_entry_color_def VTERM_BUFFER_SIZE_def flip: replicate_add)
qed

end
