(* ===== verification/Keyboard.thy ===== *)
theory Keyboard
  imports Vterm Interfaces
begin

text \<open>
  \<^verbatim>\<open>kernel/drivers/input/keyboard.c\<close>: the keyboard interrupt handler, which turns scancodes into
  characters or passes them to the terminals, and the ring buffer between the handler and the readers.
  The byte read from the keyboard port is the argument of the handler. Waiting in \<open>keyboard_getchar\<close> is a
  result \<^term>\<open>None\<close>.
\<close>

section \<open>State\<close>

record kbd_state = vterm_state +
  key_buffer :: "u8 list"
  buffer_head :: u32
  buffer_tail :: u32
  shift_pressed :: bool
  extended_scancode :: bool

definition KEYBOARD_BUFFER_SIZE :: u32 where "KEYBOARD_BUFFER_SIZE = 256"
definition KEY_ARROW_UP :: u8 where "KEY_ARROW_UP = 0x80"
definition KEY_ARROW_DOWN :: u8 where "KEY_ARROW_DOWN = 0x81"
definition KEY_ARROW_LEFT :: u8 where "KEY_ARROW_LEFT = 0x82"
definition KEY_HOME :: u8 where "KEY_HOME = 0x84"
definition KEY_END :: u8 where "KEY_END = 0x85"

definition scancode_ascii :: "u8 list" where
  "scancode_ascii =
    [0, 27, 49, 50, 51, 52, 53, 54, 55, 56, 57, 48, 45, 61, 8,
     9, 113, 119, 101, 114, 116, 121, 117, 105, 111, 112, 91, 93, 10, 0,
     97, 115, 100, 102, 103, 104, 106, 107, 108, 59, 39, 96, 0, 92, 122,
     120, 99, 118, 98, 110, 109, 44, 46, 47, 0, 42, 0, 32, 0]"

definition scancode_shift :: "u8 list" where
  "scancode_shift =
    [0, 27, 33, 64, 35, 36, 37, 94, 38, 42, 40, 41, 95, 43, 8,
     9, 81, 87, 69, 82, 84, 89, 85, 73, 79, 80, 123, 125, 10, 0,
     65, 83, 68, 70, 71, 72, 74, 75, 76, 58, 34, 126, 0, 124, 90,
     88, 67, 86, 66, 78, 77, 60, 62, 63, 0, 42, 0, 32, 0]"

section \<open>The ring buffer\<close>

text \<open>Storing a key; \<^term>\<open>None\<close> when the buffer is full and the key is dropped.\<close>

definition key_put :: "u8 \<Rightarrow> 'a kbd_state_scheme \<Rightarrow> 'a kbd_state_scheme option" where
  "key_put c s =
     (let next_tail = (buffer_tail s + 1) mod KEYBOARD_BUFFER_SIZE in
      if next_tail \<noteq> buffer_head s
      then Some (s\<lparr>key_buffer := (key_buffer s)[unat (buffer_tail s) := c], buffer_tail := next_tail\<rparr>)
      else None)"

definition key_store :: "u8 \<Rightarrow> 'a kbd_state_scheme \<Rightarrow> 'a kbd_state_scheme" where
  "key_store c s = (case key_put c s of None \<Rightarrow> s | Some s' \<Rightarrow> s')"

definition keyboard_has_data :: "'a kbd_state_scheme \<Rightarrow> bool" where
  "keyboard_has_data s \<longleftrightarrow> buffer_head s \<noteq> buffer_tail s"

definition keyboard_getchar :: "'a kbd_state_scheme \<Rightarrow> (u8 \<times> 'a kbd_state_scheme) option" where
  "keyboard_getchar s =
     (if buffer_head s = buffer_tail s then None
      else Some (key_buffer s ! unat (buffer_head s),
             s\<lparr>buffer_head := (buffer_head s + 1) mod KEYBOARD_BUFFER_SIZE\<rparr>))"

definition keyboard_init :: "'a kbd_state_scheme \<Rightarrow> 'a kbd_state_scheme" where
  "keyboard_init s = s\<lparr>buffer_head := 0, buffer_tail := 0\<rparr>"

section \<open>The interrupt handler\<close>

definition special_key :: "u8 \<Rightarrow> u8" where
  "special_key scancode =
     (if scancode = 0x48 then KEY_ARROW_UP
      else if scancode = 0x50 then KEY_ARROW_DOWN
      else if scancode = 0x4B then KEY_ARROW_LEFT
      else if scancode = 0x47 then KEY_HOME
      else if scancode = 0x4F then KEY_END
      else 0)"

definition ascii_key :: "u8 \<Rightarrow> bool \<Rightarrow> u8" where
  "ascii_key scancode shift =
     (if unat scancode < length scancode_ascii
      then (if shift then scancode_shift else scancode_ascii) ! unat scancode else 0)"

definition keyboard_callback :: "u8 \<Rightarrow> 'a kbd_state_scheme \<Rightarrow> 'a kbd_state_scheme option" where
  "keyboard_callback scancode s =
     (if scancode = 0xE0 then Some (s\<lparr>extended_scancode := True\<rparr>)
      else if scancode = 0x2A \<or> scancode = 0x36 then Some (s\<lparr>shift_pressed := True, extended_scancode := False\<rparr>)
      else if scancode = 0xAA \<or> scancode = 0xB6 then Some (s\<lparr>shift_pressed := False, extended_scancode := False\<rparr>)
      else if scancode AND 0x80 \<noteq> 0 then Some (s\<lparr>extended_scancode := False\<rparr>)
      else let ext = extended_scancode s; s = s\<lparr>extended_scancode := False\<rparr> in
        if ext \<and> special_key scancode \<noteq> 0 then Some (key_store (special_key scancode) s)
        else case vterm_handle_switch scancode s of
          None \<Rightarrow> None
        | Some (used, s) \<Rightarrow>
            Some (if used then s
                  else let c = ascii_key scancode (shift_pressed s) in if c \<noteq> 0 then key_store c s else s))"

section \<open>The buffer is a queue\<close>

definition pending :: "'a kbd_state_scheme \<Rightarrow> u8 list" where
  "pending s = ring_contents (key_buffer s) (unat (buffer_head s)) (unat (buffer_tail s))"

definition kbd_ok :: "'a kbd_state_scheme \<Rightarrow> bool" where
  "kbd_ok s \<longleftrightarrow> length (key_buffer s) = 256 \<and> unat (buffer_head s) < 256 \<and> unat (buffer_tail s) < 256"

lemma unat_next_key: "unat i < 256 \<Longrightarrow> unat ((i + 1) mod KEYBOARD_BUFFER_SIZE) = Suc (unat i) mod 256"
  by (simp add: KEYBOARD_BUFFER_SIZE_def unat_mod_distrib unat_add_no_overflow)

lemma key_put_full: "kbd_ok s \<Longrightarrow> key_put c s = None \<longleftrightarrow> length (pending s) = 255"
proof -
  assume ok: "kbd_ok s"
  have "(buffer_tail s + 1) mod KEYBOARD_BUFFER_SIZE = buffer_head s \<longleftrightarrow> Suc (unat (buffer_tail s)) mod 256 = unat (buffer_head s)"
    using unat_next_key [of "buffer_tail s"] ok unat_word_inj by (metis kbd_ok_def)
  then show ?thesis
    using ring_full_iff [of "unat (buffer_head s)" "key_buffer s" "unat (buffer_tail s)"] ok
    by (simp add: key_put_def Let_def pending_def kbd_ok_def)
qed

lemma key_put_ok:
  assumes ok: "kbd_ok s" and p: "key_put c s = Some s'"
  shows "kbd_ok s' \<and> pending s' = pending s @ [c]"
proof -
  have ne: "(buffer_tail s + 1) mod KEYBOARD_BUFFER_SIZE \<noteq> buffer_head s"
    and s': "s' = s\<lparr>key_buffer := (key_buffer s)[unat (buffer_tail s) := c], buffer_tail := (buffer_tail s + 1) mod KEYBOARD_BUFFER_SIZE\<rparr>"
    using p by (auto simp: key_put_def Let_def split: if_splits)
  have n: "unat ((buffer_tail s + 1) mod KEYBOARD_BUFFER_SIZE) = Suc (unat (buffer_tail s)) mod 256"
    using unat_next_key ok by (simp add: kbd_ok_def)
  then have "Suc (unat (buffer_tail s)) mod length (key_buffer s) \<noteq> unat (buffer_head s)"
    using ne ok unat_word_inj by (metis kbd_ok_def)
  then show ?thesis
    using ring_enqueue [of "unat (buffer_head s)" "key_buffer s" "unat (buffer_tail s)" c] ok n
    by (simp add: s' kbd_ok_def pending_def)
qed

lemma key_get_empty: "kbd_ok s \<Longrightarrow> keyboard_getchar s = None \<longleftrightarrow> pending s = []"
  using ring_empty_iff [of "unat (buffer_head s)" "key_buffer s" "unat (buffer_tail s)"] unat_word_inj [of "buffer_head s" "buffer_tail s"]
  by (auto simp: keyboard_getchar_def pending_def kbd_ok_def)

lemma key_get_ok:
  assumes ok: "kbd_ok s" and g: "keyboard_getchar s = Some (c, s')"
  shows "kbd_ok s' \<and> pending s = c # pending s'"
proof -
  have ne: "buffer_head s \<noteq> buffer_tail s" and s': "c = key_buffer s ! unat (buffer_head s)"
      "s' = s\<lparr>buffer_head := (buffer_head s + 1) mod KEYBOARD_BUFFER_SIZE\<rparr>"
    using g by (auto simp: keyboard_getchar_def split: if_splits)
  have n: "unat ((buffer_head s + 1) mod KEYBOARD_BUFFER_SIZE) = Suc (unat (buffer_head s)) mod 256"
    using unat_next_key ok by (simp add: kbd_ok_def)
  have "unat (buffer_head s) \<noteq> unat (buffer_tail s)" using ne unat_word_inj by blast
  then show ?thesis
    using ring_dequeue [of "unat (buffer_head s)" "key_buffer s" "unat (buffer_tail s)"] ok n
    by (simp add: s' kbd_ok_def pending_def)
qed

lemma pending_within: "kbd_ok s \<Longrightarrow> length (pending s) \<le> 255"
  using mod_less_divisor [of 256 "unat (buffer_tail s) + 256 - unat (buffer_head s)"]
  by (simp add: pending_def kbd_ok_def ring_length)

interpretation keys: bounded_fifo key_put keyboard_getchar pending kbd_ok 255
  by (unfold_locales; (rule key_put_full key_put_ok key_get_empty key_get_ok pending_within; assumption))

section \<open>Typing and reading\<close>

text \<open>The key a scancode stands for, if it stands for one and the terminals do not take it.\<close>

definition key_code :: "u8 \<Rightarrow> 'a kbd_state_scheme \<Rightarrow> u8 list" where
  "key_code scancode s =
     (if scancode = 0xE0 \<or> scancode = 0x2A \<or> scancode = 0x36 \<or> scancode AND 0x80 \<noteq> 0 then []
      else if extended_scancode s \<and> special_key scancode \<noteq> 0 then [special_key scancode]
      else case vterm_handle_switch scancode (s\<lparr>extended_scancode := False\<rparr>) of
        Some (False, _) \<Rightarrow> let c = ascii_key scancode (shift_pressed s) in if c \<noteq> 0 then [c] else []
      | _ \<Rightarrow> [])"

definition kbd_inv :: "'a kbd_state_scheme \<Rightarrow> bool" where
  "kbd_inv s \<longleftrightarrow> kbd_ok s \<and> vt_inv s \<and> shown s"

lemma kbd_inv_flags [simp]:
  "kbd_inv (s\<lparr>extended_scancode := b\<rparr>) = kbd_inv s" "kbd_inv (s\<lparr>shift_pressed := b\<rparr>) = kbd_inv s"
  "pending (s\<lparr>extended_scancode := b\<rparr>) = pending s" "pending (s\<lparr>shift_pressed := b\<rparr>) = pending s"
  by (simp_all add: kbd_inv_def kbd_ok_def vt_inv_def shown_def pending_def)

lemma more_keys:
  assumes "vterm_state.more s' = vterm_state.more s"
  shows "kbd_ok s' = kbd_ok s" and "pending s' = pending s" and "shift_pressed s' = shift_pressed s"
  using assms by (cases s; cases s'; simp add: kbd_ok_def pending_def)+

lemma key_store_ok:
  assumes "kbd_inv s"
  shows "kbd_inv (key_store c s)" and "pending (key_store c s) = pending s @ (if length (pending s) < 255 then [c] else [])"
proof -
  have ok: "kbd_ok s" and v: "vt_inv s" "shown s" using assms by (simp_all add: kbd_inv_def)
  show "kbd_inv (key_store c s)"
    using assms keys.enq_ok [OF ok] v
    by (auto simp: key_store_def kbd_inv_def split: option.split)
      (auto simp: key_put_def Let_def vt_inv_def shown_def split: if_splits)
  show "pending (key_store c s) = pending s @ (if length (pending s) < 255 then [c] else [])"
    using keys.enq_ok [OF ok] keys.enq_full [OF ok, of c] keys.within_cap [OF ok]
    by (auto simp: key_store_def split: option.split)
qed

lemma callback_step:
  assumes inv: "kbd_inv s"
  shows "\<exists>s'. keyboard_callback scancode s = Some s' \<and> kbd_inv s' \<and>
    pending s' = pending s @ (if length (pending s) < 255 then key_code scancode s else [])"
proof -
  let ?s = "s\<lparr>extended_scancode := False\<rparr>"
  have v: "vt_inv ?s" "shown ?s" using inv by (simp_all add: kbd_inv_def vt_inv_def shown_def)
  obtain used s1 where h: "vterm_handle_switch scancode ?s = Some (used, s1)" and i1: "vt_inv s1" "shown s1"
    using vterm_handle_switch_good [OF v, of scancode] by (auto simp: good_def)
  note m = more_keys [OF vterm_handle_switch_more(1) [OF h]]
  have inv1: "kbd_inv s1" using i1 m(1) inv by (simp add: kbd_inv_def kbd_ok_def)
  have p1: "pending s1 = pending s" "shift_pressed s1 = shift_pressed s" using m(2,3) by simp_all
  show ?thesis
    using inv h inv1 p1 key_store_ok [OF inv1] key_store_ok [of ?s]
    by (auto simp: keyboard_callback_def key_code_def Let_def split: if_splits)
qed

datatype kbd_event = Scan u8 | Read

text \<open>
  A run of interrupts and reads: the keys accepted into the buffer, the keys read, and the last state. A
  read with nothing to read waits and returns nothing.
\<close>

fun kbd_run :: "kbd_event list \<Rightarrow> 'a kbd_state_scheme \<Rightarrow> (u8 list \<times> u8 list \<times> 'a kbd_state_scheme) option" where
  "kbd_run [] s = Some ([], [], s)"
| "kbd_run (Scan c # es) s =
     (case keyboard_callback c s of
        None \<Rightarrow> None
      | Some s' \<Rightarrow> map_option (\<lambda>(i, out, t). ((if length (pending s) < 255 then key_code c s else []) @ i, out, t)) (kbd_run es s'))"
| "kbd_run (Read # es) s =
     (case keyboard_getchar s of
        None \<Rightarrow> kbd_run es s
      | Some (c, s') \<Rightarrow> map_option (\<lambda>(i, out, t). (i, c # out, t)) (kbd_run es s'))"


text \<open>
  Releasing Alt has no effect. The handler drops every scancode with the release bit before it asks the
  terminals, which wait for the release code of Alt: once Alt was pressed it counts as pressed for
  ever, whatever is typed or read afterwards.
\<close>

theorem alt_never_released:
  assumes "alt_pressed s" and "kbd_run es s = Some (i, out, t)"
  shows "alt_pressed t"
  using assms
proof (induction es s arbitrary: i out rule: kbd_run.induct)
  case (2 c es s)
  obtain s' i' out' where s': "keyboard_callback c s = Some s'" "kbd_run es s' = Some (i', out', t)"
    using 2(3) by (auto split: option.splits)
  have store: "alt_pressed (key_store k u) = alt_pressed u" for k and u :: "'a kbd_state_scheme"
    by (simp add: key_store_def key_put_def Let_def split: option.split)
  have rel: "c \<noteq> 0xB8" if "c AND 0x80 = 0" using that by auto
  have "alt_pressed s'"
    using s'(1) 2(2) vterm_handle_switch_more(2) [of c "s\<lparr>extended_scancode := False\<rparr>"] rel
    by (auto simp: keyboard_callback_def Let_def store split: if_splits option.splits)
  then show ?case using 2(1) [OF s'(1)] s'(2) by blast
next
  case (3 es s)
  then show ?case by (auto simp: keyboard_getchar_def split: if_splits option.splits)
qed simp

definition kbd_demo :: kbd_state where
  "kbd_demo = \<lparr>terminals = map init_vterm [0..<4], active_terminal = 0, vga = view (init_vterm 0), vga_cursor = 0,
     alt_pressed = False, serial_out = [], key_buffer = replicate 256 0, buffer_head = 0, buffer_tail = 0,
     shift_pressed = False, extended_scancode = False\<rparr>"

lemma kbd_demo_inv: "kbd_inv kbd_demo" "pending kbd_demo = []"
  by (simp_all add: kbd_inv_def kbd_ok_def vt_inv_def shown_def kbd_demo_def vt_ok_def init_vterm_def VTERM_BUFFER_SIZE_def
      pending_def ring_contents_def)


theorem alt_never_released_witness:
  "\<exists>i out t. kbd_run [Scan 0xB8] (kbd_demo\<lparr>alt_pressed := True\<rparr>) = Some (i, out, t) \<and> alt_pressed t"
proof -
  have r: "keyboard_callback 0xB8 (kbd_demo\<lparr>alt_pressed := True\<rparr>) =
      Some (kbd_demo\<lparr>alt_pressed := True, extended_scancode := False\<rparr>)"
    by (simp add: keyboard_callback_def)
  obtain i out t where "kbd_run [Scan 0xB8] (kbd_demo\<lparr>alt_pressed := True\<rparr>) = Some (i, out, t)" by (auto simp: r)
  moreover from alt_never_released [OF _ this] have "alt_pressed t" by simp
  ultimately show ?thesis by blast
qed

end
