(* ===== verification/Ports.thy ===== *)
theory Ports
  imports Prelude
begin

text \<open>
  The port instructions of \<^verbatim>\<open>kernel/arch/i686/arch.h\<close>. The hardware behind the ports is a parameter of every
  driver: a record with the effect of each instruction on the state of the devices, whose type is left open.
\<close>

record 'd ports =
  p_out :: "u16 \<Rightarrow> u8 \<Rightarrow> 'd \<Rightarrow> 'd"
  p_in :: "u16 \<Rightarrow> 'd \<Rightarrow> u8 \<times> 'd"
  p_outw :: "u16 \<Rightarrow> u16 \<Rightarrow> 'd \<Rightarrow> 'd"
  p_inw :: "u16 \<Rightarrow> 'd \<Rightarrow> u16 \<times> 'd"
  p_outl :: "u16 \<Rightarrow> u32 \<Rightarrow> 'd \<Rightarrow> 'd"
  p_inl :: "u16 \<Rightarrow> 'd \<Rightarrow> u32 \<times> 'd"

definition io_wait :: "'d ports \<Rightarrow> 'd \<Rightarrow> 'd" where
  "io_wait io d = p_out io 0x80 0 d"

end
