(* ===== verification/Rtc.thy ===== *)
theory Rtc
  imports Ports
begin

text \<open>
  \<^verbatim>\<open>kernel/drivers/char/rtc.c\<close>: the driver of the CMOS real-time clock. The hardware behind the ports is a
  parameter. Log calls and the registration of the interrupt handler are left out.
\<close>

section \<open>Registers\<close>

definition RTC_NMI_DISABLE :: u8 where "RTC_NMI_DISABLE = 0x80"
definition IO_DELAY_PORT :: u16 where "IO_DELAY_PORT = 0x80"
definition PIC1_DATA :: u16 where "PIC1_DATA = 0x21"
definition PIC2_DATA :: u16 where "PIC2_DATA = 0xA1"
definition RTC_PORT_INDEX :: u16 where "RTC_PORT_INDEX = 0x79"
definition RTC_PORT_DATA :: u16 where "RTC_PORT_DATA = 0x71"
definition RTC_REG_SECONDS :: u8 where "RTC_REG_SECONDS = 0x00"
definition RTC_REG_MINUTES :: u8 where "RTC_REG_MINUTES = 0x02"
definition RTC_REG_HOURS :: u8 where "RTC_REG_HOURS = 0x04"
definition RTC_REG_WEEKDAY :: u8 where "RTC_REG_WEEKDAY = 0x06"
definition RTC_REG_DAY :: u8 where "RTC_REG_DAY = 0x07"
definition RTC_REG_MONTH :: u8 where "RTC_REG_MONTH = 0x08"
definition RTC_REG_YEAR :: u8 where "RTC_REG_YEAR = 0x09"
definition RTC_REG_CENTURY :: u8 where "RTC_REG_CENTURY = 0x32"
definition RTC_REG_STATUS_A :: u8 where "RTC_REG_STATUS_A = 0x0A"
definition RTC_REG_STATUS_B :: u8 where "RTC_REG_STATUS_B = 0x0B"
definition RTC_REG_STATUS_C :: u8 where "RTC_REG_STATUS_C = 0x0C"
definition RTC_STATUS_B_24HOUR :: u8 where "RTC_STATUS_B_24HOUR = 0x02"
definition RTC_STATUS_B_BINARY :: u8 where "RTC_STATUS_B_BINARY = 0x04"
definition RTC_STATUS_B_PIE :: u8 where "RTC_STATUS_B_PIE = 0x40"

record rtc_time =
  second :: u8
  minute :: u8
  hour :: u8
  day :: u8
  month :: u8
  year :: u16
  weekday :: u8

definition rtc_io_delay :: "'d ports \<Rightarrow> 'd \<Rightarrow> 'd" where
  "rtc_io_delay io d = p_out io IO_DELAY_PORT 0 d"

definition rtc_select_register_nmi :: "'d ports \<Rightarrow> u8 \<Rightarrow> 'd \<Rightarrow> 'd" where
  "rtc_select_register_nmi io reg d = rtc_io_delay io (p_out io RTC_PORT_INDEX (reg OR RTC_NMI_DISABLE) d)"

definition rtc_read_register :: "'d ports \<Rightarrow> u8 \<Rightarrow> 'd \<Rightarrow> u8 \<times> 'd" where
  "rtc_read_register io reg d = p_in io RTC_PORT_DATA (rtc_select_register_nmi io reg d)"

definition rtc_write_register :: "'d ports \<Rightarrow> u8 \<Rightarrow> u8 \<Rightarrow> 'd \<Rightarrow> 'd" where
  "rtc_write_register io reg v d = rtc_io_delay io (p_out io RTC_PORT_DATA v (rtc_select_register_nmi io reg d))"

definition bcd_to_binary :: "u8 \<Rightarrow> u8" where
  "bcd_to_binary bcd = drop_bit 4 bcd * 10 + (bcd AND 0x0F)"

definition binary_to_bcd :: "u8 \<Rightarrow> u8" where
  "binary_to_bcd b = push_bit 4 (b div 10) OR b mod 10"

definition rtc_is_updating :: "'d ports \<Rightarrow> 'd \<Rightarrow> bool \<times> 'd" where
  "rtc_is_updating io d = (let (a, d) = rtc_read_register io RTC_REG_STATUS_A d in (a AND 0x80 \<noteq> 0, d))"

primrec rtc_wait_uip_clear :: "'d ports \<Rightarrow> nat \<Rightarrow> 'd \<Rightarrow> bool \<times> 'd" where
  "rtc_wait_uip_clear io 0 d = (False, d)"
| "rtc_wait_uip_clear io (Suc n) d =
     (let (busy, d) = rtc_is_updating io d in
      if \<not> busy then (True, d) else rtc_wait_uip_clear io n (rtc_io_delay io d))"

definition rtc_interrupt_handler :: "'d ports \<Rightarrow> u32 \<times> 'd \<Rightarrow> u32 \<times> 'd" where
  "rtc_interrupt_handler io s = (case s of (rtc_ticks, d) \<Rightarrow> (rtc_ticks + 1, snd (rtc_read_register io RTC_REG_STATUS_C d)))"

definition rtc_unmask_irq :: "'d ports \<Rightarrow> 'd \<Rightarrow> 'd" where
  "rtc_unmask_irq io d =
     (let (mask2, d) = p_in io PIC2_DATA d; d = p_out io PIC2_DATA (mask2 AND NOT 1) d;
          (mask1, d) = p_in io PIC1_DATA d
      in p_out io PIC1_DATA (mask1 AND NOT 4) d)"

section \<open>Reading the time\<close>

text \<open>Reading registers one after the other, and the order in which the time is read.\<close>

primrec read_regs :: "'d ports \<Rightarrow> u8 list \<Rightarrow> 'd \<Rightarrow> u8 list \<times> 'd" where
  "read_regs io [] d = ([], d)"
| "read_regs io (r # rs) d =
     (let (v, d) = rtc_read_register io r d; (vs, d) = read_regs io rs d in (v # vs, d))"

definition time_regs :: "u8 list" where
  "time_regs = [RTC_REG_SECONDS, RTC_REG_MINUTES, RTC_REG_HOURS, RTC_REG_DAY, RTC_REG_MONTH, RTC_REG_YEAR, RTC_REG_WEEKDAY]"

definition decode :: "bool \<Rightarrow> u8 \<Rightarrow> u8" where
  "decode binary_mode v = (if binary_mode then v else bcd_to_binary v)"

definition decode_century :: "bool \<Rightarrow> u8 \<Rightarrow> u8" where
  "decode_century binary_mode c = (if \<not> binary_mode \<and> c \<noteq> 0xFF then bcd_to_binary c else c)"

definition full_year :: "u8 \<Rightarrow> u8 \<Rightarrow> u16" where
  "full_year y century = ucast y + (if century \<noteq> 0 \<and> century \<noteq> 0xFF then ucast century * 100 else 2000)"

definition make_time :: "u8 list \<Rightarrow> u8 \<Rightarrow> rtc_time" where
  "make_time vs century = \<lparr>second = vs ! 0, minute = vs ! 1, hour = vs ! 2, day = vs ! 3, month = vs ! 4,
     year = full_year (vs ! 5) century, weekday = vs ! 6\<rparr>"

text \<open>
  Up to five attempts to read the clock twice with the same result; then one more reading, whose week day
  is not decoded.
\<close>

primrec read_attempts :: "'d ports \<Rightarrow> nat \<Rightarrow> 'd \<Rightarrow> rtc_time \<times> 'd" where
  "read_attempts io 0 d =
     (let (status_b, d) = rtc_read_register io RTC_REG_STATUS_B d;
          binary_mode = (status_b AND RTC_STATUS_B_BINARY \<noteq> 0);
          (vs, d) = read_regs io time_regs d;
          (century, d) = rtc_read_register io RTC_REG_CENTURY d
      in ((make_time (map (decode binary_mode) vs) (decode_century binary_mode century))\<lparr>weekday := vs ! 6\<rparr>, d))"
| "read_attempts io (Suc n) d =
     (let d = snd (rtc_wait_uip_clear io 20000 d);
          (status_b, d) = rtc_read_register io RTC_REG_STATUS_B d;
          binary_mode = (status_b AND RTC_STATUS_B_BINARY \<noteq> 0);
          (as, d) = read_regs io time_regs d;
          (century, d) = rtc_read_register io RTC_REG_CENTURY d;
          (bs, d) = read_regs io time_regs d;
          as = map (decode binary_mode) as; bs = map (decode binary_mode) bs
      in if take 6 as = take 6 bs then (make_time as (decode_century binary_mode century), d)
         else read_attempts io n d)"

definition rtc_read_time :: "'d ports \<Rightarrow> 'd \<Rightarrow> rtc_time \<times> 'd" where
  "rtc_read_time io d = read_attempts io 5 d"

section \<open>Setting the time\<close>

definition encode :: "bool \<Rightarrow> u8 \<Rightarrow> u8" where
  "encode binary_mode v = (if binary_mode then v else binary_to_bcd v)"

definition write_regs :: "'d ports \<Rightarrow> (u8 \<times> u8) list \<Rightarrow> 'd \<Rightarrow> 'd" where
  "write_regs io rvs d = fold (\<lambda>(r, v). rtc_write_register io r v) rvs d"

definition rtc_write_time :: "'d ports \<Rightarrow> rtc_time \<Rightarrow> 'd \<Rightarrow> 'd" where
  "rtc_write_time io t d =
     (let (status_b, d) = rtc_read_register io RTC_REG_STATUS_B d;
          binary_mode = (status_b AND RTC_STATUS_B_BINARY \<noteq> 0);
          enc = encode binary_mode;
          (prev_b, d) = rtc_read_register io RTC_REG_STATUS_B d;
          d = rtc_io_delay io (rtc_write_register io RTC_REG_STATUS_B (prev_b OR 0x80) d);
          d = write_regs io
            [(RTC_REG_SECONDS, enc (second t)), (RTC_REG_MINUTES, enc (minute t)), (RTC_REG_HOURS, enc (hour t)),
             (RTC_REG_DAY, enc (day t)), (RTC_REG_MONTH, enc (month t)), (RTC_REG_YEAR, enc (ucast (year t mod 100))),
             (RTC_REG_CENTURY, enc (ucast (year t div 100)))] d
      in rtc_write_register io RTC_REG_STATUS_B (prev_b AND NOT 0x80) d)"

section \<open>Periodic interrupts and initialisation\<close>

definition rtc_enable_periodic_interrupt :: "'d ports \<Rightarrow> u8 \<Rightarrow> 'd \<Rightarrow> 'd" where
  "rtc_enable_periodic_interrupt io rate d =
     (if rate < 3 \<or> rate > 15 then d
      else let d = rtc_unmask_irq io d;
               (prev_a, d) = rtc_read_register io RTC_REG_STATUS_A d;
               d = rtc_write_register io RTC_REG_STATUS_A ((prev_a AND 0xF0) OR (rate AND 0x0F)) d;
               (prev_b, d) = rtc_read_register io RTC_REG_STATUS_B d
           in rtc_write_register io RTC_REG_STATUS_B (prev_b OR RTC_STATUS_B_PIE) d)"

definition rtc_disable_periodic_interrupt :: "'d ports \<Rightarrow> 'd \<Rightarrow> 'd" where
  "rtc_disable_periodic_interrupt io d =
     (let (prev_b, d) = rtc_read_register io RTC_REG_STATUS_B d
      in rtc_write_register io RTC_REG_STATUS_B (prev_b AND NOT RTC_STATUS_B_PIE) d)"

definition rtc_init :: "'d ports \<Rightarrow> 'd \<Rightarrow> 'd" where
  "rtc_init io d =
     (let (status_b, d) = rtc_read_register io RTC_REG_STATUS_B d;
          d = rtc_write_register io RTC_REG_STATUS_B (status_b OR RTC_STATUS_B_24HOUR) d
      in snd (rtc_read_time io (rtc_unmask_irq io d)))"

definition rtc_get_ticks :: "u32 \<times> 'd \<Rightarrow> u32" where
  "rtc_get_ticks s = fst s"

section \<open>The clock chip\<close>

text \<open>
  The documented behaviour of the clock, with its index at a port: a write to the index port selects a
  register (the top bit masks interrupts), the data port reads and writes the selected register, other
  ports have no effect on it. The clock does not tick meanwhile. Status register C is excluded, as reading it
  acknowledges interrupts.
\<close>

definition clock_chip :: "u16 \<Rightarrow> 'd ports \<Rightarrow> ('d \<Rightarrow> u8 \<Rightarrow> u8) \<Rightarrow> ('d \<Rightarrow> u8) \<Rightarrow> bool" where
  "clock_chip port io reg sel \<longleftrightarrow>
     (\<forall>d v. sel (p_out io port v d) = v AND 0x7F \<and> reg (p_out io port v d) = reg d) \<and>
     (\<forall>d. sel d \<noteq> RTC_REG_STATUS_C \<longrightarrow> p_in io RTC_PORT_DATA d = (reg d (sel d), d)) \<and>
     (\<forall>d v. sel (p_out io RTC_PORT_DATA v d) = sel d \<and> reg (p_out io RTC_PORT_DATA v d) = (reg d)(sel d := v)) \<and>
     (\<forall>q d v. q \<noteq> port \<longrightarrow> q \<noteq> RTC_PORT_DATA \<longrightarrow> sel (p_out io q v d) = sel d \<and> reg (p_out io q v d) = reg d)"

lemma clock_chipD:
  assumes "clock_chip port io reg sel"
  shows "sel (p_out io port v d) = v AND 0x7F" and "reg (p_out io port v d) = reg d"
    and "sel d \<noteq> RTC_REG_STATUS_C \<Longrightarrow> p_in io RTC_PORT_DATA d = (reg d (sel d), d)"
    and "sel (p_out io RTC_PORT_DATA v d) = sel d" and "reg (p_out io RTC_PORT_DATA v d) = (reg d)(sel d := v)"
    and "q \<noteq> port \<Longrightarrow> q \<noteq> RTC_PORT_DATA \<Longrightarrow> sel (p_out io q v d) = sel d"
    and "q \<noteq> port \<Longrightarrow> q \<noteq> RTC_PORT_DATA \<Longrightarrow> reg (p_out io q v d) = reg d"
  using assms by (auto simp: clock_chip_def)

text \<open>The registers that the driver selects.\<close>

definition reg_no :: "u8 \<Rightarrow> bool" where
  "reg_no r \<longleftrightarrow> (r OR 0x80) AND 0x7F = r \<and> r \<noteq> RTC_REG_STATUS_C"

lemmas rtc_regs = RTC_REG_SECONDS_def RTC_REG_MINUTES_def RTC_REG_HOURS_def RTC_REG_WEEKDAY_def RTC_REG_DAY_def
  RTC_REG_MONTH_def RTC_REG_YEAR_def RTC_REG_CENTURY_def RTC_REG_STATUS_A_def RTC_REG_STATUS_B_def RTC_REG_STATUS_C_def

lemma driver_regs [simp]: "\<forall>r \<in> set time_regs. reg_no r" "reg_no RTC_REG_CENTURY" "reg_no RTC_REG_STATUS_A"
  "reg_no RTC_REG_STATUS_B"
  by (simp_all add: reg_no_def time_regs_def rtc_regs)

lemma rtc_ports [simp]: "IO_DELAY_PORT \<noteq> RTC_PORT_INDEX" "IO_DELAY_PORT \<noteq> RTC_PORT_DATA" "RTC_PORT_DATA \<noteq> RTC_PORT_INDEX"
  "RTC_PORT_INDEX \<noteq> RTC_PORT_DATA"
  by (simp_all add: IO_DELAY_PORT_def RTC_PORT_INDEX_def RTC_PORT_DATA_def)

lemma select_register:
  assumes "clock_chip RTC_PORT_INDEX io reg sel" and "reg_no r"
  shows "sel (rtc_select_register_nmi io r d) = r" and "reg (rtc_select_register_nmi io r d) = reg d"
  using assms(2) clock_chipD [OF assms(1)]
  by (simp_all add: rtc_select_register_nmi_def rtc_io_delay_def RTC_NMI_DISABLE_def reg_no_def)

lemma read_register:
  assumes "clock_chip RTC_PORT_INDEX io reg sel" and "reg_no r"
  obtains d' where "rtc_read_register io r d = (reg d r, d')" and "reg d' = reg d"
  using that [of "rtc_select_register_nmi io r d"] clock_chipD(3) [OF assms(1)] select_register [OF assms] assms(2)
  by (simp add: rtc_read_register_def reg_no_def)

lemma write_register:
  assumes "clock_chip RTC_PORT_INDEX io reg sel" and "reg_no r"
  shows "reg (rtc_write_register io r v d) = (reg d)(r := v)"
  using select_register [OF assms] clock_chipD [OF assms(1)]
  by (simp add: rtc_write_register_def rtc_io_delay_def)

lemma read_regs_values:
  assumes "clock_chip RTC_PORT_INDEX io reg sel" and "\<forall>r \<in> set rs. reg_no r"
  shows "\<exists>d'. read_regs io rs d = (map (reg d) rs, d') \<and> reg d' = reg d"
  using assms(2)
proof (induction rs arbitrary: d)
  case (Cons r rs)
  obtain d1 where d1: "rtc_read_register io r d = (reg d r, d1)" "reg d1 = reg d"
    by (rule read_register [OF assms(1)]) (use Cons.prems in auto)
  obtain d2 where "read_regs io rs d1 = (map (reg d1) rs, d2)" "reg d2 = reg d1" using Cons by fastforce
  then show ?case using d1 by simp
qed simp

lemma wait_uip_same:
  assumes "clock_chip RTC_PORT_INDEX io reg sel"
  shows "reg (snd (rtc_wait_uip_clear io n d)) = reg d"
proof (induction n arbitrary: d)
  case (Suc n)
  obtain d1 where d1: "rtc_read_register io RTC_REG_STATUS_A d = (reg d RTC_REG_STATUS_A, d1)" "reg d1 = reg d"
    by (rule read_register [OF assms driver_regs(3)])
  have "reg (rtc_io_delay io d1) = reg d1" using clock_chipD(7) [OF assms] by (simp add: rtc_io_delay_def)
  then show ?case using d1 Suc.IH [of "rtc_io_delay io d1"] by (simp add: rtc_is_updating_def)
qed simp

definition binary_clock :: "(u8 \<Rightarrow> u8) \<Rightarrow> bool" where
  "binary_clock f \<longleftrightarrow> f RTC_REG_STATUS_B AND RTC_STATUS_B_BINARY \<noteq> 0"

text \<open>A clock that stands still is read correctly at the first attempt.\<close>

lemma rtc_read_time_value:
  assumes "clock_chip RTC_PORT_INDEX io reg sel"
  shows "fst (rtc_read_time io d) =
    make_time (map (\<lambda>r. decode (binary_clock (reg d)) (reg d r)) time_regs)
      (decode_century (binary_clock (reg d)) (reg d RTC_REG_CENTURY))"
proof -
  define d0 where "d0 = snd (rtc_wait_uip_clear io 20000 d)"
  have r0: "reg d0 = reg d" unfolding d0_def by (rule wait_uip_same [OF assms])
  obtain d1 where d1: "rtc_read_register io RTC_REG_STATUS_B d0 = (reg d RTC_REG_STATUS_B, d1)" "reg d1 = reg d"
    by (rule read_register [OF assms, of RTC_REG_STATUS_B d0]) (simp_all add: r0)
  obtain d2 where d2: "read_regs io time_regs d1 = (map (reg d) time_regs, d2)" "reg d2 = reg d"
    using read_regs_values [OF assms driver_regs(1), of d1] d1(2) by auto
  obtain d3 where d3: "rtc_read_register io RTC_REG_CENTURY d2 = (reg d RTC_REG_CENTURY, d3)" "reg d3 = reg d"
    by (rule read_register [OF assms, of RTC_REG_CENTURY d2]) (simp_all add: d2)
  obtain d4 where d4: "read_regs io time_regs d3 = (map (reg d) time_regs, d4)"
    using read_regs_values [OF assms driver_regs(1), of d3] d3(2) by auto
  have five: "(5 :: nat) = Suc 4" by simp
  show ?thesis
    unfolding rtc_read_time_def five read_attempts.simps(2) d0_def [symmetric]
    by (simp add: Let_def d1 d2 d3 d4 binary_clock_def comp_def del: read_attempts.simps)
qed

section \<open>Setting and reading the time\<close>

lemma bcd_round_trip:
  assumes "b < 100"
  shows "bcd_to_binary (binary_to_bcd b) = b" and "binary_to_bcd b \<noteq> 0xFF"
proof -
  have all: "\<forall>n \<in> set [0..<100]. bcd_to_binary (binary_to_bcd (of_nat n)) = of_nat n \<and> binary_to_bcd (of_nat n) \<noteq> 0xFF"
    by code_simp
  have "unat b \<in> set [0..<100]" using assms by (simp add: word_less_nat_alt del: upt_rec_numeral)
  then have "bcd_to_binary (binary_to_bcd (of_nat (unat b))) = of_nat (unat b) \<and> binary_to_bcd (of_nat (unat b)) \<noteq> 0xFF"
    using all by blast
  then show "bcd_to_binary (binary_to_bcd b) = b" "binary_to_bcd b \<noteq> 0xFF" by simp_all
qed

lemma decode_encode: "v < 100 \<Longrightarrow> decode m (encode m v) = v"
  by (simp add: decode_def encode_def bcd_round_trip)

lemma decode_encode_century: "c < 100 \<Longrightarrow> decode_century m (encode m c) = c"
  by (auto simp: decode_century_def encode_def bcd_round_trip)

lemma year_parts:
  fixes y :: u16
  assumes "100 \<le> y" and "y < 10000"
  shows "(ucast (y mod 100) :: u8) < 100" and "(ucast (y div 100) :: u8) < 100"
    and "full_year (ucast (y mod 100)) (ucast (y div 100)) = y"
proof -
  define n where "n = unat y"
  have n: "100 \<le> n" "n < 10000" using assms by (simp_all add: n_def word_le_nat_alt word_less_nat_alt)
  have m: "unat (ucast (y mod 100) :: u8) = n mod 100"
    by (simp add: unsigned_ucast_eq unat_mod take_bit_eq_mod n_def)
  have q: "unat (ucast (y div 100) :: u8) = n div 100"
    using n by (simp add: unsigned_ucast_eq unat_div take_bit_eq_mod n_def [symmetric])
  have up: "unat (ucast w :: u16) = unat w" for w :: u8
  proof -
    have "unat w < 2 ^ LENGTH(8)" by (rule unsigned_less)
    then have "unat w < 2 ^ 16" by simp
    then show ?thesis by (simp only: unsigned_ucast_eq) (simp add: take_bit_eq_mod)
  qed
  show "(ucast (y mod 100) :: u8) < 100" "(ucast (y div 100) :: u8) < 100"
    using m q n by (simp_all add: word_less_nat_alt)
  have "n div 100 \<noteq> 0" "n div 100 \<noteq> 255" using n by auto
  then have "(ucast (y div 100) :: u8) \<noteq> 0" "(ucast (y div 100) :: u8) \<noteq> 0xFF" using q by auto
  then have "full_year (ucast (y mod 100)) (ucast (y div 100)) =
      ucast (ucast (y mod 100) :: u8) + ucast (ucast (y div 100) :: u8) * 100"
    by (simp add: full_year_def)
  also have "ucast (ucast (y mod 100) :: u8) = y mod 100"
    by (rule unat_word_inj) (simp add: up m unat_mod n_def)
  also have "ucast (ucast (y div 100) :: u8) = y div 100"
    by (rule unat_word_inj) (simp add: up q unat_div n_def)
  also have "y mod 100 + y div 100 * 100 = y" by (metis add.commute div_mult_mod_eq)
  finally show "full_year (ucast (y mod 100)) (ucast (y div 100)) = y" .
qed

text \<open>The registers after the time was set.\<close>

lemma rtc_write_time_regs:
  assumes "clock_chip RTC_PORT_INDEX io reg sel"
  shows "reg (rtc_write_time io t d) = (let enc = encode (binary_clock (reg d)) in
    (reg d)(RTC_REG_SECONDS := enc (second t), RTC_REG_MINUTES := enc (minute t), RTC_REG_HOURS := enc (hour t),
      RTC_REG_DAY := enc (day t), RTC_REG_MONTH := enc (month t), RTC_REG_YEAR := enc (ucast (year t mod 100)),
      RTC_REG_CENTURY := enc (ucast (year t div 100)), RTC_REG_STATUS_B := reg d RTC_REG_STATUS_B AND NOT 0x80))"
proof -
  obtain d1 where d1: "rtc_read_register io RTC_REG_STATUS_B d = (reg d RTC_REG_STATUS_B, d1)" "reg d1 = reg d"
    by (rule read_register [OF assms driver_regs(4)])
  obtain d2 where d2: "rtc_read_register io RTC_REG_STATUS_B d1 = (reg d RTC_REG_STATUS_B, d2)" "reg d2 = reg d"
    by (rule read_register [OF assms driver_regs(4), of d1]) (simp add: d1)
  have "reg (rtc_io_delay io x) = reg x" for x using clock_chipD(7) [OF assms] by (simp add: rtc_io_delay_def)
  moreover have "reg_no RTC_REG_SECONDS" "reg_no RTC_REG_MINUTES" "reg_no RTC_REG_HOURS" "reg_no RTC_REG_DAY" "reg_no RTC_REG_MONTH"
    "reg_no RTC_REG_YEAR" using driver_regs(1) by (simp_all add: time_regs_def)
  ultimately show ?thesis
    by (simp add: rtc_write_time_def d1 d2 write_regs_def write_register [OF assms] binary_clock_def Let_def)
qed


section \<open>The index port of a PC\<close>

text \<open>
  On a PC the index port of the clock is 0x70. The driver writes the register number to 0x79 instead, so
  no register is ever selected and each access goes to the register that was selected before.
\<close>

lemma unselected_read:
  assumes "clock_chip 0x70 io reg sel" and "sel d \<noteq> RTC_REG_STATUS_C"
  obtains d' where "rtc_read_register io r d = (reg d (sel d), d')" and "reg d' = reg d" and "sel d' = sel d"
proof -
  have port: "RTC_PORT_INDEX \<noteq> 0x70" "IO_DELAY_PORT \<noteq> 0x70" by (simp_all add: RTC_PORT_INDEX_def IO_DELAY_PORT_def)
  let ?d = "rtc_select_register_nmi io r d"
  have "reg ?d = reg d" "sel ?d = sel d"
    using clock_chipD(6,7) [OF assms(1)] port by (simp_all add: rtc_select_register_nmi_def rtc_io_delay_def)
  then show ?thesis
    using that [of ?d] clock_chipD(3) [OF assms(1), of ?d] assms(2) by (simp add: rtc_read_register_def)
qed

lemma unselected_reads:
  assumes "clock_chip 0x70 io reg sel" and "sel d \<noteq> RTC_REG_STATUS_C"
  shows "\<exists>d'. read_regs io rs d = (replicate (length rs) (reg d (sel d)), d') \<and> reg d' = reg d \<and> sel d' = sel d"
  using assms(2)
proof (induction rs arbitrary: d)
  case (Cons r rs)
  obtain d1 where d1: "rtc_read_register io r d = (reg d (sel d), d1)" "reg d1 = reg d" "sel d1 = sel d"
    by (rule unselected_read [OF assms(1) Cons.prems])
  then obtain d2 where "read_regs io rs d1 = (replicate (length rs) (reg d (sel d)), d2)" "reg d2 = reg d" "sel d2 = sel d"
    using Cons.IH [of d1] Cons.prems by auto
  then show ?case using d1 by simp
qed simp

lemma unselected_wait:
  assumes "clock_chip 0x70 io reg sel" and "sel d \<noteq> RTC_REG_STATUS_C"
  shows "reg (snd (rtc_wait_uip_clear io n d)) = reg d \<and> sel (snd (rtc_wait_uip_clear io n d)) = sel d"
  using assms(2)
proof (induction n arbitrary: d)
  case (Suc n)
  obtain d1 where d1: "rtc_read_register io RTC_REG_STATUS_A d = (reg d (sel d), d1)" "reg d1 = reg d" "sel d1 = sel d"
    by (rule unselected_read [OF assms(1) Suc.prems])
  have "IO_DELAY_PORT \<noteq> 0x70" by (simp add: IO_DELAY_PORT_def)
  then have "reg (rtc_io_delay io d1) = reg d1" "sel (rtc_io_delay io d1) = sel d1"
    using clock_chipD(6,7) [OF assms(1)] by (simp_all add: rtc_io_delay_def)
  then show ?case using d1 Suc.IH [of "rtc_io_delay io d1"] Suc.prems by (simp add: rtc_is_updating_def)
qed simp

text \<open>
  C39: On a clock whose index is at port 0x70, as in a PC, \<^verbatim>\<open>rtc_read_time\<close> returns the same number for the
  second, minute, hour, day, month and week day: the one register that happens to be selected.
\<close>
theorem rtc_index_port_misses:
  assumes "clock_chip 0x70 io reg sel" and "sel d \<noteq> RTC_REG_STATUS_C"
  shows "\<exists>v. v = decode (reg d (sel d) AND RTC_STATUS_B_BINARY \<noteq> 0) (reg d (sel d)) \<and>
    (let t = fst (rtc_read_time io d) in
     second t = v \<and> minute t = v \<and> hour t = v \<and> day t = v \<and> month t = v \<and> weekday t = v)"
proof -
  define d0 where "d0 = snd (rtc_wait_uip_clear io 20000 d)"
  let ?v = "reg d (sel d)"
  have r0: "reg d0 = reg d" "sel d0 = sel d" using unselected_wait [OF assms] by (simp_all add: d0_def)
  obtain d1 where d1: "rtc_read_register io RTC_REG_STATUS_B d0 = (?v, d1)" "reg d1 = reg d" "sel d1 = sel d"
    by (rule unselected_read [OF assms(1), of d0 RTC_REG_STATUS_B]) (use r0 assms(2) in simp_all)
  obtain d2 where d2: "read_regs io time_regs d1 = (replicate (length time_regs) ?v, d2)" "reg d2 = reg d" "sel d2 = sel d"
    using unselected_reads [OF assms(1), of d1 time_regs] d1 assms(2) by auto
  obtain d3 where d3: "rtc_read_register io RTC_REG_CENTURY d2 = (?v, d3)" "reg d3 = reg d" "sel d3 = sel d"
    by (rule unselected_read [OF assms(1), of d2 RTC_REG_CENTURY]) (use d2 assms(2) in simp_all)
  obtain d4 where d4: "read_regs io time_regs d3 = (replicate (length time_regs) ?v, d4)"
    using unselected_reads [OF assms(1), of d3 time_regs] d3 assms(2) by auto
  have five: "(5 :: nat) = Suc 4" and len: "length time_regs = 7" by (simp_all add: time_regs_def)
  show ?thesis
    unfolding rtc_read_time_def five read_attempts.simps(2) d0_def [symmetric]
    by (simp add: Let_def d1 d2 d3 d4 make_time_def len del: read_attempts.simps)
qed

section \<open>Examples\<close>

text \<open>A clock chip: its registers and the number of the selected one.\<close>

definition chip_at :: "u16 \<Rightarrow> ((u8 \<Rightarrow> u8) \<times> u8) ports" where
  "chip_at port = \<lparr>p_out = (\<lambda>q v (f, i). if q = port then (f, v AND 0x7F) else if q = 0x71 then (f(i := v), i) else (f, i)),
     p_in = (\<lambda>q (f, i). (if q = 0x71 then f i else 0xFF, (f, i))),
     p_outw = (\<lambda>_ _ d. d), p_inw = (\<lambda>_ d. (0xFFFF, d)), p_outl = (\<lambda>_ _ d. d), p_inl = (\<lambda>_ d. (0xFFFFFFFF, d))\<rparr>"

lemma chip_at_ok: "port \<noteq> 0x71 \<Longrightarrow> clock_chip port (chip_at port) fst snd"
  by (auto simp: clock_chip_def chip_at_def RTC_PORT_DATA_def)


theorem rtc_index_port_misses_witness:
  "let t = fst (rtc_read_time (chip_at 0x70) (\<lambda>r. r, 0x08)) in month t = 8 \<and> day t = 8 \<and> second t = 8"
proof -
  have chip: "clock_chip 0x70 (chip_at 0x70) fst snd" by (rule chip_at_ok) simp
  show ?thesis
    using rtc_index_port_misses [OF chip, where d = "(\<lambda>r. r, 0x08)"]
    by (simp add: Let_def RTC_REG_STATUS_C_def RTC_STATUS_B_BINARY_def decode_def bcd_to_binary_def)
qed

end
