(* ===== verification/Fs_Tree.thy ===== *)
theory Fs_Tree
  imports Fs
begin

text \<open>
  The node table of \<^verbatim>\<open>kernel/fs/fs.c\<close> is a tree: every node in use hangs below the root, names are unique in
  a directory, sizes are in bounds. The operations keep it so, with one exception: nothing stops the
  removal of the current directory.
\<close>

section \<open>Searching the table\<close>

lemma first_node_neg: "first_node P nodes < 0 \<longleftrightarrow> (\<forall>i<64. \<not> P (nodes ! i))"
  by (auto simp: first_node_def FS_MAX_FILES_def find_None_iff split: option.split)
    (auto simp: find_Some_iff)

lemma first_node_int:
  "first_node P nodes = int i \<longleftrightarrow> i < 64 \<and> P (nodes ! i) \<and> (\<forall>j<i. \<not> P (nodes ! j))"
proof (cases "List.find (\<lambda>i. P (nodes ! i)) [0..<64]")
  case None
  then have "first_node P nodes = -1" by (simp add: first_node_def FS_MAX_FILES_def)
  then show ?thesis using first_node_neg [of P nodes] by auto
next
  case (Some k)
  then have k: "k < 64" "P (nodes ! k)" "\<forall>j<k. \<not> P (nodes ! j)" by (auto simp: find_Some_iff)
  have "first_node P nodes = int k" using Some by (simp add: first_node_def FS_MAX_FILES_def)
  then show ?thesis using k by (auto) (metis linorder_neqE_nat)
qed

lemma first_node_cases:
  obtains "first_node P nodes = -1" and "\<forall>i<64. \<not> P (nodes ! i)"
  | i where "first_node P nodes = int i" and "i < 64" and "P (nodes ! i)" and "\<forall>j<i. \<not> P (nodes ! j)"
proof (cases "List.find (\<lambda>i. P (nodes ! i)) [0..<64]")
  case None
  then have "first_node P nodes = -1" by (simp add: first_node_def FS_MAX_FILES_def)
  then show ?thesis using that(1) first_node_neg [of P nodes] by simp
next
  case (Some k)
  then have "first_node P nodes = int k" by (simp add: first_node_def FS_MAX_FILES_def)
  then show ?thesis using that(2) [of k] first_node_int [of P nodes k] by simp
qed

section \<open>The tree\<close>

definition is_dir :: "fs_node list \<Rightarrow> u32 \<Rightarrow> bool" where
  "is_dir nodes i \<longleftrightarrow> unat i < 64 \<and> fused (nodes ! unat i) \<and> ftype (nodes ! unat i) = FS_TYPE_DIR"

text \<open>A node in use, the root aside.\<close>

definition node_ok :: "fs_node list \<Rightarrow> fs_node \<Rightarrow> bool" where
  "node_ok nodes n \<longleftrightarrow> fname n \<noteq> [] \<and> length (fname n) < FS_MAX_NAME \<and> CHR ''/'' \<notin> set (fname n) \<and>
     is_dir nodes (parent_idx n) \<and> (ftype n = FS_TYPE_FILE \<or> ftype n = FS_TYPE_DIR)"

definition sizes_ok :: "fs_node \<Rightarrow> bool" where
  "sizes_ok n \<longleftrightarrow> fsize n \<le> FS_MAX_FILE_SIZE \<and> length (fdata n) = 4096"

text \<open>The parents of a node lead to the root.\<close>

inductive rooted :: "fs_node list \<Rightarrow> u32 \<Rightarrow> bool" for nodes where
  root: "rooted nodes 0"
| up: "i \<noteq> 0 \<Longrightarrow> rooted nodes (parent_idx (nodes ! unat i)) \<Longrightarrow> rooted nodes i"

definition tree_wf :: "fs_node list \<Rightarrow> bool" where
  "tree_wf nodes \<longleftrightarrow> length nodes = 64 \<and> is_dir nodes 0 \<and> fname (nodes ! 0) = ''/'' \<and> parent_idx (nodes ! 0) = 0 \<and>
     (\<forall>i<64. sizes_ok (nodes ! i)) \<and> (\<forall>i<64. 0 < i \<longrightarrow> fused (nodes ! i) \<longrightarrow> node_ok nodes (nodes ! i)) \<and>
     (\<forall>i<64. \<forall>j<64. 0 < i \<longrightarrow> 0 < j \<longrightarrow> fused (nodes ! i) \<longrightarrow> fused (nodes ! j) \<longrightarrow>
        parent_idx (nodes ! i) = parent_idx (nodes ! j) \<longrightarrow> fname (nodes ! i) = fname (nodes ! j) \<longrightarrow> i = j) \<and>
     (\<forall>i<64. fused (nodes ! i) \<longrightarrow> rooted nodes (of_nat i))"

definition fs_inv :: "'a fs_state_scheme \<Rightarrow> bool" where
  "fs_inv s \<longleftrightarrow> tree_wf (fs_nodes s) \<and> is_dir (fs_nodes s) (cwd_idx s)"

lemma tree_wfD:
  assumes "tree_wf nodes"
  shows "length nodes = 64" and "is_dir nodes 0" and "fname (nodes ! 0) = ''/''" and "parent_idx (nodes ! 0) = 0"
    and "\<And>i. i < 64 \<Longrightarrow> sizes_ok (nodes ! i)" and "\<And>i. i < 64 \<Longrightarrow> 0 < i \<Longrightarrow> fused (nodes ! i) \<Longrightarrow> node_ok nodes (nodes ! i)"
    and "\<And>i j. i < 64 \<Longrightarrow> j < 64 \<Longrightarrow> 0 < i \<Longrightarrow> 0 < j \<Longrightarrow> fused (nodes ! i) \<Longrightarrow> fused (nodes ! j) \<Longrightarrow>
      parent_idx (nodes ! i) = parent_idx (nodes ! j) \<Longrightarrow> fname (nodes ! i) = fname (nodes ! j) \<Longrightarrow> i = j"
    and "\<And>i. i < 64 \<Longrightarrow> fused (nodes ! i) \<Longrightarrow> rooted nodes (of_nat i)"
  using assms by (simp_all add: tree_wf_def)

lemma parent_dir:
  assumes "tree_wf nodes" and "unat i < 64" and "fused (nodes ! unat i)"
  shows "is_dir nodes (parent_idx (nodes ! unat i))"
proof (cases "unat i = 0")
  case True
  then show ?thesis using tree_wfD(2,4) [OF assms(1)] by simp
next
  case False
  then show ?thesis using tree_wfD(6) [OF assms(1,2)] assms(3) by (simp add: node_ok_def)
qed

lemma dir_parent: "tree_wf nodes \<Longrightarrow> is_dir nodes d \<Longrightarrow> is_dir nodes (parent_idx (nodes ! unat d))"
  by (rule parent_dir) (simp_all add: is_dir_def)

text \<open>A name that can be looked up has no slash; the node found is then the only one with that name.\<close>

lemma find_iff:
  assumes "tree_wf nodes" and "CHR ''/'' \<notin> set nm"
  shows "find_node_in_dir nodes d nm = int i \<longleftrightarrow>
    0 < i \<and> i < 64 \<and> fused (nodes ! i) \<and> parent_idx (nodes ! i) = d \<and> fname (nodes ! i) = nm"
proof -
  have z: "fname (nodes ! 0) \<noteq> nm" using assms tree_wfD(3) [OF assms(1)] by auto
  have u: "j = i" if "j < i" "i < 64" "fused (nodes ! j)" "parent_idx (nodes ! j) = d" "fname (nodes ! j) = nm"
    "fused (nodes ! i)" "parent_idx (nodes ! i) = d" "fname (nodes ! i) = nm" for j
    using that z tree_wfD(7) [OF assms(1), of j i] by (metis less_trans neq0_conv)
  show ?thesis unfolding find_node_in_dir_def first_node_int using z u by (metis nat_neq_iff neq0_conv)
qed

lemma find_neg_iff:
  "find_node_in_dir nodes d nm < 0 \<longleftrightarrow> (\<forall>i<64. \<not> (fused (nodes ! i) \<and> parent_idx (nodes ! i) = d \<and> fname (nodes ! i) = nm))"
  by (simp add: find_node_in_dir_def first_node_neg)

lemma find_cases:
  obtains "find_node_in_dir nodes d nm = -1" | i where "find_node_in_dir nodes d nm = int i" and "i < 64"
proof (rule first_node_cases [of "\<lambda>n. fused n \<and> parent_idx n = d \<and> fname n = nm" nodes])
qed (use that in \<open>simp_all add: find_node_in_dir_def\<close>)

lemma find_used:
  assumes "tree_wf nodes" and "CHR ''/'' \<notin> set nm" and "0 \<le> find_node_in_dir nodes d nm"
  obtains i where "find_node_in_dir nodes d nm = int i" and "0 < i" and "i < 64" and "fused (nodes ! i)"
    and "parent_idx (nodes ! i) = d" and "fname (nodes ! i) = nm" and "unat (of_int (int i) :: u32) = i"
proof (rule find_cases [of nodes d nm])
  assume "find_node_in_dir nodes d nm = -1"
  then show ?thesis using assms(3) by simp
next
  fix i
  assume i: "find_node_in_dir nodes d nm = int i" "i < 64"
  then show ?thesis using that [of i] find_iff [OF assms(1,2), of d i] by (simp add: unat_of_nat_small)
qed

section \<open>Paths\<close>

lemma next_component_name:
  "CHR ''/'' \<notin> set (fst (next_component n token))" "length (fst (next_component n token)) \<le> n - 1"
  by (auto simp: next_component_def dest: in_set_takeD set_takeWhileD)

lemma name_part_name: "CHR ''/'' \<notin> set (name_part p)"
  by (auto simp: name_part_def dest: set_takeWhileD)

text \<open>Every directory a path leads through is a directory of the tree.\<close>

lemma walk_dir:
  assumes "tree_wf nodes" and "is_dir nodes current" and "walk nodes current token = Some c"
  shows "is_dir nodes c"
  using assms
proof (induction nodes current token rule: walk.induct)
  case (1 nodes current token)
  let ?c = "fst (next_component FS_MAX_NAME token)"
  have up: "is_dir nodes (parent_idx (nodes ! unat current))" using 1 dir_parent [of nodes current] by simp
  have down: "is_dir nodes (of_int (find_node_in_dir nodes current ?c))"
    if f: "\<not> (find_node_in_dir nodes current ?c < 0 \<or> ftype (nodes ! nat (find_node_in_dir nodes current ?c)) \<noteq> FS_TYPE_DIR)"
  proof -
    obtain i where i: "find_node_in_dir nodes current ?c = int i" "i < 64" "fused (nodes ! i)" "unat (of_int (int i) :: u32) = i"
      by (rule find_used [OF 1(5) next_component_name(1)]) (use f in auto)
    then show ?thesis using f by (simp add: is_dir_def)
  qed
  show ?case
    using 1(5-7) 1(1) [OF _ refl refl] 1(2) [OF _ refl refl] 1(3) [OF _ refl refl] 1(4) [OF _ refl refl _ _ _ refl] up down
    by (subst (asm) walk.simps) (simp add: Let_def split: if_splits)
qed

lemma resolve_path_ok:
  assumes "fs_inv s" and "resolve_path path s = Inr (parent, base)"
  shows "is_dir (fs_nodes s) parent" and "CHR ''/'' \<notin> set base" and "length base < FS_MAX_NAME"
proof -
  let ?p = "strip_slash (take (FS_MAX_PATH - 1) path)"
  let ?cur = "if hd (take (FS_MAX_PATH - 1) path) = CHR ''/'' then 0 else cwd_idx s"
  have wf: "tree_wf (fs_nodes s)" and cur: "is_dir (fs_nodes s) ?cur"
    using assms(1) tree_wfD(2) by (auto simp: fs_inv_def)
  have "is_dir (fs_nodes s) parent \<and> CHR ''/'' \<notin> set base \<and> length base < FS_MAX_NAME"
  proof (cases "CHR ''/'' \<in> set ?p")
    case False
    then have "parent = ?cur" "base = take (FS_MAX_NAME - 1) ?p"
      using assms(2) by (auto simp: resolve_path_def Let_def split: if_splits)
    then show ?thesis using cur False by (auto simp: FS_MAX_NAME_def dest: in_set_takeD)
  next
    case True
    then have "walk (fs_nodes s) ?cur (dir_part ?p) = Some parent" "base = take (FS_MAX_NAME - 1) (name_part ?p)"
      using assms(2) by (auto simp: resolve_path_def Let_def split: if_splits option.splits)
    then show ?thesis
      using walk_dir [OF wf cur] name_part_name [of ?p] by (auto simp: FS_MAX_NAME_def dest: in_set_takeD)
  qed
  then show "is_dir (fs_nodes s) parent" "CHR ''/'' \<notin> set base" "length base < FS_MAX_NAME" by blast+
qed

lemma resolve_path_err: "resolve_path path s = Inl e \<Longrightarrow> e < 0"
  by (auto simp: resolve_path_def Let_def FS_ERR_INVALID_def FS_ERR_NOT_FOUND_def split: if_splits option.splits)

lemma resolve_full_cases:
  assumes inv: "fs_inv s"
  shows "resolve_full_path path s \<le> 0 \<or> (\<exists>d. is_dir (fs_nodes s) d \<and> resolve_full_path path s = uint d) \<or>
    (\<exists>parent base. CHR ''/'' \<notin> set base \<and> resolve_full_path path s = find_node_in_dir (fs_nodes s) parent base)"
proof (cases "resolve_path path s")
  case (Inl e)
  then show ?thesis using resolve_path_err [OF Inl] by (simp add: resolve_full_path_def FS_ERR_INVALID_def)
next
  case (Inr r)
  obtain parent base where r: "r = (parent, base)" by (cases r)
  note ok = resolve_path_ok [OF inv Inr [unfolded r]]
  have wf: "tree_wf (fs_nodes s)" using inv by (simp add: fs_inv_def)
  have e: "resolve_full_path path s = (if path = [] then FS_ERR_INVALID else if path = ''/'' then 0
      else if base = [] then uint parent else if base = ''.'' then uint parent
      else if base = ''..'' then if parent = 0 then 0 else uint (parent_idx (fs_nodes s ! unat parent))
      else find_node_in_dir (fs_nodes s) parent base)"
    by (simp add: resolve_full_path_def Inr r)
  show ?thesis
    unfolding e using ok(1,2) dir_parent [OF wf ok(1)] by (auto simp: FS_ERR_INVALID_def)
qed

lemma resolve_full_ok:
  assumes inv: "fs_inv s" and pos: "0 \<le> resolve_full_path path s"
  obtains i where "resolve_full_path path s = int i" and "i < 64" and "fused (fs_nodes s ! i)"
proof -
  have wf: "tree_wf (fs_nodes s)" using inv by (simp add: fs_inv_def)
  consider "resolve_full_path path s = 0" | d where "is_dir (fs_nodes s) d" "resolve_full_path path s = uint d"
    | parent base where "CHR ''/'' \<notin> set base" "resolve_full_path path s = find_node_in_dir (fs_nodes s) parent base"
    using resolve_full_cases [OF inv, of path] order_antisym [OF _ pos] by blast
  then show ?thesis
  proof cases
    case 1
    then show ?thesis using that [of 0] tree_wfD(2) [OF wf] by (simp add: is_dir_def)
  next
    case 2
    then show ?thesis using that [of "unat d"] by (simp add: is_dir_def)
  next
    case 3
    then have "0 \<le> find_node_in_dir (fs_nodes s) parent base" using pos by simp
    then show ?thesis
      by (rule find_used [OF wf 3(1)]) (use that 3 in simp)
  qed
qed

section \<open>Changing the table\<close>

text \<open>The nodes in use in one table have the same place in the other.\<close>

definition same_place :: "fs_node \<Rightarrow> fs_node \<Rightarrow> bool" where
  "same_place n n' \<longleftrightarrow> fused n' = fused n \<and> ftype n' = ftype n \<and> fname n' = fname n \<and> parent_idx n' = parent_idx n"

definition extends :: "fs_node list \<Rightarrow> fs_node list \<Rightarrow> bool" where
  "extends nodes nodes' \<longleftrightarrow> (\<forall>i<64. fused (nodes ! i) \<longrightarrow> same_place (nodes ! i) (nodes' ! i))"

lemma is_dir_extends: "extends nodes nodes' \<Longrightarrow> is_dir nodes d \<Longrightarrow> is_dir nodes' d"
  by (simp add: extends_def is_dir_def same_place_def)

lemma walk_extends:
  assumes "tree_wf nodes" and "tree_wf nodes'" and "extends nodes nodes'" and "is_dir nodes current"
    and "walk nodes current token = Some c"
  shows "walk nodes' current token = Some c"
  using assms
proof (induction nodes current token rule: walk.induct)
  case (1 nodes current token)
  let ?c = "fst (next_component FS_MAX_NAME token)" and ?f = "\<lambda>nodes. find_node_in_dir nodes current (fst (next_component FS_MAX_NAME token))"
  have cur: "parent_idx (nodes' ! unat current) = parent_idx (nodes ! unat current)"
    using 1(7,8) by (simp add: is_dir_def extends_def same_place_def)
  have up: "is_dir nodes (parent_idx (nodes ! unat current))" by (rule dir_parent [OF 1(5,8)])
  have down: "?f nodes' = ?f nodes \<and> ftype (nodes' ! nat (?f nodes)) = FS_TYPE_DIR \<and> is_dir nodes (of_int (?f nodes))"
    if f: "\<not> (?f nodes < 0 \<or> ftype (nodes ! nat (?f nodes)) \<noteq> FS_TYPE_DIR)"
  proof -
    obtain i where i: "?f nodes = int i" "0 < i" "i < 64" "fused (nodes ! i)" "parent_idx (nodes ! i) = current"
        "fname (nodes ! i) = ?c" "unat (of_int (int i) :: u32) = i"
      by (rule find_used [OF 1(5) next_component_name(1)]) (use f in auto)
    have "same_place (nodes ! i) (nodes' ! i)" using 1(7) i(3,4) by (simp add: extends_def)
    then have "?f nodes' = int i" "ftype (nodes' ! i) = ftype (nodes ! i)"
      using find_iff [OF 1(6) next_component_name(1), of current FS_MAX_NAME token i] i by (simp_all add: same_place_def)
    then show ?thesis using f i by (simp add: is_dir_def)
  qed
  note w = 1(9) [unfolded walk.simps [of nodes current token] Let_def]
  show ?case
    unfolding walk.simps [of nodes' current token] Let_def
    using w 1(5-8) 1(1) [OF _ refl refl] 1(2) [OF _ refl refl] 1(3) [OF _ refl refl] 1(4) [OF _ refl refl _ _ _ refl] up down
    by (auto simp: cur split: if_split_asm)
qed

lemma rooted_extends:
  assumes "rooted nodes i" and "tree_wf nodes" and "extends nodes nodes'" and "unat i < 64" and "fused (nodes ! unat i)"
  shows "rooted nodes' i"
  using assms
proof (induction rule: rooted.induct)
  case root
  show ?case by (rule rooted.root)
next
  case (up i)
  have "is_dir nodes (parent_idx (nodes ! unat i))" by (rule parent_dir [OF up.prems(1,3,4)])
  then have "rooted nodes' (parent_idx (nodes ! unat i))" using up.IH up.prems(1,2) by (simp add: is_dir_def)
  moreover have "parent_idx (nodes' ! unat i) = parent_idx (nodes ! unat i)"
    using up.prems(2-4) by (simp add: extends_def same_place_def)
  ultimately show ?case using up.hyps(1) rooted.up [of i nodes'] by simp
qed

text \<open>Changing the contents of a node, within bounds, keeps the tree.\<close>

lemma tree_wf_contents:
  assumes wf: "tree_wf nodes" and k: "k < 64" and same: "same_place (nodes ! k) n" and sz: "sizes_ok n"
  shows "tree_wf (nodes[k := n])" and "extends nodes (nodes[k := n])" and "extends (nodes[k := n]) nodes"
proof -
  let ?t = "nodes[k := n]"
  have len: "length nodes = 64" by (rule tree_wfD(1) [OF wf])
  have pl: "same_place (nodes ! i) (?t ! i)" if "i < 64" for i
    using same len that by (cases "i = k") (simp_all add: same_place_def)
  then show e: "extends nodes ?t" and "extends ?t nodes" by (simp_all add: extends_def same_place_def)
  have dir: "is_dir ?t d = is_dir nodes d" for d using pl [of "unat d"] by (auto simp: is_dir_def same_place_def)
  have f: "fused (?t ! i) = fused (nodes ! i)" "fname (?t ! i) = fname (nodes ! i)" "parent_idx (?t ! i) = parent_idx (nodes ! i)"
      "ftype (?t ! i) = ftype (nodes ! i)" if "i < 64" for i
    using pl [OF that] by (simp_all add: same_place_def)
  show "tree_wf ?t"
    unfolding tree_wf_def
  proof (intro conjI allI impI)
    show "length ?t = 64" using len by simp
    show "is_dir ?t 0" "fname (?t ! 0) = ''/''" "parent_idx (?t ! 0) = 0" using wf dir f [of 0] by (simp_all add: tree_wf_def)
    fix i :: nat
    assume i: "i < 64"
    show "sizes_ok (?t ! i)" using tree_wfD(5) [OF wf i] sz i len by (cases "i = k") simp_all
    show "node_ok ?t (?t ! i)" if "0 < i" "fused (?t ! i)"
      using tree_wfD(6) [OF wf i that(1)] that(2) f [OF i] by (simp add: node_ok_def dir)
    show "rooted ?t (of_nat i)" if "fused (?t ! i)"
      using tree_wfD(8) [OF wf i] that f(1) [OF i] rooted_extends [OF _ wf e, of "of_nat i"] i by (simp add: unat_of_nat_small)
    fix j
    assume "j < 64" "0 < i" "0 < j" "fused (?t ! i)" "fused (?t ! j)" "parent_idx (?t ! i) = parent_idx (?t ! j)"
      "fname (?t ! i) = fname (?t ! j)"
    then show "i = j" using tree_wfD(7) [OF wf i] f [OF i] f [of j] by simp
  qed
qed

lemma tree_wf_add:
  assumes wf: "tree_wf nodes" and k: "k < 64" "\<not> fused (nodes ! k)" and n: "node_ok nodes n" "sizes_ok n" "fused n"
    and new: "find_node_in_dir nodes (parent_idx n) (fname n) < 0"
  shows "tree_wf (nodes[k := n])" and "extends nodes (nodes[k := n])"
proof -
  let ?t = "nodes[k := n]"
  have len: "length nodes = 64" by (rule tree_wfD(1) [OF wf])
  have k0: "0 < k" using k tree_wfD(2) [OF wf] by (cases k) (auto simp: is_dir_def)
  have nth: "?t ! i = (if i = k then n else nodes ! i)" if "i < 64" for i using that len by (simp add: nth_list_update)
  show e: "extends nodes ?t" using k nth by (auto simp: extends_def same_place_def)
  note dir = is_dir_extends [OF e]
  have fresh: "\<not> (fused (nodes ! i) \<and> parent_idx (nodes ! i) = parent_idx n \<and> fname (nodes ! i) = fname n)" if "i < 64" for i
    using new that by (simp add: find_neg_iff)
  have rooted: "rooted ?t (of_nat i)" if i: "i < 64" "fused (nodes ! i)" for i
    using tree_wfD(8) [OF wf i] rooted_extends [OF _ wf e, of "of_nat i"] i by (simp add: unat_of_nat_small)
  have up: "rooted ?t (of_nat k)"
  proof (rule rooted.up)
    show "(of_nat k :: u32) \<noteq> 0" using k0 k(1) by (simp add: of_nat_eq_0_small)
    have "is_dir nodes (parent_idx n)" using n(1) by (simp add: node_ok_def)
    then have "rooted ?t (parent_idx n)" using rooted [of "unat (parent_idx n)"] by (simp add: is_dir_def)
    then show "rooted ?t (parent_idx (?t ! unat (of_nat k :: u32)))" using nth [OF k(1)] k(1) by (simp add: unat_of_nat_small)
  qed
  show "tree_wf ?t"
    unfolding tree_wf_def
  proof (intro conjI allI impI)
    show "length ?t = 64" using len by simp
    show "is_dir ?t 0" using dir tree_wfD(2) [OF wf] .
    show "fname (?t ! 0) = ''/''" "parent_idx (?t ! 0) = 0" using tree_wfD(3,4) [OF wf] k0 nth [of 0] by simp_all
    fix i :: nat
    assume i: "i < 64"
    show "sizes_ok (?t ! i)" using tree_wfD(5) [OF wf i] n(2) nth [OF i] by simp
    show "node_ok ?t (?t ! i)" if "0 < i" "fused (?t ! i)"
      using tree_wfD(6) [OF wf i that(1)] that(2) n(1) nth [OF i] dir by (auto simp: node_ok_def)
    show "rooted ?t (of_nat i)" if "fused (?t ! i)" using rooted [OF i] up that nth [OF i] by (cases "i = k") simp_all
    fix j
    assume j: "j < 64" "0 < i" "0 < j"
      and u: "fused (?t ! i)" "fused (?t ! j)" "parent_idx (?t ! i) = parent_idx (?t ! j)" "fname (?t ! i) = fname (?t ! j)"
    show "i = j"
    proof (cases "i = k")
      case True
      then show ?thesis using u nth [OF i] nth [OF j(1)] fresh [OF j(1)] by (cases "j = k") simp_all
    next
      case False
      then show ?thesis
        using u nth [OF i] nth [OF j(1)] fresh [OF i] tree_wfD(7) [OF wf i j(1,2,3)] by (cases "j = k") simp_all
    qed
  qed
qed

lemma tree_wf_remove:
  assumes wf: "tree_wf nodes" and k: "0 < k" "k < 64"
    and leaf: "\<forall>i<64. fused (nodes ! i) \<longrightarrow> parent_idx (nodes ! i) \<noteq> of_nat k"
  shows "tree_wf (nodes[k := zero_node])" and "extends (nodes[k := zero_node]) nodes"
proof -
  let ?t = "nodes[k := zero_node]"
  have len: "length nodes = 64" by (rule tree_wfD(1) [OF wf])
  have nth: "?t ! i = (if i = k then zero_node else nodes ! i)" if "i < 64" for i using that len by (simp add: nth_list_update)
  have unused: "\<not> fused zero_node" by (simp add: zero_node_def)
  show "extends ?t nodes" using nth unused by (auto simp: extends_def same_place_def)
  have dir: "is_dir ?t d" if "is_dir nodes d" "unat d \<noteq> k" for d using that nth by (simp add: is_dir_def)
  have pk: "unat (parent_idx (nodes ! i)) \<noteq> k" if "i < 64" "fused (nodes ! i)" for i
  proof
    assume "unat (parent_idx (nodes ! i)) = k"
    then have "parent_idx (nodes ! i) = of_nat k" by auto
    then show False using leaf that by blast
  qed
  have rooted: "rooted ?t i" if "rooted nodes i" "unat i < 64" "fused (nodes ! unat i)" "unat i \<noteq> k" for i
    using that
  proof (induction rule: rooted.induct)
    case root
    show ?case by (rule rooted.root)
  next
    case (up i)
    have "is_dir nodes (parent_idx (nodes ! unat i))" by (rule parent_dir [OF wf up.prems(1,2)])
    then have "rooted ?t (parent_idx (nodes ! unat i))" using up.IH pk [OF up.prems(1,2)] by (simp add: is_dir_def)
    then show ?case using rooted.up [OF up.hyps(1), of ?t] nth [OF up.prems(1)] up.prems(3) by simp
  qed
  show "tree_wf ?t"
    unfolding tree_wf_def
  proof (intro conjI allI impI)
    show "length ?t = 64" using len by simp
    show "is_dir ?t 0" using dir [OF tree_wfD(2) [OF wf]] k(1) by simp
    show "fname (?t ! 0) = ''/''" "parent_idx (?t ! 0) = 0" using tree_wfD(3,4) [OF wf] k nth [of 0] by simp_all
    fix i :: nat
    assume i: "i < 64"
    show "sizes_ok (?t ! i)" using tree_wfD(5) [OF wf i] nth [OF i] by (simp add: sizes_ok_def zero_node_def)
    show "node_ok ?t (?t ! i)" if "0 < i" "fused (?t ! i)"
      using tree_wfD(6) [OF wf i that(1)] that(2) nth [OF i] unused dir pk [OF i] by (auto simp: node_ok_def split: if_splits)
    show "rooted ?t (of_nat i)" if "fused (?t ! i)"
      using tree_wfD(8) [OF wf i] rooted [of "of_nat i"] that nth [OF i] unused i by (simp add: unat_of_nat_small split: if_splits)
    fix j
    assume j: "j < 64" "0 < i" "0 < j"
      and u: "fused (?t ! i)" "fused (?t ! j)" "parent_idx (?t ! i) = parent_idx (?t ! j)" "fname (?t ! i) = fname (?t ! j)"
    have "i \<noteq> k" using u(1) nth [OF i] unused by (cases "i = k") simp_all
    moreover have "j \<noteq> k" using u(2) nth [OF j(1)] unused by (cases "j = k") simp_all
    ultimately show "i = j" using u nth [OF i] nth [OF j(1)] tree_wfD(7) [OF wf i j] by simp
  qed
qed

section \<open>The operations\<close>

text \<open>The free slot \<open>add_node\<close> fills, when it succeeds.\<close>

lemma add_node_ok:
  assumes inv: "fs_inv s" and ty: "typ = FS_TYPE_FILE \<or> typ = FS_TYPE_DIR" and r: "add_node typ path s = (0, s')"
  obtains k n parent base where "k < 64" and "\<not> fused (fs_nodes s ! k)" and "resolve_path path s = Inr (parent, base)"
    and "find_node_in_dir (fs_nodes s) parent base < 0" and "base \<noteq> []"
    and "n = (fs_nodes s ! k)\<lparr>fused := True, ftype := typ, fname := base, parent_idx := parent, fsize := 0,
      fdata := (if typ = FS_TYPE_FILE then replicate 4096 0 else fdata (fs_nodes s ! k))\<rparr>"
    and "s' = s\<lparr>fs_nodes := (fs_nodes s)[k := n]\<rparr>" and "tree_wf ((fs_nodes s)[k := n])"
    and "extends (fs_nodes s) ((fs_nodes s)[k := n])"
proof -
  have wf: "tree_wf (fs_nodes s)" using inv by (simp add: fs_inv_def)
  have "\<not> (\<exists>e. resolve_path path s = Inl e)" using r resolve_path_err by (fastforce simp: add_node_def)
  then obtain parent base where p: "resolve_path path s = Inr (parent, base)" by (metis sum.exhaust prod.exhaust)
  note ok = resolve_path_ok [OF inv p]
  have tk: "take (FS_MAX_NAME - Suc 0) base = base" using ok(3) by (simp add: FS_MAX_NAME_def)
  have b: "base \<noteq> []" "find_node_in_dir (fs_nodes s) parent base < 0" "\<not> find_free_node (fs_nodes s) < 0"
    using r by (auto simp: add_node_def p Let_def FS_ERR_INVALID_def FS_ERR_EXISTS_def FS_ERR_FULL_def not_le split: if_splits)
  obtain k where k: "find_free_node (fs_nodes s) = int k" "k < 64" "\<not> fused (fs_nodes s ! k)"
    by (rule first_node_cases [of "\<lambda>n. \<not> fused n" "fs_nodes s"]) (use b(3) in \<open>simp_all add: find_free_node_def\<close>)
  define n where "n = (fs_nodes s ! k)\<lparr>fused := True, ftype := typ, fname := base, parent_idx := parent, fsize := 0,
      fdata := (if typ = FS_TYPE_FILE then replicate 4096 0 else fdata (fs_nodes s ! k))\<rparr>"
  have s': "s' = s\<lparr>fs_nodes := (fs_nodes s)[k := n]\<rparr>"
    using r b k(1) by (simp add: add_node_def p Let_def tk n_def)
  have n: "node_ok (fs_nodes s) n" "sizes_ok n" "fused n" "parent_idx n = parent" "fname n = base"
    using b(1) ok ty tree_wfD(5) [OF wf k(2)] by (auto simp: n_def node_ok_def sizes_ok_def)
  have new: "find_node_in_dir (fs_nodes s) (parent_idx n) (fname n) < 0" using b(2) n(4,5) by simp
  show ?thesis
    by (rule that [OF k(2,3) p b(2,1) n_def s' tree_wf_add [OF wf k(2,3) n(1-3) new]])
qed

lemma add_node_inv:
  assumes inv: "fs_inv s" and ty: "typ = FS_TYPE_FILE \<or> typ = FS_TYPE_DIR"
  shows "fs_inv (snd (add_node typ path s))"
proof (cases "fst (add_node typ path s) = 0")
  case True
  then have r: "add_node typ path s = (0, snd (add_node typ path s))" by (simp add: prod_eq_iff)
  show ?thesis
  proof (rule add_node_ok [OF inv ty r], goal_cases)
    case (1 k n parent base)
    then show ?case using inv is_dir_extends by (auto simp: fs_inv_def)
  qed
next
  case False
  then have "snd (add_node typ path s) = s"
    by (auto simp: add_node_def Let_def FS_ERR_OK_def split: sum.splits)
  then show ?thesis using inv by simp
qed

lemma fs_remove_ok:
  assumes inv: "fs_inv s" and r: "fs_remove path s = (0, s')"
  obtains k where "0 < k" and "k < 64" and "fused (fs_nodes s ! k)" and "resolve_full_path path s = int k"
    and "s' = s\<lparr>fs_nodes := (fs_nodes s)[k := zero_node]\<rparr>" and "tree_wf ((fs_nodes s)[k := zero_node])"
    and "extends ((fs_nodes s)[k := zero_node]) (fs_nodes s)"
    and "\<forall>i<64. fused (fs_nodes s ! i) \<longrightarrow> parent_idx (fs_nodes s ! i) \<noteq> of_nat k"
proof -
  have wf: "tree_wf (fs_nodes s)" using inv by (simp add: fs_inv_def)
  let ?idx = "resolve_full_path path s"
  have pos: "0 \<le> ?idx" "?idx \<noteq> 0" and empty: "ftype (fs_nodes s ! nat ?idx) = FS_TYPE_DIR \<longrightarrow>
      first_node (\<lambda>n. fused n \<and> parent_idx n = of_int ?idx) (fs_nodes s) < 0"
    and s': "s' = s\<lparr>fs_nodes := (fs_nodes s)[nat ?idx := zero_node]\<rparr>"
    using r by (auto simp: fs_remove_def Let_def FS_ERR_NOT_FOUND_def FS_ERR_INVALID_def FS_ERR_NOT_EMPTY_def split: if_splits)
  obtain k where k: "?idx = int k" "k < 64" "fused (fs_nodes s ! k)" by (rule resolve_full_ok [OF inv pos(1)])
  have leaf: "\<forall>i<64. fused (fs_nodes s ! i) \<longrightarrow> parent_idx (fs_nodes s ! i) \<noteq> of_nat k"
  proof (intro allI impI notI)
    fix i
    assume i: "i < 64" "fused (fs_nodes s ! i)" "parent_idx (fs_nodes s ! i) = of_nat k"
    have "is_dir (fs_nodes s) (of_nat k)" using parent_dir [OF wf, of "of_nat i :: u32"] i by (simp add: unat_of_nat_small)
    then have "ftype (fs_nodes s ! k) = FS_TYPE_DIR" using k(2) by (simp add: is_dir_def unat_of_nat_small)
    then show False using empty i k(1) by (simp add: first_node_neg)
  qed
  have k0: "0 < k" using pos(2) k(1) by simp
  show ?thesis
    by (rule that [OF k0 k(2,3,1) _ tree_wf_remove [OF wf k0 k(2) leaf] leaf]) (use s' k(1) in simp)
qed

lemma fs_remove_inv:
  assumes inv: "fs_inv s" and "resolve_full_path path s \<noteq> uint (cwd_idx s)"
  shows "fs_inv (snd (fs_remove path s))"
proof (cases "fst (fs_remove path s) = 0")
  case True
  then have r: "fs_remove path s = (0, snd (fs_remove path s))" by (simp add: prod_eq_iff)
  show ?thesis
  proof (rule fs_remove_ok [OF inv r], goal_cases)
    case (1 k)
    have "unat (cwd_idx s) \<noteq> k" using 1(4) assms(2) by auto
    then show ?case using 1(5,6) inv by (simp add: fs_inv_def is_dir_def)
  qed
next
  case False
  then have "snd (fs_remove path s) = s" by (auto simp: fs_remove_def Let_def FS_ERR_OK_def)
  then show ?thesis using inv by simp
qed

text \<open>Writing and appending change the contents of one file.\<close>

lemma sizes_ok_write:
  assumes "sizes_ok n" and "sz \<le> FS_MAX_FILE_SIZE" and "length bytes \<ge> unat sz"
  shows "sizes_ok (n\<lparr>fdata := splice 0 (take (unat sz) bytes) (fdata n), fsize := sz\<rparr>)"
  using assms by (simp add: sizes_ok_def FS_MAX_FILE_SIZE_def word_le_nat_alt)

lemma sizes_ok_append:
  assumes "sizes_ok n" and "sz \<le> FS_MAX_FILE_SIZE - fsize n" and "length bytes \<ge> unat sz"
  shows "sizes_ok (n\<lparr>fdata := splice (unat (fsize n)) (take (unat sz) bytes) (fdata n), fsize := fsize n + sz\<rparr>)"
proof -
  have n: "fsize n \<le> FS_MAX_FILE_SIZE" "unat (fsize n) \<le> 4096" "length (fdata n) = 4096"
    using assms(1) by (simp_all add: sizes_ok_def FS_MAX_FILE_SIZE_def word_le_nat_alt)
  have le: "unat sz \<le> 4096 - unat (fsize n)"
    using assms(2) unat_sub_le [OF n(1)] by (simp add: word_le_nat_alt FS_MAX_FILE_SIZE_def)
  then have "unat (fsize n + sz) = unat (fsize n) + unat sz" using n(2) by (simp add: unat_add_no_overflow)
  then show ?thesis using n le assms(3) by (simp add: sizes_ok_def FS_MAX_FILE_SIZE_def word_le_nat_alt)
qed

lemma fs_inv_contents:
  assumes inv: "fs_inv s" and k: "k < 64" and "same_place (fs_nodes s ! k) n" and "sizes_ok n"
  shows "fs_inv (s\<lparr>fs_nodes := (fs_nodes s)[k := n]\<rparr>)"
proof -
  have wf: "tree_wf (fs_nodes s)" using inv by (simp add: fs_inv_def)
  note t = tree_wf_contents [OF wf k assms(3,4)]
  show ?thesis using t(1) is_dir_extends [OF t(2)] inv by (simp add: fs_inv_def)
qed

lemma fs_write_inv:
  assumes inv: "fs_inv s" and "\<not> disk_enabled s" and "length bytes \<ge> unat sz" and r: "fs_write junk path bytes sz s = Some (e, s')"
  shows "fs_inv s'"
proof (cases "resolve_full_path path s < 0")
  case True
  then show ?thesis using r assms(2) inv by (auto simp: fs_write_def Let_def)
next
  case False
  obtain k where k: "resolve_full_path path s = int k" "k < 64" "fused (fs_nodes s ! k)"
    by (rule resolve_full_ok [OF inv]) (use False in auto)
  let ?n = "fs_nodes s ! k" and ?sz = "if sz > FS_MAX_FILE_SIZE then FS_MAX_FILE_SIZE else sz"
  have sz: "?sz \<le> FS_MAX_FILE_SIZE" "length bytes \<ge> unat ?sz" using assms(3) by (auto simp: word_less_nat_alt word_le_nat_alt)
  have ok: "sizes_ok ?n" using tree_wfD(5) inv k(2) by (simp add: fs_inv_def)
  have "s' = s \<or> s' = s\<lparr>fs_nodes := (fs_nodes s)[k := ?n\<lparr>fdata := splice 0 (take (unat ?sz) bytes) (fdata ?n), fsize := ?sz\<rparr>]\<rparr>"
    using r assms(2) k(1) by (auto simp: fs_write_def Let_def split: if_splits)
  then show ?thesis
    using inv fs_inv_contents [OF inv k(2) _ sizes_ok_write [OF ok sz]] by (auto simp: same_place_def)
qed

lemma fs_append_inv:
  assumes inv: "fs_inv s" and "length bytes \<ge> unat sz"
  shows "fs_inv (snd (fs_append path bytes sz s))"
proof (cases "resolve_full_path path s < 0")
  case True
  then show ?thesis using inv by (simp add: fs_append_def)
next
  case False
  obtain k where k: "resolve_full_path path s = int k" "k < 64" "fused (fs_nodes s ! k)"
    by (rule resolve_full_ok [OF inv]) (use False in auto)
  let ?n = "fs_nodes s ! k"
  let ?sz = "if sz > FS_MAX_FILE_SIZE - fsize ?n then FS_MAX_FILE_SIZE - fsize ?n else sz"
  have sz: "?sz \<le> FS_MAX_FILE_SIZE - fsize ?n" "length bytes \<ge> unat ?sz" using assms(2) by (auto simp: word_less_nat_alt word_le_nat_alt)
  have ok: "sizes_ok ?n" using tree_wfD(5) inv k(2) by (simp add: fs_inv_def)
  have "snd (fs_append path bytes sz s) = s \<or> snd (fs_append path bytes sz s) = s\<lparr>fs_nodes := (fs_nodes s)[k :=
      ?n\<lparr>fdata := splice (unat (fsize ?n)) (take (unat ?sz) bytes) (fdata ?n), fsize := fsize ?n + ?sz\<rparr>]\<rparr>"
    using k(1) by (auto simp: fs_append_def Let_def)
  then show ?thesis
    using inv fs_inv_contents [OF inv k(2) _ sizes_ok_append [OF ok sz]] by (auto simp: same_place_def)
qed

lemma fs_change_dir_inv:
  assumes inv: "fs_inv s" and r: "fs_change_dir path s = Some (e, s')"
  shows "fs_inv s'"
proof -
  have root: "is_dir (fs_nodes s) 0" using inv tree_wfD(2) by (simp add: fs_inv_def)
  show ?thesis
  proof (cases "resolve_full_path path s < 0")
    case True
    then show ?thesis using r inv root by (auto simp: fs_change_dir_def Let_def fs_inv_def split: if_splits)
  next
    case False
    obtain k where k: "resolve_full_path path s = int k" "k < 64" "fused (fs_nodes s ! k)"
      by (rule resolve_full_ok [OF inv]) (use False in auto)
    have "is_dir (fs_nodes s) (of_nat k)" if "ftype (fs_nodes s ! k) = FS_TYPE_DIR"
      using that k by (simp add: is_dir_def unat_of_nat_small)
    then show ?thesis using r inv root k(1) by (auto simp: fs_change_dir_def Let_def fs_inv_def split: if_splits)
  qed
qed

lemma tree_wf_empty:
  assumes "fused n" and "ftype n = FS_TYPE_DIR" and "fname n = ''/''" and "parent_idx n = 0" and "sizes_ok n"
  shows "tree_wf (n # replicate 63 zero_node)"
proof -
  have z: "(n # replicate 63 zero_node) ! i = (if i = 0 then n else zero_node)" if "i < 64" for i
    using that by (cases i) simp_all
  have "sizes_ok zero_node" "\<not> fused zero_node" by (simp_all add: sizes_ok_def zero_node_def)
  then show ?thesis
    using assms by (auto simp: tree_wf_def is_dir_def rooted.root z split: if_splits)
qed

lemma fs_init_inv: "fs_inv (fs_init s)"
  using tree_wf_empty [of "zero_node\<lparr>fused := True, ftype := FS_TYPE_DIR, fname := ''/''\<rparr>"]
  by (simp add: fs_inv_def fs_init_def FS_MAX_FILES_def tree_wf_def is_dir_def sizes_ok_def) (simp add: zero_node_def)

lemma fs_clear_cache_inv: "fs_inv s \<Longrightarrow> fs_inv (fs_clear_cache s)"
  using tree_wf_empty [of "fs_nodes s ! 0"]
  by (simp add: fs_inv_def fs_clear_cache_def FS_MAX_FILES_def tree_wf_def is_dir_def)

end
