(* ===== verification/Fs_Runs.thy ===== *)
theory Fs_Runs
  imports Fs_Tree
begin

text \<open>
  Sequences of operations on the filesystem in memory, what a file holds after it was created and
  written, the bounds of a directory listing, and what happens when the current directory is removed.
\<close>

section \<open>Runs\<close>

datatype fs_op = CreateFile string | CreateDir string | Remove string | WriteFile string "u8 list"
  | AppendFile string "u8 list" | ChangeDir string | ClearCache

fun fs_exec :: "(u32 \<Rightarrow> dirent) \<Rightarrow> fs_op \<Rightarrow> 'a fs_state_scheme \<Rightarrow> 'a fs_state_scheme option" where
  "fs_exec junk (CreateFile p) s = map_option snd (fs_create_file junk p s)"
| "fs_exec junk (CreateDir p) s = Some (snd (fs_create_dir p s))"
| "fs_exec junk (Remove p) s = Some (snd (fs_remove p s))"
| "fs_exec junk (WriteFile p bs) s = map_option snd (fs_write junk p bs (of_nat (length bs)) s)"
| "fs_exec junk (AppendFile p bs) s = Some (snd (fs_append p bs (of_nat (length bs)) s))"
| "fs_exec junk (ChangeDir p) s = map_option snd (fs_change_dir p s)"
| "fs_exec junk ClearCache s = Some (fs_clear_cache s)"

text \<open>The current directory must not be removed.\<close>

fun fs_allowed :: "fs_op \<Rightarrow> 'a fs_state_scheme \<Rightarrow> bool" where
  "fs_allowed (Remove p) s \<longleftrightarrow> resolve_full_path p s \<noteq> uint (cwd_idx s)"
| "fs_allowed _ s \<longleftrightarrow> True"

inductive fs_reach :: "(u32 \<Rightarrow> dirent) \<Rightarrow> 'a fs_state_scheme \<Rightarrow> 'a fs_state_scheme \<Rightarrow> bool" for junk s0 where
  start: "fs_reach junk s0 s0"
| step: "fs_reach junk s0 s \<Longrightarrow> fs_allowed op s \<Longrightarrow> fs_exec junk op s = Some s' \<Longrightarrow> fs_reach junk s0 s'"

lemma add_node_disk [simp]: "disk_enabled (snd (add_node ty p s)) = disk_enabled s"
  by (simp add: add_node_def Let_def split: sum.split prod.split)

lemma fs_exec_disk:
  assumes "\<not> disk_enabled s" and "fs_exec junk op s = Some s'"
  shows "\<not> disk_enabled s'"
  using assms
  by (cases op)
    (auto simp: fs_create_file_def fs_create_dir_def fs_remove_def fs_write_def fs_append_def fs_change_dir_def
      fs_clear_cache_def Let_def split: if_splits)

lemma unat_length_le: "unat (of_nat n :: u32) \<le> n"
  by (simp add: unat_of_nat)

lemma fs_exec_inv:
  assumes "fs_inv s" and "\<not> disk_enabled s" and "fs_allowed op s" and "fs_exec junk op s = Some s'"
  shows "fs_inv s'"
proof (cases op)
  case (CreateFile p)
  then show ?thesis using add_node_inv [OF assms(1), of FS_TYPE_FILE p] assms(2,4) by (auto simp: fs_create_file_def)
next
  case (CreateDir p)
  then show ?thesis using add_node_inv [OF assms(1), of FS_TYPE_DIR p] assms(4) by (auto simp: fs_create_dir_def)
next
  case (Remove p)
  then show ?thesis using fs_remove_inv [OF assms(1), of p] assms(3,4) by auto
next
  case (WriteFile p bs)
  then show ?thesis using fs_write_inv [OF assms(1,2) unat_length_le] assms(4) by auto
next
  case (AppendFile p bs)
  then show ?thesis using fs_append_inv [OF assms(1) unat_length_le] assms(4) by auto
next
  case (ChangeDir p)
  then show ?thesis using fs_change_dir_inv [OF assms(1)] assms(4) by auto
next
  case ClearCache
  then show ?thesis using fs_clear_cache_inv [OF assms(1)] assms(4) by auto
qed

lemma fs_exec_None:
  assumes "\<not> disk_enabled s" and "fs_exec junk op s = None"
  shows "\<exists>p. op = ChangeDir p \<and> FS_MAX_PATH \<le>
    length (cwd_text (up_parts FS_MAX_PATH_DEPTH (fs_nodes s) (of_int (resolve_full_path p s))))"
  using assms
  by (cases op)
    (auto simp: fs_create_file_def fs_write_def fs_change_dir_def Let_def split: if_splits)

text \<open>
  C4: From boot on, whatever sequence of creations, writes, appends, removals, directory changes and cache
  clearings is run on the filesystem in memory, the node table stays a tree: every node in use has a
  short non-empty name without slash, unique in its directory, an existing directory as parent and a
  way up to the root; sizes stay in bounds and the current directory exists. This assumes that the
  current directory is never removed. Every further operation returns, except a change to a
  directory whose path does not fit the buffer for the path, which overruns it.
\<close>

theorem fs_runs_safe:
  assumes "fs_reach junk (fs_init s0) s"
  shows "fs_inv s \<and> \<not> disk_enabled s \<and> (\<forall>op. fs_allowed op s \<longrightarrow>
    (\<exists>s'. fs_exec junk op s = Some s' \<and> fs_inv s') \<or>
    (\<exists>p. op = ChangeDir p \<and> fs_exec junk op s = None \<and>
       FS_MAX_PATH \<le> length (cwd_text (up_parts FS_MAX_PATH_DEPTH (fs_nodes s) (of_int (resolve_full_path p s))))))"
proof -
  have inv: "fs_inv s \<and> \<not> disk_enabled s"
    using assms
  proof (induction rule: fs_reach.induct)
    case start
    show ?case using fs_init_inv [of s0] by (simp add: fs_init_def)
  next
    case (step s op s')
    then show ?case using fs_exec_inv fs_exec_disk by blast
  qed
  then show ?thesis using fs_exec_inv [of s] fs_exec_None [of s] by (metis not_Some_eq)
qed

definition fs_demo :: fs_state where
  "fs_demo = fs_init \<lparr>drives = Map.empty, bad_sector = (\<lambda>_ _. False), mounted_drive = 0xFF, superblock = [], inode_bitmap = [],
     block_bitmap = [], cache_valid = [], cache_num = [], inode_cache = [], cache_idx = 0, ticks = 0,
     fs_nodes = [], disk_enabled = False, cwd = [], cwd_idx = 0\<rparr>"

lemma fs_demo_fields:
  "fs_nodes fs_demo = (zero_node\<lparr>fused := True, ftype := FS_TYPE_DIR, fname := ''/''\<rparr>) # replicate 63 zero_node"
  "cwd_idx fs_demo = 0" "\<not> disk_enabled fs_demo"
  by (simp_all add: fs_demo_def fs_init_def FS_MAX_FILES_def)

theorem fs_runs_safe_witness:
  "fs_inv fs_demo \<and> (\<exists>s'. fs_exec (\<lambda>_. []) (CreateDir ''bin'') fs_demo = Some s' \<and> fs_inv s')"
proof -
  have r: "fs_reach (\<lambda>_. []) fs_demo fs_demo" by (rule fs_reach.start)
  note safe = fs_runs_safe [OF r [unfolded fs_demo_def], folded fs_demo_def]
  then have "fs_allowed (CreateDir ''bin'') fs_demo \<longrightarrow> (\<exists>s'. fs_exec (\<lambda>_. []) (CreateDir ''bin'') fs_demo = Some s' \<and> fs_inv s')"
    by blast
  then show ?thesis using safe by simp
qed

section \<open>Create, write, read\<close>

text \<open>A path keeps its meaning when the table is extended.\<close>

lemma resolve_path_extends:
  assumes inv: "fs_inv s" and inv': "fs_inv s'" and e: "extends (fs_nodes s) (fs_nodes s')" and c: "cwd_idx s' = cwd_idx s"
    and r: "resolve_path path s = Inr (parent, base)"
  shows "resolve_path path s' = Inr (parent, base)"
proof -
  let ?p = "strip_slash (take (FS_MAX_PATH - 1) path)"
  let ?cur = "if hd (take (FS_MAX_PATH - 1) path) = CHR ''/'' then 0 else cwd_idx s"
  have wf: "tree_wf (fs_nodes s)" "tree_wf (fs_nodes s')" and cur: "is_dir (fs_nodes s) ?cur"
    using inv inv' tree_wfD(2) by (auto simp: fs_inv_def)
  have "walk (fs_nodes s') ?cur (dir_part ?p) = Some x" if "walk (fs_nodes s) ?cur (dir_part ?p) = Some x" for x
    by (rule walk_extends [OF wf e cur that])
  then show ?thesis
    using r by (auto simp: resolve_path_def Let_def c split: if_splits option.splits)
qed

lemma resolve_full_name:
  assumes "resolve_path path s = Inr (parent, base)" and "base \<noteq> []" and "base \<noteq> ''.''" and "base \<noteq> ''..''"
  shows "resolve_full_path path s = find_node_in_dir (fs_nodes s) parent base"
proof -
  have "path \<noteq> []" using assms(1) by (auto simp: resolve_path_def)
  moreover have "path \<noteq> ''/''" using assms(1,2) by (auto simp: resolve_path_def strip_slash_def FS_MAX_PATH_def)
  ultimately show ?thesis using assms by (simp add: resolve_full_path_def)
qed

lemma sint_small_size: "w \<le> 4096 \<Longrightarrow> sint (w :: u32) = int (unat w)"
  by (rule sint_small) (simp add: word_le_nat_alt)

text \<open>Writing a file that a path names, and reading it back through the path.\<close>

lemma fs_write_read_file:
  assumes inv: "fs_inv s" and disk: "\<not> disk_enabled s" and p: "resolve_path path s = Inr (parent, base)"
    and base: "base \<noteq> []" "base \<noteq> ''.''" "base \<noteq> ''..''" and k: "resolve_full_path path s = int k"
    and reg: "ftype (fs_nodes s ! k) = FS_TYPE_FILE" and len: "length bytes = unat sz"
  obtains s2 where "fs_write junk path bytes sz s = Some (int (min (unat sz) 4096), s2)"
    and "\<And>rd. fs_read junk path rd s2 = Some (int (min (unat rd) (min (unat sz) 4096)), take (min (unat rd) 4096) bytes, s2)"
    and "fs_inv s2" and "\<not> disk_enabled s2" and "\<forall>j<64. j \<noteq> k \<longrightarrow> fs_nodes s2 ! j = fs_nodes s ! j"
proof -
  define n where "n = fs_nodes s ! k"
  define w where "w = (if sz > FS_MAX_FILE_SIZE then FS_MAX_FILE_SIZE else sz)"
  define n2 where "n2 = n\<lparr>fdata := splice 0 (take (unat w) bytes) (fdata n), fsize := w\<rparr>"
  define s2 where "s2 = s\<lparr>fs_nodes := (fs_nodes s)[k := n2]\<rparr>"
  have wf: "tree_wf (fs_nodes s)" using inv by (simp add: fs_inv_def)
  note ok = resolve_path_ok [OF inv p]
  have node: "0 < k" "k < 64" "fused n" "parent_idx n = parent" "fname n = base"
    using resolve_full_name [OF p base] find_iff [OF wf ok(2), of parent k] k by (simp_all add: n_def)
  have w: "unat w = min (unat sz) 4096" "w \<le> 4096"
    by (auto simp: w_def FS_MAX_FILE_SIZE_def word_less_nat_alt word_le_nat_alt min_def)
  have wr: "fs_write junk path bytes sz s = Some (int (unat w), s2)"
    using disk k reg sint_small_size [OF w(2)] by (simp add: fs_write_def w_def [symmetric] s2_def n2_def n_def Let_def)
  have inv2: "fs_inv s2" by (rule fs_write_inv [OF inv disk _ wr]) (use len in simp)
  have nk2: "fs_nodes s2 ! k = n2" using s2_def node(2) tree_wfD(1) [OF wf] by simp
  have e12: "extends (fs_nodes s) (fs_nodes s2)"
    using tree_wfD(1) [OF wf] node(2) by (auto simp: s2_def extends_def same_place_def n2_def n_def nth_list_update)
  have p2: "resolve_path path s2 = Inr (parent, base)"
    by (rule resolve_path_extends [OF inv inv2 e12 _ p]) (simp add: s2_def)
  have f2: "resolve_full_path path s2 = int k"
    using resolve_full_name [OF p2 base] find_iff [of "fs_nodes s2" base parent k] inv2 ok(2) node nk2
    by (simp add: n2_def fs_inv_def)
  have rd: "fs_read junk path rd s2 = Some (int (min (unat rd) (unat w)), take (min (unat rd) 4096) bytes, s2)" for rd
  proof -
    let ?t = "if rd < w then rd else w"
    have t: "unat ?t = min (unat rd) (unat w)" "?t \<le> 4096"
      using w(2) by (auto simp: word_less_nat_alt word_le_nat_alt min_def)
    have d: "take (unat ?t) (fdata n2) = take (min (unat rd) 4096) bytes"
      unfolding t(1) using w(1) len by (auto simp: n2_def splice_def min_def)
    have "ftype n2 = FS_TYPE_FILE" "fsize n2 = w" "\<not> disk_enabled s2"
      using disk reg by (simp_all add: n2_def n_def s2_def)
    then have "fs_read junk path rd s2 = Some (sint ?t, take (unat ?t) (fdata n2), s2)"
      using f2 nk2 by (simp add: fs_read_def Let_def)
    then show ?thesis using sint_small_size [OF t(2)] t(1) d by metis
  qed
  have other: "\<forall>j<64. j \<noteq> k \<longrightarrow> fs_nodes s2 ! j = fs_nodes s ! j" and disk2: "\<not> disk_enabled s2"
    using disk by (simp_all add: s2_def)
  show ?thesis by (rule that [OF _ _ inv2 disk2 other]) (use wr rd w(1) in auto)
qed

text \<open>Creating a file in memory: its path resolves to a node that was free and is now an empty file.\<close>

lemma fs_create_file_new:
  assumes "fs_inv s" and "\<not> disk_enabled s" and "resolve_path path s = Inr (parent, base)" and "base \<noteq> ''.''" and "base \<noteq> ''..''"
    and "fs_create_file junk path s = Some (FS_ERR_OK, s1)"
  obtains k where "k < 64" and "\<not> fused (fs_nodes s ! k)" and "fs_inv s1" and "\<not> disk_enabled s1" and "base \<noteq> []"
    and "resolve_path path s1 = Inr (parent, base)" and "resolve_full_path path s1 = int k"
    and "ftype (fs_nodes s1 ! k) = FS_TYPE_FILE" and "\<not> fs_exists path s"
    and "\<forall>j<64. j \<noteq> k \<longrightarrow> fs_nodes s1 ! j = fs_nodes s ! j"
proof -
  have r: "add_node FS_TYPE_FILE path s = (0, s1)" using assms(2,6) by (simp add: fs_create_file_def FS_ERR_OK_def)
  obtain k n par nm where k: "k < 64" "\<not> fused (fs_nodes s ! k)" and p: "resolve_path path s = Inr (par, nm)"
    and nm: "find_node_in_dir (fs_nodes s) par nm < 0" "nm \<noteq> []"
    and n': "n = (fs_nodes s ! k)\<lparr>fused := True, ftype := FS_TYPE_FILE, fname := nm, parent_idx := par, fsize := 0,
      fdata := (if FS_TYPE_FILE = FS_TYPE_FILE then replicate 4096 0 else fdata (fs_nodes s ! k))\<rparr>"
    and s1: "s1 = s\<lparr>fs_nodes := (fs_nodes s)[k := n]\<rparr>" "tree_wf ((fs_nodes s)[k := n])" "extends (fs_nodes s) ((fs_nodes s)[k := n])"
    by (rule add_node_ok [OF assms(1) disjI1 [OF refl] r])
  have eq: "par = parent" "nm = base" using p assms(3) by simp_all
  note nm = nm [unfolded eq] and n = n' [unfolded eq if_P [OF refl]]
  have wf: "tree_wf (fs_nodes s)" using assms(1) by (simp add: fs_inv_def)
  have len: "length (fs_nodes s) = 64" by (rule tree_wfD(1) [OF wf])
  have k0: "0 < k" using k tree_wfD(2) [OF wf] by (cases k) (auto simp: is_dir_def)
  have inv1: "fs_inv s1" using add_node_inv [OF assms(1), of FS_TYPE_FILE path] r by simp
  note ok = resolve_path_ok [OF assms(1,3)]
  have p1: "resolve_path path s1 = Inr (parent, base)"
    by (rule resolve_path_extends [OF assms(1) inv1 _ _ assms(3)]) (use s1 in simp_all)
  have nk: "fs_nodes s1 ! k = n" using s1(1) k(1) len by simp
  have f1: "resolve_full_path path s1 = int k"
    using resolve_full_name [OF p1 nm(2) assms(4,5)] find_iff [of "fs_nodes s1" base parent k] s1(1,2) ok(2) k(1) k0 nk
    by (simp add: n)
  have "\<not> fs_exists path s" using resolve_full_name [OF assms(3) nm(2) assms(4,5)] nm(1) by (simp add: fs_exists_def)
  then show ?thesis
    using that [OF k(1,2) inv1 _ nm(2) p1 f1] assms(2) s1(1) nk by (simp add: n)
qed


lemma fs_demo_nth: "i < 64 \<Longrightarrow> fs_nodes fs_demo ! i = (if i = 0 then zero_node\<lparr>fused := True, ftype := FS_TYPE_DIR, fname := ''/''\<rparr> else zero_node)"
  by (cases i) (simp_all add: fs_demo_fields)

lemma fs_demo_inv: "fs_inv fs_demo"
  unfolding fs_demo_def by (rule fs_init_inv)

lemma fs_demo_create:
  assumes "ty = FS_TYPE_FILE \<or> ty = FS_TYPE_DIR"
  shows "add_node ty ''a'' fs_demo = (FS_ERR_OK, fs_demo\<lparr>fs_nodes := (fs_nodes fs_demo)[1 :=
    zero_node\<lparr>fused := True, ftype := ty, fname := ''a''\<rparr>]\<rparr>)"
    and "resolve_path ''a'' fs_demo = Inr (0, ''a'')"
proof -
  show p: "resolve_path ''a'' fs_demo = Inr (0, ''a'')"
    by (simp add: resolve_path_def FS_MAX_PATH_def FS_MAX_NAME_def strip_slash_def fs_demo_fields(2))
  have f: "find_node_in_dir (fs_nodes fs_demo) 0 ''a'' < 0"
    by (simp add: find_neg_iff fs_demo_nth zero_node_def)
  have k: "find_free_node (fs_nodes fs_demo) = int 1"
    unfolding find_free_node_def first_node_int by (simp add: fs_demo_nth zero_node_def)
  show "add_node ty ''a'' fs_demo = (FS_ERR_OK, fs_demo\<lparr>fs_nodes := (fs_nodes fs_demo)[1 :=
      zero_node\<lparr>fused := True, ftype := ty, fname := ''a''\<rparr>]\<rparr>)"
    using f k by (simp add: add_node_def p FS_MAX_NAME_def fs_demo_nth) (simp add: zero_node_def)
qed


section \<open>Listing a directory\<close>

lemma list_loop_files:
  assumes "length out < unat sz" and "unat sz < 2 ^ 31"
    and "\<forall>i \<in> set is. fused (nodes ! i) \<longrightarrow> parent_idx (nodes ! i) = of_int idx \<longrightarrow> int i \<noteq> idx \<longrightarrow>
      ftype (nodes ! i) \<noteq> FS_TYPE_DIR \<and> length (fname (nodes ! i)) < FS_MAX_NAME"
  shows "\<exists>out'. list_loop idx sz nodes is out = Some out' \<and> length out' < unat sz"
  using assms(1,3)
proof (induction "is" arbitrary: out)
  case Nil
  then show ?case by simp
next
  case (Cons i "is")
  let ?n = "nodes ! i"
  show ?case
  proof (cases "fused ?n \<and> parent_idx ?n = of_int idx \<and> int i \<noteq> idx")
    case False
    have "list_loop idx sz nodes (i # is) out = list_loop idx sz nodes is out"
      by (simp only: list_loop.simps Let_def if_not_P [OF False])
    then show ?thesis using Cons by simp
  next
    case True
    then have n: "ftype ?n \<noteq> FS_TYPE_DIR" "length (fname ?n) < 32" using Cons.prems(2) by (simp_all add: FS_MAX_NAME_def)
    have u: "unat (of_nat (length out) + (of_nat (length (fname ?n)) + 2) :: u32) = length out + length (fname ?n) + 2"
      using n(2) Cons.prems(1) assms(2) by (simp add: unat_add_no_overflow unat_of_nat_small)
    have t: "length (entry_text ?n) = length (fname ?n) + 1" using n(1) by (simp add: entry_text_def)
    show ?thesis
    proof (cases "of_nat (length out) + (of_nat (length (fname ?n)) + 2) \<ge> sz")
      case stop: True
      then show ?thesis using True Cons.prems(1) by simp
    next
      case go: False
      then have "length (out @ entry_text ?n) < unat sz" using u t by (simp add: not_le word_less_nat_alt)
      then show ?thesis using True go Cons.IH [of "out @ entry_text ?n"] Cons.prems(2) by simp
    qed
  qed
qed

text \<open>
  Listing the current directory stays inside the buffer when the directory holds only files. The room a
  directory entry needs, its name with two brackets, a newline and the terminating zero, is computed
  one byte too small: when the first entry is a directory and the buffer has exactly three bytes more
  than its name, the terminating zero is written past the end of the buffer.
\<close>

theorem fs_list_dir_bounds:
  assumes "fs_inv s" and "0 < sz" and "unat sz < 2 ^ 31"
  shows "((\<forall>i<64. fused (fs_nodes s ! i) \<longrightarrow> parent_idx (fs_nodes s ! i) = cwd_idx s \<longrightarrow> i \<noteq> unat (cwd_idx s) \<longrightarrow>
        ftype (fs_nodes s ! i) = FS_TYPE_FILE) \<longrightarrow>
      (\<exists>out. fs_list_dir [] sz s = Some (int (length out), out) \<and> length out < unat sz)) \<and>
    (\<forall>k<64. fused (fs_nodes s ! k) \<longrightarrow> parent_idx (fs_nodes s ! k) = cwd_idx s \<longrightarrow> k \<noteq> unat (cwd_idx s) \<longrightarrow>
        ftype (fs_nodes s ! k) = FS_TYPE_DIR \<longrightarrow> unat sz = length (fname (fs_nodes s ! k)) + 3 \<longrightarrow>
        (\<forall>i<k. i \<noteq> unat (cwd_idx s) \<longrightarrow> fused (fs_nodes s ! i) \<longrightarrow> parent_idx (fs_nodes s ! i) \<noteq> cwd_idx s) \<longrightarrow>
        fs_list_dir [] sz s = None)"
proof (intro conjI impI allI)
  let ?nodes = "fs_nodes s" and ?c = "cwd_idx s"
  have wf: "tree_wf ?nodes" and dir: "is_dir ?nodes ?c" using assms(1) by (simp_all add: fs_inv_def)
  have ls: "fs_list_dir [] sz s = do { out \<leftarrow> list_loop (uint ?c) sz ?nodes [0..<64] []; Some (int (length out), out) }"
    using dir assms(2) by (simp add: fs_list_dir_def is_dir_def FS_MAX_FILES_def word_gt_0)
  have pos: "0 < unat sz" using assms(2) by (simp add: word_less_nat_alt)
  have cw: "int i \<noteq> uint ?c \<longleftrightarrow> i \<noteq> unat ?c" for i
    using of_nat_eq_iff [where 'a = int, of i "unat ?c"] by simp
  {
    assume files: "\<forall>i<64. fused (?nodes ! i) \<longrightarrow> parent_idx (?nodes ! i) = ?c \<longrightarrow> i \<noteq> unat ?c \<longrightarrow> ftype (?nodes ! i) = FS_TYPE_FILE"
    have "length (fname (?nodes ! i)) < FS_MAX_NAME" if "i < 64" "fused (?nodes ! i)" for i
      using tree_wfD(3) [OF wf] tree_wfD(6) [OF wf that(1) _ that(2)]
      by (cases "i = 0") (simp_all add: node_ok_def FS_MAX_NAME_def)
    then have "\<exists>out. list_loop (uint ?c) sz ?nodes [0..<64] [] = Some out \<and> length out < unat sz"
      using files pos assms(3) by (intro list_loop_files) (auto simp: cw FS_TYPE_FILE_def FS_TYPE_DIR_def FS_MAX_NAME_def)
    then show "\<exists>out. fs_list_dir [] sz s = Some (int (length out), out) \<and> length out < unat sz" using ls by auto
  }
  fix k
  assume k: "k < 64" "fused (?nodes ! k)" "parent_idx (?nodes ! k) = ?c" "k \<noteq> unat ?c" "ftype (?nodes ! k) = FS_TYPE_DIR"
    "unat sz = length (fname (?nodes ! k)) + 3" "\<forall>i<k. i \<noteq> unat ?c \<longrightarrow> fused (?nodes ! i) \<longrightarrow> parent_idx (?nodes ! i) \<noteq> ?c"
  have skip: "list_loop (uint ?c) sz ?nodes (xs @ ys) [] = list_loop (uint ?c) sz ?nodes ys []"
    if "\<forall>i \<in> set xs. i < k" for xs ys
    using that k(7) by (induction xs) (auto simp: cw)
  have split: "[0..<64] = [0..<k] @ k # [Suc k..<64]"
    using k(1) upt_add_eq_append [of 0 k "64 - k"] upt_conv_Cons [of k 64] by simp
  have u: "unat (of_nat (length (fname (?nodes ! k))) + 2 :: u32) = length (fname (?nodes ! k)) + 2"
    using k(6) assms(3) by (simp add: unat_add_no_overflow unat_of_nat_small)
  have "\<not> (of_nat (length (fname (?nodes ! k))) + 2 :: u32) \<ge> sz" using u k(6) by (simp add: not_le word_less_nat_alt)
  then have "list_loop (uint ?c) sz ?nodes (k # [Suc k..<64]) [] = None"
    using k by (simp add: cw entry_text_def)
  then show "fs_list_dir [] sz s = None" using ls skip [of "[0..<k]" "k # [Suc k..<64]"] split by simp
qed

text \<open>The example filesystem with one directory.\<close>

definition fs_demo_dir :: fs_state where
  "fs_demo_dir = snd (add_node FS_TYPE_DIR ''a'' fs_demo)"

lemma fs_demo_dir:
  "fs_inv fs_demo_dir" "cwd_idx fs_demo_dir = 0" "\<not> disk_enabled fs_demo_dir"
  "fs_nodes fs_demo_dir ! 1 = zero_node\<lparr>fused := True, ftype := FS_TYPE_DIR, fname := ''a''\<rparr>"
  "\<And>i. i < 64 \<Longrightarrow> i \<noteq> 1 \<Longrightarrow> fs_nodes fs_demo_dir ! i = fs_nodes fs_demo ! i"
proof -
  show "fs_inv fs_demo_dir" unfolding fs_demo_dir_def by (rule add_node_inv [OF fs_demo_inv]) simp
  have "length (fs_nodes fs_demo) = 64" by (simp add: fs_demo_fields)
  then show "cwd_idx fs_demo_dir = 0" "\<not> disk_enabled fs_demo_dir"
      "fs_nodes fs_demo_dir ! 1 = zero_node\<lparr>fused := True, ftype := FS_TYPE_DIR, fname := ''a''\<rparr>"
      "\<And>i. i < 64 \<Longrightarrow> i \<noteq> 1 \<Longrightarrow> fs_nodes fs_demo_dir ! i = fs_nodes fs_demo ! i"
    using fs_demo_create(1) [of FS_TYPE_DIR] fs_demo_fields(2,3) by (simp_all add: fs_demo_dir_def)
qed

theorem fs_list_dir_bounds_witness: "fs_list_dir [] 4 fs_demo_dir = None"
proof -
  have "(0 :: u32) < 4" "unat (4 :: u32) < 2 ^ 31" by simp_all
  note t = fs_list_dir_bounds [OF fs_demo_dir(1) this, THEN conjunct2, rule_format, of 1]
  show ?thesis by (rule t) (use fs_demo_dir(2,4) in \<open>simp_all add: zero_node_def\<close>)
qed

section \<open>Removing the current directory\<close>

text \<open>
  Nothing protects the current directory from being removed. When it is empty and not the root,
  \<open>fs_remove\<close> of its own path \<open>.\<close> succeeds and the current directory is a free node. If all nodes before it
  are in use, the next file created with a relative path takes that very node: it becomes its own
  parent, and the table is no longer a tree.
\<close>

theorem fs_remove_cwd_cycle:
  assumes "fs_inv s" and "\<not> disk_enabled s" and "cwd_idx s \<noteq> 0"
    and "\<forall>i<64. fused (fs_nodes s ! i) \<longrightarrow> parent_idx (fs_nodes s ! i) \<noteq> cwd_idx s"
    and "\<forall>i < unat (cwd_idx s). fused (fs_nodes s ! i)"
  shows "\<exists>s1 s2. fs_remove ''.'' s = (FS_ERR_OK, s1) \<and> \<not> fused (fs_nodes s1 ! unat (cwd_idx s1)) \<and>
    fs_create_file junk ''x'' s1 = Some (FS_ERR_OK, s2) \<and> fused (fs_nodes s2 ! unat (cwd_idx s)) \<and>
    parent_idx (fs_nodes s2 ! unat (cwd_idx s)) = cwd_idx s \<and> \<not> tree_wf (fs_nodes s2)"
proof -
  let ?k = "unat (cwd_idx s)"
  define s1 where "s1 = s\<lparr>fs_nodes := (fs_nodes s)[?k := zero_node]\<rparr>"
  have wf: "tree_wf (fs_nodes s)" and d: "is_dir (fs_nodes s) (cwd_idx s)" using assms(1) by (simp_all add: fs_inv_def)
  have k: "?k < 64" using d by (simp add: is_dir_def)
  have len: "length (fs_nodes s) = 64" by (rule tree_wfD(1) [OF wf])
  have "resolve_path ''.'' s = Inr (cwd_idx s, ''.'')"
    by (simp add: resolve_path_def FS_MAX_PATH_def FS_MAX_NAME_def strip_slash_def)
  then have f: "resolve_full_path ''.'' s = uint (cwd_idx s)" by (simp add: resolve_full_path_def)
  have empty: "first_node (\<lambda>n. fused n \<and> parent_idx n = cwd_idx s) (fs_nodes s) < 0"
    using assms(4) by (simp add: first_node_neg)
  have rm: "fs_remove ''.'' s = (FS_ERR_OK, s1)"
    using f empty assms(3) by (simp add: fs_remove_def s1_def uint_0_iff)
  have nth: "fs_nodes s1 ! i = (if i = ?k then zero_node else fs_nodes s ! i)" if "i < 64" for i
    using that len by (simp add: s1_def nth_list_update)
  have p: "resolve_path ''x'' s1 = Inr (cwd_idx s, ''x'')"
    by (simp add: resolve_path_def FS_MAX_PATH_def FS_MAX_NAME_def strip_slash_def s1_def)
  have free: "find_free_node (fs_nodes s1) = int ?k"
    unfolding find_free_node_def first_node_int using k nth assms(5) by (simp add: zero_node_def)
  have none: "find_node_in_dir (fs_nodes s1) (cwd_idx s) ''x'' < 0"
    using assms(4) nth by (auto simp: find_neg_iff zero_node_def)
  define n where "n = zero_node\<lparr>fused := True, ftype := FS_TYPE_FILE, fname := ''x'', parent_idx := cwd_idx s\<rparr>"
  define s2 where "s2 = s1\<lparr>fs_nodes := (fs_nodes s1)[?k := n]\<rparr>"
  have cr: "fs_create_file junk ''x'' s1 = Some (FS_ERR_OK, s2)"
    using assms(2) p free none nth [OF k]
    by (simp add: fs_create_file_def add_node_def s2_def n_def FS_MAX_NAME_def) (simp add: s1_def zero_node_def)
  have n2: "fs_nodes s2 ! ?k = n" using k len by (simp add: s2_def s1_def)
  have "\<not> rooted (fs_nodes s2) (cwd_idx s)"
  proof
    assume "rooted (fs_nodes s2) (cwd_idx s)"
    then show False
      using assms(3)
    proof (induction "cwd_idx s" rule: rooted.induct)
      case up
      then show ?case using n2 by (simp add: n_def)
    qed simp
  qed
  then have "\<not> tree_wf (fs_nodes s2)" using tree_wfD(8) [of "fs_nodes s2" ?k] k n2 by (auto simp: n_def)
  then show ?thesis using rm cr n2 nth [OF k] by (auto simp: s1_def n_def zero_node_def)
qed

theorem fs_remove_cwd_cycle_witness:
  "\<exists>s1 s2. fs_remove ''.'' (fs_demo_dir\<lparr>cwd_idx := 1, cwd := ''/a''\<rparr>) = (FS_ERR_OK, s1) \<and>
     fs_create_file (\<lambda>_. []) ''x'' s1 = Some (FS_ERR_OK, s2) \<and> parent_idx (fs_nodes s2 ! 1) = 1"
proof -
  let ?s = "fs_demo_dir\<lparr>cwd_idx := 1, cwd := ''/a''\<rparr>"
  have inv: "fs_inv ?s" using fs_demo_dir(1,4) by (simp add: fs_inv_def is_dir_def zero_node_def)
  have p: "fused (fs_nodes ?s ! i) \<longrightarrow> parent_idx (fs_nodes ?s ! i) \<noteq> cwd_idx ?s" if "i < 64" for i
    using that fs_demo_dir(4,5) fs_demo_nth [of i] by (cases "i = 1") (simp_all add: zero_node_def)
  have below: "\<forall>i < unat (cwd_idx ?s). fused (fs_nodes ?s ! i)" using fs_demo_dir(5) [of 0] fs_demo_nth [of 0] by simp
  have "\<not> disk_enabled ?s" "cwd_idx ?s \<noteq> 0" using fs_demo_dir(3) by simp_all
  then show ?thesis
    using fs_remove_cwd_cycle [OF inv _ _ _ below, of "\<lambda>_. []"] p by auto
qed

end
