(* ===== verification/Syscall.thy ===== *)
theory Syscall
  imports Ipc Elf Vesa Keyboard Rtc Fs_Runs
begin

text \<open>
  \<^verbatim>\<open>kernel/core/syscall.c\<close>: the system calls, which compose scheduler, ports, terminals, keyboard, virtual memory,
  filesystem, loader and clock. The state of the system is that of the memory managers, tasks and ports, with
  the states of terminals and keyboard, of the files, of the frame buffer and of the hardware behind the ports as
  further fields. Pointers given by user programs are followed through the memory as the processor sees it.

  A call returns a number in EAX, or blocks its caller inside the call, or raises a divide error in the
  kernel. \<^term>\<open>None\<close> is a page fault in kernel mode or the use of freed memory. A call that blocked runs the
  next pass of its loop when the caller is scheduled again, with the same arguments.
\<close>

section \<open>State\<close>

record 'd sys_state = ipc_state +
  ui :: kbd_state
  files :: fs_state
  vesa :: vesa_state
  hw :: 'd

text \<open>
  What the code finds in its surroundings: the contents of uninitialised directory entries, the address of
  the static file buffer, and the ports.
\<close>

record 'd sys_env =
  env_junk :: "u32 \<Rightarrow> dirent"
  env_file_buffer :: u32
  env_io :: "'d ports"

record registers =
  r_ds :: u32
  r_edi :: u32
  r_esi :: u32
  r_ebp :: u32
  r_esp :: u32
  r_ebx :: u32
  r_edx :: u32
  r_ecx :: u32
  r_eax :: u32
  r_int_no :: u32
  r_err_code :: u32
  r_eip :: u32
  r_cs :: u32
  r_eflags :: u32
  r_useresp :: u32
  r_ss :: u32

datatype sys_result = SysReturn u32 | SysBlocked | SysDivideError

definition SYS_EXIT :: u32 where "SYS_EXIT = 0"
definition SYS_WRITE :: u32 where "SYS_WRITE = 1"
definition SYS_READ :: u32 where "SYS_READ = 2"
definition SYS_YIELD :: u32 where "SYS_YIELD = 3"
definition SYS_GETPID :: u32 where "SYS_GETPID = 4"
definition SYS_FORK :: u32 where "SYS_FORK = 5"
definition SYS_WAIT :: u32 where "SYS_WAIT = 6"
definition SYS_EXEC :: u32 where "SYS_EXEC = 7"
definition SYS_SEND :: u32 where "SYS_SEND = 10"
definition SYS_RECV :: u32 where "SYS_RECV = 11"
definition SYS_PORT_CREATE :: u32 where "SYS_PORT_CREATE = 12"
definition SYS_PORT_DESTROY :: u32 where "SYS_PORT_DESTROY = 13"
definition SYS_IOCTL :: u32 where "SYS_IOCTL = 14"
definition SYS_MMAP :: u32 where "SYS_MMAP = 15"
definition SYS_GETTIME :: u32 where "SYS_GETTIME = 16"
definition SYS_SETTIME :: u32 where "SYS_SETTIME = 17"

type_synonym 'd sys_outcome = "(sys_result \<times> 'd sys_state) option"

definition return_value :: "u32 \<Rightarrow> 'd sys_state \<Rightarrow> 'd sys_outcome" where
  "return_value v s = Some (SysReturn v, s)"

text \<open>A call that goes on only when the pointer passes the check.\<close>

definition checked :: "u32 \<Rightarrow> u32 \<Rightarrow> bool \<Rightarrow> 'd sys_state \<Rightarrow> 'd sys_outcome \<Rightarrow> 'd sys_outcome" where
  "checked ptr len wr s go = do { ok \<leftarrow> vmm_check_user_ptr ptr len wr s; if \<not> ok then return_value (-1) s else go }"

section \<open>Strings and structures in user memory\<close>

text \<open>A zero-terminated string; \<^term>\<open>None\<close> also when there is no zero.\<close>

partial_function (option) user_string :: "u32 \<Rightarrow> 'a vmm_state_scheme \<Rightarrow> u8 list option" where
  "user_string a s =
     do { c \<leftarrow> vload8 a s; if c = 0 then Some [] else do { cs \<leftarrow> user_string (a + 1) s; Some (c # cs) } }"

definition load_message :: "u32 \<Rightarrow> 'a vmm_state_scheme \<Rightarrow> message option" where
  "load_message a s =
     do {
       sender \<leftarrow> vload32 a s; receiver \<leftarrow> vload32 (a + 4) s; ty \<leftarrow> vload32 (a + 8) s; len \<leftarrow> vload32 (a + 12) s;
       bytes \<leftarrow> vload_bytes (a + 16) MAX_MSG_SIZE s;
       Some \<lparr>m_sender = sender, m_receiver = receiver, m_type = ty, m_len = len, m_data = bytes\<rparr>
     }"

definition store_message :: "u32 \<Rightarrow> message \<Rightarrow> 'a vmm_state_scheme \<Rightarrow> 'a vmm_state_scheme option" where
  "store_message a m s =
     vstore_bytes a (le32 (m_sender m) @ le32 (m_receiver m) @ le32 (m_type m) @ le32 (m_len m) @ m_data m) s"

definition sizeof_rtc_time :: u32 where "sizeof_rtc_time = 10"

definition store_time :: "u32 \<Rightarrow> rtc_time \<Rightarrow> 'a vmm_state_scheme \<Rightarrow> 'a vmm_state_scheme option" where
  "store_time a t s =
     do {
       s \<leftarrow> vstore_bytes a [second t, minute t, hour t, day t, month t] s;
       vstore_bytes (a + 6) [ucast (year t), ucast (drop_bit 8 (year t)), weekday t] s
     }"

definition load_time :: "u32 \<Rightarrow> 'a vmm_state_scheme \<Rightarrow> rtc_time option" where
  "load_time a s =
     do {
       sec \<leftarrow> vload8 a s; mi \<leftarrow> vload8 (a + 1) s; ho \<leftarrow> vload8 (a + 2) s; da \<leftarrow> vload8 (a + 3) s; mo \<leftarrow> vload8 (a + 4) s;
       ye \<leftarrow> vload16 (a + 6) s; wd \<leftarrow> vload8 (a + 8) s;
       Some \<lparr>second = sec, minute = mi, hour = ho, day = da, month = mo, year = ye, weekday = wd\<rparr>
     }"

section \<open>Executing a program\<close>

definition do_exec :: "'d sys_env \<Rightarrow> u32 \<Rightarrow> 'd sys_state \<Rightarrow> 'd sys_outcome" where
  "do_exec env path s =
     (if path = 0 then return_value (-1) s
      else let (new_pd, s) = vmm_create_address_space s in
      if new_pd = 0 then return_value (-1) s
      else do {
        name \<leftarrow> user_string path s;
        (r, res, fs, s) \<leftarrow> elf_load_file (env_junk env) (env_file_buffer env) (Some (map (\<lambda>c :: u8. char_of (unat c)) name)) new_pd
                              \<lparr>entry_point = 0, brk = 0\<rparr> (files s) s;
        let s = s\<lparr>files := fs\<rparr>;
        if r \<noteq> 0 then return_value (-1) (vmm_destroy_address_space new_pd s)
        else if sched_get_current s = 0 then return_value (-1) (vmm_destroy_address_space new_pd s)
        else let (r, s) = vmm_alloc_page new_pd 0xBFFFF000 ((PAGE_PRESENT OR PAGE_WRITE) OR PAGE_USER) s in
        if r \<noteq> 0 then return_value (-1) (vmm_destroy_address_space new_pd s)
        else do {
          s \<leftarrow> upd_task (sched_get_current s)
                 (\<lambda>t. t\<lparr>t_context := (t_context t)\<lparr>ctx_eip := entry_point res, ctx_cr3 := new_pd\<rparr>, t_kernel_mode := False\<rparr>) s;
          return_value 0 (vmm_switch_address_space new_pd s)
        }
      })"

section \<open>The calls\<close>

definition sys_exit :: "u32 \<Rightarrow> 'd sys_state \<Rightarrow> 'd sys_outcome" where
  "sys_exit arg1 s =
     do {
       s \<leftarrow> (if sched_get_current s \<noteq> 0
            then do { t \<leftarrow> tasks s (sched_get_current s); task_exit (t_id t) arg1 s }
            else Some s);
       s \<leftarrow> schedule s;
       return_value 0 s
     }"

text \<open>The terminal of the calling process, or the active one.\<close>

definition sys_terminal :: "'d sys_state \<Rightarrow> nat option option" where
  "sys_terminal s =
     do {
       term_id \<leftarrow> (if sched_get_current s \<noteq> 0
                  then do { t \<leftarrow> tasks s (sched_get_current s); Some (vterm_get_by_pid (sint (t_pid t)) (ui s)) }
                  else Some (-1));
       Some (if term_id \<ge> 0 then vterm_get (of_int term_id) else vterm_get_active (ui s))
     }"

lemma unat_next:
  fixes i len :: u32
  assumes "i < len"
  shows "unat (i + 1) = Suc (unat i)"
proof -
  have "unat i < unat len" "unat len < 2 ^ 32"
    using assms unsigned_less [of len, where 'a = nat] by (simp_all add: word_less_nat_alt)
  then show ?thesis by (simp add: unat_add_no_overflow)
qed

function write_chars :: "nat option \<Rightarrow> u32 \<Rightarrow> u32 \<Rightarrow> u32 \<Rightarrow> 'd sys_state \<Rightarrow> (u32 \<times> 'd sys_state) option" where
  "write_chars vt str len i s =
     (if i < len
      then case vload8 (str + i) s of
             None \<Rightarrow> None
           | Some c \<Rightarrow>
               if c = 0 then Some (i, s)
               else case vterm_putchar vt c (ui s) of
                      None \<Rightarrow> None
                    | Some u \<Rightarrow> write_chars vt str len (i + 1) (s\<lparr>ui := u\<rparr>)
      else Some (i, s))"
  by pat_completeness auto
termination
  by (relation "measure (\<lambda>(_, _, len, i, _). unat len - unat i)") (auto simp: unat_next word_less_nat_alt diff_less_mono2)

declare write_chars.simps [simp del]

definition sys_write :: "u32 \<Rightarrow> u32 \<Rightarrow> 'd sys_state \<Rightarrow> 'd sys_outcome" where
  "sys_write str len s =
     checked str len False s (do { vt \<leftarrow> sys_terminal s; (i, s) \<leftarrow> write_chars vt str len 0 s; return_value i s })"

function read_chars :: "u32 \<Rightarrow> u32 \<Rightarrow> u32 \<Rightarrow> 'd sys_state \<Rightarrow> (u32 \<times> 'd sys_state) option" where
  "read_chars buf len count s =
     (if count < len
      then if keyboard_has_data (ui s)
           then case keyboard_getchar (ui s) of
                  None \<Rightarrow> None
                | Some (c, k) \<Rightarrow>
                    (case vstore8 (buf + count) c (s\<lparr>ui := k\<rparr>) of
                       None \<Rightarrow> None
                     | Some s \<Rightarrow> read_chars buf len (count + 1) s)
           else Some (count, s)
      else Some (count, s))"
  by pat_completeness auto
termination
  by (relation "measure (\<lambda>(_, len, i, _). unat len - unat i)") (auto simp: unat_next word_less_nat_alt diff_less_mono2)

declare read_chars.simps [simp del]

definition sys_read :: "u32 \<Rightarrow> u32 \<Rightarrow> 'd sys_state \<Rightarrow> 'd sys_outcome" where
  "sys_read buf len s = checked buf len True s (do { (n, s) \<leftarrow> read_chars buf len 0 s; return_value n s })"

definition sys_getpid :: "'d sys_state \<Rightarrow> 'd sys_outcome" where
  "sys_getpid s =
     (if sched_get_current s = 0 then return_value (-1) s
      else do { t \<leftarrow> tasks s (sched_get_current s); return_value (t_pid t) s })"

definition sys_wait :: "u32 \<Rightarrow> u32 \<Rightarrow> 'd sys_state \<Rightarrow> 'd sys_outcome" where
  "sys_wait pid status_ptr s =
     do {
       (r, s) \<leftarrow> task_wait_pass pid s;
       case r of
         WaitBlocked \<Rightarrow> Some (SysBlocked, s)
       | WaitReturn p status \<Rightarrow>
           if status_ptr \<noteq> 0
           then do {
             ok \<leftarrow> vmm_check_user_ptr status_ptr 4 True s;
             s \<leftarrow> (if ok then vstore32 status_ptr (case status of None \<Rightarrow> 0 | Some v \<Rightarrow> v) s else Some s);
             return_value p s
           }
           else return_value p s
     }"

definition ipc_outcome :: "ipc_result \<times> 'd sys_state \<Rightarrow> 'd sys_outcome" where
  "ipc_outcome rs = (case rs of (IpcReturn v, s) \<Rightarrow> Some (SysReturn v, s) | (IpcBlocked, s) \<Rightarrow> Some (SysBlocked, s)
     | (IpcDivideError, s) \<Rightarrow> Some (SysDivideError, s))"

text \<open>The message structure at \<open>msg\<close> is the one in user memory.\<close>

definition sys_send :: "u32 \<Rightarrow> u32 \<Rightarrow> u32 \<Rightarrow> 'd sys_state \<Rightarrow> 'd sys_outcome" where
  "sys_send port_id msg flags s =
     checked msg sizeof_message False s
       (do { rs \<leftarrow> msg_send port_id msg flags (s\<lparr>messages := (messages s)(msg := load_message msg s)\<rparr>); ipc_outcome rs })"

definition sys_recv :: "u32 \<Rightarrow> u32 \<Rightarrow> u32 \<Rightarrow> 'd sys_state \<Rightarrow> 'd sys_outcome" where
  "sys_recv port_id msg flags s =
     checked msg sizeof_message True s
       (do {
          (r, s) \<leftarrow> msg_receive port_id msg flags (s\<lparr>messages := (messages s)(msg := load_message msg s)\<rparr>);
          s \<leftarrow> (if r = IpcReturn 0 then do { m \<leftarrow> messages s msg; store_message msg m s } else Some s);
          ipc_outcome (r, s)
        })"

definition sys_port_create :: "'d sys_state \<Rightarrow> 'd sys_outcome" where
  "sys_port_create s =
     (if sched_get_current s = 0 then return_value (-1) s
      else do { t \<leftarrow> tasks s (sched_get_current s); (r, s) \<leftarrow> port_create (t_pid t) s; return_value r s })"

text \<open>Listing the PCI devices only writes to the log.\<close>

definition sys_ioctl :: "u32 \<Rightarrow> u32 \<Rightarrow> 'd sys_state \<Rightarrow> 'd sys_outcome" where
  "sys_ioctl device request s = return_value (if device = 2 \<and> request = 0 then 0 else -1) s"

definition sys_mmap :: "u32 \<Rightarrow> 'd sys_state \<Rightarrow> 'd sys_outcome" where
  "sys_mmap info s =
     (if \<not> vesa_is_available (vesa s) then return_value 0 s
      else checked info sizeof_mode_info True s
        (do {
           (ok, s) \<leftarrow> vesa_get_mode_info (vesa s) info s;
           return_value (if ok then vesa_get_framebuffer (vesa s) else 0) s
         }))"

definition sys_gettime :: "'d ports \<Rightarrow> u32 \<Rightarrow> 'd sys_state \<Rightarrow> 'd sys_outcome" where
  "sys_gettime io time s =
     checked time sizeof_rtc_time True s
       (let (t, d) = rtc_read_time io (hw s) in do { s \<leftarrow> store_time time t (s\<lparr>hw := d\<rparr>); return_value 0 s })"

definition sys_settime :: "'d ports \<Rightarrow> u32 \<Rightarrow> 'd sys_state \<Rightarrow> 'd sys_outcome" where
  "sys_settime io time s =
     checked time sizeof_rtc_time False s
       (do { t \<leftarrow> load_time time s; return_value 0 (s\<lparr>hw := rtc_write_time io t (hw s)\<rparr>) })"

definition syscall_handler :: "'d sys_env \<Rightarrow> registers \<Rightarrow> 'd sys_state \<Rightarrow> 'd sys_outcome" where
  "syscall_handler env regs s =
     (let num = r_eax regs; arg1 = r_ebx regs; arg2 = r_ecx regs; arg3 = r_edx regs in
      if num = SYS_EXIT then sys_exit arg1 s
      else if num = SYS_WRITE then sys_write arg1 arg2 s
      else if num = SYS_READ then sys_read arg1 arg2 s
      else if num = SYS_YIELD then do { s \<leftarrow> sched_yield s; return_value 0 s }
      else if num = SYS_GETPID then sys_getpid s
      else if num = SYS_FORK then do { (r, s) \<leftarrow> task_fork s; return_value r s }
      else if num = SYS_WAIT then sys_wait arg1 arg2 s
      else if num = SYS_EXEC then checked arg1 1 False s (do_exec env arg1 s)
      else if num = SYS_SEND then sys_send arg1 arg2 arg3 s
      else if num = SYS_RECV then sys_recv arg1 arg2 arg3 s
      else if num = SYS_PORT_CREATE then sys_port_create s
      else if num = SYS_PORT_DESTROY then do { (r, s) \<leftarrow> port_destroy arg1 s; return_value r s }
      else if num = SYS_IOCTL then sys_ioctl arg1 arg2 s
      else if num = SYS_MMAP then sys_mmap arg1 s
      else if num = SYS_GETTIME then sys_gettime (env_io env) arg1 s
      else if num = SYS_SETTIME then sys_settime (env_io env) arg1 s
      else return_value (-1) s)"

text \<open>The interrupt handler puts the result into EAX.\<close>

definition syscall_isr :: "'d sys_env \<Rightarrow> registers \<Rightarrow> 'd sys_state \<Rightarrow> (registers \<times> sys_result \<times> 'd sys_state) option" where
  "syscall_isr env regs s =
     do {
       (r, s) \<leftarrow> syscall_handler env regs s;
       Some (case r of SysReturn v \<Rightarrow> regs\<lparr>r_eax := v\<rparr> | _ \<Rightarrow> regs, r, s)
     }"

section \<open>Following user pointers\<close>

text \<open>The processor uses the directory that the memory manager believes to be current, in the mode the kernel runs in.\<close>

definition mmu_ok :: "'a vmm_state_scheme \<Rightarrow> bool" where
  "mmu_ok s \<longleftrightarrow> identity_mode s \<and> paging s \<and> cr3 s = current_directory s \<and> paged (cr3 s)"

lemma user_page_virt:
  assumes "mmu_ok s" and "user_page s (current_directory s) wr x"
  shows "\<exists>p. virt s x = Some p"
  using assms by (auto simp: mmu_ok_def user_page_def virt_def Let_def paged_def)

lemma check_virt:
  assumes ok: "mmu_ok s" and ch: "vmm_check_user_ptr a len wr s = Some True" and "unat a + unat len \<le> 2 ^ 32" and i: "i < unat len"
  shows "\<exists>p. virt s (a + of_nat i) = Some p"
proof -
  have nz: "a \<noteq> 0" "len \<noteq> 0" "current_directory s \<noteq> 0"
    using ch i by (auto simp: vmm_check_user_ptr_def vmm_get_current_directory_def Let_def split: if_splits)
  have u: "unat (a + of_nat i) = unat a + i"
    using assms(3) i by (simp add: unat_add_no_overflow unat_of_nat_small)
  have "user_page s (current_directory s) wr (a + of_nat i)"
    using check_user_ptr_sound [OF assms(3) nz, of wr] ch i u by (auto simp: word_le_nat_alt)
  then show ?thesis by (rule user_page_virt [OF ok])
qed

lemma ui_unseen [simp]: "virt (s\<lparr>ui := u\<rparr>) = virt s" "walk_pages (s\<lparr>ui := u\<rparr>) = walk_pages s" "vload8 a (s\<lparr>ui := u\<rparr>) = vload8 a s"
  "writable_range (s\<lparr>ui := u\<rparr>) a n = writable_range s a n"
proof -
  have e: "entry (s\<lparr>ui := u\<rparr>) p i = entry s p i" "paging (s\<lparr>ui := u\<rparr>) = paging s" for p i by (simp_all add: entry_def paging_def)
  show v: "virt (s\<lparr>ui := u\<rparr>) = virt s" and w: "walk_pages (s\<lparr>ui := u\<rparr>) = walk_pages s"
    by (simp_all add: virt_def walk_pages_def e fun_eq_iff Let_def)
  show "vload8 a (s\<lparr>ui := u\<rparr>) = vload8 a s" "writable_range (s\<lparr>ui := u\<rparr>) a n = writable_range s a n"
    by (simp_all add: vload8_def writable_range_def v w)
qed

section \<open>Writing to the terminal\<close>

text \<open>Characters sent to a terminal one after the other.\<close>

primrec puts :: "nat option \<Rightarrow> u8 list \<Rightarrow> kbd_state \<Rightarrow> kbd_state option" where
  "puts t [] u = Some u"
| "puts t (c # cs) u = (case vterm_putchar t c u of None \<Rightarrow> None | Some u' \<Rightarrow> puts t cs u')"

lemma write_chars_prints:
  assumes "vt_inv (ui s)" and "shown (ui s)" and "\<forall>k. vt = Some k \<longrightarrow> k < 4"
    and "length bs = unat len - unat i" and "\<forall>k < length bs. vload8 (str + i + of_nat k) s = Some (bs ! k)"
  shows "\<exists>u. puts vt (takeWhile (\<lambda>c. c \<noteq> 0) bs) (ui s) = Some u \<and> vt_inv u \<and> shown u \<and>
    write_chars vt str len i s = Some (i + of_nat (length (takeWhile (\<lambda>c. c \<noteq> 0) bs)), s\<lparr>ui := u\<rparr>)"
  using assms
proof (induction bs arbitrary: i s)
  case Nil
  then have "\<not> i < len" by (simp add: word_less_nat_alt)
  then have "write_chars vt str len i s = Some (i, s)" by (subst write_chars.simps) simp
  then show ?case using Nil.prems(1,2) by (intro exI [of _ "ui s"]) simp
next
  case (Cons b bs)
  have less: "i < len" using Cons.prems(4) by (simp add: word_less_nat_alt)
  have b: "vload8 (str + i) s = Some b" using Cons.prems(5) by force
  show ?case
  proof (cases "b = 0")
    case True
    then have "write_chars vt str len i s = Some (i, s)" using b less by (subst write_chars.simps) simp
    then show ?thesis using True Cons.prems(1,2) by (intro exI [of _ "ui s"]) simp
  next
    case False
    obtain u where u: "vterm_putchar vt b (ui s) = Some u" "vt_inv u" "shown u"
      using vterm_putchar_good [OF Cons.prems(1,2), of vt b] Cons.prems(3) by (auto simp: good_def)
    have step: "write_chars vt str len i s = write_chars vt str len (i + 1) (s\<lparr>ui := u\<rparr>)"
      using less b False u(1) by (subst write_chars.simps) simp
    have rest: "\<forall>k < length bs. vload8 (str + (i + 1) + of_nat k) (s\<lparr>ui := u\<rparr>) = Some (bs ! k)"
    proof (intro allI impI)
      fix k assume "k < length bs"
      then show "vload8 (str + (i + 1) + of_nat k) (s\<lparr>ui := u\<rparr>) = Some (bs ! k)"
        using Cons.prems(5) [rule_format, of "Suc k"] by (simp add: ac_simps)
    qed
    have len: "length bs = unat len - unat (i + 1)" using Cons.prems(4) unat_next [OF less] by simp
    have uis: "ui (s\<lparr>ui := u\<rparr>) = u" by simp
    have inv: "vt_inv (ui (s\<lparr>ui := u\<rparr>))" "shown (ui (s\<lparr>ui := u\<rparr>))" using u by simp_all
    obtain u' where "puts vt (takeWhile (\<lambda>c. c \<noteq> 0) bs) u = Some u'" "vt_inv u'" "shown u'"
        "write_chars vt str len (i + 1) (s\<lparr>ui := u\<rparr>) =
          Some (i + 1 + of_nat (length (takeWhile (\<lambda>c. c \<noteq> 0) bs)), s\<lparr>ui := u\<rparr>\<lparr>ui := u'\<rparr>)"
      using Cons.IH [OF inv Cons.prems(3) len rest] unfolding uis by blast
    then show ?thesis using u(1) False step by (intro exI [of _ u']) (simp add: ac_simps)
  qed
qed

lemma vload_bytes_all:
  assumes "\<forall>i < n. \<exists>p. virt s (a + of_nat i) = Some p"
  shows "\<exists>bs. vload_bytes a n s = Some bs \<and> length bs = n \<and> (\<forall>i < n. vload8 (a + of_nat i) s = Some (bs ! i))"
  using assms
proof (induction n arbitrary: a)
  case (Suc n)
  have "\<forall>i < n. \<exists>p. virt s (a + 1 + of_nat i) = Some p"
  proof (intro allI impI)
    fix i assume "i < n"
    then show "\<exists>p. virt s (a + 1 + of_nat i) = Some p" using Suc.prems [rule_format, of "Suc i"] by (simp add: ac_simps)
  qed
  then obtain bs where bs: "vload_bytes (a + 1) n s = Some bs" "length bs = n" "\<forall>i < n. vload8 (a + 1 + of_nat i) s = Some (bs ! i)"
    using Suc.IH by blast
  obtain p where "virt s a = Some p" using Suc.prems [rule_format, of 0] by auto
  then have b: "vload8 a s = Some (kmem s p)" by (simp add: vload8_def)
  have "vload8 (a + of_nat i) s = Some ((kmem s p # bs) ! i)" if "i < Suc n" for i
    using that b bs(3) by (cases i) (simp_all add: ac_simps)
  then show ?case using b bs by simp
qed simp

text \<open>
  C6: A write call with a range that the check accepts and that does not wrap around always returns: it prints exactly
  the bytes of the user's string up to the first zero byte or the given length, in order, on the terminal
  of the process (or the active one), returns their number, and changes nothing but the terminals, whose
  invariant it keeps.
\<close>

theorem sys_write_prints:
  assumes "r_eax regs = SYS_WRITE" and "mmu_ok s" and "vmm_check_user_ptr (r_ebx regs) (r_ecx regs) False s = Some True"
    and "unat (r_ebx regs) + unat (r_ecx regs) \<le> 2 ^ 32"
    and "vt_inv (ui s)" and "shown (ui s)" and "sys_terminal s = Some vt"
  shows "\<exists>bs u. vload_bytes (r_ebx regs) (unat (r_ecx regs)) s = Some bs \<and>
    puts vt (takeWhile (\<lambda>c. c \<noteq> 0) bs) (ui s) = Some u \<and> vt_inv u \<and> shown u \<and>
    syscall_handler env regs s = Some (SysReturn (of_nat (length (takeWhile (\<lambda>c. c \<noteq> 0) bs))), s\<lparr>ui := u\<rparr>)"
proof -
  let ?a = "r_ebx regs" and ?n = "r_ecx regs"
  obtain bs where bs: "vload_bytes ?a (unat ?n) s = Some bs" "length bs = unat ?n" "\<forall>i < unat ?n. vload8 (?a + of_nat i) s = Some (bs ! i)"
    using vload_bytes_all check_virt [OF assms(2-4)] by blast
  have vt: "\<forall>k. vt = Some k \<longrightarrow> k < 4"
    using assms(5,7)
    by (auto simp: sys_terminal_def bind_eq_Some_conv vterm_get_active_def vt_inv_def dest: vterm_get_Some split: if_splits)
  obtain u where u: "puts vt (takeWhile (\<lambda>c. c \<noteq> 0) bs) (ui s) = Some u" "vt_inv u" "shown u"
      "write_chars vt ?a ?n 0 s = Some (of_nat (length (takeWhile (\<lambda>c. c \<noteq> 0) bs)), s\<lparr>ui := u\<rparr>)"
    using write_chars_prints [OF assms(5,6) vt, where bs = bs and len = ?n and i = 0 and str = ?a] bs by auto
  have "syscall_handler env regs s = sys_write ?a ?n s"
    using assms(1) by (simp add: syscall_handler_def SYS_WRITE_def SYS_EXIT_def)
  then show ?thesis using bs(1) u assms(3,7) by (simp add: sys_write_def checked_def return_value_def)
qed

section \<open>Reading from the keyboard\<close>

text \<open>
  The effect of a read: \<open>n\<close> keys are taken from the keyboard and stored in order from \<open>buf\<close> on; no other byte of
  memory and no other part of the system changes.
\<close>

definition delivers :: "'d sys_state \<Rightarrow> 'd sys_state \<Rightarrow> u32 \<Rightarrow> nat \<Rightarrow> bool" where
  "delivers s s' buf n \<longleftrightarrow> stores (s\<lparr>ui := ui s'\<rparr>) s' buf (take n (pending (ui s))) \<and>
     pending (ui s') = drop n (pending (ui s)) \<and> kbd_ok (ui s')"

lemma read_chars_delivers:
  assumes "kbd_ok (ui s)" and "writable_range s (buf + count) n" and "n = min (unat len - unat count) (length (pending (ui s)))"
  shows "\<exists>s'. read_chars buf len count s = Some (count + of_nat n, s') \<and> delivers s s' (buf + count) n"
  using assms
proof (induction n arbitrary: count s)
  case 0
  have stop: "\<not> count < len \<or> pending (ui s) = []" using 0 by (auto simp: word_less_nat_alt min_def split: if_splits)
  have "keyboard_has_data (ui s) \<longleftrightarrow> pending (ui s) \<noteq> []"
    using key_get_empty [OF 0(1)] by (auto simp: keyboard_has_data_def keyboard_getchar_def split: if_splits)
  then have "read_chars buf len count s = Some (count, s)" using stop by (subst read_chars.simps) auto
  moreover have "delivers s s (buf + count) 0" using 0(1) by (simp add: delivers_def stores_def)
  ultimately show ?case by (intro exI [of _ s]) simp
next
  case (Suc n)
  have less: "count < len" and ne: "pending (ui s) \<noteq> []" using Suc.prems(3) by (auto simp: word_less_nat_alt)
  have "keyboard_getchar (ui s) \<noteq> None" using key_get_empty [OF Suc.prems(1)] ne by simp
  then obtain c k where g: "keyboard_getchar (ui s) = Some (c, k)" by fastforce
  have k: "kbd_ok k" "pending (ui s) = c # pending k" using key_get_ok [OF Suc.prems(1) g] by simp_all
  have data: "keyboard_has_data (ui s)" using g by (auto simp: keyboard_has_data_def keyboard_getchar_def split: if_splits)
  obtain p where p: "virt s (buf + count) = Some p" using vstore8_ok Suc.prems(2) by metis
  define s1 where "s1 = s\<lparr>ui := k, kmem := (kmem s)(p := c)\<rparr>"
  have st: "vstore8 (buf + count) c (s\<lparr>ui := k\<rparr>) = Some s1" using p by (simp add: vstore8_def s1_def)
  have wr: "writable_range (s\<lparr>ui := k\<rparr>) (buf + count) (Suc n)" using Suc.prems(2) by simp
  have wr1: "writable_range s1 (buf + (count + 1)) n"
    using writable_range_step(1) [OF wr st] by (simp add: add.assoc)
  have "n = min (unat len - unat (count + 1)) (length (pending (ui s1)))"
    using Suc.prems(3) k(2) unat_next [OF less] by (simp add: s1_def)
  moreover have "kbd_ok (ui s1)" using k(1) by (simp add: s1_def)
  ultimately obtain s' where s': "read_chars buf len (count + 1) s1 = Some (count + 1 + of_nat n, s')"
      "delivers s1 s' (buf + (count + 1)) n"
    using Suc.IH wr1 by blast
  have "read_chars buf len count s = Some (count + of_nat (Suc n), s')"
    using less data g st s'(1) by (subst read_chars.simps) (simp add: ac_simps)
  moreover have "delivers s s' (buf + count) (Suc n)"
  proof -
    let ?s = "s\<lparr>ui := ui s'\<rparr>"
    have ui1: "ui s1 = k" by (simp add: s1_def)
    have "s1\<lparr>ui := ui s'\<rparr> = ?s\<lparr>kmem := (kmem ?s)(p := c)\<rparr>" by (simp add: s1_def)
    moreover have "buf + (count + 1) = buf + count + 1" by simp
    ultimately have "stores (?s\<lparr>kmem := (kmem ?s)(p := c)\<rparr>) s' (buf + count + 1) (take n (pending k))"
      using s'(2) ui1 by (simp only: delivers_def)
    moreover have "length (take n (pending k)) = n" using Suc.prems(3) k(2) by simp
    ultimately have "stores ?s s' (buf + count) (c # take n (pending k))"
      using stores_Cons [of ?s "buf + count" "take n (pending k)" p c s'] Suc.prems(2) p by simp
    then show ?thesis using s'(2) k by (simp add: delivers_def s1_def)
  qed
  ultimately show ?case by blast
qed

text \<open>
  C7: A read call whose buffer the check accepts always returns, without waiting: it takes the keys that are pending, at
  most the given number, stores them in the order they were typed at the buffer, removes them from the
  keyboard buffer and returns their number; it changes nothing else.
\<close>

theorem sys_read_delivers:
  assumes "r_eax regs = SYS_READ" and "vmm_check_user_ptr (r_ebx regs) (r_ecx regs) True s = Some True" and "kbd_ok (ui s)"
    and "n = min (unat (r_ecx regs)) (length (pending (ui s)))" and "writable_range s (r_ebx regs) n"
  shows "\<exists>s'. syscall_handler env regs s = Some (SysReturn (of_nat n), s') \<and> delivers s s' (r_ebx regs) n"
proof -
  have "syscall_handler env regs s = sys_read (r_ebx regs) (r_ecx regs) s"
    using assms(1) by (simp add: syscall_handler_def SYS_WRITE_def SYS_EXIT_def SYS_READ_def)
  then show ?thesis
    using read_chars_delivers [of s "r_ebx regs" 0 n "r_ecx regs"] assms(2-5)
    by (auto simp: sys_read_def checked_def return_value_def)
qed

text \<open>
  C30: A user program can have the keys it is typed written into kernel memory. With a length that wraps around the
  address space the check accepts every address from \<open>0x1000\<close> up to the end of user space, also those of kernel
  pages, which lie there; all pending keys are stored at that address.
\<close>

theorem sys_read_kernel_memory:
  assumes "r_eax regs = SYS_READ" and "0x1000 \<le> r_ebx regs" and "r_ebx regs \<le> USER_SPACE_END" and "r_ecx regs = 1 - r_ebx regs"
    and "current_directory s \<noteq> 0" and "kbd_ok (ui s)" and "writable_range s (r_ebx regs) (length (pending (ui s)))"
  shows "\<exists>s'. syscall_handler env regs s = Some (SysReturn (of_nat (length (pending (ui s)))), s') \<and>
    delivers s s' (r_ebx regs) (length (pending (ui s)))"
proof -
  let ?a = "r_ebx regs" and ?n = "length (pending (ui s))"
  have check: "vmm_check_user_ptr ?a (1 - ?a) True s = Some True" by (rule check_user_ptr_wraps [OF assms(2,3,5)])
  have "1 < unat ?a" using assms(2) by (simp add: word_le_nat_alt)
  then have "unat (1 - ?a) = 2 ^ 32 + 1 - unat ?a" by (simp add: unat_sub_if_size word_size)
  moreover have "unat ?a \<le> 0xBFFFFFFF" using assms(3) by (simp add: USER_SPACE_END_def word_le_nat_alt)
  moreover have "?n \<le> 255" by (rule pending_within [OF assms(6)])
  ultimately have "?n = min (unat (1 - ?a) - unat 0) ?n" by simp
  then obtain s' where "read_chars ?a (1 - ?a) 0 s = Some (of_nat ?n, s')" "delivers s s' ?a ?n"
    using read_chars_delivers [of s ?a 0 ?n "1 - ?a"] assms(6,7) by auto
  moreover have "syscall_handler env regs s = sys_read ?a (1 - ?a) s"
    using assms(1,4) by (simp add: syscall_handler_def SYS_WRITE_def SYS_EXIT_def SYS_READ_def Let_def)
  ultimately show ?thesis using check by (simp add: sys_read_def checked_def return_value_def)
qed

section \<open>Examples\<close>

text \<open>
  A system with the directory at \<open>0x3000\<close> and one table: a user page at \<open>0x5000\<close> that starts with two characters, and a kernel
  page at \<open>0x100000\<close>. One key is pending.
\<close>

type_synonym demo_hw = "(u8 \<Rightarrow> u8) \<times> u8"

definition sys_base :: "demo_hw sys_state" where
  "sys_base = (ipc_state.extend ipc_demo (sys_state.fields
       (kbd_demo\<lparr>key_buffer := 0x6B # replicate 255 0, buffer_tail := 1\<rparr>) fs_demo screen_demo (\<lambda>_. 0, 0)))
     \<lparr>kmem := (\<lambda>x. if x = 0x5000 then 0x48 else if x = 0x5001 then 0x69 else 0), cr0 := 0x80000000, cr3 := 0x3000,
      current_directory := 0x3000, kernel_directory_phys := 0, current_task := 0\<rparr>"

definition sys_demo :: "demo_hw sys_state" where
  "sys_demo = set_entry 0x4000 0x100 0x100003 (set_entry 0x4000 5 0x5007 (set_entry 0x3000 0 0x4007 sys_base))"

definition env_demo :: "demo_hw sys_env" where
  "env_demo = \<lparr>env_junk = (\<lambda>_. []), env_file_buffer = 0x7000, env_io = chip_at 0x79\<rparr>"

definition call :: "u32 \<Rightarrow> u32 \<Rightarrow> u32 \<Rightarrow> registers" where
  "call num arg1 arg2 = \<lparr>r_ds = 0, r_edi = 0, r_esi = 0, r_ebp = 0, r_esp = 0, r_ebx = arg1, r_edx = 0, r_ecx = arg2, r_eax = num,
     r_int_no = 128, r_err_code = 0, r_eip = 0, r_cs = 0, r_eflags = 0, r_useresp = 0, r_ss = 0\<rparr>"

lemma sys_demo_fields:
  "cr0 sys_demo = 0x80000000" "cr3 sys_demo = 0x3000" "current_directory sys_demo = 0x3000" "kernel_directory_phys sys_demo = 0"
  "current_task sys_demo = 0" "ui sys_demo = kbd_demo\<lparr>key_buffer := 0x6B # replicate 255 0, buffer_tail := 1\<rparr>"
  by (simp_all add: sys_demo_def set_entry_def sys_base_def ipc_state.defs sys_state.defs)

lemma sys_base_zero:
  assumes "paged p" and "page_no p \<noteq> 5" and "unat i < 1024"
  shows "entry sys_base p i = 0"
proof -
  have "page_no x \<noteq> 5" if "x \<in> span32 (p + 4 * i)" for x
    using span32_page [OF slot_page(2) [OF assms(1,3)] that] slot_page(1) [OF assms(1,3)] assms(2) by simp
  moreover have "page_no 0x5000 = 5" "page_no 0x5001 = 5" by (simp_all add: page_no_def)
  ultimately have "load32 (kmem sys_base) (p + 4 * i) = load32 (\<lambda>_. 0) (p + 4 * i)"
    by (intro load32_cong) (auto simp: sys_base_def)
  then show ?thesis by (simp add: entry_def load32_def)
qed

lemma sys_demo_entry:
  assumes "paged p" and "page_no p \<noteq> 5" and "unat i < 1024"
  shows "entry sys_demo p i = (if p = 0x4000 \<and> i = 0x100 then 0x100003 else if p = 0x4000 \<and> i = 5 then 0x5007
     else if p = 0x3000 \<and> i = 0 then 0x4007 else 0)"
  unfolding sys_demo_def using assms by (auto simp: entry_set_entry demo_pages sys_base_zero)

lemma sys_demo_ok: "mmu_ok sys_demo" "identity_mode sys_demo"
  by (simp_all add: mmu_ok_def identity_mode_def paging_def sys_demo_fields demo_pages)

lemma sys_pages: "page_of 0x4007 = 0x4000" "page_of 0x5007 = 0x5000" "page_of 0x100003 = 0x100000" "present 0x4007" "present 0x5007"
  "present 0x100003"
  by (simp_all add: page_of_def present_def PAGE_PRESENT_def)

lemma sys_demo_virt: "virt sys_demo 0x5000 = Some 0x5000" "virt sys_demo 0x5001 = Some 0x5001" "virt sys_demo 0x100000 = Some 0x100000"
  by (simp_all add: virt_def Let_def paging_def sys_demo_fields sys_demo_entry demo_pages sys_pages page_directory_index_def
      page_table_index_def)

lemma sys_demo_walk: "page_no 0x5000 \<notin> walk_pages sys_demo" "page_no 0x100000 \<notin> walk_pages sys_demo"
proof -
  have "walk_pages sys_demo \<subseteq> {3, 4}"
    by (auto simp: walk_pages_def sys_demo_fields sys_demo_entry demo_pages page_no_def split: if_splits)
  then show "page_no 0x5000 \<notin> walk_pages sys_demo" "page_no 0x100000 \<notin> walk_pages sys_demo" by (auto simp: page_no_def)
qed

lemma sys_demo_check: "vmm_check_user_ptr 0x5000 2 wr sys_demo = Some True"
proof -
  have "user_page sys_demo 0x3000 wr 0x5000"
    by (simp add: user_page_def Let_def sys_demo_ok sys_demo_entry demo_pages sys_pages page_directory_index_def page_table_index_def
        PAGE_USER_def PAGE_WRITE_def)
  then have "check_pages sys_demo 0x3000 wr 0x5001 0x5000 = Some True"
    by (subst check_pages_step, subst check_pages_step) (simp add: PAGE_SIZE_def)
  moreover have "page_of 0x5000 = (0x5000 :: u32)" by (simp add: page_of_def)
  ultimately show ?thesis
    by (simp add: vmm_check_user_ptr_def USER_SPACE_END_def vmm_get_current_directory_def sys_demo_fields)
qed

lemma sys_demo_kbd: "kbd_ok (ui sys_demo)" "pending (ui sys_demo) = [0x6B]" "vt_inv (ui sys_demo)" "shown (ui sys_demo)"
  using kbd_demo_inv(1)
  by (simp_all add: sys_demo_fields kbd_inv_def kbd_ok_def pending_def ring_contents_def vt_inv_def shown_def) (simp_all add: kbd_demo_def)

theorem sys_write_prints_witness:
  "\<exists>u. syscall_handler env_demo (call SYS_WRITE 0x5000 2) sys_demo = Some (SysReturn 2, sys_demo\<lparr>ui := u\<rparr>)"
proof -
  have c: "vmm_check_user_ptr (r_ebx (call SYS_WRITE 0x5000 2)) (r_ecx (call SYS_WRITE 0x5000 2)) False sys_demo = Some True"
    by (simp add: call_def sys_demo_check)
  have t: "sys_terminal sys_demo = Some (Some 0)"
    by (simp add: sys_terminal_def sched_get_current_def sys_demo_fields vterm_get_active_def kbd_demo_def)
  have two: "(2 :: nat) = Suc (Suc 0)" by simp
  have b: "vload_bytes 0x5000 2 sys_demo = Some [0x48, 0x69]"
    unfolding two by (simp add: vload8_def sys_demo_virt) (simp add: sys_demo_def set_entry_def sys_base_def store32_def)
  show ?thesis
    using sys_write_prints [OF _ sys_demo_ok(1) c _ sys_demo_kbd(3,4) t, of env_demo] b by (auto simp: call_def)
qed

theorem sys_read_delivers_witness:
  "\<exists>s'. syscall_handler env_demo (call SYS_READ 0x5000 2) sys_demo = Some (SysReturn 1, s') \<and> vload8 0x5000 s' = Some 0x6B"
proof -
  have w: "writable_range sys_demo 0x5000 1" using sys_demo_virt(1) sys_demo_walk(1) by (simp add: writable_range_def inj_on_def)
  show ?thesis
    using sys_read_delivers [of "call SYS_READ 0x5000 2" sys_demo 1 env_demo] w sys_demo_check [of True] sys_demo_kbd(1,2)
    by (auto simp: call_def delivers_def stores_def)
qed

theorem sys_read_kernel_memory_witness:
  "\<exists>s'. syscall_handler env_demo (call SYS_READ 0x100000 (1 - 0x100000)) sys_demo = Some (SysReturn 1, s') \<and> vload8 0x100000 s' = Some 0x6B"
proof -
  have w: "writable_range sys_demo 0x100000 1" using sys_demo_virt(3) sys_demo_walk(2) by (simp add: writable_range_def inj_on_def)
  show ?thesis
    using sys_read_kernel_memory [of "call SYS_READ 0x100000 (1 - 0x100000)" sys_demo env_demo] w sys_demo_kbd(1,2)
    by (auto simp: call_def delivers_def stores_def sys_demo_fields USER_SPACE_END_def)
qed

end
