(* ===== verification/Ata.thy ===== *)
theory Ata
  imports Ports Diskfs
begin

text \<open>
  \<^verbatim>\<open>kernel/drivers/storage/ata.c\<close>: the driver of the ATA disks, with programmed input and output through ports.
  The devices are a parameter, as in \<open>Ports\<close>. A read returns the words it has put into the buffer of the
  caller, from the start of the buffer; a write gets the words of the buffer as a function of their index.
  The second half describes the documented protocol of an ATA channel and shows that on such a channel the
  driver implements the sector operations that \<open>Diskfs\<close> is built on. Log calls are left out.
\<close>

section \<open>Driver state\<close>

definition ATA_PRIMARY_IO :: u16 where "ATA_PRIMARY_IO = 0x1F0"
definition ATA_PRIMARY_CTRL :: u16 where "ATA_PRIMARY_CTRL = 0x3F6"
definition ATA_SECONDARY_IO :: u16 where "ATA_SECONDARY_IO = 0x170"
definition ATA_SECONDARY_CTRL :: u16 where "ATA_SECONDARY_CTRL = 0x376"
definition ATA_REG_DATA :: u16 where "ATA_REG_DATA = 0"
definition ATA_REG_SECCOUNT :: u16 where "ATA_REG_SECCOUNT = 2"
definition ATA_REG_LBA_LO :: u16 where "ATA_REG_LBA_LO = 3"
definition ATA_REG_LBA_MID :: u16 where "ATA_REG_LBA_MID = 4"
definition ATA_REG_LBA_HI :: u16 where "ATA_REG_LBA_HI = 5"
definition ATA_REG_DRIVE :: u16 where "ATA_REG_DRIVE = 6"
definition ATA_REG_STATUS :: u16 where "ATA_REG_STATUS = 7"
definition ATA_REG_COMMAND :: u16 where "ATA_REG_COMMAND = 7"
definition ATA_SR_BSY :: u8 where "ATA_SR_BSY = 0x80"
definition ATA_SR_DRQ :: u8 where "ATA_SR_DRQ = 0x08"
definition ATA_SR_ERR :: u8 where "ATA_SR_ERR = 0x01"
definition ATA_CMD_READ_PIO :: u8 where "ATA_CMD_READ_PIO = 0x20"
definition ATA_CMD_WRITE_PIO :: u8 where "ATA_CMD_WRITE_PIO = 0x30"
definition ATA_CMD_CACHE_FLUSH :: u8 where "ATA_CMD_CACHE_FLUSH = 0xE7"
definition ATA_CMD_IDENTIFY :: u8 where "ATA_CMD_IDENTIFY = 0xEC"
definition ATA_MASTER :: u8 where "ATA_MASTER = 0"
definition ATA_SLAVE :: u8 where "ATA_SLAVE = 1"

record ata_drive =
  d_exists :: bool
  d_base_io :: u16
  d_ctrl_io :: u16
  d_select :: u8
  d_size :: u32

record 'd ata_state =
  dev :: 'd
  ata_drives :: "ata_drive list"

definition zero_drive :: ata_drive where
  "zero_drive = \<lparr>d_exists = False, d_base_io = 0, d_ctrl_io = 0, d_select = 0, d_size = 0\<rparr>"

section \<open>Polling and transfer loops\<close>

primrec wait_bsy :: "'d ports \<Rightarrow> u16 \<Rightarrow> nat \<Rightarrow> 'd \<Rightarrow> int \<times> 'd" where
  "wait_bsy io base 0 d = (-1, d)"
| "wait_bsy io base (Suc n) d =
     (let (status, d) = p_in io (base + ATA_REG_STATUS) d in
      if status AND ATA_SR_BSY = 0 then (0, d) else wait_bsy io base n d)"

definition ata_wait_bsy :: "'d ports \<Rightarrow> u16 \<Rightarrow> 'd \<Rightarrow> int \<times> 'd" where
  "ata_wait_bsy io base d = wait_bsy io base 100000 d"

primrec wait_drq :: "'d ports \<Rightarrow> u16 \<Rightarrow> nat \<Rightarrow> 'd \<Rightarrow> int \<times> 'd" where
  "wait_drq io base 0 d = (-1, d)"
| "wait_drq io base (Suc n) d =
     (let (status, d) = p_in io (base + ATA_REG_STATUS) d in
      if status AND ATA_SR_ERR \<noteq> 0 then (-1, d)
      else if status AND ATA_SR_DRQ \<noteq> 0 then (0, d)
      else wait_drq io base n d)"

definition ata_wait_drq :: "'d ports \<Rightarrow> u16 \<Rightarrow> 'd \<Rightarrow> int \<times> 'd" where
  "ata_wait_drq io base d = wait_drq io base 100000 d"

primrec read_words :: "'d ports \<Rightarrow> u16 \<Rightarrow> nat \<Rightarrow> 'd \<Rightarrow> u16 list \<times> 'd" where
  "read_words io base 0 d = ([], d)"
| "read_words io base (Suc n) d =
     (let (w, d) = p_inw io (base + ATA_REG_DATA) d; (ws, d) = read_words io base n d in (w # ws, d))"

definition write_words :: "'d ports \<Rightarrow> u16 \<Rightarrow> u16 list \<Rightarrow> 'd \<Rightarrow> 'd" where
  "write_words io base ws d = fold (\<lambda>w. p_outw io (base + ATA_REG_DATA) w) ws d"

section \<open>Detection\<close>

definition ata_identify :: "'d ports \<Rightarrow> u16 \<Rightarrow> u16 \<Rightarrow> u8 \<Rightarrow> 'd \<Rightarrow> bool \<times> 'd" where
  "ata_identify io base_io ctrl_io drive_select d =
     (let d = io_wait io (p_out io (base_io + ATA_REG_DRIVE) (0xA0 OR push_bit 4 drive_select) d);
          d = io_wait io (p_out io (base_io + ATA_REG_COMMAND) ATA_CMD_IDENTIFY d);
          (status, d) = p_in io (base_io + ATA_REG_STATUS) d
      in if status = 0 then (False, d)
         else let (r, d) = ata_wait_bsy io base_io d in
         if r \<noteq> 0 then (False, d)
         else let (mid, d) = p_in io (base_io + ATA_REG_LBA_MID) d in
         if mid \<noteq> 0 then (False, d)
         else let (hi, d) = p_in io (base_io + ATA_REG_LBA_HI) d in
         if hi \<noteq> 0 then (False, d)
         else let (r, d) = ata_wait_drq io base_io d in
         if r \<noteq> 0 then (False, d)
         else let (ws, d) = read_words io base_io 256 d;
                  size = push_bit 16 (ucast (ws ! 61)) OR (ucast (ws ! 60) :: u32)
              in (size > 0, d))"

text \<open>One of the four blocks of \<^verbatim>\<open>ata_init\<close>.\<close>

definition init_drive :: "'d ports \<Rightarrow> nat \<Rightarrow> u16 \<Rightarrow> u16 \<Rightarrow> u8 \<Rightarrow> 'd ata_state \<Rightarrow> 'd ata_state" where
  "init_drive io k base ctrl sel s =
     (let (found, d) = ata_identify io base ctrl sel (dev s)
      in s\<lparr>dev := d, ata_drives := (ata_drives s)[k := (ata_drives s ! k)
            \<lparr>d_base_io := base, d_ctrl_io := ctrl, d_select := sel, d_exists := found\<rparr>]\<rparr>)"

definition ata_init :: "'d ports \<Rightarrow> 'd ata_state \<Rightarrow> int \<times> 'd ata_state" where
  "ata_init io s =
     (let s = s\<lparr>ata_drives := replicate 4 zero_drive\<rparr>;
          s = init_drive io 0 ATA_PRIMARY_IO ATA_PRIMARY_CTRL ATA_MASTER s;
          s = init_drive io 1 ATA_PRIMARY_IO ATA_PRIMARY_CTRL ATA_SLAVE s;
          s = init_drive io 2 ATA_SECONDARY_IO ATA_SECONDARY_CTRL ATA_MASTER s;
          s = init_drive io 3 ATA_SECONDARY_IO ATA_SECONDARY_CTRL ATA_SLAVE s
      in (0, s))"

section \<open>Reading and writing sectors\<close>

definition valid_drive :: "u8 \<Rightarrow> 'd ata_state \<Rightarrow> bool" where
  "valid_drive drive s \<longleftrightarrow> drive < 4 \<and> d_exists (ata_drives s ! unat drive)"

text \<open>Selecting drive and sectors and giving the command, as both transfers do.\<close>

definition start_command :: "'d ports \<Rightarrow> ata_drive \<Rightarrow> u32 \<Rightarrow> u8 \<Rightarrow> u8 \<Rightarrow> 'd \<Rightarrow> 'd" where
  "start_command io r lba sector_count cmd d =
     (let base = d_base_io r;
          d = io_wait io (p_out io (base + ATA_REG_DRIVE)
                ((0xE0 OR push_bit 4 (d_select r)) OR ucast (drop_bit 24 lba AND 0x0F)) d);
          d = p_out io (base + ATA_REG_SECCOUNT) sector_count d;
          d = p_out io (base + ATA_REG_LBA_LO) (ucast lba) d;
          d = p_out io (base + ATA_REG_LBA_MID) (ucast (drop_bit 8 lba)) d;
          d = p_out io (base + ATA_REG_LBA_HI) (ucast (drop_bit 16 lba)) d
      in p_out io (base + ATA_REG_COMMAND) cmd d)"

primrec read_sectors_loop :: "'d ports \<Rightarrow> u16 \<Rightarrow> nat \<Rightarrow> 'd \<Rightarrow> int \<times> u16 list \<times> 'd" where
  "read_sectors_loop io base 0 d = (0, [], d)"
| "read_sectors_loop io base (Suc n) d =
     (let (r, d) = ata_wait_drq io base d in
      if r \<noteq> 0 then (-1, [], d)
      else let (ws, d) = read_words io base 256 d; (r, rest, d) = read_sectors_loop io base n d in (r, ws @ rest, d))"

definition ata_read_sectors :: "'d ports \<Rightarrow> u8 \<Rightarrow> u32 \<Rightarrow> u8 \<Rightarrow> 'd ata_state \<Rightarrow> int \<times> u16 list \<times> 'd ata_state" where
  "ata_read_sectors io drive lba sector_count s =
     (if \<not> valid_drive drive s then (-1, [], s)
      else if sector_count = 0 then (0, [], s)
      else let r = ata_drives s ! unat drive; (ok, d) = ata_wait_bsy io (d_base_io r) (dev s) in
        if ok \<noteq> 0 then (-1, [], s\<lparr>dev := d\<rparr>)
        else let (res, ws, d) = read_sectors_loop io (d_base_io r) (unat sector_count)
                   (start_command io r lba sector_count ATA_CMD_READ_PIO d)
             in (res, ws, s\<lparr>dev := d\<rparr>))"

text \<open>\<open>i\<close> is the number of the sector in the buffer.\<close>

primrec write_sectors_loop :: "'d ports \<Rightarrow> u16 \<Rightarrow> (nat \<Rightarrow> u16) \<Rightarrow> nat \<Rightarrow> nat \<Rightarrow> 'd \<Rightarrow> int \<times> 'd" where
  "write_sectors_loop io base buf i 0 d = (0, d)"
| "write_sectors_loop io base buf i (Suc n) d =
     (let (r, d) = ata_wait_drq io base d in
      if r \<noteq> 0 then (-1, d)
      else write_sectors_loop io base buf (Suc i) n (write_words io base (map (\<lambda>j. buf (i * 256 + j)) [0..<256]) d))"

definition ata_write_sectors :: "'d ports \<Rightarrow> u8 \<Rightarrow> u32 \<Rightarrow> u8 \<Rightarrow> (nat \<Rightarrow> u16) \<Rightarrow> 'd ata_state \<Rightarrow> int \<times> 'd ata_state" where
  "ata_write_sectors io drive lba sector_count buf s =
     (if \<not> valid_drive drive s then (-1, s)
      else if sector_count = 0 then (0, s)
      else let r = ata_drives s ! unat drive; (ok, d) = ata_wait_bsy io (d_base_io r) (dev s) in
        if ok \<noteq> 0 then (-1, s\<lparr>dev := d\<rparr>)
        else let (res, d) = write_sectors_loop io (d_base_io r) buf 0 (unat sector_count)
                   (start_command io r lba sector_count ATA_CMD_WRITE_PIO d)
             in if res \<noteq> 0 then (-1, s\<lparr>dev := d\<rparr>)
                else let (flushed, d) = ata_wait_bsy io (d_base_io r) (p_out io (d_base_io r + ATA_REG_COMMAND) ATA_CMD_CACHE_FLUSH d)
                     in (0, s\<lparr>dev := d\<rparr>))"

definition ata_drive_exists :: "u8 \<Rightarrow> 'd ata_state \<Rightarrow> bool" where
  "ata_drive_exists drive s = (if drive \<ge> 4 then False else d_exists (ata_drives s ! unat drive))"

definition ata_get_drive_size :: "u8 \<Rightarrow> 'd ata_state \<Rightarrow> u32" where
  "ata_get_drive_size drive s = (if \<not> valid_drive drive s then 0 else d_size (ata_drives s ! unat drive))"

section \<open>The protocol of a channel\<close>

text \<open>
  A channel with two drives as the ATA standard describes it, reduced to the commands that the driver
  gives. A drive is a map from sector numbers to 256 words. Some sectors cannot be addressed (the command
  or the next sector ends with an error before data are requested); others fail when data are written to
  them, which the device reports only after it has taken the data. \<open>busy\<close> is the number of status reads for
  which the device stays busy.
\<close>

datatype ata_phase = Idle | Failed | Reading "u16 list" u32 nat | Writing "u16 list" u32 nat

record channel =
  disk :: "bool \<Rightarrow> (u32 \<Rightarrow> u16 list) option"
  ident :: "bool \<Rightarrow> u16 list"
  bad :: "bool \<Rightarrow> u32 \<Rightarrow> bool"
  wfault :: "bool \<Rightarrow> u32 \<Rightarrow> bool"
  c_regs :: "u16 \<Rightarrow> u8"
  busy :: nat
  phase :: ata_phase

definition slave :: "channel \<Rightarrow> bool" where "slave c \<longleftrightarrow> bit (c_regs c 6) 4"

definition sector :: "channel \<Rightarrow> u32 \<Rightarrow> u16 list" where "sector c l = the (disk c (slave c)) l"

definition lba28 :: "channel \<Rightarrow> u32" where
  "lba28 c = push_bit 24 (ucast (c_regs c 6) AND 0x0F) OR push_bit 16 (ucast (c_regs c 5))
     OR push_bit 8 (ucast (c_regs c 4)) OR ucast (c_regs c 3)"

text \<open>A count of 0 in the register stands for 256 sectors.\<close>

definition seccount :: "channel \<Rightarrow> nat" where
  "seccount c = (if c_regs c 2 = 0 then 256 else unat (c_regs c 2))"

definition status :: "channel \<Rightarrow> u8" where
  "status c =
     (if disk c (slave c) = None then 0
      else if busy c > 0 then 0x80
      else case phase c of Idle \<Rightarrow> 0x50 | Failed \<Rightarrow> 0x51 | Reading ws l n \<Rightarrow> 0x58 | Writing ws l n \<Rightarrow> 0x58)"

text \<open>The phase in which \<open>n\<close> more sectors are to be transferred, the next being \<open>l\<close>.\<close>

definition next_read :: "channel \<Rightarrow> u32 \<Rightarrow> nat \<Rightarrow> ata_phase" where
  "next_read c l n = (if n = 0 then Idle else if bad c (slave c) l then Failed else Reading (sector c l) (l + 1) (n - 1))"

definition next_write :: "channel \<Rightarrow> u32 \<Rightarrow> nat \<Rightarrow> ata_phase" where
  "next_write c l n = (if n = 0 then Idle else if bad c (slave c) l then Failed else Writing [] l (n - 1))"

definition command :: "u8 \<Rightarrow> channel \<Rightarrow> channel" where
  "command v c =
     (if disk c (slave c) = None then c
      else c\<lparr>phase := (if v = ATA_CMD_READ_PIO then next_read c (lba28 c) (seccount c)
                        else if v = ATA_CMD_WRITE_PIO then next_write c (lba28 c) (seccount c)
                        else if v = ATA_CMD_IDENTIFY then Reading (ident c (slave c)) 0 0
                        else if v = ATA_CMD_CACHE_FLUSH then Idle else Failed)\<rparr>)"

fun data_in :: "ata_phase \<Rightarrow> u16" where
  "data_in (Reading (w # ws) l n) = w"
| "data_in _ = 0"

definition take_word :: "channel \<Rightarrow> channel" where
  "take_word c = (case phase c of
      Reading (w # ws) l n \<Rightarrow> c\<lparr>phase := (if ws = [] then next_read c l n else Reading ws l n)\<rparr>
    | _ \<Rightarrow> c)"

definition give_word :: "u16 \<Rightarrow> channel \<Rightarrow> channel" where
  "give_word w c = (case phase c of
      Writing ws l n \<Rightarrow>
        if length ws < 255 then c\<lparr>phase := Writing (ws @ [w]) l n\<rparr>
        else if wfault c (slave c) l then c\<lparr>phase := Failed\<rparr>
        else c\<lparr>disk := (disk c)(slave c \<mapsto> (the (disk c (slave c)))(l := ws @ [w])), phase := next_write c (l + 1) n\<rparr>
    | _ \<Rightarrow> c)"

text \<open>In the middle of a sector the device is never busy; after a command or a sector it may be, for a while.\<close>

definition mid_sector :: "channel \<Rightarrow> bool" where
  "mid_sector c \<longleftrightarrow> (case phase c of Reading ws l n \<Rightarrow> length ws \<noteq> 256 | Writing ws l n \<Rightarrow> ws \<noteq> [] | _ \<Rightarrow> False)"

definition settles :: "channel \<Rightarrow> channel \<Rightarrow> bool" where
  "settles c c' \<longleftrightarrow> (if mid_sector c then c' = c else \<exists>n < 100000. c' = c\<lparr>busy := n\<rparr>)"

text \<open>The ports from \<open>base\<close> on lead to such a channel, whose state is \<open>view\<close> of the state of all devices.\<close>

definition ata_channel :: "u16 \<Rightarrow> 'd ports \<Rightarrow> ('d \<Rightarrow> channel) \<Rightarrow> bool" where
  "ata_channel base io view \<longleftrightarrow>
     (\<forall>d. fst (p_in io (base + 7) d) = status (view d) \<and>
        view (snd (p_in io (base + 7) d)) = (view d)\<lparr>busy := busy (view d) - 1\<rparr>) \<and>
     (\<forall>d. \<forall>r \<in> {4, 5}. fst (p_in io (base + r) d) = c_regs (view d) r \<and> view (snd (p_in io (base + r) d)) = view d) \<and>
     (\<forall>d. fst (p_inw io base d) = data_in (phase (view d)) \<and> settles (take_word (view d)) (view (snd (p_inw io base d)))) \<and>
     (\<forall>d w. settles (give_word w (view d)) (view (p_outw io base w d))) \<and>
     (\<forall>d v. \<forall>r \<in> {2, 3, 4, 5, 6}. view (p_out io (base + r) v d) = (view d)\<lparr>c_regs := (c_regs (view d))(r := v)\<rparr>) \<and>
     (\<forall>d v. settles (command v (view d)) (view (p_out io (base + 7) v d))) \<and>
     (\<forall>q d v. q - base \<ge> 8 \<longrightarrow> view (p_out io q v d) = view d)"

section \<open>The loops on such a channel\<close>

lemmas ata_regs = ATA_REG_DATA_def ATA_REG_SECCOUNT_def ATA_REG_LBA_LO_def ATA_REG_LBA_MID_def ATA_REG_LBA_HI_def
  ATA_REG_DRIVE_def ATA_REG_STATUS_def ATA_REG_COMMAND_def
lemmas ata_bits = ATA_SR_BSY_def ATA_SR_DRQ_def ATA_SR_ERR_def
lemmas ata_cmds = ATA_CMD_READ_PIO_def ATA_CMD_WRITE_PIO_def ATA_CMD_CACHE_FLUSH_def ATA_CMD_IDENTIFY_def

lemma ata_channelD:
  assumes "ata_channel base io view"
  shows "fst (p_in io (base + 7) d) = status (view d)"
    and "view (snd (p_in io (base + 7) d)) = (view d)\<lparr>busy := busy (view d) - 1\<rparr>"
    and "fst (p_inw io base d) = data_in (phase (view d))"
    and "settles (take_word (view d)) (view (snd (p_inw io base d)))"
    and "settles (give_word w (view d)) (view (p_outw io base w d))"
    and "r \<in> {2, 3, 4, 5, 6} \<Longrightarrow> view (p_out io (base + r) v d) = (view d)\<lparr>c_regs := (c_regs (view d))(r := v)\<rparr>"
    and "settles (command v (view d)) (view (p_out io (base + 7) v d))"
    and "q - base \<ge> 8 \<Longrightarrow> view (p_out io q v d) = view d"
  using assms unfolding ata_channel_def by blast+

lemma wait_bsy_returns:
  assumes "ata_channel base io view" and "busy (view d) < n"
  shows "\<exists>d' b. wait_bsy io base n d = (0, d') \<and> b \<le> busy (view d) \<and> view d' = (view d)\<lparr>busy := b\<rparr>"
  using assms(2)
proof (induction n arbitrary: d)
  case (Suc n)
  obtain st d1 where r: "p_in io (base + 7) d = (st, d1)" by fastforce
  have st: "st = status (view d)" and v: "view d1 = (view d)\<lparr>busy := busy (view d) - 1\<rparr>"
    using ata_channelD(1,2) [OF assms(1), of d] by (simp_all add: r)
  show ?case
  proof (cases "st AND ATA_SR_BSY = 0")
    case True
    have eq: "wait_bsy io base (Suc n) d = (0, d1)" using True r by (simp add: ata_regs)
    show ?thesis unfolding eq using v by (intro exI [of _ d1] exI [of _ "busy (view d) - 1"]) simp
  next
    case False
    then have "busy (view d) \<noteq> 0"
      unfolding st by (auto simp: status_def ata_bits split: ata_phase.splits if_splits)
    then have "busy (view d1) < n" using Suc.prems v by simp
    from Suc.IH [OF this] obtain d' b
      where w: "wait_bsy io base n d1 = (0, d')" "b \<le> busy (view d1)" "view d' = (view d1)\<lparr>busy := b\<rparr>" by blast
    have eq: "wait_bsy io base (Suc n) d = (0, d')" using w(1) False r by (simp add: ata_regs)
    show ?thesis unfolding eq using v w by (intro exI [of _ d'] exI [of _ b]) simp
  qed
qed simp

lemma wait_drq_returns:
  assumes "ata_channel base io view" and "busy (view d) < n" and "disk (view d) (slave (view d)) \<noteq> None"
    and "phase (view d) \<noteq> Idle"
  shows "\<exists>d'. wait_drq io base n d = (if phase (view d) = Failed then -1 else 0, d') \<and> view d' = (view d)\<lparr>busy := 0\<rparr>"
  using assms(2-)
proof (induction n arbitrary: d)
  case (Suc n)
  obtain st d1 where r: "p_in io (base + 7) d = (st, d1)" by fastforce
  have st: "st = status (view d)" and v: "view d1 = (view d)\<lparr>busy := busy (view d) - 1\<rparr>"
    using ata_channelD(1,2) [OF assms(1), of d] by (simp_all add: r)
  show ?case
  proof (cases "busy (view d) = 0")
    case True
    then show ?thesis
      using Suc.prems r st v by (auto simp: status_def ata_bits ata_regs split: ata_phase.splits)
  next
    case False
    have "slave (view d1) = slave (view d)" by (simp add: v slave_def)
    then have "\<exists>d'. wait_drq io base n d1 = (if phase (view d1) = Failed then -1 else 0, d') \<and> view d' = (view d1)\<lparr>busy := 0\<rparr>"
      using Suc.prems False v by (intro Suc.IH) simp_all
    moreover have "st = 0x80" using False Suc.prems st by (auto simp: status_def)
    ultimately show ?thesis using r v by (simp add: ata_bits ata_regs)
  qed
qed simp

lemma slave_upd [simp]: "slave (c\<lparr>phase := p\<rparr>) = slave c" "slave (c\<lparr>busy := b\<rparr>) = slave c" "slave (c\<lparr>disk := f\<rparr>) = slave c"
  by (simp_all add: slave_def)

lemma next_upd [simp]: "next_read (c\<lparr>phase := p\<rparr>) l n = next_read c l n" "next_read (c\<lparr>busy := b\<rparr>) l n = next_read c l n"
  "next_write (c\<lparr>phase := p\<rparr>) l n = next_write c l n" "next_write (c\<lparr>busy := b\<rparr>) l n = next_write c l n"
  "next_write (c\<lparr>disk := f\<rparr>) l n = next_write c l n"
  by (simp_all add: next_read_def next_write_def sector_def)

text \<open>Reading the rest of a sector, and writing it.\<close>

lemma read_words_sector:
  assumes ch: "ata_channel base io view" and "phase (view d) = Reading ws l n" and "ws \<noteq> []" and "length ws \<le> 256"
  shows "\<exists>d'. read_words io base (length ws) d = (ws, d') \<and> settles ((view d)\<lparr>phase := next_read (view d) l n\<rparr>) (view d')"
  using assms(2-)
proof (induction ws arbitrary: d)
  case (Cons w ws)
  obtain x d1 where r: "p_inw io base d = (x, d1)" by fastforce
  have x: "x = w" and v: "settles (take_word (view d)) (view d1)"
    using ata_channelD(3,4) [OF ch, of d] Cons.prems by (simp_all add: r)
  show ?case
  proof (cases "ws = []")
    case True
    then show ?thesis using r x v Cons.prems by (simp add: ata_regs take_word_def)
  next
    case False
    have v1: "view d1 = (view d)\<lparr>phase := Reading ws l n\<rparr>"
      using v False Cons.prems by (simp add: take_word_def settles_def mid_sector_def)
    obtain d' where w: "read_words io base (length ws) d1 = (ws, d')"
        "settles ((view d1)\<lparr>phase := next_read (view d1) l n\<rparr>) (view d')"
      using Cons.IH [of d1] False Cons.prems by (auto simp: v1)
    show ?thesis using w r x by (simp add: ata_regs v1)
  qed
qed simp

text \<open>A sector has been taken over: the disk after it.\<close>

definition finish_write :: "channel \<Rightarrow> u32 \<Rightarrow> u16 list \<Rightarrow> nat \<Rightarrow> channel" where
  "finish_write c l ws n = c\<lparr>disk := (disk c)(slave c \<mapsto> (the (disk c (slave c)))(l := ws)), phase := next_write c (l + 1) n\<rparr>"

lemma give_word_mid:
  assumes "ata_channel base io view" and "phase (view d) = Writing acc l n" and "length acc + length (w # ws) = 256" and "ws \<noteq> []"
  shows "view (p_outw io base w d) = (view d)\<lparr>phase := Writing (acc @ [w]) l n\<rparr>"
proof -
  have "0 < length ws" using assms(4) by simp
  then have "length acc < 255" using assms(3) unfolding length_Cons by linarith
  then show ?thesis
    using ata_channelD(5) [OF assms(1), of w d] assms(2) by (simp add: give_word_def settles_def mid_sector_def)
qed

lemma write_words_sector:
  assumes ch: "ata_channel base io view" and "phase (view d) = Writing acc l n" and "ws \<noteq> []" and "length acc + length ws = 256"
    and "\<not> wfault (view d) (slave (view d)) l"
  shows "settles (finish_write (view d) l (acc @ ws) n) (view (write_words io base ws d))"
  using assms(2-)
proof (induction ws arbitrary: d acc)
  case (Cons w ws)
  have v: "settles (give_word w (view d)) (view (p_outw io base w d))" by (rule ata_channelD(5) [OF ch])
  show ?case
  proof (cases "ws = []")
    case True
    then show ?thesis using v Cons.prems by (simp add: write_words_def ata_regs give_word_def finish_write_def)
  next
    case False
    have v1: "view (p_outw io base w d) = (view d)\<lparr>phase := Writing (acc @ [w]) l n\<rparr>"
      by (rule give_word_mid [OF ch Cons.prems(1,3) False])
    have "settles (finish_write (view (p_outw io base w d)) l ((acc @ [w]) @ ws) n) (view (write_words io base ws (p_outw io base w d)))"
      using False Cons.prems by (intro Cons.IH) (simp_all add: v1)
    then show ?thesis by (simp add: v1 finish_write_def write_words_def ata_regs)
  qed
qed simp

lemma write_words_fault:
  assumes ch: "ata_channel base io view" and "phase (view d) = Writing acc l n" and "ws \<noteq> []" and "length acc + length ws = 256"
    and "wfault (view d) (slave (view d)) l"
  shows "settles ((view d)\<lparr>phase := Failed\<rparr>) (view (write_words io base ws d))"
  using assms(2-)
proof (induction ws arbitrary: d acc)
  case (Cons w ws)
  have v: "settles (give_word w (view d)) (view (p_outw io base w d))" by (rule ata_channelD(5) [OF ch])
  show ?case
  proof (cases "ws = []")
    case True
    then show ?thesis using v Cons.prems by (simp add: write_words_def ata_regs give_word_def)
  next
    case False
    have v1: "view (p_outw io base w d) = (view d)\<lparr>phase := Writing (acc @ [w]) l n\<rparr>"
      by (rule give_word_mid [OF ch Cons.prems(1,3) False])
    have "settles ((view (p_outw io base w d))\<lparr>phase := Failed\<rparr>) (view (write_words io base ws (p_outw io base w d)))"
      using False Cons.prems by (intro Cons.IH [of _ "acc @ [w]"]) (simp_all add: v1)
    then show ?thesis by (simp add: v1 write_words_def ata_regs)
  qed
qed simp

section \<open>The driver implements the sector operations\<close>

text \<open>The bytes that words stand for in the memory of the caller.\<close>

definition word_bytes :: "u16 list \<Rightarrow> u8 list" where
  "word_bytes ws = concat (map (\<lambda>w. [ucast w, ucast (drop_bit 8 w)]) ws)"

lemma word_bytes_append [simp]: "word_bytes (xs @ ys) = word_bytes xs @ word_bytes ys"
  by (simp add: word_bytes_def)

lemma length_word_bytes [simp]: "length (word_bytes ws) = 2 * length ws"
  by (induction ws) (simp_all add: word_bytes_def)

text \<open>
  The simulation relation: a drive that \<open>Diskfs\<close> knows by its sectors is the disk of the channel at the ports
  the driver uses for it, and both have the same sectors that cannot be addressed.
\<close>

definition same_disk :: "bool \<Rightarrow> channel \<Rightarrow> u8 \<Rightarrow> 'a diskfs_state_scheme \<Rightarrow> bool" where
  "same_disk sl c drive ds \<longleftrightarrow> drive < 4 \<and> busy c < 100000 \<and>
     (\<exists>f. disk c sl = Some f \<and> (\<forall>l. length (f l) = 256) \<and> drives ds drive = Some (\<lambda>l. word_bytes (f l))) \<and>
     (\<forall>l. bad_sector ds drive l = bad c sl l)"

definition ata_sim :: "'d ports \<Rightarrow> ('d \<Rightarrow> channel) \<Rightarrow> bool \<Rightarrow> u8 \<Rightarrow> 'd ata_state \<Rightarrow> 'a diskfs_state_scheme \<Rightarrow> bool" where
  "ata_sim io view sl drive s ds \<longleftrightarrow>
     (let r = ata_drives s ! unat drive in
      d_exists r \<and> d_base_io r \<in> {ATA_PRIMARY_IO, ATA_SECONDARY_IO} \<and> d_select r = (if sl then ATA_SLAVE else ATA_MASTER) \<and>
      ata_channel (d_base_io r) io view \<and> same_disk sl (view (dev s)) drive ds)"

lemma same_disk_upd [simp]:
  "same_disk sl (c\<lparr>phase := p\<rparr>) drive ds = same_disk sl c drive ds"
  "same_disk sl (c\<lparr>c_regs := f\<rparr>) drive ds = same_disk sl c drive ds"
  by (simp_all add: same_disk_def)

lemma same_disk_busy: "same_disk sl c drive ds \<Longrightarrow> b < 100000 \<Longrightarrow> same_disk sl (c\<lparr>busy := b\<rparr>) drive ds"
  by (simp add: same_disk_def)

lemma settles_cases:
  assumes "settles c c'" and "busy c < 100000"
  obtains b where "b < 100000" and "c' = c\<lparr>busy := b\<rparr>"
proof (cases "mid_sector c")
  case True
  then have "c' = c\<lparr>busy := busy c\<rparr>" using assms(1) by (simp add: settles_def)
  then show thesis using that assms(2) by blast
next
  case False
  then show thesis using that assms(1) by (auto simp: settles_def)
qed

lemma ata_wait_bsy_same:
  assumes "ata_channel base io view" and "same_disk sl (view d) drive ds"
  obtains d' b where "ata_wait_bsy io base d = (0, d')" and "b < 100000" and "view d' = (view d)\<lparr>busy := b\<rparr>"
proof -
  have b0: "busy (view d) < 100000" using assms(2) by (simp add: same_disk_def)
  obtain d' b where "wait_bsy io base 100000 d = (0, d')" "b \<le> busy (view d)" "view d' = (view d)\<lparr>busy := b\<rparr>"
    using wait_bsy_returns [OF assms(1) b0] by blast
  then show thesis using that [of d' b] b0 by (simp add: ata_wait_bsy_def)
qed

lemma read_sectors_loop_refines:
  assumes "ata_channel base io view" and "same_disk (slave (view d)) (view d) drive ds" and "phase (view d) = next_read (view d) l n"
  shows "\<exists>r ws d'. read_sectors_loop io base n d = (r, ws, d') \<and> r \<in> {0, -1} \<and> same_disk (slave (view d)) (view d') drive ds \<and>
    disk_read_sectors drive l n ds = (if r = 0 then Some (word_bytes ws) else None)"
  using assms(2-)
proof (induction n arbitrary: l d)
  case 0
  then show ?case by (simp add: word_bytes_def)
next
  case (Suc n)
  let ?c = "view d" and ?sl = "slave (view d)"
  have b: "busy ?c < 100000" and d4: "drive < 4" using Suc.prems(1) by (auto simp: same_disk_def)
  obtain f where f: "disk ?c ?sl = Some f" "\<And>l. length (f l) = 256" "drives ds drive = Some (\<lambda>l. word_bytes (f l))"
    "bad_sector ds drive l = bad ?c ?sl l" using Suc.prems(1) by (auto simp: same_disk_def)
  obtain d1 where w: "ata_wait_drq io base d = (if phase ?c = Failed then -1 else 0, d1)" "view d1 = ?c\<lparr>busy := 0\<rparr>"
    using wait_drq_returns [OF assms(1) b] f(1) Suc.prems(2) by (auto simp: ata_wait_drq_def next_read_def split: if_splits)
  have same1: "same_disk ?sl (view d1) drive ds" using same_disk_busy [OF Suc.prems(1), of 0] by (simp add: w)
  show ?case
  proof (cases "bad ?c ?sl l")
    case True
    then have "read_sectors_loop io base (Suc n) d = (-1, [], d1)" using w Suc.prems(2) by (simp add: next_read_def)
    moreover have "disk_read_sectors drive l (Suc n) ds = None" using True f by (simp add: disk_read_sector_def)
    ultimately show ?thesis using same1 by simp
  next
    case False
    have ph: "phase (view d1) = Reading (f l) (l + 1) n" using False Suc.prems(2) w by (simp add: next_read_def sector_def f)
    have "f l \<noteq> []" using f(2) [of l] by auto
    then obtain d2 where r: "read_words io base 256 d1 = (f l, d2)" "settles (?c\<lparr>busy := 0, phase := next_read ?c (l + 1) n\<rparr>) (view d2)"
      using read_words_sector [OF assms(1) ph] f(2) [of l] by (auto simp: w)
    obtain b2 where b2: "b2 < 100000" "view d2 = ?c\<lparr>phase := next_read ?c (l + 1) n, busy := b2\<rparr>"
      by (rule settles_cases [OF r(2)]) auto
    have same2: "same_disk ?sl (view d2) drive ds" using same_disk_busy [OF Suc.prems(1) b2(1)] by (simp add: b2 same_disk_def)
    have sl2: "slave (view d2) = ?sl" by (simp add: b2)
    obtain res ws d3 where ih: "read_sectors_loop io base n d2 = (res, ws, d3)" "res \<in> {0, -1}" "same_disk ?sl (view d3) drive ds"
        "disk_read_sectors drive (l + 1) n ds = (if res = 0 then Some (word_bytes ws) else None)"
      using Suc.IH [of d2 "l + 1"] same2 sl2 b2 by auto
    have "phase ?c \<noteq> Failed" using False Suc.prems(2) by (simp add: next_read_def)
    then have "read_sectors_loop io base (Suc n) d = (res, f l @ ws, d3)" using w r ih(1) by simp
    moreover have "disk_read_sectors drive l (Suc n) ds = (if res = 0 then Some (word_bytes (f l @ ws)) else None)"
      using False f ih(4) d4 by (simp add: disk_read_sector_def disk_drive_exists_def)
    ultimately show ?thesis using ih by blast
  qed
qed

lemma buffer_split:
  "map buf [i * 256..<(i + Suc n) * 256] = map (\<lambda>j. buf (i * 256 + j)) [0..<256] @ map buf [Suc i * 256..<(Suc i + n) * 256]"
proof -
  have "[i * 256..<(i + Suc n) * 256] = [i * 256..<i * 256 + 256] @ [i * 256 + 256..<i * 256 + 256 + n * 256]"
    using upt_add_eq_append [of "i * 256" "i * 256 + 256" "n * 256"] by (simp add: algebra_simps)
  moreover have "[i * 256..<i * 256 + 256] = map (\<lambda>j. i * 256 + j) [0..<256]"
    using map_add_upt [of "i * 256" 256] by (simp add: add.commute)
  moreover have "Suc i * 256 = i * 256 + 256" "(Suc i + n) * 256 = i * 256 + 256 + n * 256" by simp_all
  ultimately show ?thesis by (simp add: ac_simps)
qed

lemma disk_write_result: "fst (disk_write_sectors drive l n bs ds) \<in> {0, -1}"
  by (induction n arbitrary: l bs ds) (auto split: option.splits)

lemma write_sectors_loop_refines:
  assumes "ata_channel base io view" and "same_disk (slave (view d)) (view d) drive ds" and "phase (view d) = next_write (view d) l n"
    and "\<forall>l. \<not> wfault (view d) (slave (view d)) l"
  shows "\<exists>r d' ds'. write_sectors_loop io base buf i n d = (r, d') \<and> same_disk (slave (view d)) (view d') drive ds' \<and>
    disk_write_sectors drive l n (word_bytes (map buf [i * 256..<(i + n) * 256])) ds = (r, ds')"
  using assms(2-)
proof (induction n arbitrary: l d ds i)
  case 0
  then show ?case by simp
next
  case (Suc n)
  let ?c = "view d" and ?sl = "slave (view d)" and ?ws = "map (\<lambda>j. buf (i * 256 + j)) [0..<256]"
  have b: "busy ?c < 100000" and d4: "drive < 4" and nf: "\<not> wfault ?c ?sl l"
    using Suc.prems(1,3) by (auto simp: same_disk_def)
  obtain f where f: "disk ?c ?sl = Some f" "\<And>l. length (f l) = 256" "drives ds drive = Some (\<lambda>l. word_bytes (f l))"
    "\<And>l. bad_sector ds drive l = bad ?c ?sl l" using Suc.prems(1) by (auto simp: same_disk_def)
  obtain d1 where w: "ata_wait_drq io base d = (if phase ?c = Failed then -1 else 0, d1)" "view d1 = ?c\<lparr>busy := 0\<rparr>"
    using wait_drq_returns [OF assms(1) b] f(1) Suc.prems(2) by (auto simp: ata_wait_drq_def next_write_def split: if_splits)
  have same1: "same_disk ?sl (view d1) drive ds" using same_disk_busy [OF Suc.prems(1), of 0] by (simp add: w)
  show ?case
  proof (cases "bad ?c ?sl l")
    case True
    then have "write_sectors_loop io base buf i (Suc n) d = (-1, d1)" using w Suc.prems(2) by (simp add: next_write_def)
    moreover have "disk_write_sectors drive l (Suc n) bs ds = (-1, ds)" for bs using True f by (simp add: disk_write_sector_def)
    ultimately show ?thesis using same1 by blast
  next
    case False
    define d2 where "d2 = write_words io base ?ws d1"
    define ds1 where "ds1 = ds\<lparr>drives := (drives ds)(drive \<mapsto> (\<lambda>l. word_bytes (f l))(l := word_bytes ?ws))\<rparr>"
    have ph: "phase (view d1) = Writing [] l n" using False Suc.prems(2) w by (simp add: next_write_def)
    have "settles (finish_write (view d1) l ([] @ ?ws) n) (view d2)"
      unfolding d2_def by (rule write_words_sector [OF assms(1) ph]) (use nf in \<open>simp_all add: w\<close>)
    then obtain b2 where b2: "b2 < 100000" "view d2 = (finish_write (view d1) l ?ws n)\<lparr>busy := b2\<rparr>"
      by (rule settles_cases) (auto simp: finish_write_def w)
    have v2: "view d2 = ?c\<lparr>disk := (disk ?c)(?sl \<mapsto> f(l := ?ws)), phase := next_write ?c (l + 1) n, busy := b2\<rparr>"
      using b2 f(1) by (simp add: finish_write_def w)
    have "(\<lambda>l'. word_bytes ((f(l := ?ws)) l')) = (\<lambda>l. word_bytes (f l))(l := word_bytes ?ws)" by auto
    then have same2: "same_disk ?sl (view d2) drive ds1"
      using Suc.prems(1) b2(1) f by (simp add: same_disk_def v2 ds1_def)
    have sl2: "slave (view d2) = ?sl" by (simp add: v2)
    obtain r d' ds' where ih: "write_sectors_loop io base buf (Suc i) n d2 = (r, d')" "same_disk ?sl (view d') drive ds'"
        "disk_write_sectors drive (l + 1) n (word_bytes (map buf [Suc i * 256..<(Suc i + n) * 256])) ds1 = (r, ds')"
      using Suc.IH [of d2 ds1 "l + 1" "Suc i"] same2 sl2 v2 Suc.prems(3) by (auto simp del: mult_Suc add_Suc)
    have "phase ?c \<noteq> Failed" using False Suc.prems(2) by (simp add: next_write_def)
    then have "write_sectors_loop io base buf i (Suc n) d = (r, d')" using w ih(1) by (simp add: d2_def)
    moreover have "disk_write_sectors drive l (Suc n) (word_bytes (map buf [i * 256..<(i + Suc n) * 256])) ds = (r, ds')"
      using False f ih(3) d4 unfolding buffer_split
      by (simp add: disk_write_sector_def disk_drive_exists_def ds1_def del: mult_Suc add_Suc)
    ultimately show ?thesis using ih(2) by blast
  qed
qed

text \<open>The command selects the drive and the sectors that the caller asked for.\<close>

lemma drive_register:
  fixes lba :: u32
  assumes "sel = (if sl then ATA_SLAVE else ATA_MASTER)"
  shows "bit ((0xE0 OR push_bit 4 sel) OR ucast (drop_bit 24 lba AND 0x0F) :: u8) 4 = sl"
    and "(ucast ((0xE0 OR push_bit 4 sel) OR ucast (drop_bit 24 lba AND 0x0F) :: u8) :: u32) AND 0x0F = drop_bit 24 lba AND 0x0F"
proof -
  let ?x = "drop_bit 24 lba AND 0x0F"
  have m: "?x = take_bit 4 (drop_bit 24 lba)" by (simp add: take_bit_eq_mask mask_eq_exp_minus_1)
  have top: "0xE0 OR push_bit 4 sel = (if sl then 0xF0 else 0xE0)" by (simp add: assms ATA_SLAVE_def ATA_MASTER_def)
  have "\<not> bit (ucast ?x :: u8) 4" unfolding m by (simp add: bit_simps)
  then show "bit ((0xE0 OR push_bit 4 sel) OR ucast ?x :: u8) 4 = sl" unfolding top by (simp add: bit_or_iff)
  have "ucast (ucast ?x :: u8) = ?x" unfolding m by (rule bit_word_eqI) (auto simp: bit_simps)
  then show "(ucast ((0xE0 OR push_bit 4 sel) OR ucast ?x :: u8) :: u32) AND 0x0F = ?x"
    unfolding top by (simp add: unsigned_or_eq bit.conj_disj_distrib2 and.assoc)
qed

lemma lba_bytes:
  fixes lba :: u32
  assumes "lba < 2 ^ 28"
  shows "push_bit 24 (drop_bit 24 lba AND 0x0F) OR push_bit 16 (ucast (ucast (drop_bit 16 lba) :: u8))
    OR push_bit 8 (ucast (ucast (drop_bit 8 lba) :: u8)) OR ucast (ucast lba :: u8) = lba"
proof (rule bit_word_eqI)
  fix n assume n: "n < LENGTH(32)"
  have m: "(0x0F :: u32) = mask 4" by (simp add: mask_eq_exp_minus_1)
  have "take_bit 28 lba = lba" using assms by (simp add: take_bit_eq_mod mod_word_less)
  then have high: "\<not> bit lba n" if "28 \<le> n" using that by (metis bit_take_bit_iff not_le)
  consider "n < 8" | "8 \<le> n \<and> n < 16" | "16 \<le> n \<and> n < 24" | "24 \<le> n \<and> n < 28" | "28 \<le> n \<and> n < 32" using n by fastforce
  then show "bit (push_bit 24 (drop_bit 24 lba AND 0x0F) OR push_bit 16 (ucast (ucast (drop_bit 16 lba) :: u8))
    OR push_bit 8 (ucast (ucast (drop_bit 8 lba) :: u8)) OR ucast (ucast lba :: u8)) n = bit lba n"
    unfolding m using high by cases (auto simp: bit_simps)
qed

lemma start_command_view:
  assumes ch: "ata_channel (d_base_io r) io view" and base: "d_base_io r \<in> {ATA_PRIMARY_IO, ATA_SECONDARY_IO}"
    and sel: "d_select r = (if sl then ATA_SLAVE else ATA_MASTER)" and "lba < 2 ^ 28" and "cnt \<noteq> 0"
  obtains f c where "c = (view d)\<lparr>c_regs := f\<rparr>" and "slave c = sl" and "lba28 c = lba" and "seccount c = unat cnt"
    and "settles (command cmd c) (view (start_command io r lba cnt cmd d))"
proof -
  let ?b = "d_base_io r" and ?v = "(0xE0 OR push_bit 4 (d_select r)) OR ucast (drop_bit 24 lba AND 0x0F) :: u8"
  let ?f = "(c_regs (view d))(6 := ?v, 2 := cnt, 3 := ucast lba, 4 := ucast (drop_bit 8 lba), 5 := ucast (drop_bit 16 lba))"
  let ?c = "(view d)\<lparr>c_regs := ?f\<rparr>"
  have "0x80 - ?b \<ge> 8" using base by (auto simp: ATA_PRIMARY_IO_def ATA_SECONDARY_IO_def)
  then have wait: "view (io_wait io x) = view x" for x unfolding io_wait_def by (rule ata_channelD(8) [OF ch])
  have out: "view (p_out io (?b + r) v x) = (view x)\<lparr>c_regs := (c_regs (view x))(r := v)\<rparr>" if "r \<in> {2, 3, 4, 5, 6}" for r v x
    by (rule ata_channelD(6) [OF ch that])
  let ?d1 = "io_wait io (p_out io (?b + 6) ?v d)"
  let ?d2 = "p_out io (?b + 5) (ucast (drop_bit 16 lba)) (p_out io (?b + 4) (ucast (drop_bit 8 lba))
    (p_out io (?b + 3) (ucast lba) (p_out io (?b + 2) cnt ?d1)))"
  have "view ?d1 = (view d)\<lparr>c_regs := (c_regs (view d))(6 := ?v)\<rparr>" unfolding wait by (rule out) simp
  then have "view ?d2 = ?c" by (simp add: out)
  moreover have "start_command io r lba cnt cmd d = p_out io (?b + 7) cmd ?d2" by (simp only: start_command_def Let_def ata_regs)
  ultimately have "settles (command cmd ?c) (view (start_command io r lba cnt cmd d))"
    using ata_channelD(7) [OF ch, of cmd ?d2] by simp
  moreover have "slave ?c = sl" using drive_register(1) [OF sel, of lba] by (simp add: slave_def)
  moreover have "lba28 ?c = lba"
    using drive_register(2) [OF sel, of lba] lba_bytes [OF assms(4)] by (simp add: lba28_def)
  moreover have "seccount ?c = unat cnt" using assms(5) by (simp add: seccount_def)
  ultimately show thesis using that by blast
qed

lemma command_keeps [simp]: "same_disk sl (command v c) drive ds = same_disk sl c drive ds" "busy (command v c) = busy c"
  by (simp_all add: command_def)

text \<open>Giving a command after waiting for the drive: what a transfer starts from.\<close>

lemma command_started:
  assumes sim: "ata_sim io view sl drive s ds" and "lba < 2 ^ 28" and "cnt \<noteq> 0" and "cmd \<in> {ATA_CMD_READ_PIO, ATA_CMD_WRITE_PIO}"
  obtains d where "ata_wait_bsy io (d_base_io (ata_drives s ! unat drive)) (dev s) = (0, d)"
    and "let c = view (start_command io (ata_drives s ! unat drive) lba cnt cmd d)
      in slave c = sl \<and> same_disk sl c drive ds \<and> wfault c = wfault (view (dev s)) \<and>
        phase c = (if cmd = ATA_CMD_READ_PIO then next_read c lba (unat cnt) else next_write c lba (unat cnt))"
proof -
  let ?r = "ata_drives s ! unat drive" and ?c0 = "view (dev s)"
  have ch: "ata_channel (d_base_io ?r) io view" and base: "d_base_io ?r \<in> {ATA_PRIMARY_IO, ATA_SECONDARY_IO}"
    and sel: "d_select ?r = (if sl then ATA_SLAVE else ATA_MASTER)" and same: "same_disk sl ?c0 drive ds"
    using sim by (simp_all add: ata_sim_def Let_def)
  obtain d b where w: "ata_wait_bsy io (d_base_io ?r) (dev s) = (0, d)" "b < 100000" "view d = ?c0\<lparr>busy := b\<rparr>"
    by (rule ata_wait_bsy_same [OF ch same])
  obtain f c where c: "c = (view d)\<lparr>c_regs := f\<rparr>" "slave c = sl" "lba28 c = lba" "seccount c = unat cnt"
      "settles (command cmd c) (view (start_command io ?r lba cnt cmd d))"
    by (rule start_command_view [OF ch base sel assms(2,3)])
  have same_c: "same_disk sl c drive ds" using same_disk_busy [OF same w(2)] by (simp add: c(1) w(3))
  then have "disk c (slave c) \<noteq> None" using c(2) by (auto simp: same_disk_def)
  then have cmd: "command cmd c = c\<lparr>phase := (if cmd = ATA_CMD_READ_PIO then next_read c lba (unat cnt) else next_write c lba (unat cnt))\<rparr>"
    using assms(4) c(3,4) by (auto simp: command_def ata_cmds)
  moreover have "busy (command cmd c) < 100000" using w(2) by (simp add: c(1) w(3))
  then obtain b2 where b2: "b2 < 100000" "view (start_command io ?r lba cnt cmd d) = (command cmd c)\<lparr>busy := b2\<rparr>"
    using settles_cases [OF c(5)] by blast
  moreover have "wfault c = wfault ?c0" by (simp add: c(1) w(3))
  ultimately show thesis
    using that [OF w(1)] same_disk_busy [OF same_c b2(1)] c(2) by (simp add: Let_def b2 same_disk_def)
qed

lemma flush_same:
  assumes ch: "ata_channel base io view" and same: "same_disk sl (view d) drive ds"
  obtains d' where "ata_wait_bsy io base (p_out io (base + ATA_REG_COMMAND) ATA_CMD_CACHE_FLUSH d) = (0, d')"
    and "same_disk sl (view d') drive ds"
proof -
  let ?d = "p_out io (base + 7) ATA_CMD_CACHE_FLUSH d"
  obtain b where "b < 100000" "view ?d = (command ATA_CMD_CACHE_FLUSH (view d))\<lparr>busy := b\<rparr>"
    using settles_cases [OF ata_channelD(7) [OF ch]] same command_keeps(2) unfolding same_disk_def by metis
  then have same1: "same_disk sl (view ?d) drive ds"
    using same_disk_busy [of sl "command ATA_CMD_CACHE_FLUSH (view d)" drive ds b] same by simp
  obtain d' b' where "ata_wait_bsy io base ?d = (0, d')" "b' < 100000" "view d' = (view ?d)\<lparr>busy := b'\<rparr>"
    by (rule ata_wait_bsy_same [OF ch same1])
  then show thesis using that same_disk_busy [OF same1] by (simp add: ATA_REG_COMMAND_def)
qed

section \<open>Properties\<close>

text \<open>
  C8: On an ATA channel, for sector numbers of 28 bits, \<^verbatim>\<open>ata_read_sectors\<close> refines the sector reads that the disk
  filesystem uses: it returns 0 exactly when all sectors can be read, with their bytes in the buffer, and
  -1 otherwise, in spite of any delays below the timeout.
\<close>

theorem ata_read_sectors_refines:
  assumes sim: "ata_sim io view sl drive s ds" and "lba < 2 ^ 28" and "cnt \<noteq> 0"
  shows "case ata_read_sectors io drive lba cnt s of (r, ws, s') \<Rightarrow>
    r \<in> {0, -1} \<and> disk_read_sectors drive lba (unat cnt) ds = (if r = 0 then Some (word_bytes ws) else None) \<and>
    ata_sim io view sl drive s' ds"
proof -
  let ?r = "ata_drives s ! unat drive"
  have ch: "ata_channel (d_base_io ?r) io view" and val: "valid_drive drive s"
    using sim by (simp_all add: ata_sim_def Let_def same_disk_def valid_drive_def)
  obtain d where w: "ata_wait_bsy io (d_base_io ?r) (dev s) = (0, d)"
    "let c = view (start_command io ?r lba cnt ATA_CMD_READ_PIO d)
      in slave c = sl \<and> same_disk sl c drive ds \<and> wfault c = wfault (view (dev s)) \<and> phase c = next_read c lba (unat cnt)"
    by (rule command_started [OF sim assms(2,3), of ATA_CMD_READ_PIO]) simp_all
  define d1 where "d1 = start_command io ?r lba cnt ATA_CMD_READ_PIO d"
  obtain res ws d2 where l: "read_sectors_loop io (d_base_io ?r) (unat cnt) d1 = (res, ws, d2)" "res \<in> {0, -1}"
      "same_disk sl (view d2) drive ds" "disk_read_sectors drive lba (unat cnt) ds = (if res = 0 then Some (word_bytes ws) else None)"
    using read_sectors_loop_refines [OF ch, of d1 drive ds lba "unat cnt"] w(2) by (auto simp: Let_def d1_def)
  have "ata_read_sectors io drive lba cnt s = (res, ws, s\<lparr>dev := d2\<rparr>)"
    using val assms(3) w(1) l(1) by (simp add: ata_read_sectors_def Let_def d1_def)
  moreover have "ata_sim io view sl drive (s\<lparr>dev := d2\<rparr>) ds" using sim l(3) by (simp add: ata_sim_def Let_def)
  ultimately show ?thesis using l by simp
qed


text \<open>
  C34: A write of one sector that the drive takes over and then fails to store returns 0, and the sector keeps its
  old contents: the driver asks for the status only before the data of a sector, and ignores it after the last one.
\<close>

theorem ata_write_fault_lost:
  assumes sim: "ata_sim io view sl drive s ds" and "lba < 2 ^ 28" and "\<not> bad (view (dev s)) sl lba"
    and "wfault (view (dev s)) sl lba"
  shows "case ata_write_sectors io drive lba 1 buf s of (r, s') \<Rightarrow> r = 0 \<and> ata_sim io view sl drive s' ds"
proof -
  let ?r = "ata_drives s ! unat drive" and ?ws = "map (\<lambda>j. buf (0 * 256 + j)) [0..<256]"
  have ch: "ata_channel (d_base_io ?r) io view" and val: "valid_drive drive s" and same: "same_disk sl (view (dev s)) drive ds"
    using sim by (simp_all add: ata_sim_def Let_def same_disk_def valid_drive_def)
  have neq: "ATA_CMD_WRITE_PIO \<noteq> ATA_CMD_READ_PIO" and one: "unat (1 :: u8) = Suc 0" by (simp_all add: ata_cmds)
  obtain d where w: "ata_wait_bsy io (d_base_io ?r) (dev s) = (0, d)"
    "let c = view (start_command io ?r lba 1 ATA_CMD_WRITE_PIO d)
      in slave c = sl \<and> same_disk sl c drive ds \<and> wfault c = wfault (view (dev s)) \<and> phase c = next_write c lba (Suc 0)"
    by (rule command_started [OF sim assms(2), of 1 ATA_CMD_WRITE_PIO]) (use neq one in simp_all)
  define d1 where "d1 = start_command io ?r lba 1 ATA_CMD_WRITE_PIO d"
  have v1: "slave (view d1) = sl" "same_disk sl (view d1) drive ds" "wfault (view d1) sl lba" "phase (view d1) = Writing [] lba 0"
    using w(2) assms(3,4) same by (auto simp: Let_def d1_def next_write_def same_disk_def)
  have b1: "busy (view d1) < 100000" and "disk (view d1) (slave (view d1)) \<noteq> None" using v1 by (auto simp: same_disk_def)
  then obtain d2 where drq: "ata_wait_drq io (d_base_io ?r) d1 = (0, d2)" "view d2 = (view d1)\<lparr>busy := 0\<rparr>"
    using wait_drq_returns [OF ch b1] v1(4) by (auto simp: ata_wait_drq_def)
  define d3 where "d3 = write_words io (d_base_io ?r) ?ws d2"
  have "settles ((view d2)\<lparr>phase := Failed\<rparr>) (view d3)"
    unfolding d3_def by (rule write_words_fault [OF ch, of _ "[]" lba 0]) (use v1 drq(2) in simp_all)
  then obtain b3 where b3: "b3 < 100000" "view d3 = (view d2)\<lparr>phase := Failed, busy := b3\<rparr>"
    by (rule settles_cases) (auto simp: drq(2))
  then have same3: "same_disk sl (view d3) drive ds" using same_disk_busy [OF v1(2)] drq(2) by (simp add: same_disk_def)
  have loop: "write_sectors_loop io (d_base_io ?r) buf 0 (unat (1 :: u8)) d1 = (0, d3)"
    unfolding one by (simp add: drq(1) d3_def)
  obtain d5 where f: "ata_wait_bsy io (d_base_io ?r) (p_out io (d_base_io ?r + ATA_REG_COMMAND) ATA_CMD_CACHE_FLUSH d3) = (0, d5)"
      "same_disk sl (view d5) drive ds"
    by (rule flush_same [OF ch same3])
  have "ata_write_sectors io drive lba 1 buf s = (0, s\<lparr>dev := d5\<rparr>)"
    using val w(1) loop f(1) by (simp add: ata_write_sectors_def Let_def d1_def [symmetric])
  then show ?thesis using sim f(2) by (simp add: ata_sim_def Let_def)
qed

text \<open>
  \<^verbatim>\<open>ata_init\<close> finds the drives and forgets their sizes: afterwards \<^verbatim>\<open>ata_get_drive_size\<close> is 0 for every drive,
  whatever hardware there is, although a drive is only found when its size is not 0.
\<close>

theorem ata_size_lost: "ata_get_drive_size drive (snd (ata_init io s)) = 0"
proof -
  have keep: "(\<forall>r \<in> set (ata_drives s). d_size r = 0) \<and> length (ata_drives s) = 4 \<Longrightarrow> k < 4 \<Longrightarrow>
    (\<forall>r \<in> set (ata_drives (init_drive io k base ctrl sel s)). d_size r = 0) \<and> length (ata_drives (init_drive io k base ctrl sel s)) = 4"
    for k base ctrl sel and s :: "'a ata_state"
    using set_update_subset_insert by (fastforce simp: init_drive_def split_beta Let_def)
  have "(\<forall>r \<in> set (ata_drives (snd (ata_init io s))). d_size r = 0) \<and> length (ata_drives (snd (ata_init io s))) = 4"
    unfolding ata_init_def Let_def snd_conv by (intro keep) (simp_all add: zero_drive_def)
  then show ?thesis
    by (auto simp: ata_get_drive_size_def valid_drive_def word_less_nat_alt)
qed

section \<open>Examples\<close>

text \<open>Ports with one channel and no delays.\<close>

definition rest :: "channel \<Rightarrow> channel" where
  "rest c = (if mid_sector c then c else c\<lparr>busy := 0\<rparr>)"

definition channel_ports :: "u16 \<Rightarrow> channel ports" where
  "channel_ports base =
    \<lparr>p_out = (\<lambda>q v c. if q = base + 7 then rest (command v c)
        else if q - base \<in> {2, 3, 4, 5, 6} then c\<lparr>c_regs := (c_regs c)(q - base := v)\<rparr> else c),
     p_in = (\<lambda>q c. if q = base + 7 then (status c, c\<lparr>busy := busy c - 1\<rparr>) else (c_regs c (q - base), c)),
     p_outw = (\<lambda>q w c. if q = base then rest (give_word w c) else c),
     p_inw = (\<lambda>q c. if q = base then (data_in (phase c), rest (take_word c)) else (0xFFFF, c)),
     p_outl = (\<lambda>_ _ c. c), p_inl = (\<lambda>_ c. (0xFFFFFFFF, c))\<rparr>"

lemma settles_rest: "settles c (rest c)"
  by (auto simp: settles_def rest_def intro: exI [of _ 0])

lemma channel_ports_ok: "ata_channel base (channel_ports base) (\<lambda>c. c)"
proof -
  have "q \<noteq> base + 7 \<and> q - base \<notin> {2, 3, 4, 5, 6}" if "q - base \<ge> 8" for q using that by auto
  then show ?thesis by (simp add: ata_channel_def channel_ports_def settles_rest)
qed

text \<open>A slave with the number of a sector in each of its words, whose sector 7 cannot be addressed.\<close>

definition ata_demo :: "channel ata_state" where
  "ata_demo = \<lparr>dev = \<lparr>disk = (\<lambda>sl. if sl then Some (\<lambda>l. replicate 256 (ucast l)) else None), ident = (\<lambda>_. []),
       bad = (\<lambda>_ l. l = 7), wfault = (\<lambda>_ _. False), c_regs = (\<lambda>_. 0), busy = 10, phase = Idle\<rparr>,
     ata_drives = replicate 4 \<lparr>d_exists = True, d_base_io = 0x1F0, d_ctrl_io = 0x3F6, d_select = 1, d_size = 0\<rparr>\<rparr>"

definition disk_demo :: diskfs_state where
  "disk_demo = \<lparr>drives = (\<lambda>_. Some (\<lambda>l. word_bytes (replicate 256 (ucast l)))), bad_sector = (\<lambda>_ l. l = 7),
     mounted_drive = 0xFF, superblock = [], inode_bitmap = [], block_bitmap = [], cache_valid = [], cache_num = [],
     inode_cache = [], cache_idx = 0, ticks = 0\<rparr>"

lemma demo_sim: "ata_sim (channel_ports 0x1F0) (\<lambda>c. c) True 1 ata_demo disk_demo"
  by (simp add: ata_sim_def Let_def ata_demo_def disk_demo_def same_disk_def channel_ports_ok ATA_PRIMARY_IO_def ATA_SLAVE_def)

theorem ata_read_sectors_refines_witness:
  "fst (ata_read_sectors (channel_ports 0x1F0) 1 5 2 ata_demo) = 0 \<and> fst (ata_read_sectors (channel_ports 0x1F0) 1 6 2 ata_demo) = -1"
proof -
  have exi: "disk_drive_exists 1 disk_demo" by (simp add: disk_drive_exists_def disk_demo_def)
  have two: "unat (2 :: u8) = Suc (Suc 0)" by simp
  have "disk_read_sectors 1 5 (unat (2 :: u8)) disk_demo \<noteq> None" unfolding two by (simp add: disk_read_sector_def exi) (simp add: disk_demo_def)
  moreover have "disk_read_sectors 1 6 (unat (2 :: u8)) disk_demo = None" unfolding two by (simp add: disk_read_sector_def exi) (simp add: disk_demo_def)
  ultimately show ?thesis
    using ata_read_sectors_refines [OF demo_sim, of 5 2] ata_read_sectors_refines [OF demo_sim, of 6 2]
    by (auto split: prod.splits if_splits)
qed


text \<open>The same drive, with a sector 5 that fails when it is written.\<close>

theorem ata_write_fault_lost_witness:
  "fst (ata_write_sectors (channel_ports 0x1F0) 1 5 1 (\<lambda>_. 0xAB)
     (ata_demo\<lparr>dev := (dev ata_demo)\<lparr>wfault := (\<lambda>_ l. l = 5)\<rparr>\<rparr>)) = 0"
proof -
  have "ata_sim (channel_ports 0x1F0) (\<lambda>c. c) True 1 (ata_demo\<lparr>dev := (dev ata_demo)\<lparr>wfault := (\<lambda>_ l. l = 5)\<rparr>\<rparr>) disk_demo"
    using demo_sim by (simp add: ata_sim_def Let_def same_disk_def)
  from ata_write_fault_lost [OF this, of 5 "\<lambda>_. 0xAB"] show ?thesis
    by (auto simp: ata_demo_def split: prod.splits)
qed

end
