(* ===== verification/Pci.thy ===== *)
theory Pci
  imports Ports Heap
begin

text \<open>
  \<^verbatim>\<open>kernel/drivers/bus/pci.c\<close>: the PCI bus driver. A \<^verbatim>\<open>struct pci_device\<close> is a record in the typed store
  \<open>pci_store\<close>, at the address that \<open>kmalloc\<close> gave for its 44 bytes. The hardware behind the ports is a
  parameter. Log calls are left out, and with them \<^verbatim>\<open>pci_list_devices\<close>, which only logs.
\<close>

section \<open>Configuration registers\<close>

definition PCI_CONFIG_ADDRESS :: u16 where "PCI_CONFIG_ADDRESS = 0xCF8"
definition PCI_CONFIG_DATA :: u16 where "PCI_CONFIG_DATA = 0xCFC"
definition PCI_VENDOR_INVALID :: u16 where "PCI_VENDOR_INVALID = 0xFFFF"
definition PCI_MAX_DEVICE :: nat where "PCI_MAX_DEVICE = 32"
definition PCI_MAX_FUNCTION :: nat where "PCI_MAX_FUNCTION = 8"
definition PCI_REG_VENDOR_ID :: u8 where "PCI_REG_VENDOR_ID = 0x00"
definition PCI_REG_DEVICE_ID :: u8 where "PCI_REG_DEVICE_ID = 0x02"
definition PCI_REG_COMMAND :: u8 where "PCI_REG_COMMAND = 0x04"
definition PCI_REG_STATUS :: u8 where "PCI_REG_STATUS = 0x06"
definition PCI_REG_REVISION :: u8 where "PCI_REG_REVISION = 0x08"
definition PCI_REG_PROG_IF :: u8 where "PCI_REG_PROG_IF = 0x09"
definition PCI_REG_SUBCLASS :: u8 where "PCI_REG_SUBCLASS = 0x0A"
definition PCI_REG_CLASS :: u8 where "PCI_REG_CLASS = 0x0B"
definition PCI_REG_HEADER_TYPE :: u8 where "PCI_REG_HEADER_TYPE = 0x0E"
definition PCI_REG_BAR0 :: u8 where "PCI_REG_BAR0 = 0x10"
definition PCI_REG_INTERRUPT_LINE :: u8 where "PCI_REG_INTERRUPT_LINE = 0x3C"
definition PCI_REG_INTERRUPT_PIN :: u8 where "PCI_REG_INTERRUPT_PIN = 0x3D"

definition pci_address :: "u8 \<Rightarrow> u8 \<Rightarrow> u8 \<Rightarrow> u8 \<Rightarrow> u32" where
  "pci_address bus device function offset =
     push_bit 16 (ucast bus) OR push_bit 11 (ucast device) OR push_bit 8 (ucast function) OR ucast (offset AND 0xFC) OR 0x80000000"

definition pci_config_read_dword :: "'d ports \<Rightarrow> u8 \<Rightarrow> u8 \<Rightarrow> u8 \<Rightarrow> u8 \<Rightarrow> 'd \<Rightarrow> u32 \<times> 'd" where
  "pci_config_read_dword io bus device function offset h =
     p_inl io PCI_CONFIG_DATA (p_outl io PCI_CONFIG_ADDRESS (pci_address bus device function offset) h)"

definition pci_config_read_word :: "'d ports \<Rightarrow> u8 \<Rightarrow> u8 \<Rightarrow> u8 \<Rightarrow> u8 \<Rightarrow> 'd \<Rightarrow> u16 \<times> 'd" where
  "pci_config_read_word io bus device function offset h =
     (let (v, h) = p_inl io PCI_CONFIG_DATA (p_outl io PCI_CONFIG_ADDRESS (pci_address bus device function offset) h)
      in (ucast (drop_bit (unat (offset AND 2) * 8) v AND 0xFFFF), h))"

definition pci_config_read_byte :: "'d ports \<Rightarrow> u8 \<Rightarrow> u8 \<Rightarrow> u8 \<Rightarrow> u8 \<Rightarrow> 'd \<Rightarrow> u8 \<times> 'd" where
  "pci_config_read_byte io bus device function offset h =
     (let (v, h) = p_inl io PCI_CONFIG_DATA (p_outl io PCI_CONFIG_ADDRESS (pci_address bus device function offset) h)
      in (ucast (drop_bit (unat (offset AND 3) * 8) v AND 0xFF), h))"

text \<open>The value with the bits of the mask \<open>m\<close> at \<open>shift\<close> replaced, as the writes of a byte or a word compute it.\<close>

definition merge_bits :: "nat \<Rightarrow> u32 \<Rightarrow> u32 \<Rightarrow> u32 \<Rightarrow> u32" where
  "merge_bits shift m v data = (data AND NOT (push_bit shift m)) OR push_bit shift v"

definition pci_config_write_dword :: "'d ports \<Rightarrow> u8 \<Rightarrow> u8 \<Rightarrow> u8 \<Rightarrow> u8 \<Rightarrow> u32 \<Rightarrow> 'd \<Rightarrow> 'd" where
  "pci_config_write_dword io bus device function offset v h =
     p_outl io PCI_CONFIG_DATA v (p_outl io PCI_CONFIG_ADDRESS (pci_address bus device function offset) h)"

definition pci_config_write_word :: "'d ports \<Rightarrow> u8 \<Rightarrow> u8 \<Rightarrow> u8 \<Rightarrow> u8 \<Rightarrow> u16 \<Rightarrow> 'd \<Rightarrow> 'd" where
  "pci_config_write_word io bus device function offset v h =
     (let (data, h) = p_inl io PCI_CONFIG_DATA (p_outl io PCI_CONFIG_ADDRESS (pci_address bus device function offset) h)
      in p_outl io PCI_CONFIG_DATA (merge_bits (unat (offset AND 2) * 8) 0xFFFF (ucast v) data) h)"

definition pci_config_write_byte :: "'d ports \<Rightarrow> u8 \<Rightarrow> u8 \<Rightarrow> u8 \<Rightarrow> u8 \<Rightarrow> u8 \<Rightarrow> 'd \<Rightarrow> 'd" where
  "pci_config_write_byte io bus device function offset v h =
     (let (data, h) = p_inl io PCI_CONFIG_DATA (p_outl io PCI_CONFIG_ADDRESS (pci_address bus device function offset) h)
      in p_outl io PCI_CONFIG_DATA (merge_bits (unat (offset AND 3) * 8) 0xFF (ucast v) data) h)"

section \<open>Enumeration\<close>

record pci_device =
  pd_bus :: u8
  pd_device :: u8
  pd_function :: u8
  pd_vendor_id :: u16
  pd_device_id :: u16
  pd_class_code :: u8
  pd_subclass :: u8
  pd_prog_if :: u8
  pd_revision :: u8
  pd_interrupt_line :: u8
  pd_interrupt_pin :: u8
  pd_bar :: "u32 list"
  pd_next :: u32

record 'd pci_state = heap_state +
  pci_store :: "u32 \<rightharpoonup> pci_device"
  pci_device_list :: u32
  pci_hw :: 'd

definition sizeof_pci_device :: u32 where "sizeof_pci_device = 44"

primrec read_bars :: "'d ports \<Rightarrow> u8 \<Rightarrow> u8 \<Rightarrow> u8 \<Rightarrow> u8 list \<Rightarrow> 'd \<Rightarrow> u32 list \<times> 'd" where
  "read_bars io bus device function [] h = ([], h)"
| "read_bars io bus device function (i # is) h =
     (let (v, h) = pci_config_read_dword io bus device function (PCI_REG_BAR0 + i * 4) h;
          (vs, h) = read_bars io bus device function is h
      in (v # vs, h))"

text \<open>The device structure that is filled from the configuration registers, in the order of the code.\<close>

definition read_device :: "'d ports \<Rightarrow> u8 \<Rightarrow> u8 \<Rightarrow> u8 \<Rightarrow> u16 \<Rightarrow> u32 \<Rightarrow> 'd \<Rightarrow> pci_device \<times> 'd" where
  "read_device io bus device function vendor_id next h =
     (let rb = pci_config_read_byte io bus device function;
          (device_id, h) = pci_config_read_word io bus device function PCI_REG_DEVICE_ID h;
          (class_code, h) = rb PCI_REG_CLASS h; (subclass, h) = rb PCI_REG_SUBCLASS h;
          (prog_if, h) = rb PCI_REG_PROG_IF h; (revision, h) = rb PCI_REG_REVISION h;
          (line, h) = rb PCI_REG_INTERRUPT_LINE h; (pin, h) = rb PCI_REG_INTERRUPT_PIN h;
          (bars, h) = read_bars io bus device function (map of_nat [0..<6]) h
      in (\<lparr>pd_bus = bus, pd_device = device, pd_function = function, pd_vendor_id = vendor_id, pd_device_id = device_id,
           pd_class_code = class_code, pd_subclass = subclass, pd_prog_if = prog_if, pd_revision = revision,
           pd_interrupt_line = line, pd_interrupt_pin = pin, pd_bar = bars, pd_next = next\<rparr>, h))"

definition pci_check_function :: "'d ports \<Rightarrow> u8 \<Rightarrow> u8 \<Rightarrow> u8 \<Rightarrow> 'd pci_state \<Rightarrow> 'd pci_state option" where
  "pci_check_function io bus device function s =
     (let (vendor_id, h) = pci_config_read_word io bus device function PCI_REG_VENDOR_ID (pci_hw s); s = s\<lparr>pci_hw := h\<rparr> in
      if vendor_id = PCI_VENDOR_INVALID then Some s
      else do {
        (dev, s) \<leftarrow> kmalloc sizeof_pci_device s;
        if dev = 0 then Some s
        else let (d, h) = read_device io bus device function vendor_id (pci_device_list s) (pci_hw s)
             in Some (s\<lparr>pci_store := (pci_store s)(dev \<mapsto> d), pci_device_list := dev, pci_hw := h\<rparr>)
      })"

text \<open>A \<^verbatim>\<open>for\<close> loop with the values of its counter, when the vendor that is read for the value is valid.\<close>

primrec for_each :: "('a \<Rightarrow> 's \<Rightarrow> 's option) \<Rightarrow> 'a list \<Rightarrow> 's \<Rightarrow> 's option" where
  "for_each f [] s = Some s"
| "for_each f (x # xs) s = (case f x s of None \<Rightarrow> None | Some s \<Rightarrow> for_each f xs s)"

definition if_present :: "'d ports \<Rightarrow> u8 \<Rightarrow> u8 \<Rightarrow> u8 \<Rightarrow> ('d pci_state \<Rightarrow> 'd pci_state option) \<Rightarrow> 'd pci_state \<Rightarrow>
    'd pci_state option" where
  "if_present io bus device function body s =
     (let (vendor_id, h) = pci_config_read_word io bus device function PCI_REG_VENDOR_ID (pci_hw s); s = s\<lparr>pci_hw := h\<rparr> in
      if vendor_id = PCI_VENDOR_INVALID then Some s else body s)"

definition pci_check_device :: "'d ports \<Rightarrow> u8 \<Rightarrow> u8 \<Rightarrow> 'd pci_state \<Rightarrow> 'd pci_state option" where
  "pci_check_device io bus device s = if_present io bus device 0 (\<lambda>s. do {
     s \<leftarrow> pci_check_function io bus device 0 s;
     let (header_type, h) = pci_config_read_byte io bus device 0 PCI_REG_HEADER_TYPE (pci_hw s); s = s\<lparr>pci_hw := h\<rparr> in
     if header_type AND 0x80 \<noteq> 0
     then for_each (\<lambda>function. if_present io bus device function (pci_check_function io bus device function))
            (map of_nat [1..<PCI_MAX_FUNCTION]) s
     else Some s }) s"

definition pci_check_bus :: "'d ports \<Rightarrow> u8 \<Rightarrow> 'd pci_state \<Rightarrow> 'd pci_state option" where
  "pci_check_bus io bus s = for_each (pci_check_device io bus) (map of_nat [0..<PCI_MAX_DEVICE]) s"

definition pci_next :: "'d pci_state \<Rightarrow> u32 \<Rightarrow> u32 option" where
  "pci_next s p = map_option pd_next (pci_store s p)"

definition pci_init :: "'d ports \<Rightarrow> 'd pci_state \<Rightarrow> 'd pci_state option" where
  "pci_init io s =
     (let s = s\<lparr>pci_device_list := 0\<rparr>;
          (header_type, h) = pci_config_read_byte io 0 0 0 PCI_REG_HEADER_TYPE (pci_hw s); s = s\<lparr>pci_hw := h\<rparr>
      in do {
        s \<leftarrow> (if header_type AND 0x80 = 0 then pci_check_bus io 0 s
             else for_each (\<lambda>function. if_present io 0 0 function (pci_check_bus io function))
                    (map of_nat [0..<PCI_MAX_FUNCTION]) s);
        count \<leftarrow> chain_fold (pci_next s) (\<lambda>_ n. n + 1) (pci_device_list s) (0 :: int);
        Some s
      })"

section \<open>The list of devices\<close>

definition pci_get_devices :: "'d pci_state \<Rightarrow> u32" where
  "pci_get_devices s = pci_device_list s"

definition pci_test :: "'d pci_state \<Rightarrow> (pci_device \<Rightarrow> bool) \<Rightarrow> u32 \<Rightarrow> bool" where
  "pci_test s P p \<longleftrightarrow> (case pci_store s p of None \<Rightarrow> False | Some d \<Rightarrow> P d)"

definition pci_find_device_by_class :: "u8 \<Rightarrow> u8 \<Rightarrow> 'd pci_state \<Rightarrow> u32 option" where
  "pci_find_device_by_class class_code subclass s =
     chain_find (pci_next s) (pci_test s (\<lambda>d. pd_class_code d = class_code \<and> pd_subclass d = subclass)) (pci_device_list s)"

definition pci_find_device_by_id :: "u16 \<Rightarrow> u16 \<Rightarrow> 'd pci_state \<Rightarrow> u32 option" where
  "pci_find_device_by_id vendor_id device_id s =
     chain_find (pci_next s) (pci_test s (\<lambda>d. pd_vendor_id d = vendor_id \<and> pd_device_id d = device_id)) (pci_device_list s)"

text \<open>The second result is what is stored through \<^verbatim>\<open>is_io\<close> unless that is NULL.\<close>

definition pci_get_bar :: "u32 \<Rightarrow> u8 \<Rightarrow> 'd pci_state \<Rightarrow> (u32 \<times> u8 option) option" where
  "pci_get_bar dev bar_index s =
     (if dev = 0 \<or> bar_index \<ge> 6 then Some (0, None)
      else do {
        d \<leftarrow> pci_store s dev;
        let bar = pd_bar d ! unat bar_index in
        Some (if bar AND 1 \<noteq> 0 then (bar AND 0xFFFFFFFC, Some 1) else (bar AND 0xFFFFFFF0, Some 0))
      })"

definition pci_enable_bus_mastering :: "'d ports \<Rightarrow> u32 \<Rightarrow> 'd pci_state \<Rightarrow> 'd pci_state option" where
  "pci_enable_bus_mastering io dev s =
     (if dev = 0 then Some s
      else do {
        d \<leftarrow> pci_store s dev;
        let (command, h) = pci_config_read_word io (pd_bus d) (pd_device d) (pd_function d) PCI_REG_COMMAND (pci_hw s) in
        Some (s\<lparr>pci_hw := pci_config_write_word io (pd_bus d) (pd_device d) (pd_function d) PCI_REG_COMMAND
          (command OR 0x04) h\<rparr>)
      })"

section \<open>The configuration space\<close>

text \<open>
  The documented behaviour of the two ports: the address port selects a register, the data port reads and
  writes it. What a write leaves in a register depends on the register: \<open>wr a old v\<close> at address \<open>a\<close>.
\<close>

definition config_space :: "'d ports \<Rightarrow> ('d \<Rightarrow> u32) \<Rightarrow> ('d \<Rightarrow> u32 \<Rightarrow> u32) \<Rightarrow> (u32 \<Rightarrow> u32 \<Rightarrow> u32 \<Rightarrow> u32) \<Rightarrow> bool" where
  "config_space io sel cfg wr \<longleftrightarrow>
     (\<forall>h v. sel (p_outl io PCI_CONFIG_ADDRESS v h) = v \<and> cfg (p_outl io PCI_CONFIG_ADDRESS v h) = cfg h) \<and>
     (\<forall>h. fst (p_inl io PCI_CONFIG_DATA h) = cfg h (sel h) \<and> sel (snd (p_inl io PCI_CONFIG_DATA h)) = sel h \<and>
        cfg (snd (p_inl io PCI_CONFIG_DATA h)) = cfg h) \<and>
     (\<forall>h v. cfg (p_outl io PCI_CONFIG_DATA v h) = (cfg h)(sel h := wr (sel h) (cfg h (sel h)) v))"

text \<open>The bytes and words of the registers, and what the driver should find.\<close>

definition cfg_byte :: "(u32 \<Rightarrow> u32) \<Rightarrow> u8 \<Rightarrow> u8 \<Rightarrow> u8 \<Rightarrow> u8 \<Rightarrow> u8" where
  "cfg_byte c b d f off = ucast (drop_bit (unat (off AND 3) * 8) (c (pci_address b d f off)) AND 0xFF)"

definition cfg_word :: "(u32 \<Rightarrow> u32) \<Rightarrow> u8 \<Rightarrow> u8 \<Rightarrow> u8 \<Rightarrow> u8 \<Rightarrow> u16" where
  "cfg_word c b d f off = ucast (drop_bit (unat (off AND 2) * 8) (c (pci_address b d f off)) AND 0xFFFF)"

definition present :: "(u32 \<Rightarrow> u32) \<Rightarrow> u8 \<Rightarrow> u8 \<Rightarrow> u8 \<Rightarrow> bool" where
  "present c b d f \<longleftrightarrow> cfg_word c b d f 0 \<noteq> 0xFFFF"

definition multifunction :: "(u32 \<Rightarrow> u32) \<Rightarrow> u8 \<Rightarrow> u8 \<Rightarrow> bool" where
  "multifunction c b d \<longleftrightarrow> cfg_byte c b d 0 0x0E AND 0x80 \<noteq> 0"

definition functions_of :: "(u32 \<Rightarrow> u32) \<Rightarrow> u8 \<Rightarrow> u8 \<Rightarrow> u8 list" where
  "functions_of c b d = (if present c b d 0
     then 0 # (if multifunction c b d then filter (present c b d) [1, 2, 3, 4, 5, 6, 7] else []) else [])"

definition root_buses :: "(u32 \<Rightarrow> u32) \<Rightarrow> u8 list" where
  "root_buses c = (if multifunction c 0 0 then filter (present c 0 0) [0, 1, 2, 3, 4, 5, 6, 7] else [0])"

definition bus_functions :: "(u32 \<Rightarrow> u32) \<Rightarrow> u8 \<Rightarrow> (u8 \<times> u8 \<times> u8) list" where
  "bus_functions c b = concat (map (\<lambda>d. map (\<lambda>f. (b, d, f)) (functions_of c b d)) (map of_nat [0..<32]))"

definition pci_functions :: "(u32 \<Rightarrow> u32) \<Rightarrow> (u8 \<times> u8 \<times> u8) list" where
  "pci_functions c = concat (map (bus_functions c) (root_buses c))"

definition describe :: "(u32 \<Rightarrow> u32) \<Rightarrow> u8 \<times> u8 \<times> u8 \<Rightarrow> pci_device" where
  "describe c = (\<lambda>(b, d, f). \<lparr>pd_bus = b, pd_device = d, pd_function = f, pd_vendor_id = cfg_word c b d f 0,
     pd_device_id = cfg_word c b d f 2, pd_class_code = cfg_byte c b d f 11, pd_subclass = cfg_byte c b d f 10,
     pd_prog_if = cfg_byte c b d f 9, pd_revision = cfg_byte c b d f 8, pd_interrupt_line = cfg_byte c b d f 0x3C,
     pd_interrupt_pin = cfg_byte c b d f 0x3D,
     pd_bar = map (\<lambda>off. c (pci_address b d f off)) [0x10, 0x14, 0x18, 0x1C, 0x20, 0x24], pd_next = 0\<rparr>)"

lemma config_spaceD:
  assumes "config_space io sel cfg wr"
  shows "sel (p_outl io PCI_CONFIG_ADDRESS v h) = v" and "cfg (p_outl io PCI_CONFIG_ADDRESS v h) = cfg h"
    and "fst (p_inl io PCI_CONFIG_DATA h) = cfg h (sel h)" and "sel (snd (p_inl io PCI_CONFIG_DATA h)) = sel h"
    and "cfg (snd (p_inl io PCI_CONFIG_DATA h)) = cfg h"
    and "cfg (p_outl io PCI_CONFIG_DATA v h) = (cfg h)(sel h := wr (sel h) (cfg h (sel h)) v)"
  using assms by (simp_all add: config_space_def)

lemma config_reads:
  assumes "config_space io sel cfg wr"
  shows "fst (pci_config_read_dword io b d f off h) = cfg h (pci_address b d f off)"
    and "cfg (snd (pci_config_read_dword io b d f off h)) = cfg h"
    and "fst (pci_config_read_word io b d f off h) = cfg_word (cfg h) b d f off"
    and "cfg (snd (pci_config_read_word io b d f off h)) = cfg h"
    and "fst (pci_config_read_byte io b d f off h) = cfg_byte (cfg h) b d f off"
    and "cfg (snd (pci_config_read_byte io b d f off h)) = cfg h"
  by (simp_all add: pci_config_read_dword_def pci_config_read_word_def pci_config_read_byte_def cfg_word_def cfg_byte_def
    case_prod_unfold Let_def config_spaceD [OF assms])

lemma config_writes:
  assumes "config_space io sel cfg wr"
  shows "cfg (pci_config_write_byte io b d f off v h) = (cfg h)(pci_address b d f off := wr (pci_address b d f off)
      (cfg h (pci_address b d f off)) (merge_bits (unat (off AND 3) * 8) 0xFF (ucast v) (cfg h (pci_address b d f off))))"
    and "cfg (pci_config_write_word io b d f off w h) = (cfg h)(pci_address b d f off := wr (pci_address b d f off)
      (cfg h (pci_address b d f off)) (merge_bits (unat (off AND 2) * 8) 0xFFFF (ucast w) (cfg h (pci_address b d f off))))"
    and "cfg (pci_config_write_dword io b d f off l h) = (cfg h)(pci_address b d f off := wr (pci_address b d f off)
      (cfg h (pci_address b d f off)) l)"
  by (simp_all add: pci_config_write_byte_def pci_config_write_word_def pci_config_write_dword_def
    case_prod_unfold Let_def config_spaceD [OF assms])

lemma read_bars_values:
  assumes "config_space io sel cfg wr"
  shows "fst (read_bars io b d f is h) = map (\<lambda>i. cfg h (pci_address b d f (PCI_REG_BAR0 + i * 4))) is"
    and "cfg (snd (read_bars io b d f is h)) = cfg h"
  by (induction "is" arbitrary: h) (simp_all add: case_prod_unfold Let_def config_reads [OF assms])

lemma read_device_value:
  assumes "config_space io sel cfg wr"
  shows "fst (read_device io b d f v nx h) = (describe (cfg h) (b, d, f))\<lparr>pd_vendor_id := v, pd_next := nx\<rparr>"
    and "cfg (snd (read_device io b d f v nx h)) = cfg h"
  by (simp_all add: read_device_def describe_def case_prod_unfold Let_def config_reads [OF assms] read_bars_values [OF assms]
    PCI_REG_DEVICE_ID_def PCI_REG_CLASS_def PCI_REG_SUBCLASS_def PCI_REG_PROG_IF_def PCI_REG_REVISION_def
    PCI_REG_INTERRUPT_LINE_def PCI_REG_INTERRUPT_PIN_def PCI_REG_BAR0_def upt_rec)

section \<open>Enumeration finds every function\<close>

text \<open>A heap from which \<open>n\<close> device structures can be allocated: one free block is large enough for all of them.\<close>

definition heap_holds :: "nat \<Rightarrow> 'a heap_state_scheme \<Rightarrow> bool" where
  "heap_holds n s \<longleftrightarrow> (\<exists>bs. heap_blocks s bs \<and> (n = 0 \<or> (\<exists>k. (k, False) \<in> set bs \<and> 56 * n + 16 \<le> k)))"

lemma merge_keeps_free: "(k, False) \<in> set bs \<Longrightarrow> \<exists>l. (l, False) \<in> set (merge_blocks bs) \<and> k \<le> l"
proof (induction bs arbitrary: k rule: merge_blocks.induct)
  case (1 b c bs)
  show ?case
  proof (cases "\<not> snd b \<and> \<not> snd c")
    case True
    have "\<exists>l. (l, False) \<in> set ((fst b + 12 + fst c, False) # bs) \<and> k \<le> l" using "1.prems"
      by (cases "(k, False) \<in> set bs") auto
    then obtain l where l: "(l, False) \<in> set ((fst b + 12 + fst c, False) # bs)" "k \<le> l" by blast
    obtain l' where "(l', False) \<in> set (merge_blocks ((fst b + 12 + fst c, False) # bs))" "l \<le> l'"
      using "1.IH"(1) [OF True l(1)] by blast
    then show ?thesis using True l(2) by (intro exI [of _ l']) simp
  next
    case False
    show ?thesis
    proof (cases "(k, False) = b")
      case True
      then show ?thesis using False by auto
    next
      case neq: False
      then obtain l where "(l, False) \<in> set (merge_blocks (c # bs))" "k \<le> l"
        using "1.IH"(2) [OF False, of k] "1.prems" by auto
      then show ?thesis using False by (intro exI [of _ l]) auto
    qed
  qed
qed auto

lemma kmalloc_holds:
  assumes "heap_holds (Suc n) s"
  obtains p s' where "kmalloc sizeof_pci_device s = Some (p, s')" and "p \<noteq> 0" and "heap_holds n s'"
    and "p \<notin> heap_live s" and "heap_live s' = insert p (heap_live s)"
proof -
  obtain bs k where bs: "heap_blocks s bs" "(k, False) \<in> set bs" "56 * n + 72 \<le> k"
    using assms by (auto simp: heap_holds_def)
  have sz: "unat (round_up4 sizeof_pci_device) = 44" using round_up4(1) [of sizeof_pci_device]
    by (simp add: sizeof_pci_device_def)
  have f: "sizeof_pci_device \<noteq> 0" "unat sizeof_pci_device \<le> 0xFFFFFFFC" by (simp_all add: sizeof_pci_device_def)
  from bs(1) f have "\<exists>p s'. kmalloc sizeof_pci_device s = Some (p, s') \<and> p \<noteq> 0 \<and> heap_holds n s'"
  proof (cases rule: kmalloc_ok)
    case (fail s')
    then show ?thesis using merge_keeps_free [OF bs(2)] bs(3) sz by fastforce
  next
    case (block p s' cs pre n' suf)
    have cs: "cs = bs" using block(3) bs(2,3) sz by auto
    have "\<exists>k. (k, False) \<in> set (pre @ split_blk 44 n' @ suf) \<and> 56 * n + 16 \<le> k"
    proof (cases "k = n'")
      case True
      then show ?thesis using bs(3) by (intro exI [of _ "n' - 56"]) (auto simp: split_blk_def)
    next
      case False
      then show ?thesis using bs(2,3) block(4) cs by (intro exI [of _ k]) auto
    qed
    then have "heap_holds n s'" using block(8) sz unfolding heap_holds_def by metis
    then show ?thesis using block(1,2) by blast
  qed
  then obtain p s' where k: "kmalloc sizeof_pci_device s = Some (p, s')" "p \<noteq> 0" "heap_holds n s'" by blast
  have "heap_inv s" "heap_fits sizeof_pci_device" using bs(1) by (auto simp: heap_inv_def heap_fits_def sizeof_pci_device_def)
  then show thesis using that k heap.alloc_ok [OF _ _ k(1,2)] by blast
qed

text \<open>
  The devices in the list: \<open>found cfg c L n s fs\<close> when the registers are \<open>c\<close>, the list holds the functions \<open>fs\<close>,
  the heap holds \<open>n\<close> more, and the blocks in use are those of \<open>L\<close> and those of the list.
\<close>

definition shows_device :: "'d pci_state \<Rightarrow> (u32 \<Rightarrow> u32) \<Rightarrow> u32 \<Rightarrow> u8 \<times> u8 \<times> u8 \<Rightarrow> bool" where
  "shows_device s c p f \<longleftrightarrow> map_option (\<lambda>d. d\<lparr>pd_next := 0\<rparr>) (pci_store s p) = Some (describe c f)"

definition found :: "('d \<Rightarrow> u32 \<Rightarrow> u32) \<Rightarrow> (u32 \<Rightarrow> u32) \<Rightarrow> u32 set \<Rightarrow> nat \<Rightarrow> 'd pci_state \<Rightarrow> (u8 \<times> u8 \<times> u8) list \<Rightarrow> bool" where
  "found cfg c L n s fs \<longleftrightarrow> cfg (pci_hw s) = c \<and> heap_holds n s \<and>
     (\<exists>ps. chain (pci_next s) (pci_device_list s) ps \<and> list_all2 (shows_device s c) ps fs \<and>
        heap_live s = L \<union> set ps \<and> L \<inter> set ps = {})"

text \<open>\<open>visits f gs\<close>: the operation \<open>f\<close> returns and adds the functions \<open>gs\<close>, the last one in front.\<close>

definition visits :: "('d \<Rightarrow> u32 \<Rightarrow> u32) \<Rightarrow> (u32 \<Rightarrow> u32) \<Rightarrow> u32 set \<Rightarrow> ('d pci_state \<Rightarrow> 'd pci_state option) \<Rightarrow>
    (u8 \<times> u8 \<times> u8) list \<Rightarrow> bool" where
  "visits cfg c L f gs \<longleftrightarrow> (\<forall>n s fs. found cfg c L (n + length gs) s fs \<longrightarrow>
     (\<exists>s'. f s = Some s' \<and> found cfg c L n s' (rev gs @ fs)))"

lemma heap_hw [simp]: "heap_holds n (s\<lparr>pci_hw := h\<rparr>) = heap_holds n s" "heap_live (s\<lparr>pci_hw := h\<rparr>) = heap_live s"
  "pci_next (s\<lparr>pci_hw := h\<rparr>) = pci_next s" "shows_device (s\<lparr>pci_hw := h\<rparr>) = shows_device s"
  by (simp_all add: heap_holds_def heap_blocks_def heap_live_def pci_next_def shows_device_def fun_eq_iff)

lemma found_hw: "found cfg c L n s fs \<Longrightarrow> cfg h = c \<Longrightarrow> found cfg c L n (s\<lparr>pci_hw := h\<rparr>) fs"
  by (simp add: found_def)

lemma found_cfg: "found cfg c L n s fs \<Longrightarrow> cfg (pci_hw s) = c"
  by (simp add: found_def)

lemma visits_for_each:
  assumes "\<And>x. x \<in> set xs \<Longrightarrow> visits cfg c L (f x) (g x)"
  shows "visits cfg c L (for_each f xs) (concat (map g xs))"
  using assms
proof (induction xs)
  case (Cons x xs)
  have x: "visits cfg c L (f x) (g x)" and xs: "visits cfg c L (for_each f xs) (concat (map g xs))" using Cons by simp_all
  show ?case unfolding visits_def
  proof (intro allI impI)
    fix n s fs assume "found cfg c L (n + length (concat (map g (x # xs)))) s fs"
    then have "found cfg c L ((n + length (concat (map g xs))) + length (g x)) s fs" by (simp add: ac_simps)
    then obtain s1 where s1: "f x s = Some s1" "found cfg c L (n + length (concat (map g xs))) s1 (rev (g x) @ fs)"
      using x unfolding visits_def by blast
    then obtain s2 where "for_each f xs s1 = Some s2" "found cfg c L n s2 (rev (concat (map g xs)) @ rev (g x) @ fs)"
      using xs unfolding visits_def by blast
    then show "\<exists>s'. for_each f (x # xs) s = Some s' \<and> found cfg c L n s' (rev (concat (map g (x # xs))) @ fs)" using s1 by simp
  qed
qed (simp add: visits_def)

lemma visits_if_present:
  assumes sp: "config_space io sel cfg wr" and "present c b d f \<Longrightarrow> visits cfg c L body gs"
  shows "visits cfg c L (if_present io b d f body) (if present c b d f then gs else [])"
  unfolding visits_def
proof (intro allI impI)
  fix n s fs assume fd: "found cfg c L (n + length (if present c b d f then gs else [])) s fs"
  let ?r = "pci_config_read_word io b d f PCI_REG_VENDOR_ID (pci_hw s)"
  have r: "fst ?r = cfg_word c b d f 0" "cfg (snd ?r) = c"
    using found_cfg [OF fd] by (simp_all add: config_reads [OF sp] PCI_REG_VENDOR_ID_def)
  then have "found cfg c L (n + length (if present c b d f then gs else [])) (s\<lparr>pci_hw := snd ?r\<rparr>) fs"
    using found_hw [OF fd] by blast
  then show "\<exists>s'. if_present io b d f body s = Some s' \<and> found cfg c L n s' (rev (if present c b d f then gs else []) @ fs)"
    using assms(2) r by (auto simp: if_present_def case_prod_unfold Let_def present_def PCI_VENDOR_INVALID_def visits_def)
qed

lemma found_add:
  assumes "found cfg c L (Suc n) s fs" and "cfg h = c" and "kmalloc sizeof_pci_device s = Some (p, s1)" and "p \<noteq> 0"
    and "heap_holds n s1" and "p \<notin> heap_live s" and "heap_live s1 = insert p (heap_live s)"
    and "d\<lparr>pd_next := 0\<rparr> = describe c f" and "pd_next d = pci_device_list s"
  shows "found cfg c L n (s1\<lparr>pci_store := (pci_store s1)(p \<mapsto> d), pci_device_list := p, pci_hw := h\<rparr>) (f # fs)"
proof -
  let ?s = "s1\<lparr>pci_store := (pci_store s1)(p \<mapsto> d), pci_device_list := p, pci_hw := h\<rparr>"
  obtain ps where ps: "chain (pci_next s) (pci_device_list s) ps" "list_all2 (shows_device s c) ps fs"
    "heap_live s = L \<union> set ps" "L \<inter> set ps = {}" using assms(1) by (auto simp: found_def)
  have st: "pci_store s1 = pci_store s" using arg_cong [OF kmalloc_frame [OF assms(3)], of pci_store] by simp
  have new: "p \<notin> set ps" "p \<notin> L" using assms(6) ps(3) by auto
  have "chain (pci_next ?s) (pci_device_list s) ps" using ps(1) by (rule chain_cong) (use new st in \<open>auto simp: pci_next_def\<close>)
  then have "chain (pci_next ?s) p (p # ps)" using assms(4,9) by (simp add: pci_next_def)
  moreover have rest: "list_all2 (shows_device ?s c) ps fs"
    using ps(2) new(1) st by (auto elim!: list.rel_mono_strong simp: shows_device_def)
  then have "list_all2 (shows_device ?s c) (p # ps) (f # fs)"
    using rest assms(8) by (simp add: shows_device_def)
  moreover have "heap_live ?s = heap_live s1" by (simp add: heap_live_def heap_blocks_def)
  then have "heap_live ?s = L \<union> set (p # ps)" "L \<inter> set (p # ps) = {}" using assms(7) ps(3,4) new by auto
  moreover have "heap_holds n ?s" using assms(5) by (simp add: heap_holds_def heap_blocks_def)
  ultimately show ?thesis using assms(2) unfolding found_def by (intro conjI exI [of _ "p # ps"]) simp_all
qed

lemma visits_check_function:
  assumes sp: "config_space io sel cfg wr" and pr: "present c b d f"
  shows "visits cfg c L (pci_check_function io b d f) [(b, d, f)]"
  unfolding visits_def
proof (intro allI impI)
  fix n s fs assume "found cfg c L (n + length [(b, d, f)]) s fs"
  then have fd: "found cfg c L (Suc n) s fs" by simp
  let ?r = "pci_config_read_word io b d f PCI_REG_VENDOR_ID (pci_hw s)"
  let ?s = "s\<lparr>pci_hw := snd ?r\<rparr>"
  have r: "fst ?r = cfg_word c b d f 0" "cfg (snd ?r) = c"
    using found_cfg [OF fd] by (simp_all add: config_reads [OF sp] PCI_REG_VENDOR_ID_def)
  have fd': "found cfg c L (Suc n) ?s fs" using found_hw [OF fd r(2)] .
  then have "heap_holds (Suc n) ?s" by (simp add: found_def)
  then obtain p s1 where k: "kmalloc sizeof_pci_device ?s = Some (p, s1)" "p \<noteq> 0" "heap_holds n s1" "p \<notin> heap_live ?s"
    "heap_live s1 = insert p (heap_live ?s)" by (rule kmalloc_holds)
  have fr: "pci_device_list s1 = pci_device_list ?s" "pci_hw s1 = snd ?r"
    using arg_cong [OF kmalloc_frame [OF k(1)], of pci_device_list] arg_cong [OF kmalloc_frame [OF k(1)], of pci_hw] by simp_all
  let ?d = "read_device io b d f (fst ?r) (pci_device_list s1) (pci_hw s1)"
  have d: "fst ?d = (describe c (b, d, f))\<lparr>pd_next := pci_device_list s1\<rparr>" "cfg (snd ?d) = c"
    using r fr(2) by (simp_all add: read_device_value [OF sp] describe_def)
  have "pci_check_function io b d f s =
    Some (s1\<lparr>pci_store := (pci_store s1)(p \<mapsto> fst ?d), pci_device_list := p, pci_hw := snd ?d\<rparr>)"
    using k(1,2) pr r(1) by (simp add: pci_check_function_def case_prod_unfold Let_def present_def PCI_VENDOR_INVALID_def)
  moreover have "found cfg c L n (s1\<lparr>pci_store := (pci_store s1)(p \<mapsto> fst ?d), pci_device_list := p, pci_hw := snd ?d\<rparr>)
    ((b, d, f) # fs)"
    using d fr(1) by (intro found_add [OF fd' d(2) k]) (simp_all add: describe_def)
  ultimately show "\<exists>s'. pci_check_function io b d f s = Some s' \<and> found cfg c L n s' (rev [(b, d, f)] @ fs)" by simp
qed

lemma upt_functions: "map of_nat [1..<PCI_MAX_FUNCTION] = ([1, 2, 3, 4, 5, 6, 7] :: u8 list)"
  "map of_nat [0..<PCI_MAX_FUNCTION] = ([0, 1, 2, 3, 4, 5, 6, 7] :: u8 list)"
  by (simp_all add: PCI_MAX_FUNCTION_def upt_rec)

lemma concat_if_filter: "concat (map (\<lambda>x. if P x then g x else []) xs) = concat (map g (filter P xs))"
  by (induction xs) auto

lemma map_filter_concat: "map g (filter P xs) = concat (map (\<lambda>x. if P x then [g x] else []) xs)"
  by (induction xs) auto

lemma visits_check_device:
  assumes sp: "config_space io sel cfg wr"
  shows "visits cfg c L (pci_check_device io b d) (map (\<lambda>f. (b, d, f)) (functions_of c b d))"
proof -
  let ?more = "map (\<lambda>f. (b, d, f)) (if multifunction c b d then filter (present c b d) [1, 2, 3, 4, 5, 6, 7] else [])"
  let ?loop = "for_each (\<lambda>f. if_present io b d f (pci_check_function io b d f)) (map of_nat [1..<PCI_MAX_FUNCTION])"
  let ?body = "\<lambda>s. do { s \<leftarrow> pci_check_function io b d 0 s;
     let (header_type, h) = pci_config_read_byte io b d 0 PCI_REG_HEADER_TYPE (pci_hw s); s = s\<lparr>pci_hw := h\<rparr> in
     if header_type AND 0x80 \<noteq> 0 then ?loop s else Some s }"
  have loop: "visits cfg c L ?loop (map (\<lambda>f. (b, d, f)) (filter (present c b d) [1, 2, 3, 4, 5, 6, 7]))"
    unfolding map_filter_concat upt_functions
    by (intro visits_for_each visits_if_present [OF sp] visits_check_function [OF sp])
  have "visits cfg c L ?body ((b, d, 0) # ?more)" if pr: "present c b d 0"
    unfolding visits_def
  proof (intro allI impI)
    fix n s fs assume "found cfg c L (n + length ((b, d, 0) # ?more)) s fs"
    then have "found cfg c L ((n + length ?more) + length [(b, d, 0::u8)]) s fs" by simp
    then obtain s1 where s1: "pci_check_function io b d 0 s = Some s1" "found cfg c L (n + length ?more) s1 ((b, d, 0) # fs)"
      using visits_check_function [OF sp pr, of L] unfolding visits_def by fastforce
    let ?r = "pci_config_read_byte io b d 0 PCI_REG_HEADER_TYPE (pci_hw s1)"
    have r: "fst ?r = cfg_byte c b d 0 0x0E" "cfg (snd ?r) = c"
      using found_cfg [OF s1(2)] by (simp_all add: config_reads [OF sp] PCI_REG_HEADER_TYPE_def)
    have s2: "found cfg c L (n + length ?more) (s1\<lparr>pci_hw := snd ?r\<rparr>) ((b, d, 0) # fs)" using found_hw [OF s1(2) r(2)] .
    show "\<exists>s'. ?body s = Some s' \<and> found cfg c L n s' (rev ((b, d, 0) # ?more) @ fs)"
    proof (cases "multifunction c b d")
      case True
      then show ?thesis using loop s2 s1(1) r(1) unfolding visits_def
        by (fastforce simp: case_prod_unfold Let_def multifunction_def)
    next
      case False
      then show ?thesis using s2 s1(1) r(1) by (simp add: case_prod_unfold Let_def multifunction_def)
    qed
  qed
  from visits_if_present [OF sp this] show ?thesis
    unfolding pci_check_device_def functions_of_def by (simp add: if_distrib [of "map _"] cong: if_cong)
qed

lemma visits_check_bus:
  assumes sp: "config_space io sel cfg wr"
  shows "visits cfg c L (pci_check_bus io b) (bus_functions c b)"
  unfolding pci_check_bus_def bus_functions_def PCI_MAX_DEVICE_def
  by (intro visits_for_each visits_check_device [OF sp])

text \<open>
  C18: When the heap has a free block large enough, \<^verbatim>\<open>pci_init\<close> returns with a list of exactly the functions that
  answer on the root buses, each once and in the reverse order of the scan, with their registers as the
  configuration space has them, and allocates nothing else.
\<close>
theorem pci_init_finds:
  assumes sp: "config_space io sel cfg wr" and "c = cfg (pci_hw s)" and "heap_holds (length (pci_functions c)) s"
  shows "\<exists>s' ps. pci_init io s = Some s' \<and> cfg (pci_hw s') = c \<and> chain (pci_next s') (pci_device_list s') ps \<and>
    list_all2 (shows_device s' c) ps (rev (pci_functions c)) \<and> heap_live s' = heap_live s \<union> set ps \<and> heap_live s \<inter> set ps = {}"
proof -
  let ?r = "pci_config_read_byte io 0 0 0 PCI_REG_HEADER_TYPE (pci_hw s)"
  let ?s = "s\<lparr>pci_device_list := 0, pci_hw := snd ?r\<rparr>"
  let ?scan = "if fst ?r AND 0x80 = 0 then pci_check_bus io 0
    else for_each (\<lambda>function. if_present io 0 0 function (pci_check_bus io function)) (map of_nat [0..<PCI_MAX_FUNCTION])"
  have r: "fst ?r = cfg_byte c 0 0 0 0x0E" "cfg (snd ?r) = c"
    using assms(2) by (simp_all add: config_reads [OF sp] PCI_REG_HEADER_TYPE_def)
  have v: "visits cfg c (heap_live s) ?scan (pci_functions c)"
  proof (cases "multifunction c 0 0")
    case True
    have "visits cfg c (heap_live s) (for_each (\<lambda>function. if_present io 0 0 function (pci_check_bus io function))
        (map of_nat [0..<PCI_MAX_FUNCTION])) (concat (map (bus_functions c) (filter (present c 0 0) [0, 1, 2, 3, 4, 5, 6, 7])))"
      unfolding concat_if_filter [symmetric] upt_functions
      by (intro visits_for_each visits_if_present [OF sp] visits_check_bus [OF sp])
    then show ?thesis using True r(1) by (simp add: pci_functions_def root_buses_def multifunction_def)
  next
    case False
    then show ?thesis using visits_check_bus [OF sp, of c "heap_live s" 0] r(1)
      by (simp add: pci_functions_def root_buses_def multifunction_def)
  qed
  have "found cfg c (heap_live s) (0 + length (pci_functions c)) ?s []"
    using assms(3) r(2) by (simp add: found_def heap_holds_def heap_blocks_def heap_live_def)
  then obtain s' where s': "?scan ?s = Some s'" "found cfg c (heap_live s) 0 s' (rev (pci_functions c))"
    using v unfolding visits_def by fastforce
  then obtain ps where ps: "chain (pci_next s') (pci_device_list s') ps" "list_all2 (shows_device s' c) ps (rev (pci_functions c))"
    "heap_live s' = heap_live s \<union> set ps" "heap_live s \<inter> set ps = {}" "cfg (pci_hw s') = c" by (auto simp: found_def)
  have "pci_init io s = Some s'" using s'(1) chain_fold_chain [OF ps(1), of "\<lambda>_ n. n + 1" "0 :: int"]
    by (simp add: pci_init_def case_prod_unfold Let_def split: if_splits)
  then show ?thesis using ps by blast
qed

section \<open>Registers are written one at a time\<close>

lemma small_bits:
  assumes "unat (w :: u8) < 2 ^ k" and "bit w n" shows "n < k"
proof -
  have "bit (unat w) n" using assms(2) by (simp add: bit_unsigned_iff)
  moreover have "take_bit k (unat w) = unat w" using assms(1) by (simp add: take_bit_nat_eq_self_iff)
  ultimately show "n < k" by (metis bit_take_bit_iff)
qed

lemma bit_80000000: "bit (0x80000000 :: u32) n \<longleftrightarrow> n = 31"
proof -
  have eq: "(0x80000000 :: u32) = push_bit 31 1" by (simp add: push_bit_eq_mult)
  show ?thesis unfolding eq bit_push_bit_iff bit_1_iff by auto
qed

lemma bit_pushed:
  assumes "k \<le> 24" shows "bit (push_bit k (ucast (w :: u8)) :: u32) n \<longleftrightarrow> k \<le> n \<and> bit w (n - k)"
  using assms bit_imp_le_length [of w "n - k"] by (auto simp: bit_push_bit_iff bit_ucast_iff)

lemma bit_pci_address:
  "bit (pci_address b d f off) n \<longleftrightarrow> 16 \<le> n \<and> bit b (n - 16) \<or> 11 \<le> n \<and> bit d (n - 11) \<or> 8 \<le> n \<and> bit f (n - 8) \<or>
     bit (off AND 0xFC) n \<or> n = 31"
  unfolding pci_address_def bit_or_iff bit_80000000 using bit_pushed [of 0 "off AND 0xFC" n]
  by (simp only: bit_pushed push_bit_0_id id_apply) simp

lemma pci_address_eq:
  assumes "d < 32" and "f < 8" and "d' < 32" and "f' < 8" and "pci_address b d f off = pci_address b' d' f' off'"
  shows "b = b'" and "d = d'" and "f = f'" and "off AND 0xFC = off' AND 0xFC"
proof -
  have len: "\<not> bit w (n + 8)" for w :: u8 and n using bit_imp_le_length [of w "n + 8"] by auto
  have small: "\<not> bit w (n + 5)" if "w < 32" for w :: u8 and n
    using small_bits [of w 5 "n + 5"] that by (auto simp: word_less_nat_alt)
  have tiny: "\<not> bit w (n + 3)" if "w < 8" for w :: u8 and n
    using small_bits [of w 3 "n + 3"] that by (auto simp: word_less_nat_alt)
  have bus: "bit (pci_address b d f off) (n + 16) \<longleftrightarrow> bit b n" if "n < 8" "d < 32" for b d f off n
    using that small [of d n] len [of f n] len [of "off AND 0xFC" "n + 8"] by (simp add: bit_pci_address ac_simps)
  have dev: "bit (pci_address b d f off) (n + 11) \<longleftrightarrow> bit d n" if "n < 5" "f < 8" for b d f off n
    using that tiny [of f n] len [of "off AND 0xFC" "n + 3"] by (simp add: bit_pci_address ac_simps)
  have func: "bit (pci_address b d f off) (n + 8) \<longleftrightarrow> bit f n" if "n < 3" for b d f off n
    using that len [of "off AND 0xFC" n] by (simp add: bit_pci_address)
  have reg: "bit (pci_address b d f off) n \<longleftrightarrow> bit (off AND 0xFC) n" if "n < 8" for b d f off n
    using that by (simp add: bit_pci_address)
  have eq: "bit (pci_address b d f off) n = bit (pci_address b' d' f' off') n" for n using assms(5) by simp
  show "b = b'"
  proof (rule bit_word_eqI)
    fix n assume "n < LENGTH(8)"
    then show "bit b n = bit b' n" using eq [of "n + 16"] assms(1,3) by (simp add: bus)
  qed
  show "off AND 0xFC = off' AND 0xFC"
  proof (rule bit_word_eqI)
    fix n assume "n < LENGTH(8)"
    then show "bit (off AND 0xFC) n = bit (off' AND 0xFC) n" using eq [of n] reg [of n b d f off] reg [of n b' d' f' off'] by simp
  qed
  show "d = d'"
  proof (rule bit_word_eqI)
    fix n show "bit d n = bit d' n"
      using eq [of "n + 11"] assms(2,4) small [OF assms(1), of "n - 5"] small [OF assms(3), of "n - 5"]
      by (cases "n < 5") (simp_all add: dev)
  qed
  show "f = f'"
  proof (rule bit_word_eqI)
    fix n show "bit f n = bit f' n"
      using eq [of "n + 8"] tiny [OF assms(2), of "n - 3"] tiny [OF assms(4), of "n - 3"]
      by (cases "n < 3") (simp_all add: func)
  qed
qed

lemma bit_low_byte: "bit (0xFF :: u32) n \<longleftrightarrow> n < 8"
proof -
  have eq: "(0xFF :: u32) = mask 8" by (simp add: mask_eq_exp_minus_1)
  show ?thesis unfolding eq bit_mask_iff by auto
qed

lemma byte_of_masked:
  fixes v :: u8 and x M :: u32
  assumes "k < 4" and "j < 4" and M: "\<And>n. bit M n \<longleftrightarrow> n < 8"
  shows "(ucast (drop_bit (j * 8) (merge_bits (k * 8) M (ucast v) x) AND M) :: u8) =
    (if j = k then v else ucast (drop_bit (j * 8) x AND M))"
proof (rule bit_word_eqI)
  fix n assume "n < LENGTH(8)"
  then have n: "n < 8" by simp
  have in_byte: "k * 8 \<le> j * 8 + n \<and> j * 8 + n - k * 8 < 8 \<longleftrightarrow> j = k" using assms(1,2) n by linarith
  have out: "bit v (j * 8 + n - k * 8) \<Longrightarrow> j * 8 + n - k * 8 < 8" using bit_imp_le_length [of v] by fastforce
  have p: "bit (push_bit (k * 8) (ucast v) :: u32) (j * 8 + n) \<longleftrightarrow> j = k \<and> bit v n"
    using bit_pushed [of "k * 8" v "j * 8 + n"] assms(1,2) in_byte out by auto
  have m: "bit (push_bit (k * 8) M) (j * 8 + n) \<longleftrightarrow> j = k"
    unfolding bit_push_bit_iff M using in_byte assms(1,2) n by auto
  have r: "j * 8 + n < 32" using assms(2) n by linarith
  show "bit (ucast (drop_bit (j * 8) (merge_bits (k * 8) M (ucast v) x) AND M) :: u8) n =
    bit (if j = k then v else ucast (drop_bit (j * 8) x AND M)) n"
    using n r by (auto simp: merge_bits_def bit_ucast_iff bit_and_iff bit_or_iff bit_not_iff bit_drop_bit_eq M p m)
qed

lemmas byte_of_merge = byte_of_masked [OF _ _ bit_low_byte]

lemma offset_parts:
  assumes "off AND 0xFC = off' AND 0xFC" and "unat (off AND 3) = unat (off' AND 3)" shows "off = (off' :: u8)"
proof -
  have full: "(0xFF :: u8) = - 1" by simp
  have "w = (w AND 0xFC) OR (w AND 3)" for w :: u8 by (simp add: bit.conj_disj_distrib [symmetric] full)
  moreover have "off AND 3 = off' AND 3" using assms(2) by (simp add: word_unat_eq_iff)
  ultimately show ?thesis using assms(1) by metis
qed

text \<open>
  C29: Writing a byte of a register that keeps what is written to it changes that byte, and reads of any other byte in
  the configuration space give the same as before.
\<close>
theorem pci_config_write_byte_reads:
  assumes sp: "config_space io sel cfg wr" and "\<And>old x. wr (pci_address b d f off) old x = x"
    and "d < 32" and "f < 8" and "d' < 32" and "f' < 8"
  shows "fst (pci_config_read_byte io b' d' f' off' (pci_config_write_byte io b d f off v h)) =
    (if (b', d', f', off') = (b, d, f, off) then v else fst (pci_config_read_byte io b' d' f' off' h))"
proof (cases "pci_address b' d' f' off' = pci_address b d f off")
  case True
  note same = pci_address_eq [OF assms(5,6,3,4) True]
  have "unat (w AND 3) < 4" for w :: u8 using word_and_le1 [of w 3] by (simp add: word_le_nat_alt)
  then show ?thesis using True same offset_parts [OF same(4)] by (auto simp: config_reads [OF sp] config_writes [OF sp] cfg_byte_def assms(2) byte_of_merge)
next
  case False
  then show ?thesis by (auto simp: config_reads [OF sp] config_writes [OF sp] cfg_byte_def)
qed

text \<open>
  Bits 8 and 11 to 15 of the status register are cleared by writing 1 to them, the others cannot be written.
\<close>

definition command_status :: "u32 \<Rightarrow> u32 \<Rightarrow> u32" where
  "command_status old v = (v AND 0xFFFF) OR (old AND NOT (v AND 0xF9000000) AND 0xFFFF0000)"

lemma bit_word_mask: "bit (0xFFFF :: u32) n \<longleftrightarrow> n < 16"
proof -
  have eq: "(0xFFFF :: u32) = mask 16" by (simp add: mask_eq_exp_minus_1)
  show ?thesis unfolding eq bit_mask_iff by auto
qed

lemma bit_high_mask: "bit (0xFFFF0000 :: u32) n \<longleftrightarrow> 16 \<le> n \<and> n < 32"
proof -
  have eq: "(0xFFFF0000 :: u32) = NOT (mask 16)" by (simp add: mask_eq_exp_minus_1)
  show ?thesis unfolding eq bit_not_iff bit_mask_iff by auto
qed

lemma bit_status_mask: "bit (0xF9000000 :: u32) n \<longleftrightarrow> 16 \<le> n \<and> bit (0xF900 :: u16) (n - 16)"
proof -
  have eq: "(0xF9000000 :: u32) = push_bit 16 (ucast (0xF900 :: u16))" by (simp add: push_bit_eq_mult)
  show ?thesis unfolding eq bit_push_bit_iff bit_ucast_iff using bit_imp_le_length [of "0xF900 :: u16" "n - 16"] by auto
qed

lemma half_write:
  fixes x M H S :: u32 and w S' :: u16
  assumes M: "\<And>n. bit M n \<longleftrightarrow> n < 16" and H: "\<And>n. bit H n \<longleftrightarrow> 16 \<le> n \<and> n < 32"
    and S: "\<And>n. bit S n \<longleftrightarrow> 16 \<le> n \<and> bit S' (n - 16)"
    and "y = merge_bits 0 M (ucast w) x" and "z = (y AND M) OR (x AND NOT (y AND S) AND H)"
  shows "(ucast (z AND M) :: u16) = w" and "(ucast (drop_bit 16 z AND M) :: u16) = ucast (drop_bit 16 x AND M) AND NOT S'"
proof -
  note bits = assms(4,5) merge_bits_def bit_ucast_iff bit_and_iff bit_or_iff bit_not_iff bit_drop_bit_eq M H S
  have w: "bit w n \<Longrightarrow> n < 16" for n using bit_imp_le_length [of w n] by simp
  show "(ucast (z AND M) :: u16) = w" by (rule bit_word_eqI) (auto simp: bits)
  show "(ucast (drop_bit 16 z AND M) :: u16) = ucast (drop_bit 16 x AND M) AND NOT S'"
    by (rule bit_word_eqI) (auto simp: bits dest: w)
qed

lemmas command_status_write = half_write [OF bit_word_mask bit_high_mask bit_status_mask refl refl, folded command_status_def]

text \<open>
  Enabling bus mastering also writes the status register, which lies in the same double word, with its own
  value: the errors that the device has recorded there are lost.
\<close>
theorem pci_bus_mastering_clears_status:
  assumes sp: "config_space io sel cfg wr" and "wr (pci_address b d f 4) = command_status"
    and dev: "p \<noteq> 0" "pci_store s p = Some x" "pd_bus x = b" "pd_device x = d" "pd_function x = f"
  shows "\<exists>s'. pci_enable_bus_mastering io p s = Some s' \<and>
    cfg_word (cfg (pci_hw s')) b d f PCI_REG_COMMAND = cfg_word (cfg (pci_hw s)) b d f PCI_REG_COMMAND OR 4 \<and>
    cfg_word (cfg (pci_hw s')) b d f PCI_REG_STATUS = cfg_word (cfg (pci_hw s)) b d f PCI_REG_STATUS AND NOT 0xF900"
proof -
  have a: "pci_address b d f PCI_REG_COMMAND = pci_address b d f 4" "pci_address b d f PCI_REG_STATUS = pci_address b d f 4"
    by (simp_all add: pci_address_def PCI_REG_COMMAND_def PCI_REG_STATUS_def)
  have o: "unat (PCI_REG_COMMAND AND 2) = 0" "unat (PCI_REG_STATUS AND 2) = 2"
    by (simp_all add: PCI_REG_COMMAND_def PCI_REG_STATUS_def)
  have cw: "cfg_word c b d f PCI_REG_COMMAND = ucast (c (pci_address b d f 4) AND 0xFFFF)"
    and cs: "cfg_word c b d f PCI_REG_STATUS = ucast (drop_bit 16 (c (pci_address b d f 4)) AND 0xFFFF)" for c
    by (simp_all add: cfg_word_def a o)
  define w where "w = cfg_word (cfg (pci_hw s)) b d f PCI_REG_COMMAND OR 4"
  define h where "h = pci_config_write_word io b d f PCI_REG_COMMAND w (snd (pci_config_read_word io b d f PCI_REG_COMMAND (pci_hw s)))"
  let ?x = "cfg (pci_hw s) (pci_address b d f 4)"
  have "pci_enable_bus_mastering io p s = Some (s\<lparr>pci_hw := h\<rparr>)"
    using dev by (simp add: pci_enable_bus_mastering_def case_prod_unfold Let_def config_reads [OF sp] h_def w_def)
  moreover have h: "cfg h (pci_address b d f 4) = command_status ?x (merge_bits 0 0xFFFF (ucast w) ?x)"
    by (simp add: h_def config_reads [OF sp] config_writes [OF sp] a o assms(2))
  have "cfg_word (cfg h) b d f PCI_REG_COMMAND = w"
    unfolding cw h by (rule command_status_write)
  moreover have "cfg_word (cfg h) b d f PCI_REG_STATUS = cfg_word (cfg (pci_hw s)) b d f PCI_REG_STATUS AND NOT 0xF900"
    unfolding cs h by (rule command_status_write)
  ultimately show ?thesis by (intro exI [of _ "s\<lparr>pci_hw := h\<rparr>"]) (simp add: w_def)
qed

section \<open>A concrete bus\<close>

text \<open>
  The registers as a function, written in full. Bus 0 has a host bridge, a disk controller as device 1 and an
  absent device everywhere else.
\<close>

definition demo_ports :: "(u32 \<times> (u32 \<Rightarrow> u32)) ports" where
  "demo_ports = \<lparr>p_out = \<lambda>_ _ h. h, p_in = \<lambda>_ h. (0, h), p_outw = \<lambda>_ _ h. h, p_inw = \<lambda>_ h. (0, h),
     p_outl = \<lambda>port v h. if port = 0xCF8 then (v, snd h) else if port = 0xCFC then (fst h, (snd h)(fst h := v)) else h,
     p_inl = \<lambda>port h. (snd h (fst h), h)\<rparr>"

lemma demo_config: "config_space demo_ports fst snd (\<lambda>_ _ v. v)"
  by (simp add: config_space_def demo_ports_def PCI_CONFIG_ADDRESS_def PCI_CONFIG_DATA_def)

definition demo_registers :: "u32 \<Rightarrow> u32" where
  "demo_registers a = (if a AND 0xFFFFFF00 = 0x80000000 \<or> a AND 0xFFFFFF00 = 0x80000800
     then if a AND 0xFF = 0 then 0x12378086 else 0 else 0xFFFFFFFF)"

lemma demo_functions: "pci_functions demo_registers = [(0, 0, 0), (0, 1, 0)]"
  by code_simp

definition pci_demo :: "(u32 \<times> (u32 \<Rightarrow> u32)) pci_state" where
  "pci_demo = heap_state.extend heap_demo (pci_state.fields (\<lambda>_. None) 0 (0, demo_registers))"

lemma pci_demo_holds: "heap_holds 2 pci_demo"
proof -
  have "heap_blocks pci_demo [(244, False)]" using heap_demo_blocks by (simp add: heap_blocks_def pci_demo_def heap_state.defs)
  then show ?thesis unfolding heap_holds_def by fastforce
qed

theorem pci_init_finds_witness:
  "\<exists>s' p q. pci_init demo_ports pci_demo = Some s' \<and> chain (pci_next s') (pci_device_list s') [p, q] \<and>
    shows_device s' demo_registers p (0, 1, 0) \<and> shows_device s' demo_registers q (0, 0, 0)"
proof -
  have "demo_registers = snd (pci_hw pci_demo)" by (simp add: pci_demo_def heap_state.defs pci_state.defs)
  from pci_init_finds [OF demo_config this] obtain s' ps where "pci_init demo_ports pci_demo = Some s'"
    "chain (pci_next s') (pci_device_list s') ps" "list_all2 (shows_device s' demo_registers) ps [(0, 1, 0), (0, 0, 0)]"
    using pci_demo_holds unfolding demo_functions by (auto simp: numeral_2_eq_2)
  then show ?thesis unfolding list_all2_Cons2 list_all2_Nil2 by blast
qed

theorem pci_config_write_byte_reads_witness:
  "fst (pci_config_read_byte demo_ports 0 1 0 4 (pci_config_write_byte demo_ports 0 1 0 5 7 (0, demo_registers))) = 0 \<and>
   fst (pci_config_read_byte demo_ports 0 1 0 5 (pci_config_write_byte demo_ports 0 1 0 5 7 (0, demo_registers))) = 7"
proof -
  have "fst (pci_config_read_byte demo_ports 0 1 0 4 (0, demo_registers)) = 0" by code_simp
  then show ?thesis
    using pci_config_write_byte_reads [OF demo_config, where b = 0 and d = 1 and f = 0 and off = 5 and d' = 1 and f' = 0
        and b' = 0 and v = 7 and h = "(0, demo_registers)"] by simp
qed

text \<open>The same bus with a command and status register, in which the disk controller has recorded an error.\<close>

definition status_ports :: "(u32 \<times> (u32 \<Rightarrow> u32)) ports" where
  "status_ports = demo_ports\<lparr>p_outl := \<lambda>port v h. if port = 0xCF8 then (v, snd h) else if port = 0xCFC
     then (fst h, (snd h)(fst h := if fst h = 0x80000804 then command_status (snd h (fst h)) v else v)) else h\<rparr>"

theorem pci_bus_mastering_clears_status_witness:
  "\<exists>s'. pci_enable_bus_mastering status_ports 0x3000 (pci_demo\<lparr>pci_store := [0x3000 \<mapsto> describe demo_registers (0, 1, 0)],
      pci_hw := (0, demo_registers(0x80000804 := 0x40000001))\<rparr>) = Some s' \<and>
    cfg_word (snd (pci_hw s')) 0 1 0 PCI_REG_COMMAND = 5 \<and> cfg_word (snd (pci_hw s')) 0 1 0 PCI_REG_STATUS = 0"
proof -
  have sp: "config_space status_ports fst snd (\<lambda>a old v. if a = 0x80000804 then command_status old v else v)"
    by (simp add: config_space_def status_ports_def demo_ports_def PCI_CONFIG_ADDRESS_def PCI_CONFIG_DATA_def)
  have a: "pci_address 0 1 0 4 = 0x80000804" by code_simp
  have "cfg_word (demo_registers(0x80000804 := 0x40000001)) 0 1 0 PCI_REG_COMMAND OR 4 = 5"
    "cfg_word (demo_registers(0x80000804 := 0x40000001)) 0 1 0 PCI_REG_STATUS AND NOT 0xF900 = 0" by code_simp+
  then show ?thesis
    using pci_bus_mastering_clears_status [OF sp, of 0 1 0 "0x3000" "pci_demo\<lparr>pci_store := [0x3000 \<mapsto>
      describe demo_registers (0, 1, 0)], pci_hw := (0, demo_registers(0x80000804 := 0x40000001))\<rparr>"] a
    by (simp add: describe_def)
qed

end
