(* ===== verification/Diskfs_Files.thy ===== *)
theory Diskfs_Files
  imports Diskfs
begin

text \<open>
  Files on the disk: what \<open>diskfs_write\<close> stores, \<open>diskfs_read\<close> returns, for every offset and length up to
  the largest file. The proof follows the two loops with the byte of a file at a position as the
  abstraction. Reserving block number 0 is the condition the code needs and does not establish.
\<close>

section \<open>The bytes of a file\<close>

definition file_byte :: "'a diskfs_state_scheme \<Rightarrow> inode \<Rightarrow> nat \<Rightarrow> u8" where
  "file_byte s n p = sector s (DISKFS_DATA_START + i_block n (of_nat (p div 512))) ! (p mod 512)"

text \<open>The block numbers of an inode are marked as used and different from each other; block 0 is reserved.\<close>

definition blocks_ok :: "'a diskfs_state_scheme \<Rightarrow> inode \<Rightarrow> bool" where
  "blocks_ok s n \<longleftrightarrow> length n = sizeof_inode \<and> 0 < sb_total_blocks (superblock s) \<and> dbitmap_test (block_bitmap s) 0 \<and>
     (\<forall>i<12. i_block n (of_nat i) \<noteq> 0 \<longrightarrow>
        i_block n (of_nat i) < sb_total_blocks (superblock s) \<and> dbitmap_test (block_bitmap s) (i_block n (of_nat i)) \<and>
        (\<forall>j<12. i_block n (of_nat j) = i_block n (of_nat i) \<longrightarrow> j = i))"

lemma i_block_set_i_block:
  assumes "length n = sizeof_inode" and "i < 12" and "j < 12"
  shows "i_block (set_i_block (of_nat i) v n) (of_nat j) = (if j = i then v else i_block n (of_nat j))"
proof -
  have u: "unat (of_nat i :: u32) = i" "unat (of_nat j :: u32) = j"
    using assms(2,3) by (simp_all add: unat_of_nat_small)
  have len: "8 + 4 * i + 4 \<le> length n" "8 + 4 * j + 4 \<le> length n" using assms by (simp_all add: sizeof_inode_def)
  have "get32 (8 + 4 * j) (put32 (8 + 4 * i) v n) = get32 (8 + 4 * j) n" if "j \<noteq> i"
    by (rule get32_put32_other [OF len(2,1)]) (use that in linarith)
  then show ?thesis using len(1) by (simp add: i_block_def set_i_block_def u)
qed

lemma i_size_set_i_block:
  assumes "length n = sizeof_inode" and "i < 12"
  shows "i_size (set_i_block (of_nat i) v n) = i_size n" and "length (set_i_block (of_nat i) v n) = sizeof_inode"
  using assms by (simp_all add: i_size_def set_i_block_def unat_of_nat_small get32_put32_other sizeof_inode_def)

section \<open>Reading\<close>

lemma block_arith:
  assumes "unat offset + unat k < 6144"
  shows "(offset + k) div DISKFS_BLOCK_SIZE = of_nat ((unat offset + unat k) div 512)"
    and "unat ((offset + k) mod DISKFS_BLOCK_SIZE) = (unat offset + unat k) mod 512"
    and "\<not> DISKFS_DIRECT_BLOCKS \<le> (of_nat ((unat offset + unat k) div 512) :: u32)"
    and "(unat offset + unat k) div 512 < 12"
proof -
  have u: "unat (offset + k) = unat offset + unat k" using assms by (simp add: unat_add_no_overflow)
  show d: "(unat offset + unat k) div 512 < 12" using assms by (simp add: less_mult_imp_div_less)
  show "unat ((offset + k) mod DISKFS_BLOCK_SIZE) = (unat offset + unat k) mod 512"
    by (simp add: DISKFS_BLOCK_SIZE_def unat_mod_distrib u)
  show "(offset + k) div DISKFS_BLOCK_SIZE = of_nat ((unat offset + unat k) div 512)"
    by (rule unat_word_inj) (use d in \<open>simp add: DISKFS_BLOCK_SIZE_def unat_div_distrib u unat_of_nat_small\<close>)
  show "\<not> DISKFS_DIRECT_BLOCKS \<le> (of_nat ((unat offset + unat k) div 512) :: u32)"
    using d by (simp add: DISKFS_DIRECT_BLOCKS_def word_le_nat_alt unat_of_nat_small)
qed

lemma unat_chunk:
  assumes "unat offset + unat sz \<le> 6144" and "k < sz"
  shows "unat (chunk offset sz k) = min (unat sz - unat k) (512 - (unat offset + unat k) mod 512)"
    and "unat (k + chunk offset sz k) = unat k + unat (chunk offset sz k)"
proof -
  have k: "unat k < unat sz" using assms(2) by (simp add: word_less_nat_alt)
  have m: "unat ((offset + k) mod DISKFS_BLOCK_SIZE) = (unat offset + unat k) mod 512"
    by (rule block_arith) (use assms k in simp)
  have sk: "unat (sz - k) = unat sz - unat k" using k by (simp add: unat_sub_le word_le_nat_alt)
  have mb: "(offset + k) mod DISKFS_BLOCK_SIZE \<le> DISKFS_BLOCK_SIZE"
    using m by (simp add: word_le_nat_alt DISKFS_BLOCK_SIZE_def less_imp_le)
  have d: "unat (DISKFS_BLOCK_SIZE - (offset + k) mod DISKFS_BLOCK_SIZE) = 512 - (unat offset + unat k) mod 512"
    using unat_sub_le [OF mb] m by (simp add: DISKFS_BLOCK_SIZE_def)
  show c: "unat (chunk offset sz k) = min (unat sz - unat k) (512 - (unat offset + unat k) mod 512)"
    by (simp add: chunk_def Let_def word_less_nat_alt sk d min_def)
  show "unat (k + chunk offset sz k) = unat k + unat (chunk offset sz k)"
    by (rule unat_add_no_overflow) (use c k assms in simp)
qed

lemma same_block:
  fixes p j :: nat
  assumes "p mod 512 + j < 512"
  shows "(p + j) div 512 = p div 512" and "(p + j) mod 512 = p mod 512 + j"
proof -
  have e: "p + j = (p mod 512 + j) + 512 * (p div 512)" by simp
  show "(p + j) div 512 = p div 512" by (subst e, subst div_mult_self2) (use assms in simp_all)
  show "(p + j) mod 512 = p mod 512 + j" by (subst e, subst mod_mult_self2) (use assms in simp)
qed

lemma file_bytes_chunk:
  assumes "drive_ok s" and "q \<le> 512 - p mod 512"
  shows "take q (drop (p mod 512) (sector s (DISKFS_DATA_START + i_block n (of_nat (p div 512))))) =
    map (\<lambda>j. file_byte s n (p + j)) [0..<q]"
proof (rule nth_equalityI)
  have pm: "p mod 512 < 512" by simp
  show "length (take q (drop (p mod 512) (sector s (DISKFS_DATA_START + i_block n (of_nat (p div 512)))))) =
      length (map (\<lambda>j. file_byte s n (p + j)) [0..<q])"
    using assms by (simp add: drive_ok_len)
  fix j
  assume "j < length (take q (drop (p mod 512) (sector s (DISKFS_DATA_START + i_block n (of_nat (p div 512))))))"
  then have j: "j < q" by simp
  then have "p mod 512 + j < 512" using assms(2) pm by linarith
  then have "(p + j) div 512 = p div 512" "(p + j) mod 512 = p mod 512 + j" by (rule same_block)+
  then show "take q (drop (p mod 512) (sector s (DISKFS_DATA_START + i_block n (of_nat (p div 512))))) ! j =
      map (\<lambda>j. file_byte s n (p + j)) [0..<q] ! j"
    using j assms by (simp add: file_byte_def drive_ok_len)
qed

definition allocated :: "inode \<Rightarrow> nat \<Rightarrow> bool" where
  "allocated n p \<longleftrightarrow> i_block n (of_nat (p div 512)) \<noteq> 0"

lemma read_loop_ok:
  assumes "drive_ok s" and "unat offset + unat sz \<le> 6144" and "k \<le> sz"
    and "\<And>j. unat k \<le> j \<Longrightarrow> j < unat sz \<Longrightarrow> allocated n (unat offset + j)"
  shows "read_loop s n offset sz k acc = Some (acc @ map (\<lambda>j. file_byte s n (unat offset + j)) [unat k..<unat sz])"
  using assms(3,4)
proof (induction "unat sz - unat k" arbitrary: k acc rule: less_induct)
  case less
  show ?case
  proof (cases "k < sz")
    case False
    then have "k = sz" using less.prems(1) by simp
    then show ?thesis by (subst read_loop.simps) simp
  next
    case True
    let ?p = "unat offset + unat k" and ?q = "unat (chunk offset sz k)"
    let ?b = "\<lambda>j. file_byte s n (unat offset + j)"
    have k: "unat k < unat sz" using True by (simp add: word_less_nat_alt)
    have p: "?p < 6144" using k assms(2) by simp
    note ar = block_arith [OF p] and ch = unat_chunk [OF assms(2) True]
    have al: "i_block n (of_nat (?p div 512)) \<noteq> 0" using less.prems(2) [of "unat k"] k by (simp add: allocated_def)
    have q: "?q \<le> 512 - ?p mod 512" "?q \<le> unat sz - unat k" "0 < ?q" using ch(1) k by simp_all
    have le: "k + chunk offset sz k \<le> sz" using ch(2) q(2) k by (simp add: word_le_nat_alt)
    have seg: "map (\<lambda>j. file_byte s n (?p + j)) [0..<?q] = map ?b [unat k..<unat k + ?q]"
      by (rule nth_equalityI) (simp_all add: add.assoc)
    have "read_loop s n offset sz k acc = read_loop s n offset sz (k + chunk offset sz k) (acc @ map ?b [unat k..<unat k + ?q])"
      by (subst read_loop.simps)
        (simp add: True ar drive_ok_read [OF assms(1)] al file_bytes_chunk [OF assms(1) q(1)] seg Let_def)
    also have "\<dots> = Some ((acc @ map ?b [unat k..<unat k + ?q]) @ map ?b [unat k + ?q..<unat sz])"
      using less.hyps [of "k + chunk offset sz k"] le less.prems(2) ch(2) q k by simp
    finally have step: "read_loop s n offset sz k acc = Some (acc @ map ?b ([unat k..<unat k + ?q] @ [unat k + ?q..<unat sz]))"
      by simp
    have "[unat k..<unat sz] = [unat k..<unat k + ?q] @ [unat k + ?q..<unat sz]"
      using q(2) k upt_add_eq_append [of "unat k" "unat k + ?q" "unat sz - (unat k + ?q)"] by simp
    then show ?thesis using step by simp
  qed
qed

section \<open>Writing\<close>

text \<open>
  What a piece of a write does to the state and the inode: blocks are only added, and they were free;
  sectors other than the data blocks of the inode keep their contents.
\<close>

definition grows :: "'a diskfs_state_scheme \<Rightarrow> inode \<Rightarrow> 'a diskfs_state_scheme \<Rightarrow> inode \<Rightarrow> bool" where
  "grows s n s' n' \<longleftrightarrow>
     mounted_drive s' = mounted_drive s \<and> cache_valid s' = cache_valid s \<and> cache_num s' = cache_num s \<and>
     inode_cache s' = inode_cache s \<and> cache_idx s' = cache_idx s \<and> sb_total_blocks (superblock s') = sb_total_blocks (superblock s) \<and>
     i_size n' = i_size n \<and>
     (\<forall>i<12. i_block n (of_nat i) \<noteq> 0 \<longrightarrow> i_block n' (of_nat i) = i_block n (of_nat i)) \<and>
     (\<forall>i<12. i_block n' (of_nat i) \<noteq> i_block n (of_nat i) \<longrightarrow> \<not> dbitmap_test (block_bitmap s) (i_block n' (of_nat i))) \<and>
     (\<forall>b < sb_total_blocks (superblock s). dbitmap_test (block_bitmap s) b \<longrightarrow> dbitmap_test (block_bitmap s') b) \<and>
     (\<forall>l. (\<forall>i<12. i_block n' (of_nat i) \<noteq> 0 \<longrightarrow> l \<noteq> DISKFS_DATA_START + i_block n' (of_nat i)) \<longrightarrow> sector s' l = sector s l)"

lemma grows_refl [simp]: "grows s n s n"
  by (simp add: grows_def)

lemma grows_sector:
  assumes "grows s n s' n'" and "\<And>i. i < 12 \<Longrightarrow> l \<noteq> DISKFS_DATA_START + i_block n' (of_nat i)"
  shows "sector s' l = sector s l"
  using assms by (simp add: grows_def)

lemma grows_trans:
  assumes a: "grows s n s1 n1" and b: "grows s1 n1 s2 n2" and ok: "blocks_ok s2 n2"
  shows "grows s n s2 n2"
proof -
  have new: "\<not> dbitmap_test (block_bitmap s) (i_block n2 (of_nat i))"
    if i: "i < 12" and ne: "i_block n2 (of_nat i) \<noteq> i_block n (of_nat i)" for i
  proof (cases "i_block n2 (of_nat i) = i_block n1 (of_nat i)")
    case True
    then show ?thesis using a i ne by (simp add: grows_def)
  next
    case False
    then have "\<not> dbitmap_test (block_bitmap s1) (i_block n2 (of_nat i))" using b i by (simp add: grows_def)
    moreover have "i_block n2 (of_nat i) < sb_total_blocks (superblock s) \<or> i_block n2 (of_nat i) = 0"
      using ok i a b by (auto simp: blocks_ok_def grows_def)
    moreover have "0 < sb_total_blocks (superblock s)" using ok a b by (simp add: blocks_ok_def grows_def)
    ultimately show ?thesis using a by (auto simp: grows_def)
  qed
  have keep: "sector s2 l = sector s l"
    if l: "\<forall>i<12. i_block n2 (of_nat i) \<noteq> 0 \<longrightarrow> l \<noteq> DISKFS_DATA_START + i_block n2 (of_nat i)" for l
  proof -
    have "\<forall>i<12. i_block n1 (of_nat i) \<noteq> 0 \<longrightarrow> l \<noteq> DISKFS_DATA_START + i_block n1 (of_nat i)"
    proof (intro allI impI)
      fix i :: nat
      assume i: "i < 12" "i_block n1 (of_nat i) \<noteq> 0"
      then have "i_block n2 (of_nat i) = i_block n1 (of_nat i)" using b by (simp add: grows_def)
      then show "l \<noteq> DISKFS_DATA_START + i_block n1 (of_nat i)" using l i by force
    qed
    then show ?thesis using l a b by (simp add: grows_def)
  qed
  show ?thesis using a b new keep by (simp add: grows_def)
qed

lemma alloc_step:
  assumes "drive_ok s" and "blocks_ok s n" and i: "i < 12" and z: "i_block n (of_nat i) = 0"
  shows "(\<exists>b s'. alloc_block s = Some (int b, s') \<and> drive_ok s' \<and> blocks_ok s' (set_i_block (of_nat i) (of_nat b) n) \<and>
      (of_nat b :: u32) \<noteq> 0 \<and> sector s' = sector s \<and> grows s n s' (set_i_block (of_nat i) (of_nat b) n)) \<or>
    alloc_block s = Some (-1, s) \<and> (\<forall>k < unat (sb_total_blocks (superblock s)). dbitmap_test (block_bitmap s) (of_nat k))"
  using alloc_block_effect [OF assms(1)]
proof (elim disjE exE conjE, goal_cases)
  case (1 k)
  let ?b = "of_nat k :: u32" and ?n = "set_i_block (of_nat i) (of_nat k) n"
  let ?s = "s\<lparr>block_bitmap := dbitmap_set (of_nat k) (block_bitmap s),
    superblock := put32 20 (sb_free_blocks (superblock s) - 1) (superblock s)\<rparr>"
  have len: "length (superblock s) = 512" "length (block_bitmap s) = 8192" "length n = sizeof_inode"
    using assms(1,2) by (simp_all add: drive_ok_def blocks_ok_def)
  have lt: "unat (sb_total_blocks (superblock s)) < 2 ^ 32"
    using unsigned_less [of "sb_total_blocks (superblock s)", where 'a = nat] by simp
  then have ub: "unat ?b = k" using 1(1) by (simp add: unat_of_nat_small)
  have b0: "?b \<noteq> 0" using 1(3) assms(2) by (auto simp: blocks_ok_def)
  have tb: "sb_total_blocks (superblock ?s) = sb_total_blocks (superblock s)"
    using len by (simp add: sb_total_blocks_def get32_put32_other)
  have v: "dbitmap_valid (block_bitmap s) b" if "b < sb_total_blocks (superblock s)" for b
    using that assms(1) dbitmap_valid_of_nat [of "unat b" "block_bitmap s"]
    by (simp add: drive_ok_def word_less_nat_alt)
  have vb: "dbitmap_valid (block_bitmap s) ?b" by (rule v) (use 1(1) ub in \<open>simp add: word_less_nat_alt\<close>)
  have test: "dbitmap_test (block_bitmap ?s) b \<longleftrightarrow> b = ?b \<or> dbitmap_test (block_bitmap s) b"
    if "b < sb_total_blocks (superblock s)" for b
    using dbits.test_set [OF vb v [OF that]] by simp
  have blk: "i_block ?n (of_nat j) = (if j = i then ?b else i_block n (of_nat j))" if "j < 12" for j
    by (rule i_block_set_i_block [OF len(3) i that])
  have dk: "drive_ok ?s" using assms(1) tb len by (simp add: drive_ok_def dbitmap_set_def)
  have bt: "?b < sb_total_blocks (superblock s)" using 1(1) ub by (simp add: word_less_nat_alt)
  have old: "i_block n (of_nat j) \<noteq> ?b" if "j < 12" for j
    using assms(2) that 1(3) b0 by (auto simp: blocks_ok_def)
  have bo: "blocks_ok ?s ?n"
    unfolding blocks_ok_def tb
  proof (intro conjI allI impI)
    show "length ?n = sizeof_inode" by (rule i_size_set_i_block(2) [OF len(3) i])
    show "0 < sb_total_blocks (superblock s)" using assms(2) by (simp add: blocks_ok_def)
    then show "dbitmap_test (block_bitmap ?s) 0" using assms(2) test [of 0] by (simp add: blocks_ok_def)
    fix j
    assume j: "j < 12" "i_block ?n (of_nat j) \<noteq> 0"
    show lt: "i_block ?n (of_nat j) < sb_total_blocks (superblock s)"
      using j blk bt assms(2) by (simp add: blocks_ok_def split: if_splits)
    show "dbitmap_test (block_bitmap ?s) (i_block ?n (of_nat j))"
      using test [OF lt] j blk assms(2) by (simp add: blocks_ok_def split: if_splits)
    fix j'
    assume "j' < 12" "i_block ?n (of_nat j') = i_block ?n (of_nat j)"
    then show "j' = j" using j blk old [OF j(1)] old [of j'] assms(2) by (simp add: blocks_ok_def split: if_splits)
  qed
  have sec: "sector ?s = sector s" by (rule sector_cong) simp_all
  have gr: "grows s n ?s ?n"
    using tb test blk sec z 1(3) i_size_set_i_block(1) [OF len(3) i] by (auto simp: grows_def)
  from 1(2) dk bo b0 sec gr show ?case by blast
next
  case 2
  then show ?case by blast
qed

lemma sector_step:
  assumes dk: "drive_ok s" and bk: "blocks_ok s n" and p: "p < 6144" and al: "allocated n p"
    and len: "p mod 512 + length piece \<le> 512" "length buf = 512"
    and old: "\<forall>x<512. x < p mod 512 \<or> p mod 512 + length piece \<le> x \<longrightarrow>
      buf ! x = sector s (DISKFS_DATA_START + i_block n (of_nat (p div 512))) ! x"
    and s': "s' = put_sector (DISKFS_DATA_START + i_block n (of_nat (p div 512))) (splice (p mod 512) piece buf) s"
  shows "drive_ok s'" and "blocks_ok s' n" and "grows s n s' n"
    and "\<And>p'. p' < 6144 \<Longrightarrow> allocated n p' \<Longrightarrow>
      file_byte s' n p' = (if p \<le> p' \<and> p' < p + length piece then piece ! (p' - p) else file_byte s n p')"
proof -
  let ?i = "p div 512" and ?o = "p mod 512"
  have i: "?i < 12" using p by (simp add: less_mult_imp_div_less)
  have l: "length (splice ?o piece buf) = 512" using len by simp
  show "drive_ok s'" unfolding s' by (rule drive_ok_write(2) [OF dk l])
  show "blocks_ok s' n" using bk by (simp add: s' blocks_ok_def)
  show "grows s n s' n" using al i by (auto simp: s' grows_def allocated_def)
  fix p'
  assume p': "p' < 6144" "allocated n p'"
  then have i': "p' div 512 < 12" by (simp add: less_mult_imp_div_less)
  show "file_byte s' n p' = (if p \<le> p' \<and> p' < p + length piece then piece ! (p' - p) else file_byte s n p')"
  proof (cases "p' div 512 = ?i")
    case True
    have e: "p = 512 * ?i + ?o" "p' = 512 * ?i + p' mod 512" using True by (metis mult_div_mod_eq)+
    then have "(p \<le> p' \<and> p' < p + length piece) = (?o \<le> p' mod 512 \<and> p' mod 512 < ?o + length piece)" "p' - p = p' mod 512 - ?o"
      by linarith+
    then show ?thesis using len True old [rule_format, of "p' mod 512"] by (auto simp: file_byte_def s' nth_splice)
  next
    case False
    then have "i_block n (of_nat (p' div 512)) \<noteq> i_block n (of_nat ?i)"
      using bk i i' al by (auto simp: blocks_ok_def allocated_def)
    moreover have "\<not> (p \<le> p' \<and> p' < p + length piece)"
    proof
      assume "p \<le> p' \<and> p' < p + length piece"
      then have "?o + (p' - p) < 512" using len(1) by linarith
      then show False using same_block(1) [of p "p' - p"] False \<open>p \<le> p' \<and> p' < p + length piece\<close> by simp
    qed
    ultimately show ?thesis by (auto simp: file_byte_def s')
  qed
qed

text \<open>What the write loop leaves, when it stops at \<open>k\<close> bytes.\<close>

definition written :: "u8 list \<Rightarrow> nat \<Rightarrow> nat \<Rightarrow> 'a diskfs_state_scheme \<Rightarrow> inode \<Rightarrow> bool" where
  "written bytes off k s n \<longleftrightarrow> (\<forall>j<k. allocated n (off + j) \<and> file_byte s n (off + j) = bytes ! j)"

definition untouched :: "nat \<Rightarrow> nat \<Rightarrow> 'a diskfs_state_scheme \<Rightarrow> inode \<Rightarrow> 'a diskfs_state_scheme \<Rightarrow> inode \<Rightarrow> bool" where
  "untouched off k s n s' n' \<longleftrightarrow>
     (\<forall>p<6144. allocated n p \<longrightarrow> p < off \<or> off + k \<le> p \<longrightarrow> allocated n' p \<and> file_byte s' n' p = file_byte s n p)"

definition disk_full :: "'a diskfs_state_scheme \<Rightarrow> bool" where
  "disk_full s \<longleftrightarrow> (\<forall>k < unat (sb_total_blocks (superblock s)). dbitmap_test (block_bitmap s) (of_nat k))"

text \<open>One pass of the loop: it stops on a full disk, or writes the next chunk.\<close>

lemma write_pass:
  assumes dk: "drive_ok s" and bk: "blocks_ok s n" and bd: "unat offset + unat sz \<le> 6144" "length bytes = unat sz" "k < sz"
  defines "q \<equiv> unat (chunk offset sz k)" and "p \<equiv> unat offset + unat k"
  shows "write_loop bytes offset sz k n s = Some (True, k, n, s) \<and> disk_full s \<or>
    (\<exists>n' s'. write_loop bytes offset sz k n s = write_loop bytes offset sz (k + chunk offset sz k) n' s' \<and>
      drive_ok s' \<and> blocks_ok s' n' \<and> grows s n s' n' \<and> (\<forall>j<q. allocated n' (p + j)) \<and>
      (\<forall>p'<6144. allocated n' p' \<longrightarrow> file_byte s' n' p' =
         (if p \<le> p' \<and> p' < p + q then bytes ! (p' - unat offset) else file_byte s n' p')))"
proof -
  let ?i = "p div 512"
  have k: "unat k < unat sz" using bd(3) by (simp add: word_less_nat_alt)
  have pl: "unat offset + unat k < 6144" using k bd(1) by simp
  note ar = block_arith [OF pl, folded p_def] and ch = unat_chunk [OF bd(1,3), folded p_def, folded q_def]
  have q: "q \<le> 512 - p mod 512" "q \<le> unat sz - unat k" "0 < q" using ch(1) k by simp_all
  have pm: "p mod 512 < 512" by simp
  let ?piece = "take q (drop (unat k) bytes)"
  have lp: "length ?piece = q" using q(2) bd(2) by simp
  define pass where "pass n1 s1 = (let sec = DISKFS_DATA_START + i_block n1 (of_nat ?i) in
      case (if (offset + k) mod DISKFS_BLOCK_SIZE \<noteq> 0 \<or> chunk offset sz k < DISKFS_BLOCK_SIZE
            then disk_read_sector (mounted_drive s1) sec s1 else Some (replicate 512 0)) of
        None \<Rightarrow> Some (False, k, n1, s1)
      | Some buf \<Rightarrow> (case disk_write_sector (mounted_drive s1) sec (splice (p mod 512) ?piece buf) s1 of
          None \<Rightarrow> Some (False, k, n1, s1)
        | Some s \<Rightarrow> write_loop bytes offset sz (k + chunk offset sz k) n1 s))" for n1 and s1 :: "'a diskfs_state_scheme"
  have go: "\<exists>s'. pass n1 s1 = write_loop bytes offset sz (k + chunk offset sz k) n1 s' \<and> drive_ok s' \<and> blocks_ok s' n1 \<and>
      grows s1 n1 s' n1 \<and> (\<forall>p'<6144. allocated n1 p' \<longrightarrow> file_byte s' n1 p' =
         (if p \<le> p' \<and> p' < p + q then bytes ! (p' - unat offset) else file_byte s1 n1 p'))"
    if dk1: "drive_ok s1" and bk1: "blocks_ok s1 n1" and al: "i_block n1 (of_nat ?i) \<noteq> 0" for n1 and s1 :: "'a diskfs_state_scheme"
  proof -
    let ?sec = "DISKFS_DATA_START + i_block n1 (of_nat ?i)"
    let ?part = "(offset + k) mod DISKFS_BLOCK_SIZE \<noteq> 0 \<or> chunk offset sz k < DISKFS_BLOCK_SIZE"
    define buf where "buf = (if ?part then sector s1 ?sec else replicate 512 0)"
    have lb: "length buf = 512" using dk1 by (simp add: buf_def drive_ok_len)
    have part: "?part \<longleftrightarrow> p mod 512 \<noteq> 0 \<or> q < 512"
      using ar(2) by (auto simp: q_def DISKFS_BLOCK_SIZE_def word_less_nat_alt unat_eq_0 [symmetric])
    have old: "\<forall>x<512. x < p mod 512 \<or> p mod 512 + length ?piece \<le> x \<longrightarrow> buf ! x = sector s1 ?sec ! x"
      using part lp by (auto simp: buf_def)
    have fit: "p mod 512 + length ?piece \<le> 512" using q(1) lp pm by linarith
    have ls: "length (splice (p mod 512) ?piece buf) = 512" using fit lb by simp
    let ?s' = "put_sector ?sec (splice (p mod 512) ?piece buf) s1"
    have pl: "p < 6144" "allocated n1 p" using pl al by (simp_all add: p_def allocated_def)
    note st = sector_step [OF dk1 bk1 pl fit lb old refl]
    have rd: "(if ?part then disk_read_sector (mounted_drive s1) ?sec s1 else Some (replicate 512 0)) = Some buf"
      by (simp add: buf_def drive_ok_read [OF dk1])
    have run: "pass n1 s1 = write_loop bytes offset sz (k + chunk offset sz k) n1 ?s'"
      by (simp only: pass_def Let_def rd option.case drive_ok_write(1) [OF dk1 ls, of ?sec])
    have "file_byte ?s' n1 p' = (if p \<le> p' \<and> p' < p + q then bytes ! (p' - unat offset) else file_byte s1 n1 p')"
      if "p' < 6144" "allocated n1 p'" for p'
      using st(4) [OF that] lp q(2) bd(2) by (auto simp: p_def)
    with run st(1-3) show ?thesis by blast
  qed
  have seg: "allocated n1 (p + j)" if "i_block n1 (of_nat ?i) \<noteq> 0" "j < q" for n1 j
    using that same_block(1) [of p j] q(1) by (simp add: allocated_def)
  have unf: "write_loop bytes offset sz k n s =
      (case (if i_block n (of_nat ?i) = 0 then alloc_block s else Some (0, s)) of
         None \<Rightarrow> None
       | Some (b, s) \<Rightarrow> if b < 0 then Some (True, k, n, s)
           else pass (if i_block n (of_nat ?i) = 0 then set_i_block (of_nat ?i) (of_int b) n else n) s)"
    using bd(3) ar(3) by (subst write_loop.simps) (simp only: ar(1,2) Let_def pass_def if_True not_True_eq_False if_False q_def)
  show ?thesis
  proof (cases "i_block n (of_nat ?i) = 0")
    case False
    then have "write_loop bytes offset sz k n s = pass n s" using unf by simp
    then show ?thesis using go [OF dk bk False] seg [OF False] by metis
  next
    case True
    from alloc_step [OF dk bk ar(4) True] show ?thesis
    proof (elim disjE exE conjE, goal_cases)
      case (1 b s1)
      let ?n = "set_i_block (of_nat ?i) (of_nat b) n"
      have ln: "length n = sizeof_inode" using bk by (simp add: blocks_ok_def)
      have al: "i_block ?n (of_nat ?i) \<noteq> 0" using 1(4) i_block_set_i_block [OF ln ar(4) ar(4)] by simp
      have eq: "write_loop bytes offset sz k n s = pass ?n s1" using unf True 1(1) by simp
      have fb: "file_byte s1 ?n = file_byte s ?n" using 1(5) by (simp add: file_byte_def fun_eq_iff)
      from go [OF 1(2,3) al] obtain s' where s': "pass ?n s1 = write_loop bytes offset sz (k + chunk offset sz k) ?n s'"
        "drive_ok s'" "blocks_ok s' ?n" "grows s1 ?n s' ?n"
        "\<forall>p'<6144. allocated ?n p' \<longrightarrow> file_byte s' ?n p' =
           (if p \<le> p' \<and> p' < p + q then bytes ! (p' - unat offset) else file_byte s1 ?n p')"
        by blast
      have "grows s n s' ?n" by (rule grows_trans [OF 1(6) s'(4,3)])
      then show ?thesis using eq s' seg [OF al] unfolding fb by (intro disjI2 exI [of _ ?n] exI [of _ s']) simp
    next
      case 2
      then show ?thesis using unf True by (simp add: disk_full_def)
    qed
  qed
qed

lemma write_loop_ok:
  assumes dk: "drive_ok s" and bk: "blocks_ok s n" and bd: "unat offset + unat sz \<le> 6144" "length bytes = unat sz"
    and k: "k \<le> sz" and w: "written bytes (unat offset) (unat k) s n"
  shows "\<exists>k' n' s'. write_loop bytes offset sz k n s = Some (True, k', n', s') \<and> k \<le> k' \<and> k' \<le> sz \<and> (k' < sz \<longrightarrow> disk_full s') \<and>
    drive_ok s' \<and> blocks_ok s' n' \<and> grows s n s' n' \<and> written bytes (unat offset) (unat k') s' n' \<and>
    untouched (unat offset) (unat k') s n s' n'"
  using dk bk k w
proof (induction "unat sz - unat k" arbitrary: k n s rule: less_induct)
  case less
  show ?case
  proof (cases "k < sz")
    case False
    then have "write_loop bytes offset sz k n s = Some (True, k, n, s)" by (subst write_loop.simps) simp
    then show ?thesis using less.prems False by (auto simp: untouched_def)
  next
    case True
    from write_pass [OF less.prems(1,2) bd True] show ?thesis
    proof (elim disjE exE conjE, goal_cases)
      case 1
      then show ?case using less.prems True by (intro exI [of _ k] exI [of _ n] exI [of _ s]) (simp add: untouched_def)
    next
      case (2 n1 s1)
      let ?k = "k + chunk offset sz k" and ?q = "unat (chunk offset sz k)"
      have lt: "unat k < unat sz" using True by (simp add: word_less_nat_alt)
      note ch = unat_chunk [OF bd(1) True]
      have q: "0 < ?q" "unat k + ?q \<le> unat sz" using ch(1) lt by simp_all
      have le: "?k \<le> sz" using ch(2) q by (simp add: word_le_nat_alt)
      have keep: "allocated n1 p" if "allocated n p" "p < 6144" for p
        using that 2(4) by (auto simp: allocated_def grows_def less_mult_imp_div_less)
      have same: "file_byte s n1 p = file_byte s n p" if "allocated n p" "p < 6144" for p
        using that 2(4) by (auto simp: allocated_def grows_def less_mult_imp_div_less file_byte_def)
      have w1: "written bytes (unat offset) (unat ?k) s1 n1"
        unfolding written_def
      proof (intro allI impI)
        fix j
        assume j: "j < unat ?k"
        then have p: "unat offset + j < 6144" using ch(2) q bd(1) by simp
        show "allocated n1 (unat offset + j) \<and> file_byte s1 n1 (unat offset + j) = bytes ! j"
        proof (cases "j < unat k")
          case True
          then show ?thesis
            using less.prems(4) keep [OF _ p] same [OF _ p] 2(6) p by (auto simp: written_def)
        next
          case False
          then have "allocated n1 (unat offset + j)" using 2(5) [rule_format, of "j - unat k"] j ch(2) by simp
          then show ?thesis using False j ch(2) 2(6) p by simp
        qed
      qed
      have m: "unat sz - unat ?k < unat sz - unat k" using ch(2) q by simp
      obtain k' n' s' where r: "write_loop bytes offset sz ?k n1 s1 = Some (True, k', n', s')" "?k \<le> k'" "k' \<le> sz"
        "k' < sz \<longrightarrow> disk_full s'" "drive_ok s'" "blocks_ok s' n'" "grows s1 n1 s' n'"
        "written bytes (unat offset) (unat k') s' n'" "untouched (unat offset) (unat k') s1 n1 s' n'"
        using less.hyps [OF m 2(2,3) le w1] by blast
      have "untouched (unat offset) (unat k') s n s' n'"
        unfolding untouched_def
      proof (intro allI impI)
        fix p
        assume p: "p < 6144" "allocated n p" "p < unat offset \<or> unat offset + unat k' \<le> p"
        have "unat k + ?q \<le> unat k'" using r(2) ch(2) by (simp add: word_le_nat_alt)
        then have "\<not> (unat offset + unat k \<le> p \<and> p < unat offset + unat k + ?q)" using p(3) by linarith
        then have "file_byte s1 n1 p = file_byte s n p" using 2(6) p(1) keep [OF p(2,1)] same [OF p(2,1)] by auto
        then show "allocated n' p \<and> file_byte s' n' p = file_byte s n p"
          using r(9) p keep [OF p(2,1)] by (auto simp: untouched_def)
      qed
      moreover have "grows s n s' n'" by (rule grows_trans [OF 2(4) r(7,6)])
      moreover have "k \<le> k'" using r(2) ch(2) by (simp add: word_le_nat_alt)
      ultimately show ?case using 2(1) r by (intro exI [of _ k'] exI [of _ n'] exI [of _ s']) simp
    qed
  qed
qed

section \<open>The inode cache\<close>

definition cache_ok :: "'a diskfs_state_scheme \<Rightarrow> bool" where
  "cache_ok s \<longleftrightarrow> length (cache_valid s) = 8 \<and> length (cache_num s) = 8 \<and> length (inode_cache s) = 8 \<and> cache_idx s < 8"

lemma cache_find_Some:
  assumes "cache_find ino s = Some i"
  shows "i < 8" and "cache_valid s ! i" and "cache_num s ! i = ino"
  using assms by (auto simp: cache_find_def find_Some_iff)

lemma cache_find_None: "cache_find ino s = None \<longleftrightarrow> (\<forall>i<8. \<not> (cache_valid s ! i \<and> cache_num s ! i = ino))"
  by (auto simp: cache_find_def find_None_iff)

lemma cache_find_cong:
  "cache_valid s' = cache_valid s \<Longrightarrow> cache_num s' = cache_num s \<Longrightarrow> cache_find ino s' = cache_find ino s"
  by (simp add: cache_find_def)

lemma cache_find_unique:
  assumes "c < 8" and "\<forall>i<8. (cache_valid s ! i \<and> cache_num s ! i = ino) \<longleftrightarrow> i = c"
  shows "cache_find ino s = Some c"
proof (cases "cache_find ino s")
  case None
  then show ?thesis using assms by (auto simp: cache_find_None)
next
  case (Some i)
  then show ?thesis using cache_find_Some [OF Some] assms(2) by auto
qed

text \<open>After a successful \<open>read_inode\<close> the inode is in the cache and the rest of the state is unchanged.\<close>

lemma read_inode_ok:
  assumes c: "cache_ok s" and r: "read_inode d ino s = Some (Inr n, s1)"
  obtains i where "cache_find ino s1 = Some i" and "inode_cache s1 ! i = n" and "ino < DISKFS_MAX_INODES" and "cache_ok s1"
    and "drives s1 = drives s" and "mounted_drive s1 = mounted_drive s" and "bad_sector s1 = bad_sector s"
    and "superblock s1 = superblock s" and "block_bitmap s1 = block_bitmap s"
proof (cases "cache_find ino s")
  case (Some i)
  then have "s1 = s" "inode_cache s ! i = n" "ino < DISKFS_MAX_INODES" using r by (auto simp: read_inode_def split: if_splits)
  then show ?thesis using that [of i] Some c by simp
next
  case None
  let ?i = "cache_idx s"
  obtain b where s1: "s1 = s\<lparr>cache_num := (cache_num s)[?i := ino], inode_cache := (inode_cache s)[?i := n],
      cache_valid := (cache_valid s)[?i := True], cache_idx := (?i + 1) mod 8\<rparr>" and m: "ino < DISKFS_MAX_INODES"
    using r None by (auto simp: read_inode_def Let_def not_le split: if_splits option.splits)
  have i: "?i < 8" using c by (simp add: cache_ok_def)
  have "cache_find ino s1 = Some ?i"
    by (rule cache_find_unique [OF i])
      (use None c in \<open>auto simp: s1 cache_ok_def cache_find_None nth_list_update split: if_splits\<close>)
  then show ?thesis using that [of ?i] m c by (simp add: s1 cache_ok_def)
qed

lemma read_inode_hit:
  assumes "cache_find ino s = Some i" and "ino < DISKFS_MAX_INODES"
  shows "read_inode d ino s = Some (Inr (inode_cache s ! i), s)"
  using assms by (simp add: read_inode_def not_le)

lemma cache_put_hit:
  assumes "cache_find ino s = Some i" and "cache_ok s"
  shows "cache_find ino (cache_put ino n s) = Some i" and "inode_cache (cache_put ino n s) ! i = n"
  using assms cache_find_Some(1) [OF assms(1)] cache_find_cong [of "cache_put ino n s" s ino]
  by (simp_all, simp add: cache_put_def cache_ok_def)

section \<open>Read after write\<close>

text \<open>The inode \<open>diskfs_write\<close> stores: the size grows to the end of what was written, the time is set.\<close>

definition final_inode :: "u32 \<Rightarrow> u32 \<Rightarrow> inode \<Rightarrow> inode" where
  "final_inode fin t n = put32 60 t (if fin > i_size n then put32 4 fin n else n)"

lemma final_inode_fields:
  assumes "length n = sizeof_inode"
  shows "length (final_inode fin t n) = sizeof_inode" and "i_size (final_inode fin t n) = max (i_size n) fin"
    and "\<And>i. i < 12 \<Longrightarrow> i_block (final_inode fin t n) (of_nat i) = i_block n (of_nat i)"
proof -
  have len: "length n = 136" using assms by (simp add: sizeof_inode_def)
  show "length (final_inode fin t n) = sizeof_inode" using len by (simp add: final_inode_def sizeof_inode_def)
  show "i_size (final_inode fin t n) = max (i_size n) fin"
    using len by (auto simp: final_inode_def i_size_def get32_put32_other max_def)
  fix i :: nat
  assume "i < 12"
  then show "i_block (final_inode fin t n) (of_nat i) = i_block n (of_nat i)"
    using len by (simp add: final_inode_def i_block_def unat_of_nat_small get32_put32_other)
qed

lemma data_sector_high:
  assumes "drive_ok s" and "ino < DISKFS_MAX_INODES" and "b < sb_total_blocks (superblock s)"
  shows "DISKFS_DATA_START + b \<noteq> inode_sector ino"
proof -
  have "unat ino < 512" using assms(2) by (simp add: DISKFS_MAX_INODES_def word_less_nat_alt)
  then have d: "unat (ino div 4) < 128" by (simp add: unat_div_distrib less_mult_imp_div_less)
  then have i: "unat (inode_sector ino) < 161"
    by (simp add: inode_sector_def DISKFS_INODE_TABLE_START_def unat_add_no_overflow)
  have "unat b < 65536" using assms(1,3) by (simp add: drive_ok_def word_less_nat_alt)
  then have "545 \<le> unat (DISKFS_DATA_START + b)" by (simp add: DISKFS_DATA_START_def unat_add_no_overflow)
  then show ?thesis using i by auto
qed

text \<open>The end of \<open>diskfs_write\<close>, after the loop.\<close>

definition finish :: "u32 \<Rightarrow> inode \<Rightarrow> 'a diskfs_state_scheme \<Rightarrow> 'a diskfs_state_scheme" where
  "finish ino n s = cache_put ino n (put_sector (inode_sector ino) (splice (inode_offset ino) n (sector s (inode_sector ino))) s)"

lemma finish_fields [simp]:
  "mounted_drive (finish ino n s) = mounted_drive s" "superblock (finish ino n s) = superblock s"
  "block_bitmap (finish ino n s) = block_bitmap s"
  "sector (finish ino n s) l = (if l = inode_sector ino then splice (inode_offset ino) n (sector s l) else sector s l)"
  by (simp_all add: finish_def)

definition same_cache :: "'a diskfs_state_scheme \<Rightarrow> 'a diskfs_state_scheme \<Rightarrow> bool" where
  "same_cache s s' \<longleftrightarrow> mounted_drive s' = mounted_drive s \<and> cache_valid s' = cache_valid s \<and> cache_num s' = cache_num s \<and>
     inode_cache s' = inode_cache s \<and> cache_idx s' = cache_idx s"

lemma grows_same_cache: "grows s n s' n' \<Longrightarrow> same_cache s s'"
  by (simp add: grows_def same_cache_def)

lemma write_finish:
  assumes dk: "drive_ok s" and rd: "read_inode (mounted_drive s) ino s = Some (Inr n, s1)" and ck: "cache_ok s"
    and m3: "ino mod 4 \<noteq> 3" and bd: "unat offset + unat sz \<le> 6144"
    and l: "write_loop bytes offset sz 0 n s1 = Some (True, k, n2, s2)" "drive_ok s2" "length n2 = sizeof_inode" "same_cache s1 s2"
  defines "n' \<equiv> final_inode (offset + k) (ticks s2) n2"
  shows "diskfs_write ino bytes offset sz s = Some (uint k, finish ino n' s2)" and "drive_ok (finish ino n' s2)"
    and "\<forall>d. read_inode d ino (finish ino n' s2) = Some (Inr n', finish ino n' s2)"
proof -
  obtain i where i: "cache_find ino s1 = Some i" "inode_cache s1 ! i = n" "ino < DISKFS_MAX_INODES" "cache_ok s1"
    and eq: "drives s1 = drives s" "mounted_drive s1 = mounted_drive s" "bad_sector s1 = bad_sector s"
      "superblock s1 = superblock s" "block_bitmap s1 = block_bitmap s"
    by (rule read_inode_ok [OF ck rd])
  have ln: "length n' = sizeof_inode" unfolding n'_def by (rule final_inode_fields(1) [OF l(3)])
  let ?s2 = "put_sector (inode_sector ino) (splice (inode_offset ino) n' (sector s2 (inode_sector ino))) s2"
  have no: "\<not> offset + sz > DISKFS_MAX_FILE_SIZE"
    using bd by (simp add: DISKFS_MAX_FILE_SIZE_def DISKFS_DIRECT_BLOCKS_def DISKFS_BLOCK_SIZE_def word_less_nat_alt unat_add_no_overflow)
  have md: "mounted_drive s2 = mounted_drive s" using l(4) eq(2) by (simp add: same_cache_def)
  have wi: "write_inode (mounted_drive s) ino n' s2 = Some (0, finish ino n' s2)"
    using write_inode_effect [OF l(2) i(3) ln inode_offset_small(1) [OF m3]] md by (simp add: finish_def)
  show "diskfs_write ino bytes offset sz s = Some (uint k, finish ino n' s2)"
    using mounted_small [OF dk] rd no l(1) wi md eq(2) by (simp add: diskfs_write_def final_inode_def n'_def)
  have "length (splice (inode_offset ino) n' (sector s2 (inode_sector ino))) = 512"
    using inode_offset_small(1) [OF m3] ln drive_ok_len [OF l(2)] by (simp add: sizeof_inode_def)
  then show "drive_ok (finish ino n' s2)" unfolding finish_def by (intro drive_ok_cache_put drive_ok_write(2) l(2))
  have hit: "cache_find ino ?s2 = Some i" "cache_ok ?s2"
    using i(1,4) l(4) cache_find_cong [of ?s2 s1 ino] by (simp_all add: same_cache_def cache_ok_def)
  show "\<forall>d. read_inode d ino (finish ino n' s2) = Some (Inr n', finish ino n' s2)"
    using read_inode_hit [OF cache_put_hit(1) [OF hit] i(3)] cache_put_hit(2) [OF hit, of n'] by (simp add: finish_def)
qed

lemma diskfs_write_effect:
  assumes dk: "drive_ok s" and ck: "cache_ok s" and rd: "read_inode (mounted_drive s) ino s = Some (Inr n, s1)"
    and bk: "blocks_ok s n" and m3: "ino mod 4 \<noteq> 3"
    and bd: "unat offset + unat sz \<le> 6144" "length bytes = unat sz"
  obtains k n' s' where "diskfs_write ino bytes offset sz s = Some (uint k, s')" and "k \<le> sz" and "k < sz \<longrightarrow> disk_full s'"
    and "\<forall>d. read_inode d ino s' = Some (Inr n', s')" and "drive_ok s'" and "blocks_ok s' n'"
    and "i_size n' = max (i_size n) (offset + k)" and "written bytes (unat offset) (unat k) s' n'"
    and "untouched (unat offset) (unat k) s n s' n'" and "mounted_drive s' = mounted_drive s"
    and "\<forall>b < sb_total_blocks (superblock s). dbitmap_test (block_bitmap s) b \<longrightarrow>
      (\<forall>i<12. i_block n (of_nat i) \<noteq> b) \<longrightarrow> sector s' (DISKFS_DATA_START + b) = sector s (DISKFS_DATA_START + b)"
proof -
  obtain i where i: "cache_find ino s1 = Some i" "inode_cache s1 ! i = n" "ino < DISKFS_MAX_INODES" "cache_ok s1"
    and eq: "drives s1 = drives s" "mounted_drive s1 = mounted_drive s" "bad_sector s1 = bad_sector s"
      "superblock s1 = superblock s" "block_bitmap s1 = block_bitmap s"
    by (rule read_inode_ok [OF ck rd])
  have sec1: "sector s1 = sector s" by (rule sector_cong [OF eq(1,2)])
  have dk1: "drive_ok s1" by (rule drive_ok_cong [OF dk eq])
  have bk1: "blocks_ok s1 n" using bk eq by (simp add: blocks_ok_def)
  have w0: "written bytes (unat offset) (unat 0) s1 n" by (simp add: written_def)
  obtain k n2 s2 where l: "write_loop bytes offset sz 0 n s1 = Some (True, k, n2, s2)" "k \<le> sz" "k < sz \<longrightarrow> disk_full s2"
      "drive_ok s2" "blocks_ok s2 n2" "grows s1 n s2 n2" "written bytes (unat offset) (unat k) s2 n2"
      "untouched (unat offset) (unat k) s1 n s2 n2"
    using write_loop_ok [OF dk1 bk1 bd _ w0] by auto
  let ?n = "final_inode (offset + k) (ticks s2) n2"
  have ln: "length n2 = sizeof_inode" using l(5) by (simp add: blocks_ok_def)
  note fin = final_inode_fields [OF ln, where fin = "offset + k" and t = "ticks s2"]
  let ?s' = "finish ino ?n s2"
  note f = write_finish [OF dk rd ck m3 bd(1) l(1,4) ln grows_same_cache [OF l(6)]]
  have md: "mounted_drive s2 = mounted_drive s" using l(6) eq(2) by (simp add: grows_def)
  have bk': "blocks_ok ?s' ?n" using l(5) fin(1,3) by (simp add: blocks_ok_def)
  have hi: "DISKFS_DATA_START + b \<noteq> inode_sector ino" if "b < sb_total_blocks (superblock s2)" for b
    by (rule data_sector_high [OF l(4) i(3) that])
  have al: "allocated ?n p = allocated n2 p" if "p < 6144" for p
    using that fin(3) by (simp add: allocated_def less_mult_imp_div_less)
  have fb: "file_byte ?s' ?n p = file_byte s2 n2 p" if "p < 6144" "allocated n2 p" for p
    using that fin(3) hi l(5) by (simp add: file_byte_def allocated_def blocks_ok_def less_mult_imp_div_less)
  have kb: "unat offset + unat k \<le> 6144" using bd(1) l(2) by (simp add: word_le_nat_alt)
  have wr': "written bytes (unat offset) (unat k) ?s' ?n"
    using l(7) al fb kb by (simp add: written_def)
  have un: "untouched (unat offset) (unat k) s n ?s' ?n"
    using l(8) al fb sec1 by (auto simp: untouched_def file_byte_def [of s] file_byte_def [of s1])
  have other: "sector ?s' (DISKFS_DATA_START + b) = sector s (DISKFS_DATA_START + b)"
    if b: "b < sb_total_blocks (superblock s)" "dbitmap_test (block_bitmap s) b" "\<forall>i<12. i_block n (of_nat i) \<noteq> b" for b
  proof -
    have "i_block n2 (of_nat i) \<noteq> b" if "i < 12" for i
      using l(6) that b eq(5) by (cases "i_block n2 (of_nat i) = i_block n (of_nat i)") (auto simp: grows_def)
    then have "sector s2 (DISKFS_DATA_START + b) = sector s1 (DISKFS_DATA_START + b)"
      by (intro grows_sector [OF l(6)]) force
    moreover have "b < sb_total_blocks (superblock s2)" using b(1) l(6) eq(4) by (simp add: grows_def)
    ultimately show ?thesis using hi sec1 by simp
  qed
  have df: "k < sz \<longrightarrow> disk_full ?s'" using l(3) by (simp add: disk_full_def)
  have iz: "i_size ?n = max (i_size n) (offset + k)" using fin(2) l(6) by (simp add: grows_def)
  show ?thesis
    by (rule that [OF f(1) l(2) df f(3,2) bk' iz wr' un]) (use md other in simp_all)
qed


lemma length_zero_inode: "length zero_inode = sizeof_inode"
  by (simp add: zero_inode_def)

lemma i_block_zero_inode:
  assumes "i < 12"
  shows "i_block zero_inode (of_nat i) = 0"
  using assms by (simp add: i_block_def zero_inode_def get32_def unat_of_nat_small sizeof_inode_def)

lemma diskfs_demo_root:
  "read_inode 0 0 (diskfs_demo bm) = Some (Inr zero_inode, diskfs_demo bm)" "cache_ok (diskfs_demo bm)"
  "mounted_drive (diskfs_demo bm) = 0" "block_bitmap (diskfs_demo bm) = bm"
proof -
  have "cache_find 0 (diskfs_demo bm) = Some 0" by (simp add: cache_find_def diskfs_demo_def upt_rec)
  moreover have "inode_cache (diskfs_demo bm) ! 0 = zero_inode" by (simp add: diskfs_demo_def)
  ultimately show "read_inode 0 0 (diskfs_demo bm) = Some (Inr zero_inode, diskfs_demo bm)"
    using read_inode_hit [of 0 "diskfs_demo bm" 0 0] by (simp add: DISKFS_MAX_INODES_def)
  show "cache_ok (diskfs_demo bm)" "mounted_drive (diskfs_demo bm) = 0" "block_bitmap (diskfs_demo bm) = bm"
    by (simp_all add: cache_ok_def diskfs_demo_def)
qed


section \<open>The first block\<close>

lemma alloc_first:
  assumes "drive_ok s" and "0 < sb_total_blocks (superblock s)" and "\<not> dbitmap_test (block_bitmap s) 0"
  obtains s' where "alloc_block s = Some (0, s')" and "drive_ok s'" and "sector s' = sector s" and "grows s n s' n"
proof -
  let ?s = "s\<lparr>block_bitmap := dbitmap_set 0 (block_bitmap s),
    superblock := put32 20 (sb_free_blocks (superblock s) - 1) (superblock s)\<rparr>"
  have len: "length (superblock s) = 512" "length (block_bitmap s) = 8192" using assms(1) by (simp_all add: drive_ok_def)
  have pos: "0 < unat (sb_total_blocks (superblock s))" using assms(2) by (simp add: word_less_nat_alt)
  have al: "alloc_block s = Some (0, ?s)"
    using alloc_block_effect [OF assms(1)]
  proof (elim disjE exE conjE, goal_cases)
    case (1 k)
    have "k = 0"
    proof (rule ccontr)
      assume "k \<noteq> 0"
      then have "dbitmap_test (block_bitmap s) (of_nat 0)" using 1(4) by blast
      then show False using assms(3) by simp
    qed
    then show ?case using 1(2) by simp
  next
    case 2
    then have "dbitmap_test (block_bitmap s) (of_nat 0)" using pos by blast
    then show ?case using assms(3) by simp
  qed
  have tb: "sb_total_blocks (superblock ?s) = sb_total_blocks (superblock s)"
    using len by (simp add: sb_total_blocks_def get32_put32_other)
  have dk: "drive_ok ?s" using assms(1) tb len by (simp add: drive_ok_def dbitmap_set_def)
  have v: "dbitmap_valid (block_bitmap s) b" if "b < sb_total_blocks (superblock s)" for b
    using that assms(1) dbitmap_valid_of_nat [of "unat b" "block_bitmap s"] by (simp add: drive_ok_def word_less_nat_alt)
  have sec: "sector ?s = sector s" by (rule sector_cong) simp_all
  have "grows s n ?s n" using tb sec dbits.test_set [OF v [OF assms(2)] v] by (simp add: grows_def)
  then show ?thesis using that al dk sec by blast
qed

text \<open>
  C37: The first write to an empty disk is lost. Blocks are numbered from 0 and \<open>alloc_block\<close> hands out block 0
  first, but a block number 0 in an inode means that the block is missing: \<open>diskfs_write\<close> reports
  that all bytes were written, and \<open>diskfs_read\<close> of the same range returns none of them.
\<close>

theorem diskfs_first_write_lost:
  assumes "drive_ok s" and "cache_ok s" and "read_inode (mounted_drive s) ino s = Some (Inr n, s1)"
    and "length n = sizeof_inode" and "\<forall>i<12. i_block n (of_nat i) = 0" and "i_size n = 0" and "ino mod 4 \<noteq> 3"
    and "0 < sb_total_blocks (superblock s)" and "\<not> dbitmap_test (block_bitmap s) 0"
    and "0 < sz" and "sz \<le> DISKFS_BLOCK_SIZE" and "length bytes = unat sz"
  shows "\<exists>s'. diskfs_write ino bytes 0 sz s = Some (uint sz, s') \<and> diskfs_read ino 0 sz s' = Some (0, [], s')"
proof -
  obtain i where i: "cache_find ino s1 = Some i" "inode_cache s1 ! i = n" "ino < DISKFS_MAX_INODES" "cache_ok s1"
    and eq: "drives s1 = drives s" "mounted_drive s1 = mounted_drive s" "bad_sector s1 = bad_sector s"
      "superblock s1 = superblock s" "block_bitmap s1 = block_bitmap s"
    by (rule read_inode_ok [OF assms(2,3)])
  have dk1: "drive_ok s1" by (rule drive_ok_cong [OF assms(1) eq])
  have pre: "0 < sb_total_blocks (superblock s1)" "\<not> dbitmap_test (block_bitmap s1) 0" using assms(8,9) eq by simp_all
  obtain s2 where s2: "alloc_block s1 = Some (0, s2)" "drive_ok s2" "sector s2 = sector s1" "grows s1 n s2 n"
    by (rule alloc_first [OF dk1 pre])
  let ?n1 = "set_i_block 0 0 n"
  have b1: "i_block ?n1 0 = 0" "i_block n 0 = 0" using i_block_set_i_block [OF assms(4), of 0 0 0] assms(5) by force+
  have ln: "length ?n1 = sizeof_inode" "i_size ?n1 = 0" using i_size_set_i_block [OF assms(4), of 0 0] assms(6) by simp_all
  have szs: "unat sz \<le> 512" "0 < unat sz" using assms(10,11) by (simp_all add: word_le_nat_alt word_less_nat_alt DISKFS_BLOCK_SIZE_def)
  have ch: "chunk 0 sz 0 = sz"
    by (rule unat_word_inj) (use unat_chunk(1) [of 0 sz 0] szs assms(10) in simp)
  let ?part = "sz < DISKFS_BLOCK_SIZE"
  let ?buf = "splice 0 bytes (if ?part then sector s2 DISKFS_DATA_START else replicate 512 0)"
  let ?s3 = "put_sector DISKFS_DATA_START ?buf s2"
  have lb: "length ?buf = 512" using szs assms(12) drive_ok_len [OF s2(2)] by simp
  have w3: "disk_write_sector (mounted_drive s2) DISKFS_DATA_START ?buf s2 = Some ?s3" by (rule drive_ok_write(1) [OF s2(2) lb])
  have stop: "write_loop bytes 0 sz sz ?n1 ?s3 = Some (True, sz, ?n1, ?s3)" by (subst write_loop.simps) simp
  have loop: "write_loop bytes 0 sz 0 n s1 = Some (True, sz, ?n1, ?s3)"
    using assms(10,12) w3 stop drive_ok_read [OF s2(2), of DISKFS_DATA_START]
    by (subst write_loop.simps) (simp add: Let_def ch b1 s2(1) DISKFS_DIRECT_BLOCKS_def split: if_splits)
  have bd: "unat 0 + unat sz \<le> 6144" using szs by simp
  have dk3: "drive_ok ?s3" by (rule drive_ok_write(2) [OF s2(2) lb])
  have "same_cache s1 ?s3" using grows_same_cache [OF s2(4)] by (simp add: same_cache_def)
  note f = write_finish [OF assms(1,3,2,7) bd loop dk3 ln(1) this]
  let ?n = "final_inode (0 + sz) (ticks ?s3) ?n1"
  let ?s' = "finish ino ?n ?s3"
  note fin = final_inode_fields [OF ln(1), where fin = "0 + sz" and t = "ticks ?s3"]
  have "i_block ?n 0 = 0" using fin(3) [of 0] b1(1) by simp
  then have rl: "read_loop ?s' ?n 0 sz 0 [] = Some []"
    by (subst read_loop.simps) (simp add: Let_def DISKFS_DIRECT_BLOCKS_def)
  have "i_size ?n = sz" using fin(2) ln(2) by simp
  then have "diskfs_read ino 0 sz ?s' = Some (0, [], ?s')"
    using mounted_small [OF f(2)] f(3) rl assms(10) by (simp add: diskfs_read_def)
  then show ?thesis using f(1) by blast
qed

theorem diskfs_first_write_lost_witness:
  "\<exists>s'. diskfs_write 0 [7, 8] 0 2 (diskfs_demo (replicate 8192 0)) = Some (2, s') \<and> diskfs_read 0 0 2 s' = Some (0, [], s')"
proof -
  let ?s = "diskfs_demo (replicate 8192 0)"
  have rd: "read_inode (mounted_drive ?s) 0 ?s = Some (Inr zero_inode, ?s)" by (simp add: diskfs_demo_root)
  have dk: "drive_ok ?s" by (simp add: diskfs_demo_ok)
  have z: "i_size zero_inode = 0" by (simp add: zero_inode_def i_size_def get32_def sizeof_inode_def)
  show ?thesis
    using diskfs_first_write_lost [OF dk diskfs_demo_root(2) rd length_zero_inode _ z, of 2 "[7, 8]"] empty_bitmap
    by (simp add: i_block_zero_inode diskfs_demo_total diskfs_demo_root(4) DISKFS_BLOCK_SIZE_def)
qed

end
