(* ===== verification/Console.thy ===== *)
theory Console
  imports Vterm Kstring
begin

text \<open>
  \<^verbatim>\<open>kernel/ui/console.c\<close>: the console in front of the active terminal. Before the terminals exist its output
  goes to the serial port only. Strings are lists of characters without the terminating zero.
\<close>

section \<open>Operations\<close>

record console_state = vterm_state +
  vterm_initialized :: bool

definition bytes_of :: "string \<Rightarrow> u8 list" where
  "bytes_of str = map of_char str"

definition serial_string :: "u8 list \<Rightarrow> 'a vterm_state_scheme \<Rightarrow> 'a vterm_state_scheme" where
  "serial_string bs s = fold serial_write bs s"

definition console_init :: "'a console_state_scheme \<Rightarrow> 'a console_state_scheme option" where
  "console_init s = map_option (\<lambda>s. s\<lparr>vterm_initialized := True\<rparr>) (vterm_init s)"

definition console_clear :: "'a console_state_scheme \<Rightarrow> 'a console_state_scheme option" where
  "console_clear s = (if vterm_initialized s then vterm_clear (vterm_get_active s) s else Some s)"

definition console_putchar :: "u8 \<Rightarrow> 'a console_state_scheme \<Rightarrow> 'a console_state_scheme option" where
  "console_putchar c s =
     (if vterm_initialized s then vterm_putchar (vterm_get_active s) c s else Some (serial_write c s))"

definition console_write :: "string \<Rightarrow> 'a console_state_scheme \<Rightarrow> 'a console_state_scheme option" where
  "console_write str s =
     (if vterm_initialized s then vterm_write (vterm_get_active s) (bytes_of str) s
      else Some (serial_string (bytes_of str) s))"

definition console_write_hex :: "u32 \<Rightarrow> 'a console_state_scheme \<Rightarrow> 'a console_state_scheme option" where
  "console_write_hex v s =
     (case console_write ''0x'' s of None \<Rightarrow> None | Some s \<Rightarrow> console_write (hex_fill 8 v) s)"

definition console_write_dec :: "u32 \<Rightarrow> 'a console_state_scheme \<Rightarrow> 'a console_state_scheme option" where
  "console_write_dec v s =
     (if vterm_initialized s then vterm_write_dec (vterm_get_active s) v s
      else if v = 0 then Some (serial_write 0x30 s)
      else Some (serial_string (dec_digits v []) s))"

definition console_set_color :: "u8 \<Rightarrow> u8 \<Rightarrow> 'a console_state_scheme \<Rightarrow> 'a console_state_scheme" where
  "console_set_color fg bg s = (if vterm_initialized s then vterm_set_color (vterm_get_active s) fg bg s else s)"

section \<open>Sequences of console calls\<close>

text \<open>Code that prints is a list of console calls, executed one after the other.\<close>

datatype con_op = Put u8 | Str string | Hex u32 | Dec u32 | ClearScreen | Color u8 u8

fun con_exec :: "con_op \<Rightarrow> 'a console_state_scheme \<Rightarrow> 'a console_state_scheme option" where
  "con_exec (Put c) s = console_putchar c s"
| "con_exec (Str str) s = console_write str s"
| "con_exec (Hex v) s = console_write_hex v s"
| "con_exec (Dec v) s = console_write_dec v s"
| "con_exec ClearScreen s = console_clear s"
| "con_exec (Color fg bg) s = Some (console_set_color fg bg s)"

primrec con_run :: "con_op list \<Rightarrow> 'a console_state_scheme \<Rightarrow> 'a console_state_scheme option" where
  "con_run [] s = Some s"
| "con_run (op # ops) s = (case con_exec op s of None \<Rightarrow> None | Some s \<Rightarrow> con_run ops s)"

section \<open>The contract of the console\<close>

text \<open>
  What code that prints relies on: in a good state every call succeeds, leaves a good state and does not
  touch the rest of the state.
\<close>

locale safe_output =
  fixes out :: "'o \<Rightarrow> 's \<Rightarrow> 's option"
    and run :: "'o list \<Rightarrow> 's \<Rightarrow> 's option"
    and ok :: "'s \<Rightarrow> bool"
    and rest :: "'s \<Rightarrow> 'r"
  assumes out_safe: "ok s \<Longrightarrow> \<exists>s'. out op s = Some s' \<and> ok s' \<and> rest s' = rest s"
    and run_Nil: "run [] s = Some s"
    and run_Cons: "run (op # ops) s = (case out op s of None \<Rightarrow> None | Some s \<Rightarrow> run ops s)"
begin

lemma run_safe:
  assumes "ok s"
  shows "\<exists>s'. run ops s = Some s' \<and> ok s' \<and> rest s' = rest s"
  using assms
proof (induction ops arbitrary: s)
  case Nil
  then show ?case by (simp add: run_Nil)
next
  case (Cons op ops)
  obtain s1 where "out op s = Some s1" "ok s1" "rest s1 = rest s" using out_safe [OF Cons.prems] by blast
  then show ?case using Cons.IH [of s1] by (simp add: run_Cons)
qed

lemma run_append: "run (xs @ ys) s = (case run xs s of None \<Rightarrow> None | Some s \<Rightarrow> run ys s)"
  by (induction xs arbitrary: s) (simp_all add: run_Nil run_Cons split: option.split)

end

section \<open>The console keeps its contract\<close>

definition con_ok :: "'a console_state_scheme \<Rightarrow> bool" where
  "con_ok s \<longleftrightarrow> (vterm_initialized s \<longrightarrow> vt_inv s \<and> shown s)"

lemma serial_write_more [simp]: "vterm_state.more (serial_write c s) = vterm_state.more s"
  by (simp add: serial_write_def)

lemma vterm_putchar_internal_more:
  "vterm_putchar_internal t c r s = Some s' \<Longrightarrow> vterm_state.more s' = vterm_state.more s"
  by (auto simp: vterm_putchar_internal_def Let_def split: option.splits if_splits dest!: refresh_if_active_more)

lemma vterm_write_loop_more:
  "vterm_write_loop t str s = Some s' \<Longrightarrow> vterm_state.more s' = vterm_state.more s"
proof (induction str arbitrary: s)
  case (Cons c str)
  then show ?case by (auto split: option.splits dest!: vterm_putchar_internal_more)
qed simp

lemma vterm_write_more: "vterm_write t str s = Some s' \<Longrightarrow> vterm_state.more s' = vterm_state.more s"
  by (auto simp: vterm_write_def split: option.splits dest!: vterm_write_loop_more refresh_if_active_more)

lemma vterm_putchar_more: "vterm_putchar t c s = Some s' \<Longrightarrow> vterm_state.more s' = vterm_state.more s"
  by (auto simp: vterm_putchar_def dest!: vterm_putchar_internal_more)

lemma vterm_write_dec_more: "vterm_write_dec t v s = Some s' \<Longrightarrow> vterm_state.more s' = vterm_state.more s"
  by (auto simp: vterm_write_dec_def split: if_splits dest!: vterm_putchar_more vterm_write_more)

lemma vterm_clear_more: "vterm_clear t s = Some s' \<Longrightarrow> vterm_state.more s' = vterm_state.more s"
  by (auto simp: vterm_clear_def split: option.splits dest!: refresh_if_active_more)

lemma vterm_set_color_more: "vterm_state.more (vterm_set_color t fg bg s) = vterm_state.more s"
  by (simp add: vterm_set_color_def split: option.split)

lemma serial_string_more [simp]: "vterm_state.more (serial_string bs s) = vterm_state.more s"
  unfolding serial_string_def by (induction bs arbitrary: s) simp_all

lemmas vterm_more = vterm_putchar_more vterm_write_more vterm_write_dec_more vterm_clear_more

lemma more_initialized:
  "vterm_state.more s = vterm_state.more s' \<Longrightarrow> vterm_initialized s = vterm_initialized s'"
  by (cases s; cases s') simp

text \<open>A call that succeeds in a state with terminals gives a good state again.\<close>

definition con_good :: "'a console_state_scheme \<Rightarrow> 'a console_state_scheme option \<Rightarrow> bool" where
  "con_good s r \<longleftrightarrow> (\<exists>s'. r = Some s' \<and> con_ok s' \<and> vterm_state.more s' = vterm_state.more s)"

lemma con_goodI:
  assumes "good r" and "\<And>s'. r = Some s' \<Longrightarrow> vterm_state.more s' = vterm_state.more s"
  shows "con_good s r"
  using assms by (auto simp: con_good_def con_ok_def good_def)

lemma con_good_serial:
  assumes "\<not> vterm_initialized s" and "vterm_state.more s' = vterm_state.more s"
  shows "con_good s (Some s')"
  using assms more_initialized [OF assms(2)] by (simp add: con_good_def con_ok_def)

lemma active_small: "vt_inv s \<Longrightarrow> vterm_get_active s = Some i \<Longrightarrow> i < 4"
  by (simp add: vt_inv_def vterm_get_active_def)

lemma console_putchar_good:
  assumes "con_ok s"
  shows "con_good s (console_putchar c s)"
proof (cases "vterm_initialized s")
  case True
  then have inv: "vt_inv s" "shown s" using assms by (simp_all add: con_ok_def)
  show ?thesis
    unfolding console_putchar_def using True active_small [OF inv(1)] vterm_putchar_good [OF inv]
    by (auto intro!: con_goodI dest: vterm_more)
qed (simp add: console_putchar_def con_good_serial)

lemma console_write_good:
  assumes "con_ok s"
  shows "con_good s (console_write str s)"
proof (cases "vterm_initialized s")
  case True
  then have inv: "vt_inv s" "shown s" using assms by (simp_all add: con_ok_def)
  show ?thesis
    unfolding console_write_def using True active_small [OF inv(1)] vterm_write_good [OF inv]
    by (auto intro!: con_goodI dest: vterm_more)
qed (simp add: console_write_def con_good_serial)

lemma console_write_dec_good:
  assumes "con_ok s"
  shows "con_good s (console_write_dec v s)"
proof (cases "vterm_initialized s")
  case True
  then have inv: "vt_inv s" "shown s" using assms by (simp_all add: con_ok_def)
  have "good (vterm_write_dec (vterm_get_active s) v s)"
    using active_small [OF inv(1)] vterm_write_good [OF inv, of "vterm_get_active s"]
      vterm_putchar_good [OF inv, of "vterm_get_active s"]
    by (simp add: vterm_write_dec_def vterm_get_active_def)
  then show ?thesis unfolding console_write_dec_def using True by (auto intro!: con_goodI dest: vterm_more)
qed (simp add: console_write_dec_def con_good_serial)

lemma console_clear_good:
  assumes "con_ok s"
  shows "con_good s (console_clear s)"
proof (cases "vterm_initialized s")
  case True
  then have inv: "vt_inv s" "shown s" using assms by (simp_all add: con_ok_def)
  have "good (vterm_clear (vterm_get_active s) s)"
    using active_small [OF inv(1)] unfolding vterm_clear_def vterm_get_active_def option.case
    by (intro upd_good [OF inv]) (auto simp: vterm_get_active_def vt_ok_def VTERM_BUFFER_SIZE_def)
  then show ?thesis unfolding console_clear_def using True by (auto intro!: con_goodI dest: vterm_more)
qed (simp add: console_clear_def con_good_serial)

lemma console_set_color_good:
  assumes "con_ok s"
  shows "con_good s (Some (console_set_color fg bg s))"
proof (cases "vterm_initialized s")
  case True
  then have inv: "vt_inv s" "shown s" using assms by (simp_all add: con_ok_def)
  have "good (Some (vterm_set_color (vterm_get_active s) fg bg s))"
    using vt_exec_good [OF inv, of "SetColor (active_terminal s) fg bg"] inv(1)
    by (simp add: vterm_get_active_def vterm_get_def VTERM_MAX_COUNT_def vt_inv_def)
  then show ?thesis
    unfolding console_set_color_def using True by (auto intro!: con_goodI simp: vterm_set_color_more)
qed (simp add: console_set_color_def con_good_serial)

lemma console_write_hex_good:
  assumes "con_ok s"
  shows "con_good s (console_write_hex v s)"
proof -
  obtain s1 where s1: "console_write ''0x'' s = Some s1" "con_ok s1" "vterm_state.more s1 = vterm_state.more s"
    using console_write_good [OF assms] by (auto simp: con_good_def)
  then show ?thesis using console_write_good [OF s1(2)] by (simp add: console_write_hex_def con_good_def)
qed

lemma con_exec_good: "con_ok s \<Longrightarrow> con_good s (con_exec op s)"
  by (cases op) (simp_all add: console_putchar_good console_write_good console_write_hex_good console_write_dec_good
      console_clear_good console_set_color_good)

interpretation con: safe_output con_exec con_run con_ok "vterm_state.more"
  by unfold_locales (use con_exec_good in \<open>auto simp: con_good_def\<close>)

end
