(* ===== verification/Log.thy ===== *)
theory Log
  imports Console
begin

text \<open>
  \<^verbatim>\<open>kernel/lib/log.c\<close>: the kernel log, a ring of the last 128 messages, its dump to the console, and formatted
  messages. Strings are lists of characters without the terminating zero.
\<close>

section \<open>The log\<close>

record log_entry =
  timestamp :: u32
  level :: u8
  message :: string

record log_state = console_state +
  log_buffer :: "log_entry list"
  log_head :: u32
  log_count :: u32
  tick_count :: u32

definition LOG_MAX_ENTRIES :: u32 where "LOG_MAX_ENTRIES = 128"
definition LOG_MAX_MSG_LEN :: nat where "LOG_MAX_MSG_LEN = 128"
definition LOG_LEVEL_DEBUG :: u8 where "LOG_LEVEL_DEBUG = 0"
definition LOG_LEVEL_INFO :: u8 where "LOG_LEVEL_INFO = 1"
definition LOG_LEVEL_WARN :: u8 where "LOG_LEVEL_WARN = 2"
definition LOG_LEVEL_ERROR :: u8 where "LOG_LEVEL_ERROR = 3"

definition zero_entry :: log_entry where
  "zero_entry = \<lparr>timestamp = 0, level = 0, message = []\<rparr>"

definition log_init :: "'a log_state_scheme \<Rightarrow> 'a log_state_scheme" where
  "log_init s = s\<lparr>log_buffer := replicate 128 zero_entry, log_head := 0, log_count := 0\<rparr>"

definition log_write :: "u8 \<Rightarrow> string option \<Rightarrow> 'a log_state_scheme \<Rightarrow> 'a log_state_scheme" where
  "log_write lv msg s =
     (case msg of
        None \<Rightarrow> s
      | Some m \<Rightarrow>
          s\<lparr>log_buffer := (log_buffer s)[unat (log_head s) :=
               \<lparr>timestamp = tick_count s, level = lv, message = take (LOG_MAX_MSG_LEN - 1) m\<rparr>],
            log_head := (log_head s + 1) mod LOG_MAX_ENTRIES,
            log_count := (if log_count s < LOG_MAX_ENTRIES then log_count s + 1 else log_count s)\<rparr>)"

definition log_debug :: "string option \<Rightarrow> 'a log_state_scheme \<Rightarrow> 'a log_state_scheme" where
  "log_debug = log_write LOG_LEVEL_DEBUG"

definition log_info :: "string option \<Rightarrow> 'a log_state_scheme \<Rightarrow> 'a log_state_scheme" where
  "log_info = log_write LOG_LEVEL_INFO"

definition log_warn :: "string option \<Rightarrow> 'a log_state_scheme \<Rightarrow> 'a log_state_scheme" where
  "log_warn = log_write LOG_LEVEL_WARN"

definition log_error :: "string option \<Rightarrow> 'a log_state_scheme \<Rightarrow> 'a log_state_scheme" where
  "log_error = log_write LOG_LEVEL_ERROR"

definition log_get_count :: "'a log_state_scheme \<Rightarrow> u32" where
  "log_get_count s = log_count s"

definition log_get_entry :: "u32 \<Rightarrow> 'a log_state_scheme \<Rightarrow> log_entry option" where
  "log_get_entry index s =
     (if index \<ge> log_count s then None
      else let actual_idx = (if log_count s < LOG_MAX_ENTRIES then index else (log_head s + index) mod LOG_MAX_ENTRIES)
           in Some (log_buffer s ! unat actual_idx))"

definition log_clear :: "'a log_state_scheme \<Rightarrow> 'a log_state_scheme" where
  "log_clear s = s\<lparr>log_buffer := replicate 128 zero_entry, log_head := 0, log_count := 0\<rparr>"

definition level_str :: "u8 \<Rightarrow> string" where
  "level_str lv =
     (if lv = LOG_LEVEL_DEBUG then ''DBG'' else if lv = LOG_LEVEL_INFO then ''INF''
      else if lv = LOG_LEVEL_WARN then ''WRN'' else if lv = LOG_LEVEL_ERROR then ''ERR'' else ''???'')"

section \<open>Dumping the log\<close>

text \<open>The colour of a level; other levels keep the current colour.\<close>

definition level_color :: "u8 \<Rightarrow> 'a log_state_scheme \<Rightarrow> 'a log_state_scheme" where
  "level_color lv s =
     (if lv = LOG_LEVEL_DEBUG then console_set_color 7 0 s
      else if lv = LOG_LEVEL_INFO then console_set_color 10 0 s
      else if lv = LOG_LEVEL_WARN then console_set_color 14 0 s
      else if lv = LOG_LEVEL_ERROR then console_set_color 12 0 s
      else s)"

definition dump_entry :: "log_entry \<Rightarrow> 'a log_state_scheme \<Rightarrow> 'a log_state_scheme option" where
  "dump_entry e s =
     (let secs = timestamp e div 100; ms = (timestamp e mod 100) * 10 in
      do {
        s \<leftarrow> console_write ''['' s;
        s \<leftarrow> console_write_dec secs s;
        s \<leftarrow> console_write ''.'' s;
        s \<leftarrow> (if ms < 100 then console_write ''0'' s else Some s);
        s \<leftarrow> (if ms < 10 then console_write ''0'' s else Some s);
        s \<leftarrow> console_write_dec ms s;
        s \<leftarrow> console_write ''] '' s;
        s \<leftarrow> console_write (level_str (level e)) (level_color (level e) s);
        s \<leftarrow> console_write '' '' (console_set_color 7 0 s);
        s \<leftarrow> console_write (message e) s;
        console_write [CHR 0x0A] s
      })"

primrec dump_loop :: "nat list \<Rightarrow> 'a log_state_scheme \<Rightarrow> 'a log_state_scheme option" where
  "dump_loop [] s = Some s"
| "dump_loop (i # is) s =
     (case log_get_entry (of_nat i) s of
        None \<Rightarrow> dump_loop is s
      | Some e \<Rightarrow> (case dump_entry e s of None \<Rightarrow> None | Some s \<Rightarrow> dump_loop is s))"

definition log_dump :: "'a log_state_scheme \<Rightarrow> 'a log_state_scheme option" where
  "log_dump s =
     (if log_count s = 0 then console_write (''Log is empty'' @ [CHR 0x0A]) s
      else do {
        s \<leftarrow> console_write (''=== System Log ==='' @ [CHR 0x0A]) s;
        s \<leftarrow> dump_loop [0..<unat (log_count s)] s;
        console_write (''=================='' @ [CHR 0x0A]) s
      })"

section \<open>Formatted messages\<close>

text \<open>
  The arguments of a formatted message. Fetching an argument of another type than the format asks for,
  reading past the end of the format, an overflow of the width and a hexadecimal field wider than
  the temporary array are \<^term>\<open>None\<close>.
\<close>

datatype fmt_arg = ArgInt int | ArgHex u32 | ArgStr "string option"

definition is_dec :: "char \<Rightarrow> bool" where
  "is_dec c \<longleftrightarrow> CHR ''0'' \<le> c \<and> c \<le> CHR ''9''"

definition width_of :: "string \<Rightarrow> nat" where
  "width_of ds = fold (\<lambda>c w. w * 10 + (of_char c - of_char (CHR ''0''))) ds 0"

lemma format_rest_shorter:
  assumes "fmt \<noteq> []"
  shows "length (dropWhile is_dec (tl fmt)) - Suc 0 < length fmt"
    and "length (dropWhile is_dec (tl (tl fmt))) - Suc 0 < length fmt"
  using assms length_dropWhile_le [of is_dec "tl fmt"] length_dropWhile_le [of is_dec "tl (tl fmt)"]
  by (cases fmt; simp)+

function format_loop :: "nat \<Rightarrow> string \<Rightarrow> fmt_arg list \<Rightarrow> string \<Rightarrow> string option" where
  "format_loop n fmt args out =
     (if fmt = [] \<or> length out \<ge> n then Some out
      else if hd fmt = CHR ''%'' \<and> tl fmt \<noteq> [] then
        let spec = (if hd (tl fmt) = CHR ''0'' then tl (tl fmt) else tl fmt);
            width = width_of (takeWhile is_dec spec);
            rest = dropWhile is_dec spec
        in if width \<ge> 2 ^ 31 \<or> rest = [] then None
           else if hd rest = CHR ''d'' \<or> hd rest = CHR ''u'' then
             (case args of
                ArgInt v # args' \<Rightarrow>
                  format_loop n (tl rest) args' (take n (out @ int_to_str_pad v (if width > 0 then int width else 1)))
              | _ \<Rightarrow> None)
           else if hd rest = CHR ''x'' then
             (case args of
                ArgHex v # args' \<Rightarrow>
                  if width \<ge> 16 then None
                  else format_loop n (tl rest) args' (take n (out @ int_to_hex_pad v (if width > 0 then width else 8)))
              | _ \<Rightarrow> None)
           else if hd rest = CHR ''s'' then
             (case args of
                ArgStr str # args' \<Rightarrow>
                  format_loop n (tl rest) args' (take n (out @ (case str of None \<Rightarrow> [] | Some cs \<Rightarrow> cs)))
              | _ \<Rightarrow> None)
           else format_loop n (tl rest) args (out @ [hd rest])
      else format_loop n (tl fmt) args (out @ [hd fmt]))"
  by pat_completeness auto
termination
  by (relation "measure (\<lambda>(n, fmt, args, out). length fmt)") (auto simp: format_rest_shorter)

declare format_loop.simps [simp del]

definition format_log_message :: "nat \<Rightarrow> string \<Rightarrow> fmt_arg list \<Rightarrow> string option" where
  "format_log_message buffer_size format args = format_loop (buffer_size - 1) format args []"

definition log_info_fmt :: "string \<Rightarrow> fmt_arg list \<Rightarrow> 'a log_state_scheme \<Rightarrow> 'a log_state_scheme option" where
  "log_info_fmt format args s =
     map_option (\<lambda>buffer. log_info (Some buffer) s) (format_log_message LOG_MAX_MSG_LEN format args)"

definition log_warn_fmt :: "string \<Rightarrow> fmt_arg list \<Rightarrow> 'a log_state_scheme \<Rightarrow> 'a log_state_scheme option" where
  "log_warn_fmt format args s =
     map_option (\<lambda>buffer. log_warn (Some buffer) s) (format_log_message LOG_MAX_MSG_LEN format args)"

definition log_error_fmt :: "string \<Rightarrow> fmt_arg list \<Rightarrow> 'a log_state_scheme \<Rightarrow> 'a log_state_scheme option" where
  "log_error_fmt format args s =
     map_option (\<lambda>buffer. log_error (Some buffer) s) (format_log_message LOG_MAX_MSG_LEN format args)"

section \<open>The ring keeps the last 128 messages\<close>

text \<open>
  The invariant of the ring and its abstraction, the entries in the order they were written. Until
  the ring is full the head equals the count; afterwards the head is the oldest entry.
\<close>

definition log_ok :: "'a log_state_scheme \<Rightarrow> bool" where
  "log_ok s \<longleftrightarrow>
     length (log_buffer s) = 128 \<and> unat (log_head s) < 128 \<and> unat (log_count s) \<le> 128 \<and>
     (log_count s < 128 \<longrightarrow> log_head s = log_count s)"

definition log_list :: "'a log_state_scheme \<Rightarrow> log_entry list" where
  "log_list s =
     (if log_count s < 128 then take (unat (log_count s)) (log_buffer s)
      else drop (unat (log_head s)) (log_buffer s) @ take (unat (log_head s)) (log_buffer s))"

definition new_entry :: "u32 \<Rightarrow> u8 \<Rightarrow> string \<Rightarrow> log_entry" where
  "new_entry ticks lv m = \<lparr>timestamp = ticks, level = lv, message = take 127 m\<rparr>"

definition last_n :: "nat \<Rightarrow> 'a list \<Rightarrow> 'a list" where
  "last_n n xs = drop (length xs - n) xs"

lemma last_n_snoc: "last_n n (last_n n xs @ [x]) = last_n n (xs @ [x])"
  by (cases "n \<le> length xs") (auto simp: last_n_def Suc_diff_le)

lemma last_n_full:
  assumes "length xs = n" and "0 < n"
  shows "last_n n (xs @ [x]) = tl xs @ [x]"
  using assms by (cases xs) (auto simp: last_n_def)

lemma last_n_all: "length xs \<le> n \<Longrightarrow> last_n n xs = xs"
  by (simp add: last_n_def)

lemma unat_next_head:
  assumes "unat h < 128"
  shows "unat ((h + 1) mod (128 :: u32)) = Suc (unat h) mod 128"
  using assms by (simp add: unat_mod unat_word_ariths)

lemma log_ok_init: "log_ok (log_init s)"
  by (simp add: log_ok_def log_init_def)

lemma log_list_init: "log_list (log_init s) = []"
  by (simp add: log_list_def log_init_def)

lemma log_list_length:
  assumes "log_ok s"
  shows "length (log_list s) = unat (log_count s)"
proof (cases "log_count s < 128")
  case True
  then show ?thesis using assms by (auto simp: log_list_def log_ok_def word_less_nat_alt)
next
  case False
  then have "unat (log_count s) = 128" using assms by (simp add: log_ok_def word_less_nat_alt)
  then show ?thesis using assms False by (auto simp: log_list_def log_ok_def)
qed

lemma log_get_entry_nth:
  assumes "log_ok s"
  shows "log_get_entry i s = (if unat i < unat (log_count s) then Some (log_list s ! unat i) else None)"
proof (cases "log_count s < 128")
  case True
  then show ?thesis
    using assms by (auto simp: log_get_entry_def log_list_def log_ok_def LOG_MAX_ENTRIES_def word_le_nat_alt)
next
  case full: False
  then have count: "unat (log_count s) = 128" using assms by (simp add: log_ok_def word_less_nat_alt)
  let ?h = "unat (log_head s)"
  have ring: "length (log_buffer s) = 128" "?h < 128" using assms by (auto simp: log_ok_def)
  show ?thesis
  proof (cases "unat i < 128")
    case True
    have "unat (log_head s + i) = ?h + unat i" using ring True by (simp add: unat_word_ariths)
    then have "unat ((log_head s + i) mod 128) = (?h + unat i) mod 128" by (simp add: unat_mod)
    moreover have "(?h + unat i) mod 128 = (if ?h + unat i < 128 then ?h + unat i else ?h + unat i - 128)"
      using ring True by (simp add: mod_if)
    ultimately show ?thesis
      using ring True full count
      by (auto simp: log_get_entry_def log_list_def LOG_MAX_ENTRIES_def word_le_nat_alt nth_append add.commute)
  next
    case False
    then show ?thesis using count by (simp add: log_get_entry_def word_le_nat_alt)
  qed
qed

lemma log_ok_write: "log_ok s \<Longrightarrow> log_ok (log_write lv msg s)"
  apply (cases msg)
   apply (simp add: log_write_def)
  apply (simp add: log_ok_def log_write_def LOG_MAX_ENTRIES_def unat_next_head)
  apply (auto simp: word_less_nat_alt unat_word_ariths word_unat_eq_iff unat_mod)
  done

lemma take_Suc_update: "n < length xs \<Longrightarrow> take (Suc n) (xs[n := x]) = take n xs @ [x]"
  by (simp add: take_Suc_conv_app_nth)

lemma log_list_write:
  assumes "log_ok s"
  shows "log_list (log_write lv (Some m) s) = last_n 128 (log_list s @ [new_entry (tick_count s) lv m])"
proof -
  let ?h = "unat (log_head s)" and ?b = "log_buffer s" and ?e = "new_entry (tick_count s) lv m"
  let ?s = "log_write lv (Some m) s"
  have ring: "length ?b = 128" "?h < 128" using assms by (auto simp: log_ok_def)
  have buf: "log_buffer ?s = ?b[?h := ?e]" and head: "unat (log_head ?s) = Suc ?h mod 128"
    using ring by (simp_all add: log_write_def new_entry_def LOG_MAX_MSG_LEN_def LOG_MAX_ENTRIES_def unat_next_head)
  have whole: "?b[?h := ?e] = take ?h ?b @ [?e]" if "\<not> Suc ?h < 128"
    using that ring take_Suc_update [of ?h ?b ?e] by simp
  show ?thesis
  proof (cases "log_count s < 128")
    case True
    then have same: "unat (log_count s) = ?h" using assms by (simp add: log_ok_def)
    have "unat (log_count s + 1) = Suc ?h" using same ring by (simp add: unat_word_ariths)
    then have count: "unat (log_count ?s) = Suc ?h"
      using True by (simp add: log_write_def LOG_MAX_ENTRIES_def)
    have old: "log_list s = take ?h ?b" using True same by (simp add: log_list_def)
    show ?thesis
    proof (cases "Suc ?h < 128")
      case True
      then have "log_list ?s = take (Suc ?h) (?b[?h := ?e])"
        by (simp add: log_list_def buf count word_less_nat_alt)
      then show ?thesis using ring True by (simp add: old take_Suc_update last_n_all)
    next
      case False
      then have h: "?h = 127" using ring by simp
      then have "log_list ?s = ?b[?h := ?e]"
        using ring by (simp add: log_list_def buf count head word_less_nat_alt)
      then show ?thesis using ring whole h by (simp add: old last_n_all)
    qed
  next
    case False
    then have count: "log_count ?s = log_count s" by (simp add: log_write_def LOG_MAX_ENTRIES_def)
    have "log_list s = drop ?h ?b @ take ?h ?b" using False by (simp add: log_list_def)
    moreover have "tl (drop ?h ?b @ take ?h ?b) = drop (Suc ?h) ?b @ take ?h ?b"
      using ring by (subst Cons_nth_drop_Suc [symmetric]) simp_all
    ultimately have old: "last_n 128 (log_list s @ [?e]) = drop (Suc ?h) ?b @ take ?h ?b @ [?e]"
      using ring last_n_full [of "log_list s" 128 ?e] by simp
    have new: "log_list ?s = drop (Suc ?h mod 128) (?b[?h := ?e]) @ take (Suc ?h mod 128) (?b[?h := ?e])"
      using False by (simp add: log_list_def buf count head)
    show ?thesis
    proof (cases "Suc ?h < 128")
      case True
      then show ?thesis using ring by (simp add: new old take_Suc_update)
    next
      case False
      then have h: "?h = 127" using ring by simp
      show ?thesis using whole False ring by (simp add: new old h)
    qed
  qed
qed

text \<open>A run of the log: each write happens at a tick of the timer, which only the timer interrupt advances.\<close>

definition log_event :: "u32 \<times> u8 \<times> string \<Rightarrow> 'a log_state_scheme \<Rightarrow> 'a log_state_scheme" where
  "log_event ev s = (case ev of (ticks, lv, m) \<Rightarrow> log_write lv (Some m) (s\<lparr>tick_count := ticks\<rparr>))"

definition event_entry :: "u32 \<times> u8 \<times> string \<Rightarrow> log_entry" where
  "event_entry ev = (case ev of (ticks, lv, m) \<Rightarrow> new_entry ticks lv m)"

lemma log_ok_event:
  assumes "log_ok s"
  shows "log_ok (log_event ev s)"
proof -
  obtain t lv m where ev: "ev = (t, lv, m)" by (cases ev)
  have "log_ok (s\<lparr>tick_count := t\<rparr>)" using assms by (simp add: log_ok_def)
  then show ?thesis by (simp add: ev log_event_def log_ok_write)
qed

lemma log_list_event:
  assumes "log_ok s"
  shows "log_list (log_event ev s) = last_n 128 (log_list s @ [event_entry ev])"
proof -
  obtain t lv m where ev: "ev = (t, lv, m)" by (cases ev)
  have ok: "log_ok (s\<lparr>tick_count := t\<rparr>)" and same: "log_list (s\<lparr>tick_count := t\<rparr>) = log_list s"
    using assms by (simp_all add: log_ok_def log_list_def)
  show ?thesis using log_list_write [OF ok, of lv m] by (simp add: ev log_event_def event_entry_def same)
qed

lemma log_list_events:
  assumes "log_ok s" and "length (log_list s) \<le> 128"
  shows "log_ok (fold log_event evs s) \<and>
    log_list (fold log_event evs s) = last_n 128 (log_list s @ map event_entry evs)"
proof (induction evs rule: rev_induct)
  case Nil
  then show ?case using assms by (simp add: last_n_all)
next
  case (snoc ev evs)
  then show ?case by (simp add: log_ok_event log_list_event last_n_snoc flip: append_assoc)
qed

text \<open>
  C25: After \<^verbatim>\<open>log_init\<close> and any sequence of writes, the log is the sequence of the last 128 messages: entry
  \<^verbatim>\<open>i\<close> is the \<^verbatim>\<open>i\<close>-th of them, oldest first, with its timestamp and level and its text cut to 127 characters,
  and an index beyond them gives no entry.
\<close>
theorem log_keeps_last:
  fixes s :: "'a log_state_scheme"
  shows "log_get_entry i (fold log_event evs (log_init s)) =
    (let kept = last_n 128 (map event_entry evs)
     in if unat i < length kept then Some (kept ! unat i) else None)"
proof -
  let ?s = "fold log_event evs (log_init s)"
  have ok: "log_ok ?s" and list: "log_list ?s = last_n 128 (map event_entry evs)"
    using log_list_events [OF log_ok_init, of s evs] by (simp_all add: log_list_init)
  show ?thesis using log_get_entry_nth [OF ok, of i] log_list_length [OF ok] by (simp add: list Let_def)
qed

section \<open>Formatted messages stay inside the buffer\<close>

text \<open>A formatted message always fits the buffer with its terminating zero.\<close>

lemma format_loop_bound:
  "\<lbrakk>format_loop n fmt args out = Some str; length out \<le> n\<rbrakk> \<Longrightarrow> length str \<le> n"
proof (induction n fmt args out rule: format_loop.induct)
  case (1 n fmt args out)
  note IH = 1(1-5) and body = 1(6) [unfolded format_loop.simps [of n fmt args out]] and room = 1(7)
  show ?case
  proof (cases "fmt = [] \<or> n \<le> length out")
    case True
    then show ?thesis using body room by auto
  next
    case False
    then have one: "length (out @ [c]) \<le> n" for c using room by simp
    show ?thesis
    proof (cases "hd fmt = CHR ''%'' \<and> tl fmt \<noteq> []")
      case True
      then show ?thesis
        using body IH(1) [OF False True refl refl refl] IH(2) [OF False True refl refl refl]
          IH(3) [OF False True refl refl refl] IH(4) [OF False True refl refl refl _ _ _ _ _ one] False
        by (auto simp: Let_def split: if_splits list.splits fmt_arg.splits)
    next
      case plain: False
      then show ?thesis using body IH(5) [OF False plain _ one] False by auto
    qed
  qed
qed

lemma format_log_message_fits:
  assumes "format_log_message len fmt args = Some str"
  shows "length str \<le> len - 1"
  using assms format_loop_bound [of "len - 1" fmt args "[]" str] by (simp add: format_log_message_def)

end
