(* ===== verification/Basic.thy ===== *)
theory Basic
  imports Console
begin

text \<open>
  \<^verbatim>\<open>kernel/ui/basic.c\<close>: the BASIC interpreter, its program memory and the interactive mode. The characters
  that \<^verbatim>\<open>keyboard_getchar\<close> will return are an argument of the functions that read keys. A computation
  stops with a reason instead of a result when the code has no defined result: an overflow of a
  signed integer, an access outside a buffer, calls nested deeper than the fuel, or waiting for a
  key that is not pressed.
\<close>

section \<open>Results\<close>

datatype stop = Overflow | BadAccess | NoReturn | Waiting

definition andThen :: "stop + 'a \<Rightarrow> ('a \<Rightarrow> stop + 'b) \<Rightarrow> stop + 'b" where
  "andThen r f = (case r of Inl e \<Rightarrow> Inl e | Inr x \<Rightarrow> f x)"

lemma andThen_simps [simp]: "andThen (Inl e) f = Inl e" "andThen (Inr x) f = f x"
  by (simp_all add: andThen_def)

lemma andThen_Inr: "andThen r f = Inr y \<longleftrightarrow> (\<exists>x. r = Inr x \<and> f x = Inr y)"
  by (cases r) simp_all

lemma andThen_Inl: "andThen r f = Inl e \<longleftrightarrow> r = Inl e \<or> (\<exists>x. r = Inr x \<and> f x = Inl e)"
  by (cases r) simp_all

definition emit :: "con_op list \<Rightarrow> 'a console_state_scheme \<Rightarrow> stop + 'a console_state_scheme" where
  "emit ops s = (case con_run ops s of None \<Rightarrow> Inl BadAccess | Some s \<Rightarrow> Inr s)"

section \<open>State\<close>

definition BASIC_MAX_VARS :: nat where "BASIC_MAX_VARS = 26"
definition BASIC_MAX_LINE_LEN :: nat where "BASIC_MAX_LINE_LEN = 128"
definition BASIC_MAX_PROGRAM_LINES :: u32 where "BASIC_MAX_PROGRAM_LINES = 100"

text \<open>A line of the program is the string up to its terminating zero.\<close>

record basic_state = console_state +
  variables :: "int list"
  program :: "string list"
  line_numbers :: "u32 list"
  line_count :: u32
  b_pc :: u32
  stack_ptr :: u32
  b_running :: bool

section \<open>Scanning\<close>

definition is_space :: "char \<Rightarrow> bool" where
  "is_space c \<longleftrightarrow> c = CHR '' '' \<or> c = CHR 0x09"

definition is_digit :: "char \<Rightarrow> bool" where
  "is_digit c \<longleftrightarrow> (of_char c :: nat) \<ge> 48 \<and> (of_char c :: nat) \<le> 57"

definition is_upper :: "char \<Rightarrow> bool" where
  "is_upper c \<longleftrightarrow> (of_char c :: nat) \<ge> 65 \<and> (of_char c :: nat) \<le> 90"

definition skip_spaces :: "string \<Rightarrow> string" where
  "skip_spaces str = dropWhile is_space str"

fun str_starts_with :: "string \<Rightarrow> string \<Rightarrow> bool" where
  "str_starts_with str [] = True"
| "str_starts_with [] (p # ps) = False"
| "str_starts_with (c # cs) (p # ps) = (c = p \<and> str_starts_with cs ps)"

text \<open>The characters at a position: the terminating zero ends the string.\<close>

definition starts :: "(char \<Rightarrow> bool) \<Rightarrow> string \<Rightarrow> bool" where
  "starts P str = (case str of [] \<Rightarrow> False | c # _ \<Rightarrow> P c)"

fun digits_value :: "string \<Rightarrow> int \<Rightarrow> stop + int" where
  "digits_value [] acc = Inr acc"
| "digits_value (c # cs) acc =
     (if is_digit c
      then let v = acc * 10 + (of_char c - 48) in if v \<ge> 2 ^ 31 then Inl Overflow else digits_value cs v
      else Inr acc)"

definition str_to_int :: "string \<Rightarrow> stop + int" where
  "str_to_int str =
     (let str = skip_spaces str in
      if starts (\<lambda>c. c = CHR ''-'') str
      then andThen (digits_value (tl str) 0) (\<lambda>v. Inr (v * -1))
      else andThen (digits_value str 0) (\<lambda>v. Inr (v * 1)))"

definition var_index :: "char \<Rightarrow> nat" where
  "var_index c = of_char c - 65"

definition evaluate_expression :: "string \<Rightarrow> 'a basic_state_scheme \<Rightarrow> stop + int" where
  "evaluate_expression expr s =
     (let expr = skip_spaces expr in
      if starts is_upper expr then Inr (variables s ! var_index (hd expr))
      else if starts (\<lambda>c. c = CHR ''-'') expr \<or> starts is_digit expr then str_to_int expr
      else Inr 0)"

section \<open>Statements\<close>

definition basic_init :: "'a basic_state_scheme \<Rightarrow> 'a basic_state_scheme" where
  "basic_init s = s\<lparr>variables := replicate BASIC_MAX_VARS 0, line_count := 0, b_pc := 0, stack_ptr := 0, b_running := False\<rparr>"

definition execute_print :: "string \<Rightarrow> 'a basic_state_scheme \<Rightarrow> stop + int \<times> 'a basic_state_scheme" where
  "execute_print line s =
     (let line = skip_spaces line in
      andThen
        (if starts (\<lambda>c. c = CHR 0x22) line
         then emit (map (\<lambda>c. Put (of_char c)) (takeWhile (\<lambda>c. c \<noteq> CHR 0x22) (tl line))) s
         else if line \<noteq> [] then andThen (evaluate_expression line s) (\<lambda>v. emit [Dec (word_of_int v)] s)
         else Inr s)
        (\<lambda>s. andThen (emit [Put 0x0A] s) (\<lambda>s. Inr (0, s))))"

definition execute_let :: "string \<Rightarrow> 'a basic_state_scheme \<Rightarrow> stop + int \<times> 'a basic_state_scheme" where
  "execute_let line s =
     (let line = skip_spaces line in
      if \<not> starts is_upper line then Inr (-1, s)
      else let var = hd line; line = skip_spaces (tl line) in
        if \<not> starts (\<lambda>c. c = CHR ''='') line then Inr (-1, s)
        else andThen (evaluate_expression (tl line) s)
          (\<lambda>v. Inr (0, s\<lparr>variables := (variables s)[var_index var := v]\<rparr>)))"

section \<open>The program memory\<close>

text \<open>
  \<^verbatim>\<open>strncpy(program[i], str, 128)\<close>: for a string shorter than 128 characters \<^verbatim>\<open>strncpy\<close> stores 129 bytes,
  the last of which is the first byte of the next line, or for the last line the low byte of the
  first line number.
\<close>

definition copy_line :: "nat \<Rightarrow> string \<Rightarrow> 'a basic_state_scheme \<Rightarrow> 'a basic_state_scheme" where
  "copy_line i str s =
     (let s = s\<lparr>program := (program s)[i := take BASIC_MAX_LINE_LEN str]\<rparr> in
      if \<not> length str < BASIC_MAX_LINE_LEN then s
      else if Suc i < 100 then s\<lparr>program := (program s)[Suc i := []]\<rparr>
      else s\<lparr>line_numbers := (line_numbers s)[0 := line_numbers s ! 0 AND NOT 0xFF]\<rparr>)"

text \<open>The index where a line goes, and whether it replaces the line there.\<close>

fun line_slot :: "u32 \<Rightarrow> u32 list \<Rightarrow> nat \<Rightarrow> nat \<times> bool" where
  "line_slot n [] i = (i, False)"
| "line_slot n (m # ms) i = (if m = n then (i, True) else if m > n then (i, False) else line_slot n ms (Suc i))"

definition shift_line :: "nat \<Rightarrow> 'a basic_state_scheme \<Rightarrow> 'a basic_state_scheme" where
  "shift_line i s =
     (let s = s\<lparr>line_numbers := (line_numbers s)[i := line_numbers s ! (i - 1)]\<rparr> in copy_line i (program s ! (i - 1)) s)"

definition set_line :: "nat \<Rightarrow> string \<Rightarrow> 'a basic_state_scheme \<Rightarrow> 'a basic_state_scheme" where
  "set_line i line s = s\<lparr>program := (program s)[i := take (BASIC_MAX_LINE_LEN - 1) line]\<rparr>"

definition basic_add_line :: "u32 \<Rightarrow> string \<Rightarrow> 'a basic_state_scheme \<Rightarrow> int \<times> 'a basic_state_scheme" where
  "basic_add_line line_num line s =
     (if line_count s \<ge> BASIC_MAX_PROGRAM_LINES then (-1, s)
      else let n = unat (line_count s); (i, found) = line_slot line_num (take n (line_numbers s)) 0 in
        if found then (0, set_line i line s)
        else let s = fold shift_line (rev [Suc i..<Suc n]) s;
                 s = s\<lparr>line_numbers := (line_numbers s)[i := line_num]\<rparr>
             in (0, (set_line i line s)\<lparr>line_count := line_count s + 1\<rparr>))"

definition basic_list_program :: "'a basic_state_scheme \<Rightarrow> stop + 'a basic_state_scheme" where
  "basic_list_program s =
     andThen (emit [Str ([CHR 0x0A] @ ''=== Program Listing ==='' @ [CHR 0x0A])] s)
       (\<lambda>s. if line_count s = 0 then emit [Str (''(empty)'' @ [CHR 0x0A])] s
            else emit (concat (map (\<lambda>i. [Dec (line_numbers s ! i), Str '' '', Str (program s ! i), Str [CHR 0x0A]])
                  [0..<unat (line_count s)])) s)"

definition basic_clear_program :: "'a basic_state_scheme \<Rightarrow> stop + 'a basic_state_scheme" where
  "basic_clear_program s = emit [Str (''Program cleared'' @ [CHR 0x0A])] (s\<lparr>line_count := 0\<rparr>)"

section \<open>Running\<close>

text \<open>
  The loop over the lines of the program, for a given way to execute a line; the fuel bounds the number of
  its rounds.
\<close>

primrec run_loop ::
    "(string option \<Rightarrow> 'a basic_state_scheme \<Rightarrow> stop + int \<times> 'a basic_state_scheme) \<Rightarrow> nat \<Rightarrow>
      'a basic_state_scheme \<Rightarrow> stop + 'a basic_state_scheme" where
  "run_loop exec 0 s = Inl NoReturn"
| "run_loop exec (Suc fuel) s =
     (if b_pc s < line_count s \<and> b_running s
      then andThen (exec (Some (program s ! unat (b_pc s))) s)
        (\<lambda>(r, s). if r < 0
           then andThen (emit [Str ''Error at line '', Dec (line_numbers s ! unat (b_pc s)), Str [CHR 0x0A]] s)
                  (\<lambda>s. Inr (s\<lparr>b_running := False\<rparr>))
           else run_loop exec fuel (s\<lparr>b_pc := b_pc s + 1\<rparr>))
      else Inr (s\<lparr>b_running := False\<rparr>))"

text \<open>
  A line may be \<^verbatim>\<open>RUN\<close>, also within the program, so that executing a line runs the program, which executes
  lines. The fuel bounds the depth of these nested calls as well.
\<close>

fun basic_execute_line :: "nat \<Rightarrow> string option \<Rightarrow> 'a basic_state_scheme \<Rightarrow> stop + int \<times> 'a basic_state_scheme" where
  "basic_execute_line 0 line0 s = Inl NoReturn"
| "basic_execute_line (Suc fuel) line0 s =
     (case line0 of
        None \<Rightarrow> Inr (-1, s)
      | Some str \<Rightarrow>
          let line = skip_spaces str in
          if line = [] then Inr (0, s)
          else if str_starts_with line ''PRINT'' then execute_print (drop 5 line) s
          else if str_starts_with line ''LET'' then execute_let (drop 3 line) s
          else if is_upper (hd line) \<and> starts (\<lambda>c. c = CHR ''='') (skip_spaces (tl line)) then execute_let line s
          else if str_starts_with line ''RUN''
          then andThen (run_loop (basic_execute_line fuel) fuel (s\<lparr>b_running := True, b_pc := 0\<rparr>)) (\<lambda>s. Inr (0, s))
          else if str_starts_with line ''LIST'' then andThen (basic_list_program s) (\<lambda>s. Inr (0, s))
          else if str_starts_with line ''CLEAR'' then andThen (basic_clear_program s) (\<lambda>s. Inr (0, s))
          else Inr (-1, s))"

definition basic_run_program :: "nat \<Rightarrow> 'a basic_state_scheme \<Rightarrow> stop + 'a basic_state_scheme" where
  "basic_run_program fuel s = run_loop (basic_execute_line fuel) fuel (s\<lparr>b_running := True, b_pc := 0\<rparr>)"

section \<open>Interactive mode\<close>

text \<open>Reading a line of at most \<open>cap - 1\<close> printable characters with echo; the rest of the keys is returned too.\<close>

fun read_line :: "nat \<Rightarrow> u8 list \<Rightarrow> string \<Rightarrow> 'a console_state_scheme \<Rightarrow> stop + string \<times> u8 list \<times> 'a console_state_scheme" where
  "read_line cap [] buf s = Inl Waiting"
| "read_line cap (c # keys) buf s =
     (if c = 0x0A then andThen (emit [Put 0x0A] s) (\<lambda>s. Inr (buf, keys, s))
      else if c = 0x08 then
        if buf \<noteq> [] then andThen (emit [Put 0x08, Put 0x20, Put 0x08] s) (\<lambda>s. read_line cap keys (butlast buf) s)
        else read_line cap keys buf s
      else if 0x20 \<le> c \<and> c < 0x7F \<and> length buf < cap - 1
      then andThen (emit [Put c] s) (\<lambda>s. read_line cap keys (buf @ [char_of (unat c)]) s)
      else read_line cap keys buf s)"

lemma read_line_shorter:
  "read_line cap keys buf s = Inr (line, keys', s') \<Longrightarrow> length keys' < length keys"
  by (induction cap keys buf s rule: read_line.induct) (auto simp: andThen_Inr less_SucI split: if_splits)

function interactive_loop :: "nat \<Rightarrow> u8 list \<Rightarrow> 'a basic_state_scheme \<Rightarrow> stop + u8 list \<times> 'a basic_state_scheme" where
  "interactive_loop fuel keys s =
     (case andThen (emit [Str ''] ''] s) (read_line BASIC_MAX_LINE_LEN keys []) of
        Inl e \<Rightarrow> Inl e
      | Inr (line, keys', s) \<Rightarrow>
          if str_starts_with line ''EXIT'' then Inr (keys', s)
          else let p = skip_spaces line in
            if starts is_digit p then
              (case str_to_int p of
                 Inl e \<Rightarrow> Inl e
               | Inr line_num \<Rightarrow>
                   let (r, s) = basic_add_line (word_of_int line_num) (skip_spaces (dropWhile is_digit p)) s in
                   if r < 0
                   then (case emit [Str (''Error: Program full'' @ [CHR 0x0A])] s of
                           Inl e \<Rightarrow> Inl e | Inr s \<Rightarrow> interactive_loop fuel keys' s)
                   else interactive_loop fuel keys' s)
            else
              (case basic_execute_line fuel (Some line) s of
                 Inl e \<Rightarrow> Inl e
               | Inr (r, s) \<Rightarrow>
                   if r < 0
                   then (case emit [Str (''Syntax error'' @ [CHR 0x0A])] s of
                           Inl e \<Rightarrow> Inl e | Inr s \<Rightarrow> interactive_loop fuel keys' s)
                   else interactive_loop fuel keys' s))"
  by pat_completeness auto
termination
  by (relation "measure (\<lambda>(fuel, keys, s). length keys)") (auto simp: andThen_Inr dest!: read_line_shorter)

declare interactive_loop.simps [simp del]

definition basic_interactive_mode :: "nat \<Rightarrow> u8 list \<Rightarrow> 'a basic_state_scheme \<Rightarrow> stop + u8 list \<times> 'a basic_state_scheme" where
  "basic_interactive_mode fuel keys s =
     andThen (emit [Str ([CHR 0x0A] @ ''mexOS BASIC Interpreter'' @ [CHR 0x0A]),
         Str (''Commands: PRINT, LET, RUN, LIST, CLEAR'' @ [CHR 0x0A]),
         Str (''Type '' @ [CHR 0x27] @ ''EXIT'' @ [CHR 0x27] @ '' to quit'' @ [CHR 0x0A, CHR 0x0A])] s)
       (interactive_loop fuel keys)"

section \<open>The program memory as a list of lines\<close>

definition basic_ok :: "'a basic_state_scheme \<Rightarrow> bool" where
  "basic_ok s \<longleftrightarrow>
     length (variables s) = 26 \<and> length (program s) = 100 \<and> length (line_numbers s) = 100 \<and>
     unat (line_count s) \<le> 100 \<and> sorted_wrt (<) (take (unat (line_count s)) (line_numbers s)) \<and>
     (\<forall>i < unat (line_count s). length (program s ! i) < 128)"

definition lines_of :: "'a basic_state_scheme \<Rightarrow> (u32 \<times> string) list" where
  "lines_of s = zip (take (unat (line_count s)) (line_numbers s)) (take (unat (line_count s)) (program s))"

definition blank_text :: "u32 \<times> string \<Rightarrow> u32 \<times> string" where
  "blank_text l = (fst l, [])"

lemma fst_blank_text [simp]: "fst (blank_text l) = fst l" "fst \<circ> blank_text = fst"
  by (auto simp: blank_text_def)

text \<open>
  What adding a line does to the list of lines. A line in front of others is inserted, but of the
  lines behind it only the first keeps its text.
\<close>

fun insert_line :: "u32 \<Rightarrow> string \<Rightarrow> (u32 \<times> string) list \<Rightarrow> (u32 \<times> string) list" where
  "insert_line n t [] = [(n, t)]"
| "insert_line n t ((m, u) # ls) =
     (if m = n then (n, t) # ls
      else if m > n then (n, t) # (m, u) # map blank_text ls
      else (m, u) # insert_line n t ls)"

lemma line_slot_bounds:
  "line_slot n ms i = (j, found) \<Longrightarrow> i \<le> j \<and> j \<le> i + length ms \<and> (found \<longrightarrow> j < i + length ms)"
  by (induction n ms i rule: line_slot.induct) (auto split: if_splits)

text \<open>The lines after shifting the lines from index \<open>a\<close> up to \<open>c\<close> up by one.\<close>

definition shifted_numbers :: "nat \<Rightarrow> nat \<Rightarrow> u32 list \<Rightarrow> u32 list" where
  "shifted_numbers a c ns = map (\<lambda>i. if a < i \<and> i \<le> c then ns ! (i - 1) else ns ! i) [0..<100]"

definition shifted_lines :: "nat \<Rightarrow> nat \<Rightarrow> string list \<Rightarrow> string list" where
  "shifted_lines a c ps =
     map (\<lambda>i. if i = Suc a then ps ! a else if Suc a < i \<and> i \<le> Suc c then [] else ps ! i) [0..<100]"

lemma shifted_length [simp]: "length (shifted_numbers a c ns) = 100" "length (shifted_lines a c ps) = 100"
  by (simp_all add: shifted_numbers_def shifted_lines_def del: upt_rec_numeral)

lemma shifted_nth [simp]:
  assumes "i < 100"
  shows "shifted_numbers a c ns ! i = (if a < i \<and> i \<le> c then ns ! (i - 1) else ns ! i)"
    and "shifted_lines a c ps ! i = (if i = Suc a then ps ! a else if Suc a < i \<and> i \<le> Suc c then [] else ps ! i)"
  using assms by (simp_all add: shifted_numbers_def shifted_lines_def del: upt_rec_numeral)

lemma shift_line_simp:
  assumes "Suc i < 100" and "length (program s ! (i - 1)) < 128"
  shows "shift_line i s = s\<lparr>line_numbers := (line_numbers s)[i := line_numbers s ! (i - 1)],
    program := (program s)[i := program s ! (i - 1), Suc i := []]\<rparr>"
  using assms by (simp add: shift_line_def copy_line_def BASIC_MAX_LINE_LEN_def Let_def)

lemma shift_lines:
  assumes "length (program s) = 100" and "length (line_numbers s) = 100" and "c < 99" and "a < c"
    and "\<forall>i < c. length (program s ! i) < 128"
  shows "fold shift_line (rev [Suc a..<Suc c]) s =
    s\<lparr>line_numbers := shifted_numbers a c (line_numbers s), program := shifted_lines a c (program s)\<rparr>"
  using assms
proof (induction c arbitrary: s)
  case (Suc c)
  let ?s = "s\<lparr>line_numbers := (line_numbers s)[Suc c := line_numbers s ! c],
    program := (program s)[Suc c := program s ! c, Suc (Suc c) := []]\<rparr>"
  have first: "fold shift_line (rev [Suc a..<Suc (Suc c)]) s = fold shift_line (rev [Suc a..<Suc c]) ?s"
    using Suc.prems by (simp add: shift_line_simp)
  show ?case
  proof (cases "a < c")
    case True
    have "\<forall>i < c. length (program ?s ! i) < 128" using Suc.prems by simp
    then have "fold shift_line (rev [Suc a..<Suc c]) ?s =
        ?s\<lparr>line_numbers := shifted_numbers a c (line_numbers ?s), program := shifted_lines a c (program ?s)\<rparr>"
      using Suc.prems True by (intro Suc.IH) simp_all
    moreover have "shifted_numbers a c (line_numbers ?s) = shifted_numbers a (Suc c) (line_numbers s)"
      using Suc.prems True by (intro nth_equalityI) (auto simp: nth_list_update)
    moreover have "shifted_lines a c (program ?s) = shifted_lines a (Suc c) (program s)"
      using Suc.prems True by (intro nth_equalityI) (auto simp: nth_list_update)
    ultimately show ?thesis by (simp add: first del: upt_Suc)
  next
    case False
    then have a: "a = c" using Suc.prems by simp
    have "line_numbers ?s = shifted_numbers c (Suc c) (line_numbers s)"
      using Suc.prems by (intro nth_equalityI) (auto simp: nth_list_update)
    moreover have "program ?s = shifted_lines c (Suc c) (program s)"
      using Suc.prems by (intro nth_equalityI) (auto simp: nth_list_update)
    ultimately show ?thesis unfolding first by (simp add: a)
  qed
next
  case 0
  then show ?case by (metis less_nat_zero_code)
qed

text \<open>Inserting in front of line \<open>i\<close>, on the list of lines.\<close>

lemma insert_line_slot:
  assumes "line_slot n (map fst ls) k = (j, found)"
  shows "insert_line n t ls =
    (if found then ls[j - k := (n, t)]
     else take (j - k) ls @ (n, t) # take 1 (drop (j - k) ls) @ map blank_text (drop (Suc (j - k)) ls))"
  using assms
proof (induction ls arbitrary: k j)
  case (Cons l ls)
  obtain m u where l: "l = (m, u)" by (cases l)
  show ?case
  proof (cases "m = n \<or> m > n")
    case True
    then show ?thesis using Cons.prems by (auto simp: l split: if_splits)
  next
    case False
    then have slot: "line_slot n (map fst ls) (Suc k) = (j, found)" using Cons.prems by (simp add: l)
    then have "Suc k \<le> j" using line_slot_bounds by blast
    then have "j - k = Suc (j - Suc k)" by simp
    then show ?thesis using False Cons.IH [OF slot] by (simp add: l)
  qed
qed simp

lemma lines_of_length [simp]: "basic_ok s \<Longrightarrow> length (lines_of s) = unat (line_count s)"
  by (simp add: lines_of_def basic_ok_def)

lemma map_fst_lines: "basic_ok s \<Longrightarrow> map fst (lines_of s) = take (unat (line_count s)) (line_numbers s)"
  by (simp add: lines_of_def basic_ok_def)

lemma lines_of_nth: "i < unat (line_count s) \<Longrightarrow> basic_ok s \<Longrightarrow> lines_of s ! i = (line_numbers s ! i, program s ! i)"
  by (simp add: lines_of_def basic_ok_def)

text \<open>Replacing the text of a line.\<close>

lemma lines_of_set_line:
  assumes "basic_ok s" and "i < unat (line_count s)"
  shows "lines_of (set_line i t s) = (lines_of s)[i := (line_numbers s ! i, take 127 t)]"
  using assms by (intro nth_equalityI) (auto simp: lines_of_def basic_ok_def set_line_def BASIC_MAX_LINE_LEN_def nth_list_update)

lemma line_slot_found:
  "line_slot n ms k = (j, True) \<Longrightarrow> k \<le> j \<and> j - k < length ms \<and> ms ! (j - k) = n"
proof (induction n ms k rule: line_slot.induct)
  case (2 n m ms i)
  show ?case
  proof (cases "m = n \<or> m > n")
    case True
    then show ?thesis using 2 by (auto split: if_splits)
  next
    case False
    then have IH: "Suc i \<le> j" "j - Suc i < length ms" "ms ! (j - Suc i) = n" using 2 by auto
    then have "j - i = Suc (j - Suc i)" by arith
    then show ?thesis using IH by simp
  qed
qed simp

text \<open>The state after inserting a new line at index \<open>i\<close>.\<close>

definition inserted :: "nat \<Rightarrow> u32 \<Rightarrow> string \<Rightarrow> 'a basic_state_scheme \<Rightarrow> 'a basic_state_scheme" where
  "inserted i n t s =
     (let s = fold shift_line (rev [Suc i..<Suc (unat (line_count s))]) s;
          s = s\<lparr>line_numbers := (line_numbers s)[i := n]\<rparr>
      in (set_line i t s)\<lparr>line_count := line_count s + 1\<rparr>)"

lemma shift_lines_none: "fold shift_line (rev [Suc i..<Suc i]) s = s"
  by simp

lemma inserted_rows:
  assumes ok: "basic_ok s" and room: "unat (line_count s) < 99" and i: "i \<le> unat (line_count s)"
  shows "line_numbers (inserted i n t s) = (shifted_numbers i (unat (line_count s)) (line_numbers s))[i := n]"
    and "j \<le> unat (line_count s) \<Longrightarrow> program (inserted i n t s) ! j =
      (if j < i then program s ! j else if j = i then take 127 t else if j = Suc i then program s ! i else [])"
    and "length (program (inserted i n t s)) = 100"
    and "line_count (inserted i n t s) = line_count s + 1"
    and "variables (inserted i n t s) = variables s"
proof -
  let ?c = "unat (line_count s)"
  have len: "length (program s) = 100" "length (line_numbers s) = 100" "\<forall>i < ?c. length (program s ! i) < 128"
    using ok by (simp_all add: basic_ok_def)
  have folded: "fold shift_line (rev [Suc i..<Suc ?c]) s =
      (if i < ?c then s\<lparr>line_numbers := shifted_numbers i ?c (line_numbers s), program := shifted_lines i ?c (program s)\<rparr>
       else s)"
    using shift_lines [OF len(1,2) room _ len(3), of i] i by auto
  have same: "(line_numbers s)[?c := n] = (shifted_numbers ?c ?c (line_numbers s))[?c := n]"
  proof (rule nth_equalityI)
    show "(line_numbers s)[?c := n] ! j = (shifted_numbers ?c ?c (line_numbers s))[?c := n] ! j"
      if "j < length ((line_numbers s)[?c := n])" for j
      using that len by (cases "j = ?c") auto
  qed (use len in simp)
  note defs = inserted_def Let_def folded set_line_def BASIC_MAX_LINE_LEN_def
  show "line_numbers (inserted i n t s) = (shifted_numbers i ?c (line_numbers s))[i := n]"
    using i same by (auto simp: defs simp del: upt_Suc)
  show "length (program (inserted i n t s)) = 100" using len by (simp add: defs del: upt_Suc)
  show "line_count (inserted i n t s) = line_count s + 1" "variables (inserted i n t s) = variables s"
    by (simp_all add: defs del: upt_Suc)
  show "program (inserted i n t s) ! j =
      (if j < i then program s ! j else if j = i then take 127 t else if j = Suc i then program s ! i else [])"
    if "j \<le> ?c"
    using that i len room by (cases "j = i") (auto simp: defs simp del: upt_Suc)
qed

lemma unat_line_count_Suc:
  "unat (line_count s) < 99 \<Longrightarrow> unat (line_count s + 1) = Suc (unat (line_count s))"
  by (simp add: unat_word_ariths)

lemma lines_of_inserted:
  assumes ok: "basic_ok s" and room: "unat (line_count s) < 99" and i: "i \<le> unat (line_count s)"
  shows "lines_of (inserted i n t s) =
    take i (lines_of s) @ (n, take 127 t) # take 1 (drop i (lines_of s)) @ map blank_text (drop (Suc i) (lines_of s))"
    (is "?l = ?r")
proof (rule nth_equalityI)
  let ?c = "unat (line_count s)" and ?s = "inserted i n t s"
  note rows = inserted_rows [OF ok room i, where n = n and t = t]
  have count: "unat (line_count ?s) = Suc ?c" using room by (simp add: rows unat_line_count_Suc)
  have len: "length (lines_of s) = ?c" using ok by simp
  have leq: "length ?l = Suc ?c" using room by (simp add: lines_of_def count rows(3)) (simp add: rows(1))
  then show "length ?l = length ?r" using len i by (cases "i < ?c") auto
  show "?l ! j = ?r ! j" if "j < length ?l" for j
  proof -
    have j: "j \<le> ?c" using that leq by simp
    have "?l ! j = (line_numbers ?s ! j, program ?s ! j)" using j count room by (simp add: lines_of_def rows(1,3))
    then have new: "?l ! j = (if j < i then (line_numbers s ! j, program s ! j) else if j = i then (n, take 127 t)
        else (line_numbers s ! (j - 1), if j = Suc i then program s ! i else []))"
      using j room by (cases "j = i") (auto simp: rows(1,2))
    consider "j < i" | "j = i" | "j = Suc i" | k where "j = Suc (Suc i + k)"
      by (metis add.commute add_Suc_right less_iff_Suc_add not_less_less_Suc_eq not_less_eq)
    then show ?thesis
    proof cases
      case 1
      then show ?thesis using i j new lines_of_nth [OF _ ok, of j] len by (simp add: nth_append)
    next
      case 2
      then show ?thesis using i new len by (simp add: nth_append)
    next
      case 3
      then show ?thesis using i j new lines_of_nth [OF _ ok, of i] len by (simp add: nth_append)
    next
      case 4
      then have "Suc i + k < ?c" using j by simp
      then show ?thesis
        using 4 i new lines_of_nth [OF _ ok, of "Suc i + k"] len by (simp add: nth_append blank_text_def)
    qed
  qed
qed

lemma insert_line_fst: "fst ` set (insert_line n t ls) = insert n (fst ` set ls)"
  by (induction n t ls rule: insert_line.induct) (auto simp: image_image)

lemma insert_line_sorted:
  "sorted_wrt (<) (map fst ls) \<Longrightarrow> sorted_wrt (<) (map fst (insert_line n t ls))"
proof (induction n t ls rule: insert_line.induct)
  case (2 n t m u ls)
  then show ?case
    using insert_line_fst [of n t ls] by (auto simp: not_less_iff_gr_or_eq)
qed simp

lemma lines_sorted: "basic_ok s \<Longrightarrow> sorted_wrt (<) (map fst (lines_of s))"
  by (simp add: map_fst_lines) (simp add: basic_ok_def)

lemma set_line_ok:
  assumes "basic_ok s"
  shows "basic_ok (set_line i t s)"
proof -
  have "length ((program s)[i := take 127 t] ! j) < 128" if "j < unat (line_count s)" for j
    using assms that by (cases "j = i") (auto simp: basic_ok_def)
  then show ?thesis using assms by (simp add: basic_ok_def set_line_def BASIC_MAX_LINE_LEN_def)
qed

text \<open>
  C27: On a program of fewer than 99 lines \<^verbatim>\<open>basic_add_line\<close> succeeds and keeps the program well-formed, its lines
  in ascending order of their numbers. A line whose number exists is replaced, a line behind all
  others is appended, and a line in front of others is inserted; in that last case every line
  after the next one loses its text, because \<^verbatim>\<open>strncpy\<close> stores one byte more than its bound.
\<close>
theorem basic_add_line_correct:
  assumes "basic_ok s" and "unat (line_count s) < 99"
  shows "\<exists>s'. basic_add_line n t s = (0, s') \<and> basic_ok s' \<and> lines_of s' = insert_line n (take 127 t) (lines_of s)"
proof -
  let ?c = "unat (line_count s)"
  obtain i found where slot: "line_slot n (take ?c (line_numbers s)) 0 = (i, found)" by (metis surj_pair)
  then have slot': "line_slot n (map fst (lines_of s)) 0 = (i, found)" using map_fst_lines [OF assms(1)] by simp
  have room: "\<not> line_count s \<ge> BASIC_MAX_PROGRAM_LINES"
    using assms(2) by (simp add: BASIC_MAX_PROGRAM_LINES_def word_le_nat_alt)
  have le: "i \<le> ?c" using line_slot_bounds [OF slot'] assms(1) by simp
  note lines = insert_line_slot [OF slot', of "take 127 t"]
  show ?thesis
  proof (cases found)
    case True
    then have "i < ?c" "line_numbers s ! i = n"
      using line_slot_found [of n "take ?c (line_numbers s)" 0 i] slot True assms(1) by (auto simp: basic_ok_def)
    then have "lines_of (set_line i t s) = insert_line n (take 127 t) (lines_of s)"
      using lines True lines_of_set_line [OF assms(1), of i t] by simp
    then show ?thesis using room slot True set_line_ok [OF assms(1)] by (simp add: basic_add_line_def)
  next
    case False
    let ?s = "inserted i n t s"
    have new: "lines_of ?s = insert_line n (take 127 t) (lines_of s)"
      using lines False lines_of_inserted [OF assms le, of n t] by simp
    note rows = inserted_rows [OF assms le, where n = n and t = t]
    have count: "unat (line_count ?s) = Suc ?c" using assms(2) by (simp add: rows unat_line_count_Suc)
    have "take (Suc ?c) (line_numbers ?s) = map fst (lines_of ?s)"
      by (simp add: lines_of_def count) (simp add: rows(1,3))
    then have "sorted_wrt (<) (take (Suc ?c) (line_numbers ?s))"
      using insert_line_sorted [OF lines_sorted [OF assms(1)], of n "take 127 t"] by (simp add: new)
    moreover have "length (program ?s ! j) < 128" if "j < Suc ?c" for j
      using that assms le by (auto simp: rows(2) basic_ok_def)
    ultimately have "basic_ok ?s"
      using assms count by (simp add: basic_ok_def rows(3,5)) (simp add: rows(1))
    moreover have "basic_add_line n t s = (0, ?s)"
      using room slot False by (simp add: basic_add_line_def inserted_def Let_def set_line_def del: upt_Suc)
    ultimately show ?thesis using new by blast
  qed
qed

section \<open>Programs run to their end\<close>

text \<open>Console output leaves the interpreter alone.\<close>

lemma more_basic:
  assumes "vterm_state.more s' = vterm_state.more s"
  shows "variables s' = variables s" "program s' = program s" "line_numbers s' = line_numbers s"
    "line_count s' = line_count s" "b_pc s' = b_pc s" "b_running s' = b_running s"
  using assms by (cases s; cases s'; simp)+

lemma emit_ok:
  assumes "con_ok s"
  obtains s' where "emit ops s = Inr s'" and "con_ok s'" and "vterm_state.more s' = vterm_state.more s"
  using con.run_safe [OF assms, of ops] that by (auto simp: emit_def)

lemma con_ok_fields [simp]:
  "con_ok (s\<lparr>variables := vs\<rparr>) = con_ok s" "con_ok (s\<lparr>line_count := n\<rparr>) = con_ok s"
  "con_ok (s\<lparr>b_pc := p\<rparr>) = con_ok s" "con_ok (s\<lparr>b_running := b\<rparr>) = con_ok s"
  by (simp_all add: con_ok_def vt_inv_def shown_def)

text \<open>
  What a statement other than \<^verbatim>\<open>RUN\<close> does: it returns, unless a number overflows, and does not change the
  program, except that \<^verbatim>\<open>CLEAR\<close> empties it.
\<close>

definition step_ok :: "'a basic_state_scheme \<Rightarrow> (stop + int \<times> 'a basic_state_scheme) \<Rightarrow> bool" where
  "step_ok s r \<longleftrightarrow>
     (case r of
        Inl e \<Rightarrow> e = Overflow
      | Inr (x, s') \<Rightarrow> con_ok s' \<and> program s' = program s \<and> b_pc s' = b_pc s \<and> (line_count s' = line_count s \<or> line_count s' = 0))"

lemma step_okI:
  assumes "con_ok s'" and "vterm_state.more s' = vterm_state.more s"
  shows "step_ok s (Inr (x, s'))"
  using assms(1) more_basic [OF assms(2)] by (simp add: step_ok_def)

lemma digits_value_stop: "digits_value cs acc = Inl e \<Longrightarrow> e = Overflow"
  by (induction cs acc rule: digits_value.induct) (auto simp: Let_def split: if_splits)

lemma str_to_int_stop: "str_to_int str = Inl e \<Longrightarrow> e = Overflow"
  by (auto simp: str_to_int_def Let_def andThen_Inl dest: digits_value_stop split: if_splits)

lemma evaluate_stop: "evaluate_expression expr s = Inl e \<Longrightarrow> e = Overflow"
  by (auto simp: evaluate_expression_def Let_def dest: str_to_int_stop split: if_splits)

lemma execute_print_cases:
  assumes "con_ok s"
  obtains "execute_print line s = Inl Overflow"
  | s' where "execute_print line s = Inr (0, s')" and "con_ok s'" and "vterm_state.more s' = vterm_state.more s"
proof -
  let ?line = "skip_spaces line"
  have fin: "\<exists>s2. andThen (emit [Put 0x0A] s1) (\<lambda>s. Inr (0, s)) = (Inr (0 :: int, s2) :: stop + int \<times> 'a basic_state_scheme) \<and>
      con_ok s2 \<and> vterm_state.more s2 = vterm_state.more s"
    if "con_ok s1" "vterm_state.more s1 = vterm_state.more s" for s1
    by (rule emit_ok [OF that(1), of "[Put 0x0A]"]) (use that in auto)
  show ?thesis
  proof (cases "starts (\<lambda>c. c = CHR 0x22) ?line \<or> ?line = []")
    case True
    define ops where "ops = (if ?line = [] then []
      else map (\<lambda>c. Put (of_char c :: u8)) (takeWhile (\<lambda>c. c \<noteq> CHR 0x22) (tl ?line)))"
    obtain s1 where s1: "emit ops s = Inr s1" "con_ok s1" "vterm_state.more s1 = vterm_state.more s"
      by (rule emit_ok [OF assms])
    have "execute_print line s = andThen (emit [Put 0x0A] s1) (\<lambda>s. Inr (0, s))"
      using True s1(1) by (auto simp: execute_print_def Let_def ops_def starts_def emit_def)
    then show ?thesis using fin [OF s1(2,3)] that(2) by auto
  next
    case False
    show ?thesis
    proof (cases "evaluate_expression ?line s")
      case (Inl e)
      then show ?thesis using False evaluate_stop [OF Inl] that(1) by (simp add: execute_print_def Let_def)
    next
      case (Inr v)
      obtain s1 where s1: "emit [Dec (word_of_int v)] s = Inr s1" "con_ok s1" "vterm_state.more s1 = vterm_state.more s"
        by (rule emit_ok [OF assms])
      have "execute_print line s = andThen (emit [Put 0x0A] s1) (\<lambda>s. Inr (0, s))"
        using False Inr s1(1) by (simp add: execute_print_def Let_def)
      then show ?thesis using fin [OF s1(2,3)] that(2) by auto
    qed
  qed
qed

lemma execute_print_ok: "con_ok s \<Longrightarrow> step_ok s (execute_print line s)"
  by (erule execute_print_cases [where line = line]) (auto simp: step_okI step_ok_def [of s "Inl Overflow"])

lemma execute_let_ok: "con_ok s \<Longrightarrow> step_ok s (execute_let line s)"
  by (cases "evaluate_expression (tl (skip_spaces (tl (skip_spaces line)))) s")
    (auto simp: execute_let_def Let_def step_ok_def dest: evaluate_stop)

lemma basic_list_program_ok:
  assumes "con_ok s"
  obtains s' where "basic_list_program s = Inr s'" and "con_ok s'" and "vterm_state.more s' = vterm_state.more s"
proof -
  obtain s1 where s1: "emit [Str ([CHR 0x0A] @ ''=== Program Listing ==='' @ [CHR 0x0A])] s = Inr s1" "con_ok s1"
    "vterm_state.more s1 = vterm_state.more s"
    by (rule emit_ok [OF assms])
  show ?thesis
    by (rule emit_ok [OF s1(2), of "if line_count s1 = 0 then [Str (''(empty)'' @ [CHR 0x0A])]
        else concat (map (\<lambda>i. [Dec (line_numbers s1 ! i), Str '' '', Str (program s1 ! i), Str [CHR 0x0A]])
                  [0..<unat (line_count s1)])"])
      (use that s1 in \<open>auto simp: basic_list_program_def split: if_splits\<close>)
qed

lemma basic_clear_program_ok:
  assumes "con_ok s"
  obtains s' where "basic_clear_program s = Inr s'" and "con_ok s'"
    and "vterm_state.more s' = vterm_state.more (s\<lparr>line_count := 0\<rparr>)"
  unfolding basic_clear_program_def by (rule emit_ok [of "s\<lparr>line_count := 0\<rparr>"]) (use assms that in auto)

definition is_run :: "string \<Rightarrow> bool" where
  "is_run row \<longleftrightarrow> str_starts_with (skip_spaces row) ''RUN''"

lemma execute_line_ok:
  assumes "con_ok s" and "\<not> is_run row"
  shows "step_ok s (basic_execute_line (Suc fuel) (Some row) s)"
proof -
  have list: "step_ok s (andThen (basic_list_program s) (\<lambda>s. Inr (0, s)))"
    by (rule basic_list_program_ok [OF assms(1)]) (simp add: step_okI)
  have clear: "step_ok s (andThen (basic_clear_program s) (\<lambda>s. Inr (0, s)))"
  proof (rule basic_clear_program_ok [OF assms(1)])
    fix s'
    assume s': "basic_clear_program s = Inr s'" "con_ok s'" "vterm_state.more s' = vterm_state.more (s\<lparr>line_count := 0\<rparr>)"
    show ?thesis using s'(1,2) more_basic [OF s'(3)] by (simp add: step_ok_def)
  qed
  have same: "step_ok s (Inr (x, s))" for x using assms(1) by (simp add: step_ok_def)
  show ?thesis
    using assms(2) execute_print_ok [OF assms(1)] execute_let_ok [OF assms(1)] list clear same
    by (simp add: is_run_def Let_def)
qed

lemma unat_pc_next:
  fixes p n :: u32
  assumes "p < n"
  shows "unat (p + 1) = Suc (unat p)"
proof -
  have "unat p < unat n" using assms by (simp add: word_less_nat_alt)
  moreover have "unat n < 2 ^ 32" using unsigned_less [of n] by simp
  ultimately show ?thesis by (simp add: unat_word_ariths)
qed

lemma run_loop_returns:
  assumes "con_ok s" and "\<forall>i < unat (line_count s). \<not> is_run (program s ! i)"
    and "unat (line_count s) + 1 \<le> unat (b_pc s) + fuel" and "1 \<le> fuel"
  shows "(\<exists>s'. run_loop (basic_execute_line (Suc d)) fuel s = Inr s') \<or>
    run_loop (basic_execute_line (Suc d)) fuel s = Inl Overflow"
  using assms
proof (induction fuel arbitrary: s)
  case (Suc fuel)
  let ?exec = "basic_execute_line (Suc d)"
  show ?case
  proof (cases "b_pc s < line_count s \<and> b_running s")
    case True
    let ?row = "program s ! unat (b_pc s)"
    have pc: "unat (b_pc s) < unat (line_count s)" using True by (simp add: word_less_nat_alt)
    have step: "step_ok s (?exec (Some ?row) s)" using Suc.prems(1,2) pc by (intro execute_line_ok) auto
    show ?thesis
    proof (cases "?exec (Some ?row) s")
      case (Inl e)
      then show ?thesis using True step by (simp add: step_ok_def del: basic_execute_line.simps)
    next
      case (Inr rs)
      obtain r s1 where rs: "rs = (r, s1)" by (cases rs)
      have s1: "con_ok s1" "program s1 = program s" "b_pc s1 = b_pc s" "line_count s1 = line_count s \<or> line_count s1 = 0"
        using step Inr rs by (auto simp: step_ok_def simp del: basic_execute_line.simps)
      show ?thesis
      proof (cases "r < 0")
        case neg: True
        obtain s2 where "emit [Str ''Error at line '', Dec (line_numbers s1 ! unat (b_pc s1)), Str [CHR 0x0A]] s1 = Inr s2"
          by (rule emit_ok [OF s1(1)])
        then show ?thesis using True neg Inr rs by (simp del: basic_execute_line.simps)
      next
        case False
        let ?s = "s1\<lparr>b_pc := b_pc s1 + 1\<rparr>"
        have "unat (b_pc ?s) = Suc (unat (b_pc s))" using unat_pc_next [of "b_pc s"] True s1(3) by auto
        moreover have "1 \<le> fuel" using Suc.prems(3) pc by simp
        ultimately have "(\<exists>s'. run_loop ?exec fuel ?s = Inr s') \<or> run_loop ?exec fuel ?s = Inl Overflow"
          using Suc.prems s1 by (intro Suc.IH) auto
        then show ?thesis using True False Inr rs by (simp del: basic_execute_line.simps)
      qed
    qed
  next
    case False
    then show ?thesis by (simp only: run_loop.simps if_False) blast
  qed
qed simp

text \<open>
  C28: A stored program without a \<^verbatim>\<open>RUN\<close> line runs to its end or to its first error: when the fuel exceeds
  the number of its lines, \<^verbatim>\<open>basic_run_program\<close> returns, unless a number in it overflows. The console stays
  inside its buffers.
\<close>
theorem basic_run_returns:
  assumes "con_ok s" and "\<forall>i < unat (line_count s). \<not> is_run (program s ! i)" and "unat (line_count s) < fuel"
  shows "(\<exists>s'. basic_run_program fuel s = Inr s') \<or> basic_run_program fuel s = Inl Overflow"
proof -
  obtain d where "fuel = Suc d" using assms(3) by (cases fuel) auto
  then show ?thesis
    using assms run_loop_returns [of "s\<lparr>b_running := True, b_pc := 0\<rparr>" fuel d] by (simp add: basic_run_program_def)
qed

section \<open>A program that runs itself\<close>

definition reruns :: "nat \<Rightarrow> 'a basic_state_scheme \<Rightarrow> bool" where
  "reruns k s \<longleftrightarrow> con_ok s \<and> k < unat (line_count s) \<and> is_run (program s ! k) \<and>
     (\<forall>i < k. str_starts_with (skip_spaces (program s ! i)) ''PRINT'')"

lemma starts_PRINT: "str_starts_with line ''PRINT'' \<Longrightarrow> line \<noteq> []"
  by (cases line) simp_all

lemma execute_run_line:
  assumes "is_run row"
  shows "basic_execute_line (Suc fuel) (Some row) s = andThen (basic_run_program fuel s) (\<lambda>s. Inr (0, s))"
proof -
  obtain rest where row: "skip_spaces row = CHR ''R'' # CHR ''U'' # CHR ''N'' # rest"
    using assms by (auto simp: is_run_def elim!: str_starts_with.elims)
  have "skip_spaces (CHR ''U'' # CHR ''N'' # rest) = CHR ''U'' # CHR ''N'' # rest"
    by (simp add: skip_spaces_def is_space_def)
  then show ?thesis by (simp add: row Let_def starts_def basic_run_program_def)
qed

lemma reruns_loop:
  fixes s :: "'a basic_state_scheme"
  assumes deeper: "\<And>d (s :: 'a basic_state_scheme) r. depth = Suc d \<Longrightarrow> reruns k s \<Longrightarrow> basic_run_program d s \<noteq> Inr r"
    and "reruns k s" and "b_running s" and "unat (b_pc s) \<le> k"
  shows "run_loop (basic_execute_line depth) fuel s \<noteq> Inr r"
  using assms(2-)
proof (induction fuel arbitrary: s)
  case (Suc fuel)
  let ?row = "program s ! unat (b_pc s)"
  have pc: "b_pc s < line_count s" and ok: "con_ok s" using Suc.prems by (simp_all add: reruns_def word_less_nat_alt)
  show ?case
  proof (cases depth)
    case 0
    then show ?thesis using pc Suc.prems(2) by simp
  next
    case d: (Suc d)
    show ?thesis
    proof (cases "unat (b_pc s) = k")
      case True
      then have "is_run ?row" using Suc.prems(1) by (simp add: reruns_def)
      then have "basic_execute_line depth (Some ?row) s = andThen (basic_run_program d s) (\<lambda>s. Inr (0, s))"
        unfolding d by (rule execute_run_line)
      then show ?thesis using deeper [OF d Suc.prems(1)] pc Suc.prems(2) by (auto simp: andThen_Inr)
    next
      case False
      let ?print = "execute_print (drop 5 (skip_spaces ?row)) s"
      have "str_starts_with (skip_spaces ?row) ''PRINT''" using False Suc.prems by (simp add: reruns_def)
      then have exec: "basic_execute_line depth (Some ?row) s = ?print"
        unfolding d using starts_PRINT by (simp add: Let_def)
      show ?thesis
      proof (rule execute_print_cases [OF ok, of "drop 5 (skip_spaces ?row)"])
        assume "?print = Inl Overflow"
        then show ?thesis using pc Suc.prems(2) exec by simp
      next
        fix s'
        assume s': "?print = Inr (0, s')" "con_ok s'" "vterm_state.more s' = vterm_state.more s"
        note fields = more_basic [OF s'(3)]
        let ?s = "s'\<lparr>b_pc := b_pc s' + 1\<rparr>"
        have "unat (b_pc ?s) \<le> k" using Suc.prems(3) False unat_pc_next [OF pc] fields by simp
        moreover have "reruns k ?s" using Suc.prems(1) s'(2) fields by (simp add: reruns_def)
        ultimately have "run_loop (basic_execute_line depth) fuel ?s \<noteq> Inr r"
          using Suc.IH Suc.prems(2) fields by simp
        then show ?thesis using pc Suc.prems(2) exec s'(1) by simp
      qed
    qed
  qed
qed simp

lemma reruns_diverges: "reruns k s \<Longrightarrow> basic_run_program fuel s \<noteq> Inr r"
proof (induction fuel arbitrary: s r)
  case (Suc fuel)
  have "reruns k (s\<lparr>b_running := True, b_pc := 0\<rparr>)" using Suc.prems by (simp add: reruns_def)
  then show ?case unfolding basic_run_program_def by (intro reruns_loop) (use Suc.IH in auto)
qed (simp add: basic_run_program_def)

text \<open>
  A program whose first line that is not a \<^verbatim>\<open>PRINT\<close> is \<^verbatim>\<open>RUN\<close> never returns, whatever the fuel: the line
  starts the program again within itself, without a bound, until the kernel stack is exhausted.
\<close>
theorem basic_run_recursion:
  assumes "con_ok s" and "k < unat (line_count s)" and "is_run (program s ! k)"
    and "\<forall>i < k. str_starts_with (skip_spaces (program s ! i)) ''PRINT''"
  shows "basic_run_program fuel s \<noteq> Inr s'"
  by (rule reruns_diverges [of k]) (use assms in \<open>simp add: reruns_def\<close>)

section \<open>Examples\<close>

definition basic_demo :: "(u32 \<times> string) list \<Rightarrow> basic_state" where
  "basic_demo ls = \<lparr>terminals = [], active_terminal = 0, vga = [], vga_cursor = 0, alt_pressed = False, serial_out = [],
     vterm_initialized = False, variables = replicate 26 0, program = map snd ls @ replicate (100 - length ls) [],
     line_numbers = map fst ls @ replicate (100 - length ls) 0, line_count = of_nat (length ls), b_pc = 0, stack_ptr = 0,
     b_running = False\<rparr>"

lemma basic_demo_lines:
  assumes "length ls \<le> 100"
  shows "unat (line_count (basic_demo ls)) = length ls" and "lines_of (basic_demo ls) = ls"
proof -
  show "unat (line_count (basic_demo ls)) = length ls"
    using assms by (simp add: basic_demo_def unat_of_nat_small)
  then show "lines_of (basic_demo ls) = ls" by (simp add: lines_of_def) (simp add: basic_demo_def zip_map_fst_snd)
qed

lemma basic_demo_ok:
  assumes "length ls \<le> 100" and "sorted_wrt (<) (map fst ls)" and "\<forall>l \<in> set ls. length (snd l) < 128"
  shows "basic_ok (basic_demo ls)"
proof -
  have "length (program (basic_demo ls) ! i) < 128" if "i < length ls" for i
    using assms(3) that by (simp add: basic_demo_def nth_append)
  then show ?thesis
    using assms basic_demo_lines(1) [OF assms(1)] by (simp add: basic_ok_def) (simp add: basic_demo_def)
qed

theorem basic_add_line_correct_witness:
  "\<exists>s'. basic_add_line 10 ''LET A=1'' (basic_demo [(20, ''PRINT A''), (30, ''PRINT B''), (40, ''LIST'')]) = (0, s') \<and>
     lines_of s' = [(10, ''LET A=1''), (20, ''PRINT A''), (30, []), (40, [])]"
proof -
  let ?ls = "[(20, ''PRINT A''), (30, ''PRINT B''), (40, ''LIST'')] :: (u32 \<times> string) list"
  have "basic_ok (basic_demo ?ls)" by (rule basic_demo_ok) simp_all
  moreover have "unat (line_count (basic_demo ?ls)) < 99" by (subst basic_demo_lines) simp_all
  moreover have "lines_of (basic_demo ?ls) = ?ls" by (rule basic_demo_lines) simp
  ultimately show ?thesis
    using basic_add_line_correct [of "basic_demo ?ls" 10 "''LET A=1''"] by (auto simp: blank_text_def)
qed

theorem basic_run_returns_witness:
  "\<exists>s'. basic_run_program 2 (basic_demo [(10, ''PRINT 42'')]) = Inr s'"
proof -
  let ?s = "basic_demo [(10, ''PRINT 42'')]"
  have "con_ok ?s" by (simp add: con_ok_def basic_demo_def)
  moreover have "\<forall>i < unat (line_count ?s). \<not> is_run (program ?s ! i)"
    by (simp add: basic_demo_def is_run_def skip_spaces_def is_space_def)
  moreover have "unat (line_count ?s) < 2" by (simp add: basic_demo_def)
  ultimately have "(\<exists>s'. basic_run_program 2 ?s = Inr s') \<or> basic_run_program 2 ?s = Inl Overflow"
    by (rule basic_run_returns)
  moreover have "basic_run_program 2 ?s \<noteq> Inl Overflow" by code_simp
  ultimately show ?thesis by blast
qed

theorem basic_run_recursion_witness:
  "\<forall>fuel s'. basic_run_program fuel (basic_demo [(10, ''PRINT 1''), (20, ''RUN'')]) \<noteq> Inr s'"
proof -
  let ?s = "basic_demo [(10, ''PRINT 1''), (20, ''RUN'')]"
  have "con_ok ?s" by (simp add: con_ok_def basic_demo_def)
  moreover have "1 < unat (line_count ?s)" by (simp add: basic_demo_def)
  moreover have "is_run (program ?s ! 1)" by (simp add: basic_demo_def is_run_def skip_spaces_def is_space_def)
  moreover have "\<forall>i < 1. str_starts_with (skip_spaces (program ?s ! i)) ''PRINT''"
    by (simp add: basic_demo_def skip_spaces_def is_space_def)
  ultimately show ?thesis using basic_run_recursion [of ?s 1] by blast
qed

end
