(* ===== verification/Editor.thy ===== *)
theory Editor
  imports Basic Fs_Runs
begin

text \<open>
  \<^verbatim>\<open>kernel/ui/editor.c\<close>: the line editor with its text and BASIC modes, on top of the console, the BASIC
  interpreter and the filesystem, whose state is a field of the editor's. The buffer is the array of
  4096 bytes; a buffer without a terminating zero is an access outside it. Keys and fuel are as in
  \<^verbatim>\<open>Basic\<close>; \<open>junk\<close> stands for the uninitialised directory entries of the disk filesystem.
\<close>

section \<open>State\<close>

definition EDITOR_MODE_TEXT :: u8 where "EDITOR_MODE_TEXT = 0"
definition EDITOR_MODE_BASIC :: u8 where "EDITOR_MODE_BASIC = 1"
definition EDITOR_MODE_HEX :: u8 where "EDITOR_MODE_HEX = 2"
definition EDITOR_MAX_FILE_SIZE :: nat where "EDITOR_MAX_FILE_SIZE = 4096"
definition EDITOR_LINE_SIZE :: nat where "EDITOR_LINE_SIZE = 256"
definition EDITOR_CMD_QUIT :: int where "EDITOR_CMD_QUIT = 0"

record editor_state = basic_state +
  filename :: string
  e_buffer :: "u8 list"
  line_buffer :: string
  buffer_size :: u32
  e_mode :: u8
  modified :: bool
  e_running :: bool
  e_fs :: fs_state

definition newline :: string where
  "newline = [CHR 0x0A]"

definition chars_of :: "u8 list \<Rightarrow> string" where
  "chars_of bs = map (\<lambda>b. char_of (unat b)) bs"

text \<open>The string in the buffer.\<close>

definition text_of :: "u8 list \<Rightarrow> u8 list" where
  "text_of bs = takeWhile (\<lambda>b. b \<noteq> 0) bs"

definition buffer_text :: "'a editor_state_scheme \<Rightarrow> stop + u8 list" where
  "buffer_text s = (if 0 \<in> set (e_buffer s) then Inr (text_of (e_buffer s)) else Inl BadAccess)"

definition editor_init :: "'a editor_state_scheme \<Rightarrow> 'a editor_state_scheme" where
  "editor_init s = s\<lparr>filename := [], e_buffer := replicate EDITOR_MAX_FILE_SIZE 0, line_buffer := [], buffer_size := 0,
     e_mode := EDITOR_MODE_TEXT, modified := False, e_running := False\<rparr>"

section \<open>Screen output\<close>

definition editor_clear_screen :: "'a editor_state_scheme \<Rightarrow> stop + 'a editor_state_scheme" where
  "editor_clear_screen s = emit [ClearScreen] s"

definition editor_draw_header :: "'a editor_state_scheme \<Rightarrow> stop + 'a editor_state_scheme" where
  "editor_draw_header s =
     emit ([Str ''=== mexOS Editor: '', Str (filename s)] @
       (if e_mode s = EDITOR_MODE_TEXT then [Str '' [TEXT]'']
        else if e_mode s = EDITOR_MODE_BASIC then [Str '' [BASIC]'']
        else if e_mode s = EDITOR_MODE_HEX then [Str '' [HEX]''] else []) @
       (if modified s then [Str '' *''] else []) @ [Str ('' ==='' @ newline)]) s"

definition editor_draw_status :: "'a editor_state_scheme \<Rightarrow> stop + 'a editor_state_scheme" where
  "editor_draw_status s =
     emit ([Str (''---'' @ newline)] @
       (if e_mode s = EDITOR_MODE_TEXT
        then [Str ('':q quit | :w save | :wq save+quit | :d delete line | :p print | :h help'' @ newline)]
        else if e_mode s = EDITOR_MODE_BASIC
        then [Str (''Enter line numbers to add code | RUN | LIST | :q quit | :w save | :h help'' @ newline)]
        else if e_mode s = EDITOR_MODE_HEX
        then [Str ('':q quit | :w save | :wq save+quit | :h help'' @ newline)] else [])) s"

definition help_text :: "u8 \<Rightarrow> string list" where
  "help_text m =
     (if m = EDITOR_MODE_TEXT then
        [''TEXT MODE:'', ''  :q          - Quit editor'', ''  :w          - Save file'', ''  :wq         - Save and quit'',
         ''  :d          - Delete last line'', ''  :p          - Print buffer'', ''  :mode basic - Switch to BASIC mode'',
         ''  :mode hex   - Switch to HEX mode'', ''  :h          - Show this help'',
         newline @ ''Type text and press Enter to add lines'']
      else if m = EDITOR_MODE_BASIC then
        [''BASIC MODE:'', ''  RUN         - Execute BASIC program'', ''  LIST        - List program lines'',
         ''  CLEAR       - Clear program'', ''  PRINT expr  - Print expression'', ''  LET var=val - Assign variable (A-Z)'',
         ''  10 PRINT..  - Add numbered line'', ''  :q          - Quit editor'', ''  :w          - Save program'',
         ''  :mode text  - Switch to TEXT mode'', ''  :h          - Show this help'']
      else if m = EDITOR_MODE_HEX then
        [''HEX MODE:'', ''  :q          - Quit editor'', ''  :w          - Save file'', ''  :wq         - Save and quit'',
         ''  :mode text  - Switch to TEXT mode'', ''  :h          - Show this help'',
         newline @ ''Hex viewer (read-only in this version)'']
      else [])"

definition editor_show_help :: "u8 list \<Rightarrow> 'a editor_state_scheme \<Rightarrow> stop + u8 list \<times> 'a editor_state_scheme" where
  "editor_show_help keys s =
     andThen (emit ([Str (newline @ ''=== Editor Help ==='' @ newline)] @ map (\<lambda>l. Str (l @ newline)) (help_text (e_mode s)) @
         [Str (newline @ ''Press any key to continue...'' @ newline)]) s)
       (\<lambda>s. case keys of [] \<Rightarrow> Inl Waiting | _ # keys \<Rightarrow> Inr (keys, s))"

section \<open>Files\<close>

definition editor_open ::
    "(u32 \<Rightarrow> dirent) \<Rightarrow> string option \<Rightarrow> u8 \<Rightarrow> 'a editor_state_scheme \<Rightarrow> stop + int \<times> 'a editor_state_scheme" where
  "editor_open junk name md s =
     (case name of
        None \<Rightarrow> Inr (-1, s)
      | Some path \<Rightarrow>
          let s = s\<lparr>filename := take 127 path, e_mode := md, modified := False, buffer_size := 0,
                e_buffer := replicate EDITOR_MAX_FILE_SIZE 0\<rparr>
          in if fs_exists path (e_fs s)
             then if fs_is_dir path (e_fs s)
                  then andThen (emit [Str (''editor: is a directory'' @ newline)] s) (\<lambda>s. Inr (-1, s))
                  else (case fs_read junk path (of_nat (EDITOR_MAX_FILE_SIZE - 1)) (e_fs s) of
                          None \<Rightarrow> Inl BadAccess
                        | Some (r, bytes, f) \<Rightarrow>
                            let file_len = (if r < 0 then 0 else nat r) in
                            Inr (0, s\<lparr>e_fs := f, e_buffer := (splice 0 bytes (e_buffer s))[file_len := 0],
                              buffer_size := of_nat file_len\<rparr>))
             else (case fs_create_file junk path (e_fs s) of
                     None \<Rightarrow> Inl BadAccess
                   | Some (ret, f) \<Rightarrow>
                       if ret \<noteq> FS_ERR_OK
                       then andThen (emit [Str (''editor: cannot create file'' @ newline)] (s\<lparr>e_fs := f\<rparr>)) (\<lambda>s. Inr (-1, s))
                       else Inr (0, s\<lparr>e_fs := f\<rparr>)))"

definition editor_save :: "(u32 \<Rightarrow> dirent) \<Rightarrow> 'a editor_state_scheme \<Rightarrow> stop + int \<times> 'a editor_state_scheme" where
  "editor_save junk s =
     andThen (buffer_text s) (\<lambda>txt.
       case fs_write junk (filename s) txt (of_nat (length txt)) (e_fs s) of
         None \<Rightarrow> Inl BadAccess
       | Some (ret, f) \<Rightarrow>
           let s = s\<lparr>e_fs := f\<rparr> in
           if ret = FS_ERR_OK
           then andThen (emit [Str (''Saved'' @ newline)] (s\<lparr>modified := False\<rparr>)) (\<lambda>s. Inr (0, s))
           else andThen (emit [Str (''Error: Failed to save file'' @ newline)] s) (\<lambda>s. Inr (-1, s)))"

section \<open>Editing the buffer\<close>

primrec back_to_newline :: "u8 list \<Rightarrow> nat \<Rightarrow> nat" where
  "back_to_newline b 0 = 0"
| "back_to_newline b (Suc n) = (if b ! n \<noteq> 0x0A then back_to_newline b n else Suc n)"

definition editor_delete_last_line :: "'a editor_state_scheme \<Rightarrow> stop + 'a editor_state_scheme" where
  "editor_delete_last_line s =
     andThen (buffer_text s) (\<lambda>txt.
       let len = length txt in
       if len > 0
       then let b = e_buffer s;
                last_nl = back_to_newline b (if b ! (len - 1) = 0x0A \<and> len > 1 then len - 1 else len)
            in emit [Str (''Line deleted'' @ newline)]
                 (s\<lparr>e_buffer := b[last_nl := 0], buffer_size := of_nat last_nl, modified := True\<rparr>)
       else emit [Str (''Buffer empty'' @ newline)] s)"

definition editor_print_buffer :: "'a editor_state_scheme \<Rightarrow> stop + 'a editor_state_scheme" where
  "editor_print_buffer s =
     andThen (buffer_text s) (\<lambda>txt.
       emit ([Str (''---'' @ newline)] @
         (if length txt > 0 then [Str (chars_of txt)] @ (if last txt \<noteq> 0x0A then [Str newline] else []) else []) @
         [Str (''---'' @ newline)]) s)"

definition editor_add_line :: "string \<Rightarrow> 'a editor_state_scheme \<Rightarrow> stop + 'a editor_state_scheme" where
  "editor_add_line line s =
     andThen (buffer_text s) (\<lambda>txt.
       if length txt + length line + 2 < EDITOR_MAX_FILE_SIZE
       then Inr (s\<lparr>e_buffer := splice (length txt) (bytes_of line @ [0x0A, 0]) (e_buffer s),
              buffer_size := of_nat (length txt + length line + 1), modified := True\<rparr>)
       else emit [Str (''Buffer full'' @ newline)] s)"

section \<open>Modes and BASIC\<close>

definition skip_blanks :: "string \<Rightarrow> string" where
  "skip_blanks str = dropWhile (\<lambda>c. c = CHR '' '') str"

definition line_number :: "string \<Rightarrow> u32" where
  "line_number ds = fold (\<lambda>c n. n * 10 + (of_char c - 48)) ds 0"

text \<open>A line that begins with a number: the number, and the text after it.\<close>

definition numbered_line :: "string \<Rightarrow> (u32 \<times> string) option" where
  "numbered_line line =
     (let p = skip_blanks line in
      if starts is_digit p then Some (line_number (takeWhile is_digit p), skip_blanks (dropWhile is_digit p)) else None)"

function load_lines :: "string \<Rightarrow> 'a basic_state_scheme \<Rightarrow> 'a basic_state_scheme" where
  "load_lines cs s =
     (if cs = [] then s
      else let temp_line = take (EDITOR_LINE_SIZE - 1) (takeWhile (\<lambda>c. c \<noteq> CHR 0x0A) cs);
               rest = drop (length temp_line) cs;
               rest = (if starts (\<lambda>c. c = CHR 0x0A) rest then tl rest else rest);
               s = (case numbered_line temp_line of None \<Rightarrow> s | Some (n, t) \<Rightarrow> snd (basic_add_line n t s))
           in load_lines rest s)"
  by pat_completeness auto
termination
proof (relation "measure (\<lambda>(cs, s). length cs)", goal_cases)
  case (2 cs s temp_line rest rest' s')
  then show ?case
    by (cases cs) (auto simp: EDITOR_LINE_SIZE_def starts_def numeral_eq_Suc split: list.splits)
qed simp

declare load_lines.simps [simp del]

definition editor_set_mode :: "u8 \<Rightarrow> 'a editor_state_scheme \<Rightarrow> stop + 'a editor_state_scheme" where
  "editor_set_mode md s =
     (if md = e_mode s then Inr s
      else let s = s\<lparr>e_mode := md, modified := True\<rparr> in
        if md = EDITOR_MODE_BASIC
        then andThen (basic_clear_program s) (\<lambda>s. andThen (buffer_text s) (\<lambda>txt.
               emit [Str (''Switched to BASIC mode'' @ newline)] (load_lines (chars_of txt) s)))
        else if md = EDITOR_MODE_TEXT then emit [Str (''Switched to TEXT mode'' @ newline)] s
        else if md = EDITOR_MODE_HEX then emit [Str (''Switched to HEX mode'' @ newline)] s
        else Inr s)"

definition editor_run_basic :: "nat \<Rightarrow> 'a editor_state_scheme \<Rightarrow> stop + 'a editor_state_scheme" where
  "editor_run_basic fuel s =
     (if e_mode s \<noteq> EDITOR_MODE_BASIC then emit [Str (''Not in BASIC mode'' @ newline)] s
      else andThen (emit [Str (newline @ ''=== Running BASIC Program ==='' @ newline)] s) (\<lambda>s.
        andThen (basic_run_program fuel s) (\<lambda>s.
        emit [Str (newline @ ''=== Program Finished ==='' @ newline)] s)))"

definition editor_list_basic :: "'a editor_state_scheme \<Rightarrow> stop + 'a editor_state_scheme" where
  "editor_list_basic s =
     (if e_mode s \<noteq> EDITOR_MODE_BASIC then emit [Str (''Not in BASIC mode'' @ newline)] s else basic_list_program s)"

section \<open>Commands\<close>

definition with_keys :: "u8 list \<Rightarrow> stop + 's \<Rightarrow> stop + int \<times> u8 list \<times> 's" where
  "with_keys keys r = andThen r (\<lambda>s. Inr (0, keys, s))"

definition editor_handle_command ::
    "(u32 \<Rightarrow> dirent) \<Rightarrow> u8 list \<Rightarrow> 'a editor_state_scheme \<Rightarrow> stop + int \<times> u8 list \<times> 'a editor_state_scheme" where
  "editor_handle_command junk keys s =
     (let cmd = (if starts (\<lambda>c. c = CHR '':'') (line_buffer s) then tl (line_buffer s) else line_buffer s) in
      if cmd = ''q'' then
        if modified s
        then with_keys keys (emit [Str (''Warning: unsaved changes (use :q! to force quit)'' @ newline)] s)
        else Inr (EDITOR_CMD_QUIT, keys, s)
      else if cmd = ''q!'' then Inr (EDITOR_CMD_QUIT, keys, s)
      else if cmd = ''w'' then andThen (editor_save junk s) (\<lambda>(r, s). Inr (0, keys, s))
      else if cmd = ''wq'' then andThen (editor_save junk s) (\<lambda>(r, s). Inr (EDITOR_CMD_QUIT, keys, s))
      else if cmd = ''d'' then with_keys keys (editor_delete_last_line s)
      else if cmd = ''p'' then with_keys keys (editor_print_buffer s)
      else if cmd = ''h'' \<or> cmd = ''help'' then andThen (editor_show_help keys s) (\<lambda>(keys, s). Inr (0, keys, s))
      else if take 5 cmd = ''mode '' then
        let m = skip_blanks (drop 5 cmd) in
        if m = ''text'' then with_keys keys (editor_set_mode EDITOR_MODE_TEXT s)
        else if m = ''basic'' then with_keys keys (editor_set_mode EDITOR_MODE_BASIC s)
        else if m = ''hex'' then with_keys keys (editor_set_mode EDITOR_MODE_HEX s)
        else with_keys keys (emit [Str (''Unknown mode'' @ newline)] s)
      else with_keys keys (emit [Str (''Unknown command (type :h for help)'' @ newline)] s))"

section \<open>The editor loop\<close>

text \<open>What a line typed in BASIC mode does.\<close>

definition basic_input :: "nat \<Rightarrow> 'a editor_state_scheme \<Rightarrow> stop + 'a editor_state_scheme" where
  "basic_input fuel s =
     (let line = line_buffer s in
      if take 3 line = ''RUN'' then editor_run_basic fuel s
      else if take 4 line = ''LIST'' then editor_list_basic s
      else if take 5 line = ''CLEAR'' then
        andThen (basic_clear_program s) (\<lambda>s. emit [Str (''Program cleared'' @ newline)]
          (s\<lparr>e_buffer := replicate EDITOR_MAX_FILE_SIZE 0, buffer_size := 0, modified := True\<rparr>))
      else (case numbered_line line of
              Some (n, t) \<Rightarrow>
                let (r, s) = basic_add_line n t s in
                if r = 0 then editor_add_line line s else emit [Str (''Error: Program full'' @ newline)] s
            | None \<Rightarrow>
                andThen (basic_execute_line fuel (Some line) s) (\<lambda>(r, s).
                  if r < 0 then emit [Str (''Syntax error'' @ newline)] s else Inr s)))"

text \<open>What a typed line does, and whether it ends the session.\<close>

definition editor_line ::
    "(u32 \<Rightarrow> dirent) \<Rightarrow> nat \<Rightarrow> u8 list \<Rightarrow> 'a editor_state_scheme \<Rightarrow> stop + bool \<times> u8 list \<times> 'a editor_state_scheme" where
  "editor_line junk fuel keys s =
     (if starts (\<lambda>c. c = CHR '':'') (line_buffer s)
      then andThen (editor_handle_command junk keys s) (\<lambda>(cmd_result, keys, s). Inr (cmd_result = EDITOR_CMD_QUIT, keys, s))
      else andThen (if e_mode s = EDITOR_MODE_BASIC then basic_input fuel s else editor_add_line (line_buffer s) s)
        (\<lambda>s. Inr (False, keys, s)))"

lemma with_keys_Inr: "with_keys keys r = Inr (x, keys', s') \<longleftrightarrow> r = Inr s' \<and> x = 0 \<and> keys' = keys"
  by (cases r) (auto simp: with_keys_def)

lemma show_help_keys:
  "editor_show_help keys s = Inr (keys', s') \<Longrightarrow> length keys' \<le> length keys"
  by (cases keys) (auto simp: editor_show_help_def andThen_Inr)

lemma handle_command_keys:
  assumes "editor_handle_command junk keys s = Inr (r, keys', s')"
  shows "length keys' \<le> length keys"
  using assms unfolding editor_handle_command_def Let_def
  by (auto simp: with_keys_Inr andThen_Inr split: if_split_asm dest!: show_help_keys)

lemma editor_line_keys:
  assumes "editor_line junk fuel keys s = Inr (quit, keys', s')"
  shows "length keys' \<le> length keys"
  using assms by (auto simp: editor_line_def andThen_Inr split: if_split_asm dest!: handle_command_keys)

function edit_loop ::
    "(u32 \<Rightarrow> dirent) \<Rightarrow> nat \<Rightarrow> u8 list \<Rightarrow> 'a editor_state_scheme \<Rightarrow> stop + u8 list \<times> 'a editor_state_scheme" where
  "edit_loop junk fuel keys s =
     (if \<not> e_running s then Inr (keys, s)
      else case read_line EDITOR_LINE_SIZE keys [] s of
             Inl e \<Rightarrow> Inl e
           | Inr (line, keys1, s1) \<Rightarrow>
               (case editor_line junk fuel keys1 (s1\<lparr>line_buffer := line\<rparr>) of
                  Inl e \<Rightarrow> Inl e
                | Inr (quit, keys2, s2) \<Rightarrow>
                    if quit then Inr (keys2, s2\<lparr>e_running := False\<rparr>)
                    else (case emit [Str ''> ''] s2 of Inl e \<Rightarrow> Inl e | Inr s3 \<Rightarrow> edit_loop junk fuel keys2 s3)))"
  by pat_completeness auto
termination
  by (relation "measure (\<lambda>(junk, fuel, keys, s). length keys)")
    (auto dest!: read_line_shorter editor_line_keys)

declare edit_loop.simps [simp del]

definition editor_run ::
    "(u32 \<Rightarrow> dirent) \<Rightarrow> nat \<Rightarrow> u8 list \<Rightarrow> 'a editor_state_scheme \<Rightarrow> stop + u8 list \<times> 'a editor_state_scheme" where
  "editor_run junk fuel keys s =
     andThen (editor_clear_screen (s\<lparr>e_running := True\<rparr>)) (\<lambda>s.
     andThen (editor_draw_header s) (\<lambda>s.
     andThen (editor_draw_status s) (\<lambda>s.
     andThen (emit [Str (''---'' @ newline)] s) (\<lambda>s.
     andThen (if buffer_size s > 0
              then andThen (buffer_text s) (\<lambda>txt. emit ([Str (chars_of txt)] @
                     (if e_buffer s ! (unat (buffer_size s) - 1) \<noteq> 0x0A then [Str newline] else [])) s)
              else Inr s) (\<lambda>s.
     andThen (emit [Str (''---'' @ newline @ ''> '')] s) (\<lambda>s.
     andThen (edit_loop junk fuel keys s) (\<lambda>(keys, s).
     andThen (emit [ClearScreen] s) (\<lambda>s. Inr (keys, s)))))))))"

section \<open>Every command ends the session\<close>

text \<open>
  The commands of the editor return the number that means quit, whatever they are: after any line that
  begins with a colon the editor leaves, be it a save, a help request, a mode switch, an unknown command, or
  a \<^verbatim>\<open>:q\<close> that was refused because of unsaved changes.
\<close>
theorem editor_command_quits:
  assumes "e_running s" and "read_line EDITOR_LINE_SIZE keys [] s = Inr (CHR '':'' # cmd, keys1, s1)"
    and "edit_loop junk fuel keys s = Inr (keys2, s2)"
  shows "\<exists>s3. editor_handle_command junk keys1 (s1\<lparr>line_buffer := CHR '':'' # cmd\<rparr>) = Inr (EDITOR_CMD_QUIT, keys2, s3) \<and>
    s2 = s3\<lparr>e_running := False\<rparr>"
proof -
  let ?s = "s1\<lparr>line_buffer := CHR '':'' # cmd\<rparr>"
  have zero: "r = EDITOR_CMD_QUIT" if "editor_handle_command junk keys1 ?s = Inr (r, k, t)" for r k t
    using that unfolding editor_handle_command_def Let_def
    by (auto simp: EDITOR_CMD_QUIT_def with_keys_Inr andThen_Inr split: if_split_asm)
  show ?thesis
  proof (cases "editor_handle_command junk keys1 ?s")
    case (Inl e)
    then show ?thesis using assms by (simp add: edit_loop.simps [of junk fuel keys s] editor_line_def starts_def)
  next
    case (Inr x)
    obtain r k t where x: "x = (r, k, t)" by (cases x)
    then have "r = EDITOR_CMD_QUIT" using zero Inr by blast
    then show ?thesis
      using assms Inr x by (simp add: edit_loop.simps [of junk fuel keys s] editor_line_def starts_def)
  qed
qed

section \<open>A session that saves a new file\<close>

lemma more_editor:
  assumes "vterm_state.more s' = vterm_state.more s"
  shows "filename s' = filename s" "e_buffer s' = e_buffer s" "line_buffer s' = line_buffer s"
    "buffer_size s' = buffer_size s" "e_mode s' = e_mode s" "modified s' = modified s" "e_running s' = e_running s" "e_fs s' = e_fs s"
  using assms by (cases s; cases s'; simp)+

lemma con_ok_editor [simp]:
  "con_ok (s\<lparr>filename := n\<rparr>) = con_ok s" "con_ok (s\<lparr>e_buffer := b\<rparr>) = con_ok s" "con_ok (s\<lparr>line_buffer := l\<rparr>) = con_ok s"
  "con_ok (s\<lparr>buffer_size := z\<rparr>) = con_ok s" "con_ok (s\<lparr>e_mode := m\<rparr>) = con_ok s" "con_ok (s\<lparr>modified := d\<rparr>) = con_ok s"
  "con_ok (s\<lparr>e_running := r\<rparr>) = con_ok s" "con_ok (s\<lparr>e_fs := f\<rparr>) = con_ok s"
  by (simp_all add: con_ok_def vt_inv_def shown_def)

definition printable :: "u8 list \<Rightarrow> bool" where
  "printable l \<longleftrightarrow> (\<forall>c \<in> set l. 0x20 \<le> c \<and> c < 0x7F)"

text \<open>A typed line of printable characters is read as it is.\<close>

lemma read_line_printable:
  assumes "con_ok s" and "printable l" and "length buf + length l < cap"
  shows "\<exists>s'. read_line cap (l @ 0x0A # keys) buf s = Inr (buf @ chars_of l, keys, s') \<and> con_ok s' \<and>
    vterm_state.more s' = vterm_state.more s"
  using assms
proof (induction l arbitrary: buf s)
  case Nil
  show ?case by (rule emit_ok [OF Nil.prems(1), of "[Put 0x0A]"]) (auto simp: chars_of_def)
next
  case (Cons c l)
  have c: "0x20 \<le> c" "c < 0x7F" using Cons.prems(2) by (simp_all add: printable_def)
  then have ne: "c \<noteq> 0x0A" "c \<noteq> 0x08" by auto
  obtain s1 where s1: "emit [Put c] s = Inr s1" "con_ok s1" "vterm_state.more s1 = vterm_state.more s"
    by (rule emit_ok [OF Cons.prems(1)])
  have "\<exists>s'. read_line cap (l @ 0x0A # keys) (buf @ [char_of (unat c)]) s1 =
      Inr ((buf @ [char_of (unat c)]) @ chars_of l, keys, s') \<and> con_ok s' \<and> vterm_state.more s' = vterm_state.more s1"
    by (rule Cons.IH) (use Cons.prems s1(2) in \<open>auto simp: printable_def\<close>)
  moreover have "length buf < cap - 1" using Cons.prems(3) by simp
  ultimately show ?case using c ne s1 by (simp add: chars_of_def)
qed

lemma of_char_byte: "of_char (char_of (unat b)) = (b :: u8)"
proof -
  have "unat b < 256" using unsigned_less [of b] by simp
  then have eq: "of_char (char_of (unat b)) = unat b" by (simp add: of_char_of)
  have "of_char (char_of (unat b)) = (of_nat (of_char (char_of (unat b))) :: u8)" by (simp only: of_nat_of_char)
  also have "\<dots> = b" unfolding eq by simp
  finally show ?thesis .
qed

lemma bytes_chars [simp]: "bytes_of (chars_of bs) = bs"
  by (induction bs) (simp_all add: bytes_of_def chars_of_def of_char_byte)

lemma text_of_zero: "0 \<notin> set u \<Longrightarrow> text_of (u @ 0 # r) = u"
  unfolding text_of_def by (subst takeWhile_append2) auto

text \<open>An editor in text mode whose buffer holds the text \<open>t\<close>.\<close>

definition editing :: "u8 list \<Rightarrow> 'a editor_state_scheme \<Rightarrow> bool" where
  "editing t s \<longleftrightarrow> con_ok s \<and> e_running s \<and> e_mode s = EDITOR_MODE_TEXT \<and> length (e_buffer s) = 4096 \<and>
     0 \<in> set (e_buffer s) \<and> text_of (e_buffer s) = t"

lemma editing_more:
  assumes "editing t s" and "con_ok s'" and "vterm_state.more s' = vterm_state.more s"
  shows "editing t s'"
  using assms(1,2) more_editor [OF assms(3)] by (simp add: editing_def)

lemma text_of_appended:
  assumes "text_of b = t" and "0 \<in> set b" and "0 \<notin> set l" and "length t + length l < length b"
  shows "text_of (splice (length t) (l @ [0]) b) = t @ l" and "0 \<in> set (splice (length t) (l @ [0]) b)"
    and "length (splice (length t) (l @ [0]) b) = length b"
proof -
  have "take (length t) b = t" using assms(1) takeWhile_eq_take [of "\<lambda>x. x \<noteq> 0" b] by (metis text_of_def)
  moreover have "0 \<notin> set t" using assms(1) set_takeWhileD [of 0 "\<lambda>x. x \<noteq> 0" b] by (auto simp: text_of_def)
  ultimately show "text_of (splice (length t) (l @ [0]) b) = t @ l"
    using assms(3) text_of_zero [of "t @ l"] by (simp add: splice_def)
  show "0 \<in> set (splice (length t) (l @ [0]) b)" by (simp add: splice_def)
  show "length (splice (length t) (l @ [0]) b) = length b" using assms(4) by (simp add: splice_def)
qed

lemma printable_no_zero: "printable l \<Longrightarrow> 0 \<notin> set l"
  by (auto simp: printable_def)

lemma starts_chars: "starts P (chars_of l) \<longleftrightarrow> l \<noteq> [] \<and> P (char_of (unat (hd l)))"
  by (cases l) (simp_all add: chars_of_def starts_def)

lemma char_colon: "char_of (unat (c :: u8)) = CHR '':'' \<longleftrightarrow> c = 0x3A"
  using of_char_byte [of c] by (auto simp: char_of_def bit_Suc_0_iff)

lemma chars_length [simp]: "length (chars_of l) = length l"
  by (simp add: chars_of_def)

text \<open>Typing a line in text mode appends it to the buffer.\<close>

lemma edit_loop_line:
  assumes s: "editing t s" and l: "printable l" "length l < 256" "l = [] \<or> hd l \<noteq> 0x3A"
    and room: "length t + length l + 2 < 4096"
  obtains s' where "edit_loop junk fuel (l @ 0x0A # keys) s = edit_loop junk fuel keys s'" and "editing (t @ l @ [0x0A]) s'"
    and "filename s' = filename s" and "e_fs s' = e_fs s"
proof -
  have ok: "con_ok s" "e_running s" using s by (simp_all add: editing_def)
  obtain s1 where s1: "read_line EDITOR_LINE_SIZE (l @ 0x0A # keys) [] s = Inr (chars_of l, keys, s1)" "con_ok s1"
    "vterm_state.more s1 = vterm_state.more s"
    using read_line_printable [OF ok(1) l(1), of "[]" EDITOR_LINE_SIZE keys] l(2) by (auto simp: EDITOR_LINE_SIZE_def)
  have e1: "editing t s1" by (rule editing_more [OF s s1(2,3)])
  let ?s = "s1\<lparr>line_buffer := chars_of l\<rparr>"
  let ?b = "splice (length t) (l @ [0x0A, 0]) (e_buffer s1)"
  define s2 where "s2 = ?s\<lparr>e_buffer := ?b, buffer_size := of_nat (length t + length l + 1), modified := True\<rparr>"
  have b: "text_of ?b = t @ l @ [0x0A]" "0 \<in> set ?b" "length ?b = 4096"
    using text_of_appended [of "e_buffer s1" t "l @ [0x0A]"] e1 printable_no_zero [OF l(1)] room
    by (simp_all add: editing_def)
  have add: "editor_add_line (chars_of l) ?s = Inr s2"
    using e1 room by (simp add: editor_add_line_def buffer_text_def editing_def EDITOR_MAX_FILE_SIZE_def s2_def)
  have "editing (t @ l @ [0x0A]) s2" using e1 b by (simp add: editing_def s2_def)
  obtain s3 where s3: "emit [Str ''> ''] s2 = Inr s3" "con_ok s3" "vterm_state.more s3 = vterm_state.more s2"
    by (rule emit_ok [of s2]) (use e1 in \<open>simp_all add: s2_def editing_def\<close>)
  have "\<not> starts (\<lambda>c. c = CHR '':'') (chars_of l)" using l(3) by (auto simp: starts_chars char_colon)
  then have "editor_line junk fuel keys ?s = Inr (False, keys, s2)"
    using add e1 by (simp add: editor_line_def editing_def EDITOR_MODE_TEXT_def EDITOR_MODE_BASIC_def)
  then have "edit_loop junk fuel (l @ 0x0A # keys) s = edit_loop junk fuel keys s3"
    using ok(2) s1(1) s3(1) by (simp add: edit_loop.simps [of junk fuel "l @ 0x0A # keys"])
  moreover have "editing (t @ l @ [0x0A]) s3" by (rule editing_more [OF \<open>editing (t @ l @ [0x0A]) s2\<close> s3(2,3)])
  moreover have "filename s3 = filename s" "e_fs s3 = e_fs s"
    using more_editor [OF s3(3)] more_editor [OF s1(3)] by (simp_all add: s2_def)
  ultimately show ?thesis by (rule that)
qed

definition typed :: "u8 list list \<Rightarrow> u8 list" where
  "typed ls = concat (map (\<lambda>l. l @ [0x0A]) ls)"

definition plain_line :: "u8 list \<Rightarrow> bool" where
  "plain_line l \<longleftrightarrow> printable l \<and> length l < 256 \<and> (l = [] \<or> hd l \<noteq> 0x3A)"

lemma edit_loop_lines:
  assumes "editing t s" and "\<forall>l \<in> set ls. plain_line l" and "length t + length (typed ls) < 4095"
  shows "\<exists>s'. edit_loop junk fuel (typed ls @ keys) s = edit_loop junk fuel keys s' \<and> editing (t @ typed ls) s' \<and>
    filename s' = filename s \<and> e_fs s' = e_fs s"
  using assms
proof (induction ls arbitrary: t s)
  case (Cons l ls)
  obtain s1 where s1: "edit_loop junk fuel (l @ 0x0A # typed ls @ keys) s = edit_loop junk fuel (typed ls @ keys) s1"
    "editing (t @ l @ [0x0A]) s1" "filename s1 = filename s" "e_fs s1 = e_fs s"
    by (rule edit_loop_line [of t s l junk fuel "typed ls @ keys"])
      (use Cons.prems in \<open>simp_all add: plain_line_def typed_def\<close>)
  have "\<exists>s'. edit_loop junk fuel (typed ls @ keys) s1 = edit_loop junk fuel keys s' \<and>
      editing ((t @ l @ [0x0A]) @ typed ls) s' \<and> filename s' = filename s1 \<and> e_fs s' = e_fs s1"
    by (rule Cons.IH [OF s1(2)]) (use Cons.prems in \<open>simp_all add: typed_def\<close>)
  then show ?case using s1 by (simp add: typed_def)
qed (auto simp: typed_def)

text \<open>A save stores what the filesystem accepts, and reports success only when the filesystem returns 0.\<close>

lemma editor_save_result:
  assumes "con_ok s" and "buffer_text s = Inr t"
    and w: "fs_write junk (filename s) t (of_nat (length t)) (e_fs s) = Some (ret, f)"
  obtains s' where "editor_save junk s = Inr (if ret = 0 then 0 else -1, s')" and "con_ok s'" and "e_fs s' = f"
    and "modified s' = (ret \<noteq> 0 \<and> modified s)"
proof (cases "ret = 0")
  case True
  let ?s = "s\<lparr>e_fs := f, modified := False\<rparr>"
  obtain s' where s': "emit [Str (''Saved'' @ newline)] ?s = Inr s'" "con_ok s'" "vterm_state.more s' = vterm_state.more ?s"
    by (rule emit_ok [of ?s]) (use assms(1) in simp_all)
  then have "editor_save junk s = Inr (0, s')" using True assms(2) w by (simp add: editor_save_def FS_ERR_OK_def)
  then show ?thesis using that True s'(2) more_editor [OF s'(3)] by simp
next
  case False
  let ?s = "s\<lparr>e_fs := f\<rparr>"
  obtain s' where s': "emit [Str (''Error: Failed to save file'' @ newline)] ?s = Inr s'" "con_ok s'"
    "vterm_state.more s' = vterm_state.more ?s"
    by (rule emit_ok [of ?s]) (use assms(1) in simp_all)
  then have "editor_save junk s = Inr (-1, s')" using False assms(2) w by (simp add: editor_save_def FS_ERR_OK_def)
  then show ?thesis using that False s'(2) more_editor [OF s'(3)] by simp
qed

text \<open>Saving a file in memory, and leaving.\<close>

lemma edit_loop_save:
  assumes s: "editing t s" and fs: "fs_inv (e_fs s)" "\<not> disk_enabled (e_fs s)"
    and path: "resolve_path (filename s) (e_fs s) = Inr (parent, base)" "base \<noteq> []" "base \<noteq> ''.''" "base \<noteq> ''..''"
    and k: "resolve_full_path (filename s) (e_fs s) = int k" "ftype (fs_nodes (e_fs s) ! k) = FS_TYPE_FILE"
    and len: "length t < 4096"
  obtains s' where "edit_loop junk fuel (bytes_of '':wq'' @ 0x0A # keys) s = Inr (keys, s')" and "con_ok s'"
    and "fs_read junk (filename s) 4096 (e_fs s') = Some (int (length t), t, e_fs s')"
proof -
  have ok: "con_ok s" "e_running s" using s by (simp_all add: editing_def)
  have wq: "chars_of (bytes_of '':wq'') = '':wq''" "printable (bytes_of '':wq'')"
    by (simp_all add: bytes_of_def chars_of_def printable_def char_of_def bit_Suc_0_iff)
  obtain s1 where s1: "read_line EDITOR_LINE_SIZE (bytes_of '':wq'' @ 0x0A # keys) [] s = Inr ('':wq'', keys, s1)" "con_ok s1"
    "vterm_state.more s1 = vterm_state.more s"
    using read_line_printable [OF ok(1) wq(2), of "[]" EDITOR_LINE_SIZE keys] wq(1) by (auto simp: EDITOR_LINE_SIZE_def bytes_of_def)
  note same = more_editor [OF s1(3)]
  have e1: "editing t s1" by (rule editing_more [OF s s1(2,3)])
  have t: "length t = unat (of_nat (length t) :: u32)" using len by (simp add: unat_of_nat_small)
  obtain f where f: "fs_write junk (filename s) t (of_nat (length t)) (e_fs s) =
      Some (int (min (unat (of_nat (length t) :: u32)) 4096), f)"
    "\<And>rd. fs_read junk (filename s) rd f =
      Some (int (min (unat rd) (min (unat (of_nat (length t) :: u32)) 4096)), take (min (unat rd) 4096) t, f)"
    by (rule fs_write_read_file [OF fs path k t, of junk]) blast
  let ?s = "s1\<lparr>line_buffer := '':wq''\<rparr>"
  have content: "buffer_text ?s = Inr t" using e1 by (simp add: buffer_text_def editing_def)
  have w: "fs_write junk (filename ?s) t (of_nat (length t)) (e_fs ?s) =
      Some (int (min (unat (of_nat (length t) :: u32)) 4096), f)"
    using f(1) same by simp
  obtain r s2 where save: "editor_save junk ?s = Inr (r, s2)" "con_ok s2" "e_fs s2 = f"
    by (rule editor_save_result [OF _ content w]) (use s1(2) in simp_all)
  have "editor_line junk fuel keys ?s = Inr (True, keys, s2)"
    using save(1) by (simp add: editor_line_def starts_def editor_handle_command_def EDITOR_CMD_QUIT_def)
  then have "edit_loop junk fuel (bytes_of '':wq'' @ 0x0A # keys) s = Inr (keys, s2\<lparr>e_running := False\<rparr>)"
    using ok(2) s1(1) by (simp add: edit_loop.simps [of junk fuel "bytes_of '':wq'' @ 0x0A # keys"])
  moreover have "fs_read junk (filename s) 4096 (e_fs s2) = Some (int (length t), t, e_fs s2)"
    using f(2) [of 4096] save(3) t len by simp
  ultimately show ?thesis using that save(2) by simp
qed

lemma emit_editing:
  assumes "editing t s"
  obtains s' where "emit ops s = Inr s'" and "editing t s'" and "filename s' = filename s" and "e_fs s' = e_fs s"
    and "buffer_size s' = buffer_size s"
proof -
  have "con_ok s" using assms by (simp add: editing_def)
  then obtain s' where s': "emit ops s = Inr s'" "con_ok s'" "vterm_state.more s' = vterm_state.more s" by (rule emit_ok)
  show ?thesis using that [OF s'(1) editing_more [OF assms s'(2,3)]] more_editor [OF s'(3)] by simp
qed

text \<open>Starting the editor on an empty buffer only draws the screen.\<close>

lemma editor_run_start:
  assumes s: "editing [] (s\<lparr>e_running := True\<rparr>)" and empty: "buffer_size s = 0"
  obtains s' where "editor_run junk fuel keys s =
      andThen (edit_loop junk fuel keys s') (\<lambda>(keys, s). andThen (emit [ClearScreen] s) (\<lambda>s. Inr (keys, s)))"
    and "editing [] s'" and "filename s' = filename s" and "e_fs s' = e_fs s"
proof -
  obtain s1 where s1: "editor_clear_screen (s\<lparr>e_running := True\<rparr>) = Inr s1" "editing [] s1" "filename s1 = filename s"
    "e_fs s1 = e_fs s" "buffer_size s1 = 0"
    unfolding editor_clear_screen_def by (rule emit_editing [OF s]) (use empty in simp)
  obtain s2 where s2: "editor_draw_header s1 = Inr s2" "editing [] s2" "filename s2 = filename s"
    "e_fs s2 = e_fs s" "buffer_size s2 = 0"
    unfolding editor_draw_header_def by (rule emit_editing [OF s1(2)]) (use s1 in simp)
  obtain s3 where s3: "editor_draw_status s2 = Inr s3" "editing [] s3" "filename s3 = filename s"
    "e_fs s3 = e_fs s" "buffer_size s3 = 0"
    unfolding editor_draw_status_def by (rule emit_editing [OF s2(2)]) (use s2 in simp)
  obtain s4 where s4: "emit [Str (''---'' @ newline)] s3 = Inr s4" "editing [] s4" "filename s4 = filename s"
    "e_fs s4 = e_fs s" "buffer_size s4 = 0"
    by (rule emit_editing [OF s3(2)]) (use s3 in simp)
  obtain s5 where s5: "emit [Str (''---'' @ newline @ ''> '')] s4 = Inr s5" "editing [] s5" "filename s5 = filename s"
    "e_fs s5 = e_fs s"
    by (rule emit_editing [OF s4(2)]) (use s4 in simp)
  show ?thesis
    using that [of s5] s5 s1(1) s2(1) s3(1) s4(1,5) by (simp add: editor_run_def)
qed

text \<open>
  C26: Opening a path that does not exist in text mode, typing lines and leaving with \<^verbatim>\<open>:wq\<close> returns, and
  then the file at that path holds exactly the typed lines. The lines are of printable characters, shorter
  than the line buffer, do not begin with a colon and fit into the buffer of the editor; the new file is
  created in the filesystem in memory.
\<close>
theorem editor_session_saves:
  assumes "con_ok s" and fs: "fs_inv (e_fs s)" "\<not> disk_enabled (e_fs s)" and "length path < 128"
    and path: "resolve_path path (e_fs s) = Inr (parent, base)" "base \<noteq> ''.''" "base \<noteq> ''..''"
    and new: "fs_create_file junk path (e_fs s) = Some (FS_ERR_OK, f)"
    and ls: "\<forall>l \<in> set ls. plain_line l" "length (typed ls) < 4095"
  shows "\<exists>s1 s2. editor_open junk (Some path) EDITOR_MODE_TEXT s = Inr (0, s1) \<and>
    editor_run junk fuel (typed ls @ bytes_of '':wq'' @ [0x0A]) s1 = Inr ([], s2) \<and>
    fs_read junk path 4096 (e_fs s2) = Some (int (length (typed ls)), typed ls, e_fs s2)"
proof -
  obtain k where f: "fs_inv f" "\<not> disk_enabled f" "base \<noteq> []" "resolve_path path f = Inr (parent, base)"
    "resolve_full_path path f = int k" "ftype (fs_nodes f ! k) = FS_TYPE_FILE" "\<not> fs_exists path (e_fs s)"
    by (rule fs_create_file_new [OF fs path new])
  define s1 where "s1 = s\<lparr>filename := path, e_mode := EDITOR_MODE_TEXT, modified := False, buffer_size := 0,
    e_buffer := replicate 4096 0, e_fs := f\<rparr>"
  have opened: "editor_open junk (Some path) EDITOR_MODE_TEXT s = Inr (0, s1)"
    using f(7) new assms(4) by (simp add: editor_open_def Let_def s1_def EDITOR_MAX_FILE_SIZE_def)
  have "editing [] (s1\<lparr>e_running := True\<rparr>)" using assms(1) by (simp add: editing_def s1_def text_of_def)
  moreover have "buffer_size s1 = 0" by (simp add: s1_def)
  ultimately obtain s2 where s2: "editor_run junk fuel (typed ls @ bytes_of '':wq'' @ [0x0A]) s1 =
      andThen (edit_loop junk fuel (typed ls @ bytes_of '':wq'' @ [0x0A]) s2)
        (\<lambda>(keys, s). andThen (emit [ClearScreen] s) (\<lambda>s. Inr (keys, s)))"
    "editing [] s2" "filename s2 = path" "e_fs s2 = f"
    by (rule editor_run_start [of s1 junk fuel "typed ls @ bytes_of '':wq'' @ [0x0A]"]) (auto simp: s1_def)
  obtain s3 where s3: "edit_loop junk fuel (typed ls @ bytes_of '':wq'' @ [0x0A]) s2 =
      edit_loop junk fuel (bytes_of '':wq'' @ [0x0A]) s3" "editing (typed ls) s3" "filename s3 = path" "e_fs s3 = f"
    using edit_loop_lines [OF s2(2) ls(1), of junk fuel "bytes_of '':wq'' @ [0x0A]"] ls(2) s2(3,4) by auto
  obtain s4 where s4: "edit_loop junk fuel (bytes_of '':wq'' @ [0x0A]) s3 = Inr ([], s4)" "con_ok s4"
    "fs_read junk path 4096 (e_fs s4) = Some (int (length (typed ls)), typed ls, e_fs s4)"
    by (rule edit_loop_save [OF s3(2), of parent base k junk fuel "[]"]) (use f path ls(2) s3(3,4) in auto)
  obtain s5 where s5: "emit [ClearScreen] s4 = Inr s5" "vterm_state.more s5 = vterm_state.more s4"
    by (rule emit_ok [OF s4(2)])
  show ?thesis using opened s2(1) s3(1) s4 s5(1) more_editor(8) [OF s5(2)] by auto
qed

text \<open>
  A save that stored the whole buffer reports a failure and keeps the buffer marked as modified, unless
  the buffer is empty: \<^verbatim>\<open>fs_write\<close> returns the number of bytes, which the editor compares with the code for
  success, 0.
\<close>
theorem editor_save_reports_failure:
  assumes "con_ok s" and content: "buffer_text s = Inr t" "t \<noteq> []" "length t < 4096"
    and fs: "fs_inv (e_fs s)" "\<not> disk_enabled (e_fs s)"
    and path: "resolve_path (filename s) (e_fs s) = Inr (parent, base)" "base \<noteq> []" "base \<noteq> ''.''" "base \<noteq> ''..''"
    and k: "resolve_full_path (filename s) (e_fs s) = int k" "ftype (fs_nodes (e_fs s) ! k) = FS_TYPE_FILE"
  shows "\<exists>s'. editor_save junk s = Inr (-1, s') \<and> modified s' = modified s \<and>
    fs_read junk (filename s) 4096 (e_fs s') = Some (int (length t), t, e_fs s')"
proof -
  have len: "length t = unat (of_nat (length t) :: u32)" using content by (simp add: unat_of_nat_small)
  obtain f where f: "fs_write junk (filename s) t (of_nat (length t)) (e_fs s) =
      Some (int (min (unat (of_nat (length t) :: u32)) 4096), f)"
    "\<And>rd. fs_read junk (filename s) rd f =
      Some (int (min (unat rd) (min (unat (of_nat (length t) :: u32)) 4096)), take (min (unat rd) 4096) t, f)"
    by (rule fs_write_read_file [OF fs path k len, of junk]) blast
  have w: "fs_write junk (filename s) t (of_nat (length t)) (e_fs s) = Some (int (length t), f)"
    using f(1) len content(3) by simp
  obtain s' where s': "editor_save junk s = Inr (-1, s')" "e_fs s' = f" "modified s' = modified s"
    by (rule editor_save_result [OF assms(1) content(1) w]) (use content(2) in auto)
  then show ?thesis using f(2) [of 4096] len content(3) by simp
qed

section \<open>Examples\<close>

definition editor_demo :: "fs_state \<Rightarrow> u8 list \<Rightarrow> editor_state" where
  "editor_demo f txt = \<lparr>terminals = [], active_terminal = 0, vga = [], vga_cursor = 0, alt_pressed = False, serial_out = [],
     vterm_initialized = False, variables = replicate 26 0, program = replicate 100 [], line_numbers = replicate 100 0,
     line_count = 0, b_pc = 0, stack_ptr = 0, b_running = False, filename = ''a'', e_buffer = txt @ replicate (4096 - length txt) 0,
     line_buffer = [], buffer_size = of_nat (length txt), e_mode = EDITOR_MODE_TEXT, modified = True, e_running = True, e_fs = f\<rparr>"

lemma editor_demo_ok [simp]: "con_ok (editor_demo f txt)" "e_fs (editor_demo f txt) = f" "e_running (editor_demo f txt)"
  "filename (editor_demo f txt) = ''a''" "modified (editor_demo f txt)"
  by (simp_all add: con_ok_def editor_demo_def)

text \<open>An unknown command after unsaved changes ends the session.\<close>

theorem editor_command_quits_witness:
  "\<exists>s2. edit_loop (\<lambda>_. []) 0 [0x3A, 0x78, 0x0A] (editor_demo fs_demo [0x68]) = Inr ([], s2) \<and> \<not> e_running s2"
proof -
  let ?s = "editor_demo fs_demo [0x68]" and ?keys = "[0x3A, 0x78, 0x0A] :: u8 list"
  have chars: "chars_of [0x3A, 0x78] = '':x''" by (simp add: chars_of_def char_of_def bit_Suc_0_iff)
  obtain s1 where s1: "read_line EDITOR_LINE_SIZE ?keys [] ?s = Inr ('':x'', [], s1)" "con_ok s1"
    using read_line_printable [of ?s "[0x3A, 0x78]" "[]" EDITOR_LINE_SIZE "[]"] chars
    by (auto simp: printable_def EDITOR_LINE_SIZE_def)
  obtain s2 where s2: "emit [Str (''Unknown command (type :h for help)'' @ newline)] (s1\<lparr>line_buffer := '':x''\<rparr>) = Inr s2"
    by (rule emit_ok [of "s1\<lparr>line_buffer := '':x''\<rparr>"]) (use s1(2) in simp_all)
  have loop: "edit_loop (\<lambda>_. []) 0 ?keys ?s = Inr ([], s2\<lparr>e_running := False\<rparr>)"
    using s1(1) s2
    by (simp add: edit_loop.simps [of _ _ ?keys] editor_line_def starts_def editor_handle_command_def with_keys_def EDITOR_CMD_QUIT_def)
  have "\<exists>s3. editor_handle_command (\<lambda>_. []) [] (s1\<lparr>line_buffer := '':x''\<rparr>) = Inr (EDITOR_CMD_QUIT, [], s3) \<and>
      s2\<lparr>e_running := False\<rparr> = s3\<lparr>e_running := False\<rparr>"
    by (rule editor_command_quits [OF _ s1(1) loop]) simp
  then show ?thesis using loop by auto
qed

theorem editor_session_saves_witness:
  "\<exists>s1 s2. editor_open (\<lambda>_. []) (Some ''a'') EDITOR_MODE_TEXT (editor_demo fs_demo []) = Inr (0, s1) \<and>
     editor_run (\<lambda>_. []) 0 (typed [[0x68, 0x69], []] @ bytes_of '':wq'' @ [0x0A]) s1 = Inr ([], s2) \<and>
     fs_read (\<lambda>_. []) ''a'' 4096 (e_fs s2) = Some (4, [0x68, 0x69, 0x0A, 0x0A], e_fs s2)"
proof -
  let ?s = "editor_demo fs_demo []" and ?ls = "[[0x68, 0x69], []] :: u8 list list"
  obtain f where f: "fs_create_file (\<lambda>_. []) ''a'' fs_demo = Some (FS_ERR_OK, f)"
    using fs_demo_create(1) by (simp add: fs_create_file_def fs_demo_fields(3))
  have p: "resolve_path ''a'' fs_demo = Inr (0, ''a'')" by (rule fs_demo_create(2) [OF disjI1 [OF refl]])
  have typed: "typed ?ls = [0x68, 0x69, 0x0A, 0x0A]" by (simp add: typed_def)
  have "\<forall>l \<in> set ?ls. plain_line l" by (simp add: plain_line_def printable_def)
  then show ?thesis
    using editor_session_saves [of ?s "''a''" 0 "''a''" "\<lambda>_. []" f ?ls 0] f p fs_demo_inv fs_demo_fields(3) typed by simp
qed

theorem editor_save_reports_failure_witness:
  "\<exists>f s'. fs_create_file (\<lambda>_. []) ''a'' fs_demo = Some (FS_ERR_OK, f) \<and>
     editor_save (\<lambda>_. []) (editor_demo f [0x68]) = Inr (-1, s') \<and> modified s' \<and>
     fs_read (\<lambda>_. []) ''a'' 4096 (e_fs s') = Some (1, [0x68], e_fs s')"
proof -
  obtain f where c: "fs_create_file (\<lambda>_. []) ''a'' fs_demo = Some (FS_ERR_OK, f)"
    using fs_demo_create(1) by (simp add: fs_create_file_def fs_demo_fields(3))
  have p: "resolve_path ''a'' fs_demo = Inr (0, ''a'')" by (rule fs_demo_create(2) [OF disjI1 [OF refl]])
  have ne: "''a'' \<noteq> ''.''" "''a'' \<noteq> ''..''" by simp_all
  obtain k where f: "fs_inv f" "\<not> disk_enabled f" "resolve_path ''a'' f = Inr (0, ''a'')"
    "resolve_full_path ''a'' f = int k" "ftype (fs_nodes f ! k) = FS_TYPE_FILE"
    by (rule fs_create_file_new [OF fs_demo_inv fs_demo_fields(3) p ne c])
  let ?s = "editor_demo f [0x68]"
  have "buffer_text ?s = Inr [0x68]" by (simp add: buffer_text_def editor_demo_def text_of_def)
  then show ?thesis using c f editor_save_reports_failure [of ?s "[0x68]" 0 "''a''" k "\<lambda>_. []"] by auto
qed

end
