(* ===== verification/Spec2Isabelle.thy ===== *)
theory Spec2Isabelle
  imports Syscall Ata Pci Diskfs_Files Log Editor
begin

text \<open>
  \<^bold>\<open>Verification of the mexOS kernel.\<close>

  mexOS is a 32-bit teaching kernel in C. Its core is a chain of services: the physical frame allocator
  (\<^verbatim>\<open>kernel/mm/pmm.c\<close>) and the kernel heap (\<^verbatim>\<open>kernel/mm/heap.c\<close>) hand out memory, the virtual memory manager
  (\<^verbatim>\<open>kernel/mm/vmm.c\<close>) builds page tables from frames, the scheduler (\<^verbatim>\<open>kernel/sched/sched.c\<close>) keeps tasks on
  the heap, message ports (\<^verbatim>\<open>kernel/ipc/ipc.c\<close>) block and wake tasks through the scheduler. Files live in
  a table of nodes (\<^verbatim>\<open>kernel/fs/fs.c\<close>) or on a drive (\<^verbatim>\<open>kernel/fs/diskfs.c\<close>). The user interface is made of
  virtual terminals (\<^verbatim>\<open>kernel/ui/vterm.c\<close>), the console in front of them, the keyboard driver, the kernel
  log, a BASIC interpreter and a line editor that uses all of these. User programs are loaded from ELF
  files (\<^verbatim>\<open>kernel/core/elf.c\<close>) into address spaces of their own and reach the kernel through the system calls
  (\<^verbatim>\<open>kernel/core/syscall.c\<close>). The drivers talk to the devices through I/O ports.

  \<^bold>\<open>Theories, and the code they model.\<close>
  \<^item> \<open>Prelude\<close>: machine words, the byte memory with little-endian loads and stores, walks along linked
    lists, and the lemmas on words and lists that the components share.
  \<^item> \<open>Interfaces\<close>: the contracts as locales: \<open>bitset\<close> (interpreted by the frame bitmap and the bitmaps of
    the disk), \<open>bounded_fifo\<close> (the message queue of a port, the key buffer), \<open>allocator\<close> and
    \<open>sized_allocator\<close> (the heap, used by the scheduler and the ports). \<open>Console\<close> adds \<open>safe_output\<close> (the
    console, used by the interpreter and the editor).
  \<^item> \<open>Kstring\<close>: \<^verbatim>\<open>kernel/lib/string.c\<close> on the byte memory, and number formatting.
  \<^item> \<open>Pmm\<close>, \<open>Heap\<close>, \<open>Vmm\<close>: the three memory managers. Bitmap words, block headers and page table entries are
    loads and stores in the byte memory, as in the code; control registers and \<^verbatim>\<open>invlpg\<close> are recorded.
  \<^item> \<open>Mmu\<close>, \<open>Spaces\<close>: loads and stores through the page tables in use, with page faults as the result \<^term>\<open>None\<close>, and
    what one address space can see of another.
  \<^item> \<open>Sched\<close>, \<open>Sched_Runs\<close>, \<open>Ipc\<close>: tasks and messages are records in typed stores indexed by the addresses
    that the heap returned; freeing removes the record, so a use after free is the result \<^term>\<open>None\<close>. One
    round of the blocking loops of \<^verbatim>\<open>task_wait\<close>, \<^verbatim>\<open>msg_send\<close> and \<^verbatim>\<open>msg_receive\<close> is a step.
  \<^item> \<open>Diskfs\<close>, \<open>Diskfs_Files\<close>: superblock, bitmaps, inodes and directories as the packed bytes in the sectors of
    the drives; a drive may have unreadable sectors. They use the sector contract of
    \<open>Diskfs\<close> (a sector is transferred or an error is reported), which \<open>Ata\<close> shows the driver to refine.
  \<^item> \<open>Ports\<close>, \<open>Rtc\<close>, \<open>Ata\<close>, \<open>Pci\<close>: port input and output as functions on the state of a device, which the definitions take
    as a parameter; the clock driver with its conversions, the ATA driver, and
    the PCI driver, whose device structures come from the heap. What they rely on is stated as
    hypotheses on the device (the registers of the clock, the protocol of an ATA channel, the configuration space), and each theorem has
    an instance with a concrete device.
  \<^item> \<open>Fs\<close>, \<open>Fs_Tree\<close>, \<open>Fs_Runs\<close>: the node table, path resolution, every operation with its branch to the disk.
  \<^item> \<open>Vterm\<close>, \<open>Console\<close>, \<open>Keyboard\<close>, \<open>Log\<close>: terminals with scrollback, the VGA memory and cursor register, output
    before and after the terminals exist, the interrupt handler of the keyboard, the ring of log messages
    and formatted messages. Serial output is recorded.
  \<^item> \<open>Vesa\<close>: the drawing routines of \<^verbatim>\<open>kernel/drivers/video/vesa.c\<close>, which store to the mapped frame buffer.
  \<^item> \<open>Elf\<close>, \<open>Syscall\<close>: the loader, and the dispatcher of the system calls on one state that extends the states of the
    memory managers, the scheduler and the ports and holds those of the files, the keyboard and the console.
  \<^item> \<open>Basic\<close>, \<open>Editor\<close>: the interpreter with its program memory, and editor sessions, as functions of the keys to
    come.

  \<^bold>\<open>What the theorems show.\<close>
  \<^item> Memory: \<open>kmalloc\<close> refines best fit with splitting and coalescing on the list of blocks that the memory
    encodes, returns aligned blocks disjoint from all others, and \<open>kfree\<close> undoes it; frames are handed
    out lowest first; mapping a page changes the address translation at exactly that page; after
    \<^verbatim>\<open>vmm_init\<close> the first 8 MB are mapped to themselves.
  \<^item> Tasks and ports: every interleaving of scheduler operations keeps the task table and the ownership
    of heap blocks sound; \<^verbatim>\<open>schedule\<close> runs the first ready task of highest priority; a port delivers the
    accepted messages in order.
  \<^item> User programs: allocating a page for one address space changes no translation of another; the loader
    accepts only complete headers of 32-bit executables for this processor; a write call prints exactly the
    bytes of the buffer, and a read call delivers the pending keys in order without waiting.
  \<^item> Devices: the ATA driver refines the sector contract that the disk filesystem uses; a time set on
    a clock is read back from it; the PCI scan lists exactly the functions
    that answer on the root buses; a pixel is stored at its place in
    the frame buffer and nowhere else.
  \<^item> Files: every run of filesystem operations keeps the table a tree with unique names; what is written
    is read back, in memory and on the drive.
  \<^item> Interface: all terminal operations stay inside their buffers and the screen shows the active terminal;
    the key buffer is a queue; the log holds the last 128 messages; a BASIC program without \<^verbatim>\<open>RUN\<close> returns;
    an editor session leaves the typed lines in the file.
  \<^item> Where the code does not do what it means to, a theorem states what it does: see those on
    wrap-around in \<open>kmalloc\<close> and \<open>vmm_check_user_ptr\<close> and the keys that a read call can put into kernel memory,
    segments copied into the wrong address space, lost write errors of the drive, lost wake-ups, starvation,
    overlapping inodes, the lost block 0, BASIC insertion and the return codes of the editor.

  \<^bold>\<open>Loops, fuel and errors.\<close> Loops over linked lists in memory (heap blocks, task queues) may run forever on
  a damaged list; they are \<open>partial_function\<close>s or bounded walks whose result is \<^term>\<open>None\<close> then, and the theorems
  prove that they return on well-formed states. The only fuel is that of BASIC, where a line can run the
  program again: it bounds the nested calls and the rounds of the loop, and a fuel above the number of
  lines is enough for every program without \<^verbatim>\<open>RUN\<close>. Accesses outside an array, divisions by zero and uses of
  freed memory are results of their own, never assumed away.

  \<^bold>\<open>Not modelled.\<close> Calls to the log from other components are left out, since no component reads the log.
  Descriptor tables, interrupt stubs, context switch and boot code are assembly or write processor registers;
  the drivers for AHCI, ACPI, the serial port and the timer are sequences of register accesses against
  hardware; the shell, the text interface and the installer are menus over the operations above; the user
  programs and the tests are clients.
\<close>

end
